(* ===== verification/EdPrelude.thy ===== *)
theory EdPrelude
  imports Main "HOL-Library.Word" "HOL-Library.Monad_Syntax" "HOL-Library.Signed_Division"
begin

unbundle bit_operations_syntax

text \<open>
  Shared vocabulary of the development: the fixed-width integer types of
  \<^verbatim>\<open>src/ednio/EdType.h\<close>, pointers, blocks of memory with \<^verbatim>\<open>memcpy\<close> and
  \<^verbatim>\<open>realloc\<close>, unsigned 64-bit arithmetic on \<open>nat\<close>, little- and big-endian byte
  images of words, and the list lemmas the components share.
\<close>

named_theorems blk_simps \<open>block access: memcpy, realloc and their lengths\<close>
named_theorems sz_simps \<open>size\_t arithmetic that does not wrap\<close>

section \<open>Integer and pointer types\<close>

type_synonym u8 = "8 word"
type_synonym u16 = "16 word"
type_synonym u32 = "32 word"
type_synonym u64 = "64 word"

text \<open>A pointer is a 64-bit address; the null pointer is address 0.\<close>

type_synonym addr = "64 word"

abbreviation NULL :: addr where "NULL \<equiv> 0"

text \<open>Errors a call can end with: a C++ \<^verbatim>\<open>throw\<close>, a failed \<^verbatim>\<open>assert\<close>, an access outside
  the memory a pointer may be used for, a division by zero, the overflow of a signed sum, a loop
  that never ends. \<open>bindr\<close> runs a continuation on the result of a call that did not fail.\<close>

datatype fault = Throw int | Assert_failed | Bad_access | Div_by_zero | Int_overflow | Diverges

definition bindr :: "fault + 'a \<Rightarrow> ('a \<Rightarrow> fault + 'b) \<Rightarrow> fault + 'b" where
  "bindr r f = (case r of Inl e \<Rightarrow> Inl e | Inr x \<Rightarrow> f x)"

lemma bindr_simps [simp]: "bindr (Inl e) f = Inl e" "bindr (Inr x) f = f x"
  by (simp_all add: bindr_def)

definition outcome :: "fault + 'r \<Rightarrow> 'r option" where
  "outcome r = (case r of Inl e \<Rightarrow> None | Inr x \<Rightarrow> Some x)"

lemma outcome_simps [simp]: "outcome (Inl e) = None" "outcome (Inr x) = Some x"
  by (simp_all add: outcome_def)

section \<open>size\_t arithmetic\<close>

text \<open>\<^verbatim>\<open>size_t\<close> values are \<open>nat\<close>s below \<open>2 ^ 64\<close>; sums and differences wrap.\<close>

definition add64 :: "nat \<Rightarrow> nat \<Rightarrow> nat" where
  "add64 a b = (a + b) mod 2 ^ 64"

definition sub64 :: "nat \<Rightarrow> nat \<Rightarrow> nat" where
  "sub64 a b = (a + 2 ^ 64 - b) mod 2 ^ 64"

definition mul64 :: "nat \<Rightarrow> nat \<Rightarrow> nat" where
  "mul64 a b = (a * b) mod 2 ^ 64"

lemma add64_exact [sz_simps]: "a + b < 2 ^ 64 \<Longrightarrow> add64 a b = a + b"
  by (simp add: add64_def)

lemma sub64_exact [sz_simps]: "b \<le> a \<Longrightarrow> a < 2 ^ 64 \<Longrightarrow> sub64 a b = a - b"
proof -
  assume le: "b \<le> a" and lt: "a < 2 ^ 64"
  from le have "a + 2 ^ 64 - b = (a - b) + 2 ^ 64" by (rule diff_add_assoc2)
  then have "sub64 a b = (a - b) mod 2 ^ 64" by (simp only: sub64_def mod_add_self2)
  with lt show ?thesis by (simp only: mod_less less_imp_diff_less)
qed

lemma mul64_exact [sz_simps]: "a * b < 2 ^ 64 \<Longrightarrow> mul64 a b = a * b"
  by (simp add: mul64_def)

lemma sub64_wraps: "a < b \<Longrightarrow> b \<le> 2 ^ 64 \<Longrightarrow> sub64 a b = 2 ^ 64 - (b - a)"
proof -
  assume "a < b" and "b \<le> 2 ^ 64"
  then have "a + 2 ^ 64 - b = 2 ^ 64 - (b - a)" and "2 ^ 64 - (b - a) < (2 ^ 64 :: nat)"
    by linarith+
  then show ?thesis by (simp only: sub64_def mod_less)
qed

text \<open>The two bounds on sizes the developments use, as facts for linear arithmetic.\<close>

lemma two_63: "(2::nat) ^ 64 = 2 * 2 ^ 63" "(65536::nat) < 2 ^ 63"
  by simp_all

section \<open>int arithmetic\<close>

text \<open>The \<^verbatim>\<open>int\<close> operations of the program whose results may leave the type or are undefined:
  a sum outside 32 bits, a remainder by zero. The remainder truncates.\<close>

definition iadd :: "int \<Rightarrow> int \<Rightarrow> fault + int" where
  "iadd a b = (if - (2 ^ 31) \<le> a + b \<and> a + b < 2 ^ 31 then Inr (a + b) else Inl Int_overflow)"

definition imod :: "int \<Rightarrow> int \<Rightarrow> fault + int" where
  "imod a b = (if b = 0 then Inl Div_by_zero else Inr (a smod b))"

lemma iadd_ok [simp]: "- (2 ^ 31) \<le> a + b \<Longrightarrow> a + b < 2 ^ 31 \<Longrightarrow> iadd a b = Inr (a + b)"
  by (simp add: iadd_def)

lemma iadd_small: "0 \<le> a \<Longrightarrow> a < 2 ^ 30 \<Longrightarrow> 0 \<le> b \<Longrightarrow> b \<le> 2 ^ 30 \<Longrightarrow> iadd a b = Inr (a + b)"
  by (simp add: iadd_def)

lemma imod_ok [simp]: "0 \<le> a \<Longrightarrow> 0 < b \<Longrightarrow> imod a b = Inr (a mod b)"
  by (cases "a = 0") (simp_all add: imod_def signed_modulo_int_def)

section \<open>Conversions between words and numbers\<close>

lemma unat_less: "unat (w :: 'a::len word) < 2 ^ LENGTH('a)"
  by (rule unsigned_less)

lemma nat_sint_small: "n < 2 ^ 31 \<Longrightarrow> nat (sint (of_nat n :: u32)) = n"
  by (simp add: signed_of_nat signed_take_bit_int_eq_self)

lemma unat_of_nat_small: "n < 2 ^ LENGTH('a) \<Longrightarrow> unat (of_nat n :: 'a::len word) = n"
  by (simp add: unsigned_of_nat take_bit_nat_eq_self)

lemma unat_ucast_up: "LENGTH('a) \<le> LENGTH('b) \<Longrightarrow> unat (ucast (w :: 'a::len word) :: 'b::len word) = unat w"
proof -
  assume "LENGTH('a) \<le> LENGTH('b)"
  then have "(2::nat) ^ LENGTH('a) \<le> 2 ^ LENGTH('b)" by simp
  then have "unat w < 2 ^ LENGTH('b)" using unat_less [of w] by linarith
  then show ?thesis by (simp add: unsigned_ucast_eq take_bit_nat_eq_self)
qed

lemma of_nat_unat [simp]: "of_nat (unat w) = (w :: 'a::len word)"
  by simp

section \<open>Blocks of memory\<close>

text \<open>A block is the contents of one allocation. \<open>memcpy_to\<close> writes a run of bytes at an
  offset, \<open>mem_read\<close> reads one; both are \<open>None\<close> outside the block.\<close>

type_synonym block = "u8 list"

definition memcpy_to :: "block \<Rightarrow> nat \<Rightarrow> u8 list \<Rightarrow> block option" where
  "memcpy_to blk off src =
     (if off + length src \<le> length blk
      then Some (take off blk @ src @ drop (off + length src) blk) else None)"

definition mem_read :: "block \<Rightarrow> nat \<Rightarrow> nat \<Rightarrow> u8 list option" where
  "mem_read blk off n = (if off + n \<le> length blk then Some (take n (drop off blk)) else None)"

text \<open>\<^verbatim>\<open>realloc\<close> keeps the common prefix; the bytes past it are whatever the allocator
  hands out, the function \<open>junk\<close>. Allocation does not fail in the model.\<close>

definition realloc :: "(nat \<Rightarrow> u8) \<Rightarrow> block \<Rightarrow> nat \<Rightarrow> block" where
  "realloc junk blk n = take n blk @ map junk [length blk..<n]"

lemma length_realloc [blk_simps]: "length (realloc junk blk n) = n"
  by (simp add: realloc_def)

lemma take_realloc [blk_simps]: "k \<le> n \<Longrightarrow> k \<le> length blk \<Longrightarrow> take k (realloc junk blk n) = take k blk"
  by (simp add: realloc_def)

lemma memcpy_to_ok [blk_simps]:
  "off + length src \<le> length blk \<Longrightarrow>
     memcpy_to blk off src = Some (take off blk @ src @ drop (off + length src) blk)"
  by (simp add: memcpy_to_def)

lemma memcpy_to_length: "memcpy_to blk off src = Some blk' \<Longrightarrow> length blk' = length blk"
  by (auto simp: memcpy_to_def split: if_splits)

lemma memcpy_to_empty [simp]: "off \<le> length blk \<Longrightarrow> memcpy_to blk off [] = Some blk"
  by (simp add: memcpy_to_def)

lemma mem_read_ok [blk_simps]: "off + n \<le> length blk \<Longrightarrow> mem_read blk off n = Some (take n (drop off blk))"
  by (simp add: mem_read_def)

lemma mem_read_length: "mem_read blk off n = Some bs \<Longrightarrow> length bs = n"
  by (auto simp: mem_read_def split: if_splits)

section \<open>Byte images of words\<close>

text \<open>The memory image of a word on a little-endian host, and the word a run of bytes reads as.\<close>

fun le_bytes :: "nat \<Rightarrow> 'a::len word \<Rightarrow> u8 list" where
  "le_bytes 0 w = []"
| "le_bytes (Suc k) w = ucast w # le_bytes k (drop_bit 8 w)"

fun le_word :: "u8 list \<Rightarrow> 'a::len word" where
  "le_word [] = 0"
| "le_word (b # bs) = ucast b OR push_bit 8 (le_word bs)"

lemma length_le_bytes [simp]: "length (le_bytes k w) = k"
  by (induction k arbitrary: w) simp_all

lemma le_word_le_bytes: "le_word (le_bytes k w) = take_bit (8 * k) (w :: 'a::len word)"
proof (induction k arbitrary: w)
  case 0
  then show ?case by simp
next
  case (Suc k)
  show ?case by (rule bit_word_eqI) (auto simp: Suc bit_simps)
qed

lemma le_bytes_take_bit: "8 * k \<le> n \<Longrightarrow> le_bytes k (take_bit n w) = le_bytes k (w :: 'a::len word)"
proof (induction k arbitrary: n w)
  case 0
  then show ?case by simp
next
  case (Suc k)
  have hd: "ucast (take_bit n w) = (ucast w :: u8)"
    using Suc.prems by (intro bit_word_eqI) (auto simp: bit_simps)
  have "drop_bit 8 (take_bit n w) = take_bit (n - 8) (drop_bit 8 w)"
    by (simp add: drop_bit_take_bit)
  with Suc.IH [of "n - 8" "drop_bit 8 w"] Suc.prems hd show ?case by simp
qed

lemma le_bytes_le_word:
  "8 * length bs \<le> LENGTH('a) \<Longrightarrow> le_bytes (length bs) (le_word bs :: 'a::len word) = bs"
proof (induction bs)
  case Nil
  then show ?case by simp
next
  case (Cons b bs)
  have lo: "ucast (ucast b OR push_bit 8 (le_word bs) :: 'a word) = b"
    using Cons.prems by (intro bit_word_eqI) (auto simp: bit_simps)
  have hi: "drop_bit 8 (ucast b OR push_bit 8 (le_word bs) :: 'a word)
      = take_bit (LENGTH('a) - 8) (le_word bs)"
    using Cons.prems by (intro bit_word_eqI) (auto simp: bit_simps dest: bit_imp_le_length)
  have "le_bytes (length bs) (take_bit (LENGTH('a) - 8) (le_word bs) :: 'a word) = bs"
    using Cons by (simp add: le_bytes_take_bit)
  then show ?case
    by (simp only: list.size add_Suc_right add_0_right le_bytes.simps le_word.simps lo hi)
qed

lemma le_word_inverse [simp]:
  "8 * k = LENGTH('a) \<Longrightarrow> le_word (le_bytes k w) = (w :: 'a::len word)"
  by (simp add: le_word_le_bytes)

text \<open>Byte reversal, the effect of \<^verbatim>\<open>htons\<close> and \<^verbatim>\<open>htonl\<close> on a little-endian host.\<close>

definition byte_swap :: "nat \<Rightarrow> 'a::len word \<Rightarrow> 'a word" where
  "byte_swap k w = le_word (rev (le_bytes k w))"

lemma le_bytes_byte_swap:
  "8 * k \<le> LENGTH('a) \<Longrightarrow> le_bytes k (byte_swap k (w :: 'a::len word)) = rev (le_bytes k w)"
  using le_bytes_le_word [of "rev (le_bytes k w)", where ?'a = 'a] by (simp add: byte_swap_def)

text \<open>The word that the shift-and-or expressions of the network byte order branches build from
  the bytes \<^verbatim>\<open>ptr[0] ... ptr[n-1]\<close>.\<close>

fun be_word :: "u8 list \<Rightarrow> 'a::len word" where
  "be_word [] = 0"
| "be_word (b # bs) = push_bit (8 * length bs) (ucast b) OR be_word bs"

lemma le_word_append: "le_word (xs @ ys) = le_word xs OR push_bit (8 * length xs) (le_word ys)"
  by (induction xs) (simp_all add: or.assoc)

lemma be_word_rev: "be_word bs = le_word (rev bs)"
  by (induction bs) (simp_all add: le_word_append or.commute)

lemma be_word_le_bytes: "8 * k \<le> LENGTH('a) \<Longrightarrow> be_word (rev (le_bytes k w)) = take_bit (8 * k) (w :: 'a::len word)"
  by (simp add: be_word_rev le_word_le_bytes)

section \<open>Lists\<close>

text \<open>The first and last element of a list, with a default for the empty one: the shape of
  every \<^verbatim>\<open>head\<close>/\<^verbatim>\<open>tail\<close> pointer of the program.\<close>

definition hd0 :: "'a \<Rightarrow> 'a list \<Rightarrow> 'a" where
  "hd0 d xs = (case xs of [] \<Rightarrow> d | x # _ \<Rightarrow> x)"

definition last0 :: "'a \<Rightarrow> 'a list \<Rightarrow> 'a" where
  "last0 d xs = (if xs = [] then d else last xs)"

lemma hd0_simps [simp]: "hd0 d [] = d" "hd0 d (x # xs) = x"
  by (simp_all add: hd0_def)

lemma last0_simps [simp]: "last0 d [] = d" "last0 d (xs @ [x]) = x" "last0 d (x # xs) = last0 x xs"
  by (simp_all add: last0_def)

lemma hd0_append [simp]: "hd0 d (xs @ ys) = hd0 (hd0 d ys) xs"
  by (cases xs) simp_all

lemma last0_append [simp]: "last0 d (xs @ ys) = last0 (last0 d xs) ys"
  by (simp add: last0_def)

lemma last0_eq: "last0 d xs = (if xs = [] then d else xs ! (length xs - 1))"
  by (simp add: last0_def last_conv_nth)

lemma hd0_in: "xs \<noteq> [] \<Longrightarrow> hd0 d xs \<in> set xs"
  by (cases xs) simp_all

lemma last0_in: "xs \<noteq> [] \<Longrightarrow> last0 d xs \<in> set xs"
  by (simp add: last0_def)

lemma filter_neq_id: "a \<notin> set xs \<Longrightarrow> filter (\<lambda>x. x \<noteq> a) xs = xs"
  by (induction xs) auto

lemma filter_neq_remove1: "distinct xs \<Longrightarrow> filter (\<lambda>x. x \<noteq> a) xs = remove1 a xs"
  by (simp add: distinct_remove1_removeAll removeAll_filter_not_eq eq_commute)

lemma bind_Some_iff: "(x \<bind> f = Some y) \<longleftrightarrow> (\<exists>z. x = Some z \<and> f z = Some y)"
  by (cases x) simp_all

end
