(* ===== verification/EdLists.thy ===== *)
theory EdLists
  imports EdPrelude
begin

text \<open>
  The intrusive doubly linked lists: \<^verbatim>\<open>EdObjList\<close> (\<^verbatim>\<open>src/ednio/EdObjList.h\<close>),
  \<^verbatim>\<open>EsList\<close> (\<^verbatim>\<open>src/ednio/EsList.h\<close>) and \<^verbatim>\<open>EsList2\<close> (\<^verbatim>\<open>src/ednio/EsList2.h\<close>).
  Nodes live in a heap, a partial map from addresses to node headers; reading or writing
  through a null or dangling pointer makes an operation \<open>None\<close>. The three classes share the
  code that links and unlinks a node, written once here (\<open>dl_append\<close>, \<open>dl_insert\<close>,
  \<open>dl_unlink\<close>), and differ in the guards and in the back pointer to the list. The
  representation predicate \<open>dl_rep\<close> relates a head and a tail pointer in a heap to the list of
  addresses they hold, and the locale \<open>linked_queue\<close> states the queue the clients rely on.
\<close>

section \<open>Nodes and the heap\<close>

record dnode =
  dprev :: addr
  dnext :: addr
  seed :: u32

type_synonym 'n dheap = "addr \<rightharpoonup> 'n dnode_scheme"

text \<open>A store through a pointer.\<close>

definition upd :: "(addr \<rightharpoonup> 'n) \<Rightarrow> addr \<Rightarrow> ('n \<Rightarrow> 'n) \<Rightarrow> (addr \<rightharpoonup> 'n) option" where
  "upd h a f = (case h a of None \<Rightarrow> None | Some n \<Rightarrow> Some (h(a \<mapsto> f n)))"

lemma upd_Some: "h a = Some n \<Longrightarrow> upd h a f = Some (h(a \<mapsto> f n))"
  by (simp add: upd_def)

lemma upd_None: "h a = None \<Longrightarrow> upd h a f = None"
  by (simp add: upd_def)

text \<open>The seed of a list is taken from the address of the list object,
  \<^verbatim>\<open>u32(((u64)this) >> 2)\<close>.\<close>

definition list_seed :: "addr \<Rightarrow> u32" where
  "list_seed this = ucast (drop_bit 2 this)"

section \<open>The linking code the three classes share\<close>

definition dl_append :: "'n dheap \<Rightarrow> addr \<Rightarrow> addr \<Rightarrow> addr \<Rightarrow> ('n dheap \<times> addr \<times> addr) option" where
  "dl_append h head tail x =
     (if tail = NULL then do {
        h \<leftarrow> upd h x (\<lambda>n. n\<lparr>dprev := NULL\<rparr>);
        h \<leftarrow> upd h x (\<lambda>n. n\<lparr>dnext := NULL\<rparr>);
        Some (h, x, x)
      } else do {
        h \<leftarrow> upd h x (\<lambda>n. n\<lparr>dprev := tail\<rparr>);
        h \<leftarrow> upd h x (\<lambda>n. n\<lparr>dnext := NULL\<rparr>);
        h \<leftarrow> upd h tail (\<lambda>n. n\<lparr>dnext := x\<rparr>);
        Some (h, head, x)
      })"

definition dl_insert :: "'n dheap \<Rightarrow> addr \<Rightarrow> addr \<Rightarrow> 'n dheap option" where
  "dl_insert h p x = do {
     h \<leftarrow> upd h x (\<lambda>n. n\<lparr>dprev := p\<rparr>);
     pn \<leftarrow> h p;
     h \<leftarrow> upd h x (\<lambda>n. n\<lparr>dnext := dnext pn\<rparr>);
     h \<leftarrow> upd h p (\<lambda>n. n\<lparr>dnext := x\<rparr>);
     xn \<leftarrow> h x;
     (if dnext xn \<noteq> NULL then upd h (dnext xn) (\<lambda>n. n\<lparr>dprev := x\<rparr>) else Some h)
   }"

definition dl_unlink :: "'n dheap \<Rightarrow> addr \<Rightarrow> addr \<Rightarrow> addr \<Rightarrow> ('n dheap \<times> addr \<times> addr) option" where
  "dl_unlink h head tail x = do {
     n \<leftarrow> h x;
     let cp = dprev n;
     let cn = dnext n;
     (h, head) \<leftarrow>
       (if cp \<noteq> NULL then do { h \<leftarrow> upd h cp (\<lambda>n. n\<lparr>dnext := cn\<rparr>); Some (h, head) }
        else do {
          h \<leftarrow> (if cn \<noteq> NULL then upd h cn (\<lambda>n. n\<lparr>dprev := NULL\<rparr>) else Some h);
          Some (h, cn) });
     (h, tail) \<leftarrow>
       (if cn \<noteq> NULL then do { h \<leftarrow> upd h cn (\<lambda>n. n\<lparr>dprev := cp\<rparr>); Some (h, tail) }
        else do {
          h \<leftarrow> (if cp \<noteq> NULL then upd h cp (\<lambda>n. n\<lparr>dnext := NULL\<rparr>) else Some h);
          Some (h, cp) });
     Some (h, head, tail)
   }"

section \<open>What a heap represents\<close>

text \<open>\<open>links h s p xs q\<close>: the nodes \<open>xs\<close> are chained in both directions, \<open>p\<close> before the first
  and \<open>q\<close> after the last, and all carry the seed \<open>s\<close>.\<close>

fun links :: "'n dheap \<Rightarrow> u32 \<Rightarrow> addr \<Rightarrow> addr list \<Rightarrow> addr \<Rightarrow> bool" where
  "links h s p [] q = True"
| "links h s p (x # xs) q =
     ((case h x of None \<Rightarrow> False
       | Some n \<Rightarrow> dprev n = p \<and> dnext n = hd0 q xs \<and> seed n = s) \<and> links h s x xs q)"

definition dl_rep :: "'n dheap \<Rightarrow> u32 \<Rightarrow> addr \<Rightarrow> addr \<Rightarrow> addr list \<Rightarrow> bool" where
  "dl_rep h s head tail xs \<longleftrightarrow>
     distinct xs \<and> NULL \<notin> set xs \<and> head = hd0 NULL xs \<and> tail = last0 NULL xs \<and>
     links h s NULL xs NULL"

lemma links_append: "links h s p (xs @ ys) q \<longleftrightarrow> links h s p xs (hd0 q ys) \<and> links h s (last0 p xs) ys q"
  by (induction xs arbitrary: p) (auto split: option.splits)

lemma links_other: "x \<notin> set xs \<Longrightarrow> links (h(x := v)) s p xs q = links h s p xs q"
  by (induction xs arbitrary: p) auto

lemma links_cong: "(\<And>x. x \<in> set xs \<Longrightarrow> h' x = h x) \<Longrightarrow> links h' s p xs q = links h s p xs q"
  by (induction xs arbitrary: p) auto

lemma links_SomeD: "links h s p xs q \<Longrightarrow> x \<in> set xs \<Longrightarrow> \<exists>n. h x = Some n \<and> seed n = s"
  by (induction xs arbitrary: p) (auto split: option.splits)

lemma links_set_first:
  assumes "links h s p (x # xs) q" and "x \<notin> set xs" and "h x = Some n"
  shows "links (h(x \<mapsto> n\<lparr>dprev := p'\<rparr>)) s p' (x # xs) q"
  using assms by (simp add: links_other)

lemma links_set_last:
  assumes "links h s p (xs @ [x]) q" and "x \<notin> set xs" and "h x = Some n"
  shows "links (h(x \<mapsto> n\<lparr>dnext := q'\<rparr>)) s p (xs @ [x]) q'"
  using assms by (simp add: links_append links_other)

lemma dl_rep_SomeD: "dl_rep h s hp tp xs \<Longrightarrow> x \<in> set xs \<Longrightarrow> \<exists>n. h x = Some n \<and> seed n = s"
  unfolding dl_rep_def by (blast dest: links_SomeD)

lemma dl_rep_cong: "(\<And>x. x \<in> set xs \<Longrightarrow> h' x = h x) \<Longrightarrow> dl_rep h' s hp tp xs = dl_rep h s hp tp xs"
  using links_cong [of xs h' h s NULL NULL] by (simp add: dl_rep_def)

lemma dl_rep_other: "x \<notin> set xs \<Longrightarrow> dl_rep (h(x := v)) s hp tp xs = dl_rep h s hp tp xs"
  by (simp add: dl_rep_def links_other)

lemma dl_rep_empty [simp]: "dl_rep h s NULL NULL []"
  by (simp add: dl_rep_def)

text \<open>Fields other than the two links: what no linking step may change.\<close>

definition meta :: "'n dnode_scheme option \<Rightarrow> (u32 \<times> 'n) option" where
  "meta = map_option (\<lambda>n. (seed n, dnode.more n))"

lemma meta_simps [simp]:
  "meta None = None"
  "meta (Some (n\<lparr>dprev := a\<rparr>)) = meta (Some n)" "meta (Some (n\<lparr>dnext := a\<rparr>)) = meta (Some n)"
  by (simp_all add: meta_def)

text \<open>A linking step writes to the links of the nodes in \<open>A\<close> only.\<close>

definition dl_frame :: "addr set \<Rightarrow> 'n dheap \<Rightarrow> 'n dheap \<Rightarrow> bool" where
  "dl_frame A h h' \<longleftrightarrow> (\<forall>y. y \<notin> A \<longrightarrow> h' y = h y) \<and> (\<forall>y. meta (h' y) = meta (h y))"

lemma dl_append_rep:
  assumes rep: "dl_rep h s hp tp xs" and x: "h x = Some n" "seed n = s" "x \<notin> set xs" "x \<noteq> NULL"
  obtains h' hp' where "dl_append h hp tp x = Some (h', hp', x)" "dl_rep h' s hp' x (xs @ [x])"
    "dl_frame (insert x (set xs)) h h'"
proof (cases xs rule: rev_cases)
  case Nil
  with rep have "tp = NULL" by (simp add: dl_rep_def)
  then show ?thesis
    using that [of "h(x \<mapsto> n\<lparr>dprev := NULL, dnext := NULL\<rparr>)" x] x Nil
    by (simp add: dl_append_def upd_Some dl_rep_def dl_frame_def)
next
  case (snoc ys t)
  from rep snoc have tp: "tp = t" "t \<noteq> NULL" "t \<notin> set ys" by (auto simp: dl_rep_def)
  from rep snoc obtain m where m: "h t = Some m" by (meson dl_rep_SomeD in_set_conv_decomp)
  from x snoc have xt: "x \<noteq> t" by auto
  let ?h = "h(x \<mapsto> n\<lparr>dprev := t, dnext := NULL\<rparr>, t \<mapsto> m\<lparr>dnext := x\<rparr>)"
  from rep have "links h s NULL (ys @ [t]) NULL" by (simp add: dl_rep_def snoc)
  then have "links (h(t \<mapsto> m\<lparr>dnext := x\<rparr>)) s NULL (ys @ [t]) x"
    using tp m by (intro links_set_last)
  then have "links ?h s NULL (ys @ [t]) x"
    using x snoc xt by (simp add: fun_upd_twist [of x t] links_other)
  then have "links ?h s NULL (xs @ [x]) NULL"
    using x xt by (simp add: snoc links_append)
  then have "dl_rep ?h s hp x (xs @ [x])" using rep x snoc by (auto simp: dl_rep_def)
  moreover have "dl_append h hp tp x = Some (?h, hp, x)"
    using tp x m xt by (simp add: dl_append_def upd_Some)
  ultimately show ?thesis using x m xt snoc by (intro that [of ?h hp]) (auto simp: dl_frame_def)
qed

text \<open>Unlinking the node \<open>x\<close> of \<open>as @ x # bs\<close> leaves \<open>as @ bs\<close> and does not write to \<open>x\<close>.\<close>

lemma dl_unlink_rep:
  assumes rep: "dl_rep h s hp tp (as @ x # bs)"
  obtains h' hp' tp' where "dl_unlink h hp tp x = Some (h', hp', tp')" "dl_rep h' s hp' tp' (as @ bs)"
    "dl_frame (set (as @ bs)) h h'"
proof -
  from rep have d: "distinct (as @ bs)" "x \<notin> set as" "x \<notin> set bs" "NULL \<notin> set (as @ x # bs)"
    and l: "links h s NULL as x" "links h s x bs NULL"
    and p: "hp = hd0 x as" "tp = last0 x bs"
    by (auto simp: dl_rep_def links_append split: option.splits)
  from rep obtain n where n: "h x = Some n" "dprev n = last0 NULL as" "dnext n = hd0 NULL bs"
    by (auto simp: dl_rep_def links_append split: option.splits)
  show ?thesis
  proof (cases as rule: rev_cases)
    case as: Nil
    show ?thesis
    proof (cases bs)
      case Nil
      with as n that [of h NULL NULL] show ?thesis by (simp add: dl_unlink_def dl_frame_def)
    next
      case (Cons c cs)
      from l Cons obtain m where m: "h c = Some m" by (auto split: option.splits)
      let ?h = "h(c \<mapsto> m\<lparr>dprev := NULL\<rparr>)"
      have "links ?h s NULL bs NULL" using l d m by (simp add: Cons links_other)
      then have "dl_rep ?h s c tp bs" using d p by (simp add: dl_rep_def Cons)
      moreover have "dl_unlink h hp tp x = Some (?h, c, tp)"
        using n m d as Cons by (simp add: dl_unlink_def upd_Some)
      ultimately show ?thesis using m as Cons by (intro that [of ?h c tp]) (auto simp: dl_frame_def)
    qed
  next
    case as: (snoc es e)
    from l as obtain k where k: "h e = Some k" by (auto simp: links_append split: option.splits)
    have e: "e \<noteq> NULL" "e \<notin> set es" "e \<notin> set bs" using d as by auto
    have las: "links (h(e \<mapsto> k\<lparr>dnext := q\<rparr>)) s NULL as q" for q
      using l as e k by (simp add: links_append links_other)
    show ?thesis
    proof (cases bs)
      case Nil
      let ?h = "h(e \<mapsto> k\<lparr>dnext := NULL\<rparr>)"
      have "links ?h s NULL as NULL" by (rule las)
      then have "dl_rep ?h s hp e as" using d p as Nil by (auto simp: dl_rep_def)
      moreover have "dl_unlink h hp tp x = Some (?h, hp, e)"
        using n k e as Nil by (simp add: dl_unlink_def upd_Some)
      ultimately show ?thesis using k as Nil by (intro that [of ?h hp e]) (auto simp: dl_frame_def)
    next
      case (Cons c cs)
      from l Cons obtain m where m: "h c = Some m" by (auto split: option.splits)
      have c: "c \<noteq> NULL" "c \<noteq> e" "c \<notin> set es" "c \<notin> set cs" "e \<notin> set cs" using d as Cons by auto
      let ?h = "h(e \<mapsto> k\<lparr>dnext := c\<rparr>, c \<mapsto> m\<lparr>dprev := e\<rparr>)"
      have "links (h(e \<mapsto> k\<lparr>dnext := c\<rparr>)) s NULL as c" by (rule las)
      then have la: "links ?h s NULL as c" using c as by (simp add: links_other)
      have "links (h(e \<mapsto> k\<lparr>dnext := c\<rparr>)) s x bs NULL" using l e by (simp add: links_other)
      moreover have "(h(e \<mapsto> k\<lparr>dnext := c\<rparr>)) c = Some m" using c m by simp
      ultimately have "links ?h s e bs NULL" using c(4) Cons links_set_first by fastforce
      moreover have "hd0 NULL bs = c" "last0 NULL as = e" by (simp_all add: as Cons)
      ultimately have "links ?h s NULL (as @ bs) NULL" using la by (simp only: links_append)
      then have "dl_rep ?h s hp tp (as @ bs)" using d p as Cons by (auto simp: dl_rep_def)
      moreover have "dl_unlink h hp tp x = Some (?h, hp, tp)"
        using n k m e c as Cons by (simp add: dl_unlink_def upd_Some)
      ultimately show ?thesis using k m as Cons by (intro that [of ?h hp tp]) (auto simp: dl_frame_def)
    qed
  qed
qed

text \<open>Inserting after a node \<open>p\<close> that is not the last one.\<close>

lemma dl_insert_rep:
  assumes rep: "dl_rep h s hp tp (as @ p # c # bs)"
    and x: "h x = Some n" "x \<notin> set (as @ p # c # bs)" "x \<noteq> NULL"
  obtains h' where "dl_insert h p x = Some h'"
    "\<And>v. h' x = Some v \<Longrightarrow> dl_rep (h'(x \<mapsto> v\<lparr>seed := s\<rparr>)) s hp tp (as @ p # x # c # bs)"
    "dl_frame (insert x (set (as @ p # c # bs))) h h'"
proof -
  from rep have d: "distinct (as @ p # c # bs)" "NULL \<notin> set (as @ p # c # bs)"
    and l: "links h s NULL as p" "links h s c bs NULL"
    and hp: "hp = hd0 p as" "tp = last0 c bs"
    by (auto simp: dl_rep_def links_append split: option.splits)
  from rep obtain k m where k: "h p = Some k" "dprev k = last0 NULL as" "dnext k = c" "seed k = s"
    and m: "h c = Some m" "dprev m = p" "dnext m = hd0 NULL bs" "seed m = s"
    by (auto simp: dl_rep_def links_append split: option.splits)
  let ?h = "h(x \<mapsto> n\<lparr>dprev := p, dnext := c\<rparr>, p \<mapsto> k\<lparr>dnext := x\<rparr>, c \<mapsto> m\<lparr>dprev := x\<rparr>)"
  have ne: "x \<noteq> p" "x \<noteq> c" "p \<noteq> c" "c \<noteq> NULL" using x d by auto
  have ins: "dl_insert h p x = Some ?h"
    using x k m ne by (simp add: dl_insert_def upd_Some)
  have "dl_rep (?h(x \<mapsto> n\<lparr>dprev := p, dnext := c, seed := s\<rparr>)) s hp tp (as @ p # x # c # bs)"
    using d l hp k m ne x by (auto simp: dl_rep_def links_append links_other)
  then show ?thesis using ins ne x k m by (intro that [of ?h]) (auto simp: dl_frame_def)
qed

section \<open>The list objects\<close>

text \<open>The private members of the three classes are the same; \<open>this\<close> is the address of the
  list object. An object of an \<^verbatim>\<open>EdObjList\<close> is named by the address of its header: the macros
  \<^verbatim>\<open>OBJ2HDR\<close> and \<^verbatim>\<open>HDR2OBJ\<close> only add or subtract the header's size.\<close>

record list_obj =
  this :: addr
  mphead :: addr
  mptail :: addr
  mSeed :: u32
  mSize :: u32

text \<open>\<^verbatim>\<open>EdObjList::listhdr_t\<close>.\<close>

record listhdr_t = dnode +
  hlist :: addr

type_synonym hdr_heap = "addr \<rightharpoonup> listhdr_t"

definition EdObjList_new :: "addr \<Rightarrow> list_obj" where
  "EdObjList_new self = \<lparr>this = self, mphead = NULL, mptail = NULL, mSeed = list_seed self, mSize = 0\<rparr>"

definition EdObjList_push_back :: "hdr_heap \<Rightarrow> list_obj \<Rightarrow> addr \<Rightarrow> (hdr_heap \<times> list_obj) option" where
  "EdObjList_push_back h l x = do {
     n \<leftarrow> h x;
     (if seed n \<noteq> 0 \<or> hlist n \<noteq> NULL then Some (h, l)
      else do {
        h \<leftarrow> upd h x (\<lambda>n. n\<lparr>seed := mSeed l\<rparr>);
        (h, hp, tp) \<leftarrow> dl_append h (mphead l) (mptail l) x;
        h \<leftarrow> upd h x (\<lambda>n. n\<lparr>hlist := this l\<rparr>);
        Some (h, l\<lparr>mphead := hp, mptail := tp, mSize := mSize l + 1\<rparr>)
      })
   }"

definition EdObjList_insert ::
  "hdr_heap \<Rightarrow> list_obj \<Rightarrow> addr \<Rightarrow> addr \<Rightarrow> (hdr_heap \<times> list_obj) option" where
  "EdObjList_insert h l p x = do {
     pn \<leftarrow> h p;
     (if seed pn \<noteq> mSeed l then Some (h, l)
      else do {
        n \<leftarrow> h x;
        (if seed n \<noteq> 0 \<or> hlist n \<noteq> NULL then Some (h, l)
         else do {
           h \<leftarrow> dl_insert h p x;
           h \<leftarrow> upd h x (\<lambda>n. n\<lparr>seed := mSeed l\<rparr>);
           h \<leftarrow> upd h x (\<lambda>n. n\<lparr>hlist := this l\<rparr>);
           Some (h, l\<lparr>mSize := mSize l + 1\<rparr>)
         })
      })
   }"

definition EdObjList_remove :: "hdr_heap \<Rightarrow> list_obj \<Rightarrow> addr \<Rightarrow> (hdr_heap \<times> list_obj) option" where
  "EdObjList_remove h l x = do {
     n \<leftarrow> h x;
     (if seed n \<noteq> mSeed l then Some (h, l)
      else do {
        (h, hp, tp) \<leftarrow> dl_unlink h (mphead l) (mptail l) x;
        h \<leftarrow> upd h x (\<lambda>n. n\<lparr>seed := 0\<rparr>);
        h \<leftarrow> upd h x (\<lambda>n. n\<lparr>hlist := NULL\<rparr>);
        Some (h, l\<lparr>mphead := hp, mptail := tp, mSize := mSize l - 1\<rparr>)
      })
   }"

text \<open>\<^verbatim>\<open>allocObj\<close> zeroes the header of a fresh node; \<^verbatim>\<open>freeObj\<close> deletes the node.\<close>

definition EdObjList_allocObj :: "hdr_heap \<Rightarrow> addr \<Rightarrow> hdr_heap" where
  "EdObjList_allocObj h x = h(x \<mapsto> \<lparr>dprev = NULL, dnext = NULL, seed = 0, hlist = NULL\<rparr>)"

definition EdObjList_freeObj :: "hdr_heap \<Rightarrow> addr \<Rightarrow> hdr_heap option" where
  "EdObjList_freeObj h x = (case h x of None \<Rightarrow> None | Some _ \<Rightarrow> Some (h(x := None)))"

definition EdObjList_getList :: "hdr_heap \<Rightarrow> addr \<Rightarrow> addr option" where
  "EdObjList_getList h x = map_option hlist (h x)"

definition EdObjList_front :: "list_obj \<Rightarrow> addr" where
  "EdObjList_front l = mphead l"

definition EdObjList_end :: "list_obj \<Rightarrow> addr" where
  "EdObjList_end l = mptail l"

definition EdObjList_pop_front :: "hdr_heap \<Rightarrow> list_obj \<Rightarrow> (addr \<times> hdr_heap \<times> list_obj) option" where
  "EdObjList_pop_front h l =
     (if mphead l \<noteq> NULL
      then do { (h', l') \<leftarrow> EdObjList_remove h l (mphead l); Some (mphead l, h', l') }
      else Some (NULL, h, l))"

definition EdObjList_pop_back :: "hdr_heap \<Rightarrow> list_obj \<Rightarrow> (addr \<times> hdr_heap \<times> list_obj) option" where
  "EdObjList_pop_back h l =
     (if mptail l \<noteq> NULL
      then do { (h', l') \<leftarrow> EdObjList_remove h l (mptail l); Some (mptail l, h', l') }
      else Some (NULL, h, l))"

definition EdObjList_next :: "hdr_heap \<Rightarrow> addr \<Rightarrow> addr option" where
  "EdObjList_next h x = map_option dnext (h x)"

definition EdObjList_prev :: "hdr_heap \<Rightarrow> addr \<Rightarrow> addr option" where
  "EdObjList_prev h x = map_option dprev (h x)"

definition EdObjList_size :: "list_obj \<Rightarrow> int" where
  "EdObjList_size l = sint (mSize l)"

definition EdObjList_clear :: "list_obj \<Rightarrow> list_obj" where
  "EdObjList_clear l = l\<lparr>mphead := NULL, mptail := NULL, mSeed := 0, mSize := 0\<rparr>"

section \<open>EdObjList: representation and operations\<close>

definition in_list :: "hdr_heap \<Rightarrow> addr \<Rightarrow> addr \<Rightarrow> bool" where
  "in_list h self x \<longleftrightarrow> (case h x of None \<Rightarrow> False | Some n \<Rightarrow> hlist n = self)"

lemma in_list_iff: "in_list h self x \<longleftrightarrow> map_option hlist (h x) = Some self"
  by (simp add: in_list_def split: option.splits)

definition ol_rep :: "hdr_heap \<Rightarrow> list_obj \<Rightarrow> addr list \<Rightarrow> bool" where
  "ol_rep h l xs \<longleftrightarrow>
     dl_rep h (mSeed l) (mphead l) (mptail l) xs \<and>
     list_all (in_list h (this l)) xs \<and>
     mSize l = of_nat (length xs) \<and> this l \<noteq> NULL"

text \<open>An object that is in no list.\<close>

definition detached :: "hdr_heap \<Rightarrow> addr \<Rightarrow> bool" where
  "detached h x \<longleftrightarrow>
     x \<noteq> NULL \<and> (case h x of None \<Rightarrow> False | Some n \<Rightarrow> seed n = 0 \<and> hlist n = NULL)"

lemma detachedE: "detached h x \<Longrightarrow> (\<And>n. h x = Some n \<Longrightarrow> seed n = 0 \<Longrightarrow> hlist n = NULL \<Longrightarrow> x \<noteq> NULL \<Longrightarrow> P) \<Longrightarrow> P"
  by (auto simp: detached_def split: option.splits)

lemma detached_cong: "h' x = h x \<Longrightarrow> detached h' x = detached h x"
  by (simp add: detached_def)

lemma ol_rep_cong: "(\<And>x. x \<in> set xs \<Longrightarrow> h' x = h x) \<Longrightarrow> ol_rep h' l xs = ol_rep h l xs"
  using dl_rep_cong [of xs h' h "mSeed l" "mphead l" "mptail l"]
  by (auto simp: ol_rep_def list_all_iff in_list_def)

lemma ol_rep_node: "ol_rep h l xs \<Longrightarrow> x \<in> set xs \<Longrightarrow> \<exists>n. h x = Some n \<and> seed n = mSeed l \<and> hlist n = this l"
  using dl_rep_SomeD [of h "mSeed l" "mphead l" "mptail l" xs x]
  by (auto simp: ol_rep_def list_all_iff in_list_iff)

lemma detached_notin: "ol_rep h l xs \<Longrightarrow> detached h x \<Longrightarrow> x \<notin> set xs"
  using ol_rep_node [of h l xs x] by (auto simp: ol_rep_def detached_def split: option.splits)

lemma ol_rep_distinct: "ol_rep h l xs \<Longrightarrow> distinct xs"
  by (simp add: ol_rep_def dl_rep_def)

lemma ol_rep_not_null: "ol_rep h l xs \<Longrightarrow> NULL \<notin> set xs"
  by (simp add: ol_rep_def dl_rep_def)

lemma ol_rep_new: "self \<noteq> NULL \<Longrightarrow> ol_rep h (EdObjList_new self) []"
  by (simp add: ol_rep_def EdObjList_new_def)

lemma ol_rep_front: "ol_rep h l xs \<Longrightarrow> EdObjList_front l = hd0 NULL xs"
  by (simp add: ol_rep_def dl_rep_def EdObjList_front_def)

lemma ol_rep_end: "ol_rep h l xs \<Longrightarrow> EdObjList_end l = last0 NULL xs"
  by (simp add: ol_rep_def dl_rep_def EdObjList_end_def)

lemma ol_rep_size: "ol_rep h l xs \<Longrightarrow> length xs < 2 ^ 31 \<Longrightarrow> EdObjList_size l = int (length xs)"
  by (simp add: ol_rep_def EdObjList_size_def signed_of_nat signed_take_bit_int_eq_self)

text \<open>What one list operation leaves alone: every node outside \<open>A\<close>, and the identity of the list.\<close>

definition ol_frame :: "addr set \<Rightarrow> hdr_heap \<Rightarrow> list_obj \<Rightarrow> hdr_heap \<Rightarrow> list_obj \<Rightarrow> bool" where
  "ol_frame A h l h' l' \<longleftrightarrow>
     (\<forall>y. y \<notin> A \<longrightarrow> h' y = h y) \<and> this l' = this l \<and> mSeed l' = mSeed l \<and> dom h' = dom h"

lemma ol_frame_other:
  "ol_frame A h l h' l' \<Longrightarrow> ol_rep h m ys \<Longrightarrow> A \<inter> set ys = {} \<Longrightarrow> ol_rep h' m ys"
  using ol_rep_cong [of ys h' h m] by (auto simp: ol_frame_def)

lemma ol_frame_detached:
  "ol_frame A h l h' l' \<Longrightarrow> detached h y \<Longrightarrow> y \<notin> A \<Longrightarrow> detached h' y"
  by (auto simp: ol_frame_def detached_def)

lemma dl_frame_dom: "dl_frame A h h' \<Longrightarrow> dom h' = dom h"
proof -
  assume a: "dl_frame A h h'"
  have "h' y = None \<longleftrightarrow> h y = None" for y
    using a by (cases "h' y"; cases "h y") (auto simp: dl_frame_def meta_def dest: spec [of _ y])
  then show ?thesis by (simp add: dom_def)
qed

lemma hlist_more: "dnode.more m = dnode.more n \<Longrightarrow> hlist m = hlist n" for m n :: listhdr_t
  by (cases m; cases n) simp

lemma meta_hlist: "meta a = meta b \<Longrightarrow> map_option hlist a = map_option hlist b"
  for a b :: "listhdr_t option"
  by (cases a; cases b) (auto simp: meta_def intro: hlist_more)

lemma in_list_upd [simp]:
  "in_list (h(x := v)) a y = (if x = y then (case v of None \<Rightarrow> False | Some n \<Rightarrow> hlist n = a) else in_list h a y)"
  by (auto simp: in_list_def)

lemma dl_frame_in_list: "dl_frame A h h' \<Longrightarrow> in_list h' l x = in_list h l x"
  using meta_hlist [of "h' x" "h x"] by (simp add: in_list_iff dl_frame_def)

lemma push_back_rep:
  assumes rep: "ol_rep h l xs" and det: "detached h x"
  obtains h' l' where "EdObjList_push_back h l x = Some (h', l')" "ol_rep h' l' (xs @ [x])"
    "ol_frame (insert x (set xs)) h l h' l'"
proof -
  from det obtain n where n: "h x = Some n" "seed n = 0" "hlist n = NULL" "x \<noteq> NULL"
    by (rule detachedE)
  have nx: "x \<notin> set xs" using detached_notin [OF rep det] .
  let ?h = "h(x \<mapsto> n\<lparr>seed := mSeed l\<rparr>)"
  have rep1: "dl_rep ?h (mSeed l) (mphead l) (mptail l) xs"
    using rep nx by (simp add: ol_rep_def dl_rep_other)
  have hx: "?h x = Some (n\<lparr>seed := mSeed l\<rparr>)" "seed (n\<lparr>seed := mSeed l\<rparr>) = mSeed l" by simp_all
  obtain h1 hp where h1: "dl_append ?h (mphead l) (mptail l) x = Some (h1, hp, x)"
    "dl_rep h1 (mSeed l) hp x (xs @ [x])"
    "dl_frame (insert x (set xs)) ?h h1"
    by (rule dl_append_rep [OF rep1 hx nx n(4)])
  obtain n1 where n1: "h1 x = Some n1" "seed n1 = mSeed l" using h1(2) dl_rep_SomeD by fastforce
  let ?h' = "h1(x \<mapsto> n1\<lparr>hlist := this l\<rparr>)"
  let ?l' = "l\<lparr>mphead := hp, mptail := x, mSize := mSize l + 1\<rparr>"
  have eq: "EdObjList_push_back h l x = Some (?h', ?l')"
    using n h1(1) n1 by (simp add: EdObjList_push_back_def upd_Some)
  have "dl_rep ?h' (mSeed l) hp x (xs @ [x])"
    using h1(2) n1 by (auto simp: dl_rep_def links_append links_other nx)
  moreover have "list_all (in_list ?h' (this l)) (xs @ [x])"
    using rep nx by (auto simp: list_all_iff ol_rep_def dl_frame_in_list [OF h1(3)])
  ultimately have "ol_rep ?h' ?l' (xs @ [x])" using rep by (simp add: ol_rep_def)
  moreover have "ol_frame (insert x (set xs)) h l ?h' ?l'"
    using h1(3) n n1 dl_frame_dom [OF h1(3)] by (auto simp: ol_frame_def dl_frame_def)
  ultimately show ?thesis using eq that by blast
qed

lemma push_back_guard:
  "h x = Some n \<Longrightarrow> seed n \<noteq> 0 \<or> hlist n \<noteq> NULL \<Longrightarrow> EdObjList_push_back h l x = Some (h, l)"
  by (simp add: EdObjList_push_back_def)

lemma remove_split:
  assumes rep: "ol_rep h l (as @ x # bs)"
  obtains h' l' where "EdObjList_remove h l x = Some (h', l')" "ol_rep h' l' (as @ bs)"
    "detached h' x" "ol_frame (set (as @ x # bs)) h l h' l'"
proof -
  obtain n where n: "h x = Some n" "seed n = mSeed l" using ol_rep_node [OF rep, of x] by auto
  have nx: "x \<notin> set (as @ bs)" "x \<noteq> NULL" using rep by (auto simp: ol_rep_def dl_rep_def)
  have "dl_rep h (mSeed l) (mphead l) (mptail l) (as @ x # bs)" using rep by (simp add: ol_rep_def)
  then obtain h1 hp tp where h1: "dl_unlink h (mphead l) (mptail l) x = Some (h1, hp, tp)"
    "dl_rep h1 (mSeed l) hp tp (as @ bs)" "dl_frame (set (as @ bs)) h h1"
    by (rule dl_unlink_rep)
  have n1: "h1 x = Some n" using h1(3) nx n by (simp add: dl_frame_def)
  let ?h' = "h1(x \<mapsto> n\<lparr>seed := 0, hlist := NULL\<rparr>)"
  let ?l' = "l\<lparr>mphead := hp, mptail := tp, mSize := mSize l - 1\<rparr>"
  have eq: "EdObjList_remove h l x = Some (?h', ?l')"
    using n h1(1) n1 by (simp add: EdObjList_remove_def upd_Some)
  have "list_all (in_list ?h' (this l)) (as @ bs)"
    using rep nx by (auto simp: list_all_iff ol_rep_def dl_frame_in_list [OF h1(3)])
  moreover have "dl_rep ?h' (mSeed l) hp tp (as @ bs)" using h1(2) nx by (simp add: dl_rep_other)
  moreover have "mSize l - 1 = of_nat (length (as @ bs))" using rep by (simp add: ol_rep_def)
  ultimately have "ol_rep ?h' ?l' (as @ bs)" using rep by (simp add: ol_rep_def)
  moreover have "detached ?h' x" using nx by (simp add: detached_def)
  moreover have "ol_frame (set (as @ x # bs)) h l ?h' ?l'"
    using h1(3) n1 n dl_frame_dom [OF h1(3)] by (auto simp: ol_frame_def dl_frame_def)
  ultimately show ?thesis using eq that by blast
qed

lemma remove_rep:
  assumes rep: "ol_rep h l xs" and x: "x \<in> set xs"
  obtains h' l' where "EdObjList_remove h l x = Some (h', l')" "ol_rep h' l' (remove1 x xs)"
    "detached h' x" "ol_frame (set xs) h l h' l'"
proof -
  from x obtain as bs where xs: "xs = as @ x # bs" "x \<notin> set as" by (meson split_list_first)
  then have "remove1 x xs = as @ bs" by (simp add: remove1_append)
  with remove_split [OF rep [unfolded xs]] xs that show ?thesis by metis
qed

lemma remove_foreign: "h x = Some n \<Longrightarrow> seed n \<noteq> mSeed l \<Longrightarrow> EdObjList_remove h l x = Some (h, l)"
  by (simp add: EdObjList_remove_def)

lemma pop_front_empty: "ol_rep h l [] \<Longrightarrow> EdObjList_pop_front h l = Some (NULL, h, l)"
  by (simp add: EdObjList_pop_front_def ol_rep_def dl_rep_def)

lemma pop_front_rep:
  assumes rep: "ol_rep h l (x # xs)"
  obtains h' l' where "EdObjList_pop_front h l = Some (x, h', l')" "ol_rep h' l' xs"
    "detached h' x" "ol_frame (set (x # xs)) h l h' l'"
proof -
  from rep have hp: "mphead l = x" "x \<noteq> NULL" by (auto simp: ol_rep_def dl_rep_def)
  obtain h' l' where r: "EdObjList_remove h l x = Some (h', l')" "ol_rep h' l' ([] @ xs)"
    "detached h' x" "ol_frame (set ([] @ x # xs)) h l h' l'"
    using rep by (rule remove_split [of h l "[]" x xs, simplified]) simp
  with hp show ?thesis by (intro that [of h' l']) (simp_all add: EdObjList_pop_front_def)
qed

lemma pop_back_rep:
  assumes rep: "ol_rep h l (xs @ [x])"
  obtains h' l' where "EdObjList_pop_back h l = Some (x, h', l')" "ol_rep h' l' xs"
    "detached h' x" "ol_frame (set (xs @ [x])) h l h' l'"
proof -
  from rep have tp: "mptail l = x" "x \<noteq> NULL" by (auto simp: ol_rep_def dl_rep_def)
  obtain h' l' where r: "EdObjList_remove h l x = Some (h', l')" "ol_rep h' l' (xs @ [])"
    "detached h' x" "ol_frame (set (xs @ [x])) h l h' l'"
    using rep by (rule remove_split)
  with tp show ?thesis by (intro that [of h' l']) (simp_all add: EdObjList_pop_back_def)
qed

lemma insert_rep:
  assumes rep: "ol_rep h l (as @ p # c # bs)" and det: "detached h x"
  obtains h' l' where "EdObjList_insert h l p x = Some (h', l')" "ol_rep h' l' (as @ p # x # c # bs)"
    "ol_frame (insert x (set (as @ p # c # bs))) h l h' l'"
proof -
  from det obtain n where n: "h x = Some n" "seed n = 0" "hlist n = NULL" "x \<noteq> NULL"
    by (rule detachedE)
  have nx: "x \<notin> set (as @ p # c # bs)" using detached_notin [OF rep det] .
  obtain k where k: "h p = Some k" "seed k = mSeed l" using ol_rep_node [OF rep, of p] by auto
  have "dl_rep h (mSeed l) (mphead l) (mptail l) (as @ p # c # bs)" using rep by (simp add: ol_rep_def)
  then obtain h1 where h1: "dl_insert h p x = Some h1"
    "\<And>v. h1 x = Some v \<Longrightarrow>
       dl_rep (h1(x \<mapsto> v\<lparr>seed := mSeed l\<rparr>)) (mSeed l) (mphead l) (mptail l) (as @ p # x # c # bs)"
    "dl_frame (insert x (set (as @ p # c # bs))) h h1"
    using n(1,4) nx by (metis dl_insert_rep)
  obtain v where v: "h1 x = Some v" using dl_frame_dom [OF h1(3)] n(1) by blast
  let ?v = "v\<lparr>seed := mSeed l, hlist := this l\<rparr>"
  let ?l' = "l\<lparr>mSize := mSize l + 1\<rparr>"
  have eq: "EdObjList_insert h l p x = Some (h1(x \<mapsto> ?v), ?l')"
    using n k h1(1) v by (simp add: EdObjList_insert_def upd_Some)
  have rep1: "dl_rep (h1(x \<mapsto> ?v)) (mSeed l) (mphead l) (mptail l) (as @ p # x # c # bs)"
    using h1(2) [OF v] nx by (auto simp: dl_rep_def links_append links_other split: option.splits)
  have "list_all (in_list (h1(x \<mapsto> ?v)) (this l)) (as @ p # x # c # bs)"
    using rep nx by (auto simp: list_all_iff ol_rep_def dl_frame_in_list [OF h1(3)])
  with rep1 rep have "ol_rep (h1(x \<mapsto> ?v)) ?l' (as @ p # x # c # bs)" by (simp add: ol_rep_def)
  moreover have "ol_frame (insert x (set (as @ p # c # bs))) h l (h1(x \<mapsto> ?v)) ?l'"
    using h1(3) n v dl_frame_dom [OF h1(3)] by (auto simp: ol_frame_def dl_frame_def)
  ultimately show ?thesis using eq that by blast
qed

lemma links_nth:
  "links h s p xs q \<Longrightarrow> i < length xs \<Longrightarrow>
     \<exists>n. h (xs ! i) = Some n \<and> dnext n = (if Suc i < length xs then xs ! Suc i else q)
       \<and> dprev n = (if i = 0 then p else xs ! (i - 1))"
proof (induction xs arbitrary: p i)
  case Nil
  then show ?case by simp
next
  case (Cons x xs)
  show ?case
  proof (cases i)
    case 0
    with Cons.prems show ?thesis by (cases xs) (auto split: option.splits)
  next
    case (Suc j)
    with Cons.prems Cons.IH [of x j] show ?thesis by (cases j) (auto split: option.splits)
  qed
qed

lemma next_prev_nth:
  assumes "ol_rep h l xs" and "i < length xs"
  shows "EdObjList_next h (xs ! i) = Some (if Suc i < length xs then xs ! Suc i else NULL)"
    and "EdObjList_prev h (xs ! i) = Some (if i = 0 then NULL else xs ! (i - 1))"
  using links_nth [of h "mSeed l" NULL xs NULL i] assms
  by (auto simp: EdObjList_next_def EdObjList_prev_def ol_rep_def dl_rep_def)

lemma allocObj_detached: "x \<noteq> NULL \<Longrightarrow> detached (EdObjList_allocObj h x) x"
  by (simp add: detached_def EdObjList_allocObj_def)

lemma allocObj_rep: "h x = None \<Longrightarrow> ol_rep h l xs \<Longrightarrow> ol_rep (EdObjList_allocObj h x) l xs"
  using ol_rep_cong [of xs "EdObjList_allocObj h x" h l] ol_rep_node [of h l xs]
  by (fastforce simp: EdObjList_allocObj_def)

lemma freeObj_rep:
  "EdObjList_freeObj h x = Some h' \<Longrightarrow> x \<notin> set xs \<Longrightarrow> ol_rep h l xs \<Longrightarrow> ol_rep h' l xs"
  using ol_rep_cong [of xs h' h l] by (fastforce simp: EdObjList_freeObj_def split: option.splits)

section \<open>The queue interface\<close>

text \<open>What a client of an intrusive list relies on: nodes are pushed at the back and popped at
  the front, a popped node can be pushed again, no operation dereferences a bad pointer, and
  an operation on one list leaves every disjoint list of the same heap as it was.\<close>

locale linked_queue =
  fixes push :: "'h \<Rightarrow> 'l \<Rightarrow> addr \<Rightarrow> ('h \<times> 'l) option"
    and pop :: "'h \<Rightarrow> 'l \<Rightarrow> (addr \<times> 'h \<times> 'l) option"
    and rep :: "'h \<Rightarrow> 'l \<Rightarrow> addr list \<Rightarrow> bool"
    and fresh :: "'h \<Rightarrow> addr \<Rightarrow> bool"
  assumes rep_distinct: "rep h l xs \<Longrightarrow> distinct xs"
    and push_law: "rep h l xs \<Longrightarrow> fresh h x \<Longrightarrow> x \<notin> set xs \<Longrightarrow>
      \<exists>h' l'. push h l x = Some (h', l') \<and> rep h' l' (xs @ [x]) \<and>
        (\<forall>y. fresh h y \<and> y \<notin> insert x (set xs) \<longrightarrow> fresh h' y) \<and>
        (\<forall>m ys. rep h m ys \<and> set ys \<inter> insert x (set xs) = {} \<longrightarrow> rep h' m ys)"
    and pop_empty_law: "rep h l [] \<Longrightarrow> pop h l = Some (NULL, h, l)"
    and pop_law: "rep h l (x # xs) \<Longrightarrow>
      \<exists>h' l'. pop h l = Some (x, h', l') \<and> rep h' l' xs \<and> fresh h' x \<and>
        (\<forall>y. fresh h y \<and> y \<notin> set (x # xs) \<longrightarrow> fresh h' y) \<and>
        (\<forall>m ys. rep h m ys \<and> set ys \<inter> set (x # xs) = {} \<longrightarrow> rep h' m ys)"

text \<open>Pushing a sequence of nodes, popping a number of them, and moving the front node of one
  list to the back of another: the ways the components use their lists.\<close>

fun push_all :: "('h \<Rightarrow> 'l \<Rightarrow> addr \<Rightarrow> ('h \<times> 'l) option) \<Rightarrow> 'h \<Rightarrow> 'l \<Rightarrow> addr list \<Rightarrow> ('h \<times> 'l) option" where
  "push_all push h l [] = Some (h, l)"
| "push_all push h l (x # xs) = do { (h, l) \<leftarrow> push h l x; push_all push h l xs }"

fun pop_n :: "('h \<Rightarrow> 'l \<Rightarrow> (addr \<times> 'h \<times> 'l) option) \<Rightarrow> nat \<Rightarrow> 'h \<Rightarrow> 'l \<Rightarrow> (addr list \<times> 'h \<times> 'l) option" where
  "pop_n pop 0 h l = Some ([], h, l)"
| "pop_n pop (Suc n) h l = do {
     (x, h, l) \<leftarrow> pop h l;
     (xs, h, l) \<leftarrow> pop_n pop n h l;
     Some (x # xs, h, l)
   }"

context linked_queue
begin

lemma push_all_rep:
  assumes "rep h l xs" and "\<forall>y \<in> set ys. fresh h y" and "distinct ys" and "set xs \<inter> set ys = {}"
  shows "\<exists>h' l'. push_all push h l ys = Some (h', l') \<and> rep h' l' (xs @ ys)"
  using assms
proof (induction ys arbitrary: h l xs)
  case Nil
  then show ?case by simp
next
  case (Cons y ys)
  then have "fresh h y" "y \<notin> set xs" by auto
  with push_law [OF Cons.prems(1)] obtain h1 l1 where p: "push h l y = Some (h1, l1)"
    "rep h1 l1 (xs @ [y])" "\<forall>z. fresh h z \<and> z \<notin> insert y (set xs) \<longrightarrow> fresh h1 z" by blast
  have "\<forall>z \<in> set ys. fresh h1 z" using p(3) Cons.prems by auto
  then have "\<exists>h' l'. push_all push h1 l1 ys = Some (h', l') \<and> rep h' l' ((xs @ [y]) @ ys)"
    using Cons.prems by (intro Cons.IH [OF p(2)]) auto
  then show ?case using p(1) by simp
qed

lemma pop_n_rep:
  assumes "rep h l (xs @ ys)"
  shows "\<exists>h' l'. pop_n pop (length xs) h l = Some (xs, h', l') \<and> rep h' l' ys"
  using assms
proof (induction xs arbitrary: h l)
  case Nil
  then show ?case by simp
next
  case (Cons x xs)
  then obtain h1 l1 where "pop h l = Some (x, h1, l1)" "rep h1 l1 (xs @ ys)"
    using pop_law [of h l x "xs @ ys"] by auto
  with Cons.IH [of h1 l1] show ?case by auto
qed

lemma fifo:
  assumes "rep h l xs" and "\<forall>y \<in> set ys. fresh h y" and "distinct ys" and "set xs \<inter> set ys = {}"
  shows "\<exists>h' l' h'' l''. push_all push h l ys = Some (h', l') \<and>
           pop_n pop (length (xs @ ys)) h' l' = Some (xs @ ys, h'', l'') \<and>
           rep h'' l'' [] \<and> pop h'' l'' = Some (NULL, h'', l'')"
proof -
  obtain h1 l1 where 1: "push_all push h l ys = Some (h1, l1)" "rep h1 l1 ((xs @ ys) @ [])"
    using push_all_rep [OF assms] by auto
  obtain h2 l2 where 2: "pop_n pop (length (xs @ ys)) h1 l1 = Some (xs @ ys, h2, l2)" "rep h2 l2 []"
    using pop_n_rep [OF 1(2)] by blast
  from 1(1) 2 pop_empty_law [OF 2(2)] show ?thesis by blast
qed

text \<open>The front node of one list goes to the back of another.\<close>

lemma transfer:
  assumes "rep h l (x # xs)" and "rep h m ys" and "set (x # xs) \<inter> set ys = {}"
  shows "\<exists>h1 l1 h2 m2. pop h l = Some (x, h1, l1) \<and> push h1 m x = Some (h2, m2) \<and>
           rep h2 l1 xs \<and> rep h2 m2 (ys @ [x])"
proof -
  obtain h1 l1 where 1: "pop h l = Some (x, h1, l1)" "rep h1 l1 xs" "fresh h1 x" "rep h1 m ys"
    using pop_law [OF assms(1)] assms(2,3) by (metis Int_commute)
  have "x \<notin> set ys" "x \<notin> set xs" using assms(3) rep_distinct [OF assms(1)] by auto
  with 1 assms(3) push_law [OF 1(4) 1(3)] obtain h2 m2 where
    "push h1 m x = Some (h2, m2)" "rep h2 m2 (ys @ [x])" "rep h2 l1 xs"
    by (metis Int_insert_right_if0 inf_commute list.set(2))
  with 1 show ?thesis by blast
qed

end

interpretation objq: linked_queue EdObjList_push_back EdObjList_pop_front ol_rep detached
proof unfold_locales
  fix h l xs assume "ol_rep h l xs" then show "distinct xs" by (rule ol_rep_distinct)
next
  fix h l xs x assume "ol_rep h l xs" "detached h x"
  then obtain h' l' where 1: "EdObjList_push_back h l x = Some (h', l')" "ol_rep h' l' (xs @ [x])"
    "ol_frame (insert x (set xs)) h l h' l'" by (rule push_back_rep)
  then show "\<exists>h' l'. EdObjList_push_back h l x = Some (h', l') \<and> ol_rep h' l' (xs @ [x]) \<and>
    (\<forall>y. detached h y \<and> y \<notin> insert x (set xs) \<longrightarrow> detached h' y) \<and>
    (\<forall>m ys. ol_rep h m ys \<and> set ys \<inter> insert x (set xs) = {} \<longrightarrow> ol_rep h' m ys)"
    using ol_frame_other [OF 1(3)] ol_frame_detached [OF 1(3)] by (metis Int_commute)
next
  fix h l assume "ol_rep h l []"
  then show "EdObjList_pop_front h l = Some (NULL, h, l)" by (rule pop_front_empty)
next
  fix h l x xs assume "ol_rep h l (x # xs)"
  then obtain h' l' where 1: "EdObjList_pop_front h l = Some (x, h', l')" "ol_rep h' l' xs"
    "detached h' x" "ol_frame (set (x # xs)) h l h' l'" by (rule pop_front_rep)
  then show "\<exists>h' l'. EdObjList_pop_front h l = Some (x, h', l') \<and> ol_rep h' l' xs \<and> detached h' x \<and>
    (\<forall>y. detached h y \<and> y \<notin> set (x # xs) \<longrightarrow> detached h' y) \<and>
    (\<forall>m ys. ol_rep h m ys \<and> set ys \<inter> set (x # xs) = {} \<longrightarrow> ol_rep h' m ys)"
    using ol_frame_other [OF 1(4)] ol_frame_detached [OF 1(4)] by (metis Int_commute)
qed

section \<open>Properties of EdObjList\<close>


definition two_objs :: hdr_heap where
  "two_objs = EdObjList_allocObj (EdObjList_allocObj Map.empty 1000) 2000"

lemma two_objs_detached: "detached two_objs 1000" "detached two_objs 2000"
  by (simp_all add: two_objs_def EdObjList_allocObj_def detached_def)


text \<open>C12. Removing any member of an \<^verbatim>\<open>EdObjList\<close> unlinks exactly that object: the others keep
  their order, the size drops by one, every other list of the heap that shares no object with
  it is untouched, and the removed object can be pushed again. Removing an object whose seed
  is not the list's changes nothing.\<close>

theorem objlist_remove:
  assumes "ol_rep h l xs" and "x \<in> set xs" and "ol_rep h m ys" and "set xs \<inter> set ys = {}"
  shows "\<exists>h' l'. EdObjList_remove h l x = Some (h', l') \<and> ol_rep h' l' (remove1 x xs) \<and>
           detached h' x \<and> ol_rep h' m ys \<and> (mSeed l \<noteq> 0 \<longrightarrow> EdObjList_remove h' l' x = Some (h', l'))"
proof -
  obtain h' l' where r: "EdObjList_remove h l x = Some (h', l')" "ol_rep h' l' (remove1 x xs)"
    "detached h' x" "ol_frame (set xs) h l h' l'"
    using remove_rep [OF assms(1,2)] .
  from r(3) obtain n where n: "h' x = Some n" "seed n = 0" by (rule detachedE)
  have "mSeed l' = mSeed l" using r(4) by (simp add: ol_frame_def)
  with n have "mSeed l \<noteq> 0 \<longrightarrow> EdObjList_remove h' l' x = Some (h', l')"
    by (auto intro: remove_foreign)
  then show ?thesis using r ol_frame_other [OF r(4) assms(3,4)] by blast
qed

lemma two_objs_pushed:
  "\<exists>h l. push_all EdObjList_push_back two_objs (EdObjList_new 64) [2000, 1000] = Some (h, l) \<and>
     ol_rep h l [2000, 1000]"
  using objq.push_all_rep [of two_objs "EdObjList_new 64" "[]" "[2000, 1000]"]
  by (simp add: two_objs_detached ol_rep_new)

theorem objlist_remove_witness:
  "\<exists>h l h' l'. ol_rep h l [2000, 1000] \<and> EdObjList_remove h l 2000 = Some (h', l') \<and> ol_rep h' l' [1000]"
proof -
  obtain h l where r: "ol_rep h l [2000, 1000]" using two_objs_pushed by blast
  have "ol_rep h (EdObjList_new 128) []" by (simp add: ol_rep_new)
  with objlist_remove [OF r, of 2000 "EdObjList_new 128" "[]"] r show ?thesis by auto
qed

text \<open>Walking an \<^verbatim>\<open>EdObjList\<close> with \<^verbatim>\<open>front\<close> and \<^verbatim>\<open>next\<close> visits its objects in order and ends
  with the null pointer, and \<^verbatim>\<open>prev\<close> walks them back; inserting behind an object that is not
  the last one puts the new object right after it.\<close>

theorem objlist_insert:
  assumes "ol_rep h l (as @ p # c # bs)" and "detached h x"
  shows "\<exists>h' l'. EdObjList_insert h l p x = Some (h', l') \<and> ol_rep h' l' (as @ p # x # c # bs) \<and>
           EdObjList_next h' p = Some x \<and> EdObjList_next h' x = Some c \<and>
           EdObjList_prev h' c = Some x \<and> EdObjList_end l' = EdObjList_end l"
proof -
  obtain h' l' where r: "EdObjList_insert h l p x = Some (h', l')" "ol_rep h' l' (as @ p # x # c # bs)"
    using insert_rep [OF assms] .
  from next_prev_nth(1) [OF r(2), of "length as"] next_prev_nth(1) [OF r(2), of "Suc (length as)"]
    next_prev_nth(2) [OF r(2), of "Suc (Suc (length as))"]
  have "EdObjList_next h' p = Some x" "EdObjList_next h' x = Some c" "EdObjList_prev h' c = Some x"
    by (auto simp: nth_append)
  moreover have "EdObjList_end l' = EdObjList_end l"
    using ol_rep_end [OF assms(1)] ol_rep_end [OF r(2)] by simp
  ultimately show ?thesis using r by blast
qed

theorem objlist_insert_witness:
  "\<exists>h l h' l'. ol_rep h l [2000, 1000] \<and> EdObjList_insert h l 2000 3000 = Some (h', l') \<and>
     ol_rep h' l' [2000, 3000, 1000]"
proof -
  obtain h l where r: "ol_rep h l [2000, 1000]"
    and p: "push_all EdObjList_push_back two_objs (EdObjList_new 64) [2000, 1000] = Some (h, l)"
    using two_objs_pushed by blast
  let ?h = "h(3000 := Some \<lparr>dprev = NULL, dnext = NULL, seed = 0, hlist = NULL\<rparr>)"
  have "ol_rep ?h l [2000, 1000]" using r by (subst ol_rep_cong [of _ _ h]) auto
  moreover have "detached ?h 3000" by (simp add: detached_def)
  ultimately show ?thesis using objlist_insert [of ?h l "[]" 2000 1000 "[]" 3000] by auto
qed

text \<open>Inserting behind the last object leaves the tail pointer where it was: the new object
  is the successor of the object \<^verbatim>\<open>end()\<close> still returns, so the next \<^verbatim>\<open>push_back\<close> overwrites
  that link and the inserted object is reachable from neither end.\<close>

theorem objlist_insert_at_tail:
  assumes rep: "ol_rep h l (as @ [p])" and x: "detached h x" and y: "detached h y" and xy: "x \<noteq> y"
  shows "\<exists>h1 l1 h2 l2. EdObjList_insert h l p x = Some (h1, l1) \<and> EdObjList_next h1 p = Some x \<and>
           EdObjList_end l1 = p \<and> EdObjList_push_back h1 l1 y = Some (h2, l2) \<and>
           EdObjList_next h2 p = Some y \<and> EdObjList_prev h2 y = Some p \<and> EdObjList_end l2 = y"
proof -
  obtain n where n: "h x = Some n" "seed n = 0" "hlist n = NULL" "x \<noteq> NULL" using x by (rule detachedE)
  obtain m where m: "h y = Some m" "seed m = 0" "hlist m = NULL" "y \<noteq> NULL" using y by (rule detachedE)
  obtain k where k: "h p = Some k" "seed k = mSeed l" using ol_rep_node [OF rep, of p] by auto
  have kn: "dnext k = NULL" and tp: "mptail l = p" "p \<noteq> NULL"
    using rep k by (auto simp: ol_rep_def dl_rep_def links_append)
  have ne: "x \<noteq> p" "y \<noteq> p" using detached_notin [OF rep] x y by auto
  let ?h1 = "h(x \<mapsto> n\<lparr>dprev := p, dnext := NULL, seed := mSeed l, hlist := this l\<rparr>, p \<mapsto> k\<lparr>dnext := x\<rparr>)"
  let ?l1 = "l\<lparr>mSize := mSize l + 1\<rparr>"
  have 1: "EdObjList_insert h l p x = Some (?h1, ?l1)"
    using n k kn ne by (simp add: EdObjList_insert_def dl_insert_def upd_Some fun_upd_twist)
  let ?h2 = "?h1(y \<mapsto> m\<lparr>seed := mSeed l, dprev := p, dnext := NULL, hlist := this l\<rparr>, p \<mapsto> k\<lparr>dnext := y\<rparr>)"
  have 2: "EdObjList_push_back ?h1 ?l1 y = Some (?h2, ?l1\<lparr>mptail := y, mSize := mSize l + 1 + 1\<rparr>)"
    using m xy ne tp by (simp add: EdObjList_push_back_def dl_append_def upd_Some fun_upd_twist)
  show ?thesis
    using 1 2 tp ne by (intro exI conjI) (assumption | simp add: EdObjList_next_def EdObjList_prev_def EdObjList_end_def)+
qed

theorem objlist_insert_at_tail_witness:
  "\<exists>h l h1 l1 h2 l2. ol_rep h l [2000] \<and> EdObjList_insert h l 2000 1000 = Some (h1, l1) \<and>
     EdObjList_push_back h1 l1 3000 = Some (h2, l2) \<and>
     EdObjList_next h2 2000 = Some 3000 \<and> EdObjList_prev h2 3000 = Some 2000"
proof -
  let ?h0 = "EdObjList_allocObj two_objs 3000"
  have d: "detached ?h0 1000" "detached ?h0 2000" "detached ?h0 3000"
    by (simp_all add: two_objs_def EdObjList_allocObj_def detached_def)
  obtain h l where r: "ol_rep h l [2000]" and f: "ol_frame {2000} ?h0 (EdObjList_new 64) h l"
    by (rule push_back_rep [OF ol_rep_new [of 64 ?h0] d(2)]) simp_all
  have "detached h 1000" "detached h 3000" using ol_frame_detached [OF f] d by simp_all
  with objlist_insert_at_tail [of h l "[]" 2000 1000 3000] r show ?thesis by fastforce
qed

end
