(* ===== verification/EsLists.thy ===== *)
theory EsLists
  imports EdLists
begin

text \<open>
  The two older list classes, \<^verbatim>\<open>EsList\<close> (\<^verbatim>\<open>src/ednio/EsList.h\<close>) and \<^verbatim>\<open>EsList2\<close>
  (\<^verbatim>\<open>src/ednio/EsList2.h\<close>), over the linking code of \<open>EdLists\<close>. Both are shown to provide the
  queue interface \<open>linked_queue\<close>; unlike \<^verbatim>\<open>EdObjList\<close> they add a node without checking that it
  is in no list.
\<close>

section \<open>EsList and EsList2\<close>

text \<open>\<^verbatim>\<open>EsList<T>::Node\<close> and \<^verbatim>\<open>EsListNode<T>\<close>. The second has no back pointer to its list and
  carries a user word.\<close>

record 'a EsNode = dnode +
  nlist :: addr
  nobj :: 'a

record 'a EsListNode = dnode +
  user :: u64
  obj2 :: 'a

type_synonym 'a es_heap = "addr \<rightharpoonup> 'a EsNode"
type_synonym 'a es2_heap = "addr \<rightharpoonup> 'a EsListNode"

definition EsList_new :: "addr \<Rightarrow> list_obj" where
  "EsList_new self = \<lparr>this = self, mphead = NULL, mptail = NULL, mSeed = list_seed self, mSize = 0\<rparr>"

definition EsList_add :: "'a es_heap \<Rightarrow> list_obj \<Rightarrow> addr \<Rightarrow> ('a es_heap \<times> list_obj) option" where
  "EsList_add h l x = do {
     h \<leftarrow> upd h x (\<lambda>n. n\<lparr>seed := mSeed l\<rparr>);
     (h, hp, tp) \<leftarrow> dl_append h (mphead l) (mptail l) x;
     h \<leftarrow> upd h x (\<lambda>n. n\<lparr>nlist := this l\<rparr>);
     Some (h, l\<lparr>mphead := hp, mptail := tp, mSize := mSize l + 1\<rparr>)
   }"

definition EsList_insert :: "'a es_heap \<Rightarrow> list_obj \<Rightarrow> addr \<Rightarrow> addr \<Rightarrow> ('a es_heap \<times> list_obj) option" where
  "EsList_insert h l p x = do {
     pn \<leftarrow> h p;
     (if seed pn \<noteq> mSeed l then Some (h, l)
      else do {
        h \<leftarrow> dl_insert h p x;
        h \<leftarrow> upd h x (\<lambda>n. n\<lparr>seed := mSeed l\<rparr>);
        h \<leftarrow> upd h x (\<lambda>n. n\<lparr>nlist := this l\<rparr>);
        Some (h, l\<lparr>mSize := mSize l + 1\<rparr>)
      })
   }"

definition EsList_del :: "'a es_heap \<Rightarrow> list_obj \<Rightarrow> addr \<Rightarrow> ('a es_heap \<times> list_obj) option" where
  "EsList_del h l x = do {
     n \<leftarrow> h x;
     (if seed n \<noteq> mSeed l then Some (h, l)
      else do {
        (h, hp, tp) \<leftarrow> dl_unlink h (mphead l) (mptail l) x;
        h \<leftarrow> upd h x (\<lambda>n. n\<lparr>seed := 0\<rparr>);
        h \<leftarrow> upd h x (\<lambda>n. n\<lparr>nlist := NULL\<rparr>);
        Some (h, l\<lparr>mphead := hp, mptail := tp, mSize := mSize l - 1\<rparr>)
      })
   }"

definition EsList_pop_head :: "'a es_heap \<Rightarrow> list_obj \<Rightarrow> (addr \<times> 'a es_heap \<times> list_obj) option" where
  "EsList_pop_head h l =
     (let ret = mphead l in
      if mphead l \<noteq> NULL then do { (h, l) \<leftarrow> EsList_del h l (mphead l); Some (ret, h, l) }
      else Some (ret, h, l))"

definition EsList_pop_tail :: "'a es_heap \<Rightarrow> list_obj \<Rightarrow> (addr \<times> 'a es_heap \<times> list_obj) option" where
  "EsList_pop_tail h l =
     (let ret = mptail l in
      if mptail l \<noteq> NULL then do { (h, l) \<leftarrow> EsList_del h l (mptail l); Some (ret, h, l) }
      else Some (ret, h, l))"

definition EsList_getSize :: "list_obj \<Rightarrow> int" where
  "EsList_getSize l = sint (mSize l)"

definition EsList2_add :: "'a es2_heap \<Rightarrow> list_obj \<Rightarrow> addr \<Rightarrow> ('a es2_heap \<times> list_obj) option" where
  "EsList2_add h l x = do {
     h \<leftarrow> upd h x (\<lambda>n. n\<lparr>seed := mSeed l\<rparr>);
     (h, hp, tp) \<leftarrow> dl_append h (mphead l) (mptail l) x;
     Some (h, l\<lparr>mphead := hp, mptail := tp, mSize := mSize l + 1\<rparr>)
   }"

definition EsList2_insert :: "'a es2_heap \<Rightarrow> list_obj \<Rightarrow> addr \<Rightarrow> addr \<Rightarrow> ('a es2_heap \<times> list_obj) option" where
  "EsList2_insert h l p x = do {
     pn \<leftarrow> h p;
     (if seed pn \<noteq> mSeed l then Some (h, l)
      else do {
        h \<leftarrow> dl_insert h p x;
        h \<leftarrow> upd h x (\<lambda>n. n\<lparr>seed := mSeed l\<rparr>);
        Some (h, l\<lparr>mSize := mSize l + 1\<rparr>)
      })
   }"

definition EsList2_del :: "'a es2_heap \<Rightarrow> list_obj \<Rightarrow> addr \<Rightarrow> ('a es2_heap \<times> list_obj) option" where
  "EsList2_del h l x = do {
     n \<leftarrow> h x;
     (if seed n \<noteq> mSeed l then Some (h, l)
      else do {
        (h, hp, tp) \<leftarrow> dl_unlink h (mphead l) (mptail l) x;
        h \<leftarrow> upd h x (\<lambda>n. n\<lparr>seed := 0\<rparr>);
        Some (h, l\<lparr>mphead := hp, mptail := tp, mSize := mSize l - 1\<rparr>)
      })
   }"

definition EsList2_pop_head :: "'a es2_heap \<Rightarrow> list_obj \<Rightarrow> (addr \<times> 'a es2_heap \<times> list_obj) option" where
  "EsList2_pop_head h l =
     (let ret = mphead l in
      if mphead l \<noteq> NULL then do { (h, l) \<leftarrow> EsList2_del h l (mphead l); Some (ret, h, l) }
      else Some (ret, h, l))"

definition EsList2_pop_tail :: "'a es2_heap \<Rightarrow> list_obj \<Rightarrow> (addr \<times> 'a es2_heap \<times> list_obj) option" where
  "EsList2_pop_tail h l =
     (let ret = mptail l in
      if mptail l \<noteq> NULL then do { (h, l) \<leftarrow> EsList2_del h l (mptail l); Some (ret, h, l) }
      else Some (ret, h, l))"

text \<open>\<^verbatim>\<open>EsList2()\<close> is the same code as \<^verbatim>\<open>EsList()\<close>. The readers, and the nodes: \<^verbatim>\<open>new Node()\<close> clears the fields,
  \<^verbatim>\<open>obj0\<close> is the default value of the element type. \<^verbatim>\<open>Node::remove\<close> goes through the back pointer to the
  list objects \<open>ls\<close>.\<close>

definition EsList2_new :: "addr \<Rightarrow> list_obj" where
  "EsList2_new self = \<lparr>this = self, mphead = NULL, mptail = NULL, mSeed = list_seed self, mSize = 0\<rparr>"

definition EsList_head :: "list_obj \<Rightarrow> addr" where
  "EsList_head l = mphead l"

definition EsList_tail :: "list_obj \<Rightarrow> addr" where
  "EsList_tail l = mptail l"

definition EsList_next :: "'n dheap \<Rightarrow> addr \<Rightarrow> addr option" where
  "EsList_next h x = map_option dnext (h x)"

definition EsList_prev :: "'n dheap \<Rightarrow> addr \<Rightarrow> addr option" where
  "EsList_prev h x = map_option dprev (h x)"

definition EsList_allocNode :: "'a \<Rightarrow> 'a es_heap \<Rightarrow> addr \<Rightarrow> 'a es_heap" where
  "EsList_allocNode obj0 h a = h(a \<mapsto> \<lparr>dprev = NULL, dnext = NULL, seed = 0, nlist = NULL, nobj = obj0\<rparr>)"

definition EsList_freeNode :: "'a es_heap \<Rightarrow> addr \<Rightarrow> 'a es_heap option" where
  "EsList_freeNode h a = (if a = NULL then Some h else if h a = None then None else Some (h(a := None)))"

definition EsListNode_new :: "u64 \<Rightarrow> 'a \<Rightarrow> 'a EsListNode" where
  "EsListNode_new w c = \<lparr>dprev = NULL, dnext = NULL, seed = 0, user = w, obj2 = c\<rparr>"

definition EsNode_remove :: "'a es_heap \<Rightarrow> (addr \<rightharpoonup> list_obj) \<Rightarrow> addr \<Rightarrow> ('a es_heap \<times> (addr \<rightharpoonup> list_obj)) option" where
  "EsNode_remove h ls x = do {
     n \<leftarrow> h x;
     l \<leftarrow> ls (nlist n);
     (h, l) \<leftarrow> EsList_del h l x;
     Some (h, ls(nlist n \<mapsto> l))
   }"

text \<open>Both classes represent a list of nodes by the links alone; a node may be added when it is
  allocated and not in the list.\<close>

definition es_rep :: "'n dheap \<Rightarrow> list_obj \<Rightarrow> addr list \<Rightarrow> bool" where
  "es_rep h l xs \<longleftrightarrow> dl_rep h (mSeed l) (mphead l) (mptail l) xs \<and> mSize l = of_nat (length xs)"

definition es_node :: "(addr \<rightharpoonup> 'n) \<Rightarrow> addr \<Rightarrow> bool" where
  "es_node h x \<longleftrightarrow> x \<noteq> NULL \<and> h x \<noteq> None"

lemma es_rep_cong: "(\<And>x. x \<in> set xs \<Longrightarrow> h' x = h x) \<Longrightarrow> es_rep h' l xs = es_rep h l xs"
  using dl_rep_cong [of xs h' h "mSeed l" "mphead l" "mptail l"] by (simp add: es_rep_def)

lemma es_rep_new: "es_rep h (EsList_new self) []"
  by (simp add: es_rep_def EsList_new_def)

text \<open>Writing to the fields past the header does not change what the links represent.\<close>

lemma links_more:
  "h x = Some n \<Longrightarrow> dprev m = dprev n \<Longrightarrow> dnext m = dnext n \<Longrightarrow> seed m = seed n \<Longrightarrow>
     links (h(x \<mapsto> m)) s p xs q = links h s p xs q"
  by (induction xs arbitrary: p) auto

lemma dl_rep_more:
  "h x = Some n \<Longrightarrow> dprev m = dprev n \<Longrightarrow> dnext m = dnext n \<Longrightarrow> seed m = seed n \<Longrightarrow>
     dl_rep (h(x \<mapsto> m)) s hp tp xs = dl_rep h s hp tp xs"
  by (simp add: dl_rep_def links_more)

text \<open>The linking part of \<^verbatim>\<open>add\<close> and \<^verbatim>\<open>del\<close>, common to both classes.\<close>

lemma dl_frame_more: "dl_frame A h h' \<Longrightarrow> map_option dnode.more (h' y) = map_option dnode.more (h y)"
  by (cases "h' y"; cases "h y") (auto simp: dl_frame_def meta_def dest: spec [of _ y])

lemma nobj_more: "dnode.more m = dnode.more n \<Longrightarrow> nobj m = nobj n" for m n :: "'a EsNode"
  by (cases m; cases n) simp

lemma nobj_keep:
  fixes h h1 :: "'a es_heap"
  assumes "\<forall>y. map_option dnode.more (h1 y) = map_option dnode.more (h y)"
  shows "map_option nobj (h1 y) = map_option nobj (h y)"
  using assms [rule_format, of y] by (cases "h1 y"; cases "h y") (auto intro: nobj_more)

lemma es_link:
  fixes h :: "'n dheap"
  assumes rep: "es_rep h l xs" and node: "es_node h x" and nx: "x \<notin> set xs"
  obtains n h1 hp v where "h x = Some n"
    "dl_append (h(x \<mapsto> n\<lparr>seed := mSeed l\<rparr>)) (mphead l) (mptail l) x = Some (h1, hp, x)"
    "h1 x = Some v" "dl_rep h1 (mSeed l) hp x (xs @ [x])"
    "\<forall>y. y \<notin> insert x (set xs) \<longrightarrow> h1 y = h y" "dom h1 = dom h"
    "\<forall>y. map_option dnode.more (h1 y) = map_option dnode.more (h y)"
proof -
  from node obtain n where n: "h x = Some n" "x \<noteq> NULL" by (auto simp: es_node_def)
  let ?h = "h(x \<mapsto> n\<lparr>seed := mSeed l\<rparr>)"
  have r: "dl_rep ?h (mSeed l) (mphead l) (mptail l) xs"
    using rep nx by (simp add: es_rep_def dl_rep_other)
  have hx: "?h x = Some (n\<lparr>seed := mSeed l\<rparr>)" "seed (n\<lparr>seed := mSeed l\<rparr>) = mSeed l" by simp_all
  obtain h1 hp where h1: "dl_append ?h (mphead l) (mptail l) x = Some (h1, hp, x)"
    "dl_rep h1 (mSeed l) hp x (xs @ [x])" "dl_frame (insert x (set xs)) ?h h1"
    by (rule dl_append_rep [OF r hx nx n(2)])
  moreover have "\<forall>y. y \<notin> insert x (set xs) \<longrightarrow> h1 y = h y" using h1(3) by (simp add: dl_frame_def)
  moreover have "dom h1 = dom h" using dl_frame_dom [OF h1(3)] n(1) by auto
  moreover obtain v where "h1 x = Some v" using dl_rep_SomeD [OF h1(2), of x] by auto
  moreover have "\<forall>y. map_option dnode.more (h1 y) = map_option dnode.more (h y)"
    using dl_frame_more [OF h1(3)] n(1) by (metis (no_types, lifting) dnode.select_convs(4)
        dnode.surjective dnode.update_convs(3) fun_upd_apply option.simps(9))
  ultimately show ?thesis using n that by blast
qed

lemma es_unlink:
  fixes h :: "'n dheap"
  assumes rep: "es_rep h l (as @ x # bs)"
  obtains n h1 hp tp where "h x = Some n" "seed n = mSeed l" "x \<noteq> NULL"
    "dl_unlink h (mphead l) (mptail l) x = Some (h1, hp, tp)" "h1 x = Some n"
    "dl_rep h1 (mSeed l) hp tp (as @ bs)" "x \<notin> set (as @ bs)"
    "\<forall>y. y \<notin> set (as @ bs) \<longrightarrow> h1 y = h y" "dom h1 = dom h" "mSize l - 1 = of_nat (length (as @ bs))"
    "\<forall>y. map_option dnode.more (h1 y) = map_option dnode.more (h y)"
proof -
  have r: "dl_rep h (mSeed l) (mphead l) (mptail l) (as @ x # bs)" using rep by (simp add: es_rep_def)
  then obtain h1 hp tp where h1: "dl_unlink h (mphead l) (mptail l) x = Some (h1, hp, tp)"
    "dl_rep h1 (mSeed l) hp tp (as @ bs)" "dl_frame (set (as @ bs)) h h1"
    by (rule dl_unlink_rep)
  obtain n where n: "h x = Some n" "seed n = mSeed l" using dl_rep_SomeD [OF r, of x] by auto
  have nx: "x \<notin> set (as @ bs)" "x \<noteq> NULL" using r by (auto simp: dl_rep_def)
  show ?thesis using that [OF n nx(2) h1(1) _ h1(2) nx(1) _ dl_frame_dom [OF h1(3)]] rep h1(3) nx n
    dl_frame_more [OF h1(3)] by (simp add: dl_frame_def es_rep_def)
qed

lemma es_rest:
  assumes "\<forall>y. y \<notin> A \<longrightarrow> h' y = h y" and "dom h' = dom h"
  shows "\<forall>m ys. es_rep h m ys \<and> set ys \<inter> A = {} \<longrightarrow> es_rep h' m ys"
    and "\<forall>y. es_node h y \<longrightarrow> es_node h' y"
proof -
  show "\<forall>m ys. es_rep h m ys \<and> set ys \<inter> A = {} \<longrightarrow> es_rep h' m ys"
    using assms(1) es_rep_cong [of _ h' h] by blast
  show "\<forall>y. es_node h y \<longrightarrow> es_node h' y" using assms(2) unfolding es_node_def by (metis domIff)
qed

lemma EsList_add_rep:
  assumes "es_rep h l xs" and "es_node h x" and "x \<notin> set xs"
  obtains h' l' where "EsList_add h l x = Some (h', l')" "es_rep h' l' (xs @ [x])"
    "\<forall>y. y \<notin> insert x (set xs) \<longrightarrow> h' y = h y" "dom h' = dom h"
    "this l' = this l" "mSeed l' = mSeed l" "\<forall>y. map_option nobj (h' y) = map_option nobj (h y)"
proof -
  from assms obtain n h1 hp v where *: "h x = Some n"
    "dl_append (h(x \<mapsto> n\<lparr>seed := mSeed l\<rparr>)) (mphead l) (mptail l) x = Some (h1, hp, x)"
    "h1 x = Some v" "dl_rep h1 (mSeed l) hp x (xs @ [x])"
    "\<forall>y. y \<notin> insert x (set xs) \<longrightarrow> h1 y = h y" "dom h1 = dom h"
    "\<forall>y. map_option dnode.more (h1 y) = map_option dnode.more (h y)" by (rule es_link)
  show ?thesis
    using * assms(1) nobj_keep [OF *(7)] nobj_keep [OF *(7), of x]
    by (intro that [of "h1(x \<mapsto> v\<lparr>nlist := this l\<rparr>)" "l\<lparr>mphead := hp, mptail := x, mSize := mSize l + 1\<rparr>"])
      (auto simp: EsList_add_def upd_Some es_rep_def dl_rep_more)
qed

lemma EsList2_add_rep:
  assumes "es_rep h l xs" and "es_node h x" and "x \<notin> set xs"
  obtains h' l' where "EsList2_add h l x = Some (h', l')" "es_rep h' l' (xs @ [x])"
    "\<forall>y. y \<notin> insert x (set xs) \<longrightarrow> h' y = h y" "dom h' = dom h"
proof -
  from assms obtain n h1 hp v where *: "h x = Some n"
    "dl_append (h(x \<mapsto> n\<lparr>seed := mSeed l\<rparr>)) (mphead l) (mptail l) x = Some (h1, hp, x)"
    "h1 x = Some v" "dl_rep h1 (mSeed l) hp x (xs @ [x])"
    "\<forall>y. y \<notin> insert x (set xs) \<longrightarrow> h1 y = h y" "dom h1 = dom h"
    "\<forall>y. map_option dnode.more (h1 y) = map_option dnode.more (h y)" by (rule es_link)
  show ?thesis
    using * assms(1)
    by (intro that [of h1 "l\<lparr>mphead := hp, mptail := x, mSize := mSize l + 1\<rparr>"])
      (auto simp: EsList2_add_def upd_Some es_rep_def)
qed

lemma EsList_del_rep:
  assumes "es_rep h l (as @ x # bs)"
  obtains h' l' where "EsList_del h l x = Some (h', l')" "es_rep h' l' (as @ bs)" "es_node h' x"
    "\<forall>y. y \<notin> set (as @ x # bs) \<longrightarrow> h' y = h y" "dom h' = dom h"
    "this l' = this l" "mSeed l' = mSeed l" "map_option seed (h' x) = Some 0"
    "\<forall>y. map_option nobj (h' y) = map_option nobj (h y)"
proof -
  from assms obtain n h1 hp tp where *: "h x = Some n" "seed n = mSeed l" "x \<noteq> NULL"
    "dl_unlink h (mphead l) (mptail l) x = Some (h1, hp, tp)" "h1 x = Some n"
    "dl_rep h1 (mSeed l) hp tp (as @ bs)" "x \<notin> set (as @ bs)"
    "\<forall>y. y \<notin> set (as @ bs) \<longrightarrow> h1 y = h y" "dom h1 = dom h" "mSize l - 1 = of_nat (length (as @ bs))"
    "\<forall>y. map_option dnode.more (h1 y) = map_option dnode.more (h y)"
    by (rule es_unlink)
  show ?thesis
    using * nobj_keep [OF *(11)]
    by (intro that [of "h1(x \<mapsto> n\<lparr>seed := 0, nlist := NULL\<rparr>)" "l\<lparr>mphead := hp, mptail := tp, mSize := mSize l - 1\<rparr>"])
      (auto simp: EsList_del_def upd_Some es_rep_def dl_rep_other es_node_def)
qed

lemma EsList2_del_rep:
  assumes "es_rep h l (as @ x # bs)"
  obtains h' l' where "EsList2_del h l x = Some (h', l')" "es_rep h' l' (as @ bs)" "es_node h' x"
    "\<forall>y. y \<notin> set (as @ x # bs) \<longrightarrow> h' y = h y" "dom h' = dom h"
proof -
  from assms obtain n h1 hp tp where *: "h x = Some n" "seed n = mSeed l" "x \<noteq> NULL"
    "dl_unlink h (mphead l) (mptail l) x = Some (h1, hp, tp)" "h1 x = Some n"
    "dl_rep h1 (mSeed l) hp tp (as @ bs)" "x \<notin> set (as @ bs)"
    "\<forall>y. y \<notin> set (as @ bs) \<longrightarrow> h1 y = h y" "dom h1 = dom h" "mSize l - 1 = of_nat (length (as @ bs))"
    "\<forall>y. map_option dnode.more (h1 y) = map_option dnode.more (h y)"
    by (rule es_unlink)
  show ?thesis
    using *
    by (intro that [of "h1(x \<mapsto> n\<lparr>seed := 0\<rparr>)" "l\<lparr>mphead := hp, mptail := tp, mSize := mSize l - 1\<rparr>"])
      (auto simp: EsList2_del_def upd_Some es_rep_def dl_rep_other es_node_def)
qed

lemma es_rep_head: "es_rep h l (x # xs) \<Longrightarrow> mphead l = x \<and> x \<noteq> NULL"
  by (auto simp: es_rep_def dl_rep_def)

lemma EsList_pop_head_rep:
  assumes rep: "es_rep h l (x # xs)"
  obtains h' l' where "EsList_pop_head h l = Some (x, h', l')" "es_rep h' l' xs" "es_node h' x"
    "\<forall>y. y \<notin> set (x # xs) \<longrightarrow> h' y = h y" "dom h' = dom h"
    "this l' = this l" "mSeed l' = mSeed l"
    "\<forall>y. map_option nobj (h' y) = map_option nobj (h y)"
proof -
  obtain h' l' where "EsList_del h l x = Some (h', l')" "es_rep h' l' ([] @ xs)" "es_node h' x"
    "\<forall>y. y \<notin> set ([] @ x # xs) \<longrightarrow> h' y = h y" "dom h' = dom h" "this l' = this l" "mSeed l' = mSeed l"
    "\<forall>y. map_option nobj (h' y) = map_option nobj (h y)"
    using rep by (rule EsList_del_rep [of h l "[]" x xs, simplified]) simp
  with es_rep_head [OF rep] show ?thesis by (intro that [of h' l']) (simp_all add: EsList_pop_head_def)
qed

lemma EsList2_pop_head_rep:
  assumes rep: "es_rep h l (x # xs)"
  obtains h' l' where "EsList2_pop_head h l = Some (x, h', l')" "es_rep h' l' xs" "es_node h' x"
    "\<forall>y. y \<notin> set (x # xs) \<longrightarrow> h' y = h y" "dom h' = dom h"
proof -
  obtain h' l' where "EsList2_del h l x = Some (h', l')" "es_rep h' l' ([] @ xs)" "es_node h' x"
    "\<forall>y. y \<notin> set ([] @ x # xs) \<longrightarrow> h' y = h y" "dom h' = dom h"
    using rep by (rule EsList2_del_rep [of h l "[]" x xs, simplified]) simp
  with es_rep_head [OF rep] show ?thesis by (intro that [of h' l']) (simp_all add: EsList2_pop_head_def)
qed

interpretation esq: linked_queue EsList_add EsList_pop_head es_rep es_node
proof unfold_locales
  fix h :: "'a es_heap" and l xs assume "es_rep h l xs"
  then show "distinct xs" by (simp add: es_rep_def dl_rep_def)
next
  fix h :: "'a es_heap" and l xs x assume "es_rep h l xs" "es_node h x" "x \<notin> set xs"
  then obtain h' l' where 1: "EsList_add h l x = Some (h', l')" "es_rep h' l' (xs @ [x])"
    "\<forall>y. y \<notin> insert x (set xs) \<longrightarrow> h' y = h y" "dom h' = dom h" "this l' = this l" "mSeed l' = mSeed l"
    "\<forall>y. map_option nobj (h' y) = map_option nobj (h y)" by (rule EsList_add_rep)
  then show "\<exists>h' l'. EsList_add h l x = Some (h', l') \<and> es_rep h' l' (xs @ [x]) \<and>
    (\<forall>y. es_node h y \<and> y \<notin> insert x (set xs) \<longrightarrow> es_node h' y) \<and>
    (\<forall>m ys. es_rep h m ys \<and> set ys \<inter> insert x (set xs) = {} \<longrightarrow> es_rep h' m ys)"
    using es_rest [OF 1(3,4)] by blast
next
  fix h :: "'a es_heap" and l assume "es_rep h l []"
  then show "EsList_pop_head h l = Some (NULL, h, l)"
    by (simp add: EsList_pop_head_def es_rep_def dl_rep_def)
next
  fix h :: "'a es_heap" and l x xs assume "es_rep h l (x # xs)"
  then obtain h' l' where 1: "EsList_pop_head h l = Some (x, h', l')" "es_rep h' l' xs" "es_node h' x"
    "\<forall>y. y \<notin> set (x # xs) \<longrightarrow> h' y = h y" "dom h' = dom h" "this l' = this l" "mSeed l' = mSeed l"
    "\<forall>y. map_option nobj (h' y) = map_option nobj (h y)" by (rule EsList_pop_head_rep)
  then show "\<exists>h' l'. EsList_pop_head h l = Some (x, h', l') \<and> es_rep h' l' xs \<and> es_node h' x \<and>
    (\<forall>y. es_node h y \<and> y \<notin> set (x # xs) \<longrightarrow> es_node h' y) \<and>
    (\<forall>m ys. es_rep h m ys \<and> set ys \<inter> set (x # xs) = {} \<longrightarrow> es_rep h' m ys)"
    using es_rest [OF 1(4,5)] by blast
qed

interpretation esq2: linked_queue EsList2_add EsList2_pop_head es_rep es_node
proof unfold_locales
  fix h :: "'a es2_heap" and l xs assume "es_rep h l xs"
  then show "distinct xs" by (simp add: es_rep_def dl_rep_def)
next
  fix h :: "'a es2_heap" and l xs x assume "es_rep h l xs" "es_node h x" "x \<notin> set xs"
  then obtain h' l' where 1: "EsList2_add h l x = Some (h', l')" "es_rep h' l' (xs @ [x])"
    "\<forall>y. y \<notin> insert x (set xs) \<longrightarrow> h' y = h y" "dom h' = dom h"  by (rule EsList2_add_rep)
  then show "\<exists>h' l'. EsList2_add h l x = Some (h', l') \<and> es_rep h' l' (xs @ [x]) \<and>
    (\<forall>y. es_node h y \<and> y \<notin> insert x (set xs) \<longrightarrow> es_node h' y) \<and>
    (\<forall>m ys. es_rep h m ys \<and> set ys \<inter> insert x (set xs) = {} \<longrightarrow> es_rep h' m ys)"
    using es_rest [OF 1(3,4)] by blast
next
  fix h :: "'a es2_heap" and l assume "es_rep h l []"
  then show "EsList2_pop_head h l = Some (NULL, h, l)"
    by (simp add: EsList2_pop_head_def es_rep_def dl_rep_def)
next
  fix h :: "'a es2_heap" and l x xs assume "es_rep h l (x # xs)"
  then obtain h' l' where 1: "EsList2_pop_head h l = Some (x, h', l')" "es_rep h' l' xs" "es_node h' x"
    "\<forall>y. y \<notin> set (x # xs) \<longrightarrow> h' y = h y" "dom h' = dom h"  by (rule EsList2_pop_head_rep)
  then show "\<exists>h' l'. EsList2_pop_head h l = Some (x, h', l') \<and> es_rep h' l' xs \<and> es_node h' x \<and>
    (\<forall>y. es_node h y \<and> y \<notin> set (x # xs) \<longrightarrow> es_node h' y) \<and>
    (\<forall>m ys. es_rep h m ys \<and> set ys \<inter> set (x # xs) = {} \<longrightarrow> es_rep h' m ys)"
    using es_rest [OF 1(4,5)] by blast
qed

section \<open>The two classes agree\<close>

text \<open>What the links of a heap are, whatever else a node carries; the linking code commutes with the
  projection.\<close>

definition link_view :: "'n dheap \<Rightarrow> addr \<rightharpoonup> dnode" where
  "link_view h = map_option dnode.truncate \<circ> h"

lemma link_view_app: "link_view h x = map_option dnode.truncate (h x)"
  by (simp add: link_view_def)

lemma truncate_fields [simp]:
  "dprev (dnode.truncate n) = dprev n" "dnext (dnode.truncate n) = dnext n" "seed (dnode.truncate n) = seed n"
  by (simp_all add: dnode.truncate_def)

lemma link_view_upd: "link_view (h(x \<mapsto> n)) = (link_view h)(x \<mapsto> dnode.truncate n)"
  by (auto simp: link_view_def)

lemma upd_view:
  assumes "\<And>n. dnode.truncate (f n) = g (dnode.truncate n)"
  shows "upd (link_view h) x g = map_option link_view (upd h x f)"
  using assms by (cases "h x") (simp_all add: upd_def link_view_app link_view_upd)

lemma truncate_upd:
  "dnode.truncate (n\<lparr>dprev := a\<rparr>) = (dnode.truncate n)\<lparr>dprev := a\<rparr>"
  "dnode.truncate (n\<lparr>dnext := a\<rparr>) = (dnode.truncate n)\<lparr>dnext := a\<rparr>"
  "dnode.truncate (n\<lparr>seed := s\<rparr>) = (dnode.truncate n)\<lparr>seed := s\<rparr>"
  by (simp_all add: dnode.truncate_def)

lemma upd_links:
  "upd (link_view h) x (\<lambda>n. n\<lparr>dprev := a\<rparr>) = map_option link_view (upd h x (\<lambda>n. n\<lparr>dprev := a\<rparr>))"
  "upd (link_view h) x (\<lambda>n. n\<lparr>dnext := a\<rparr>) = map_option link_view (upd h x (\<lambda>n. n\<lparr>dnext := a\<rparr>))"
  "upd (link_view h) x (\<lambda>n. n\<lparr>seed := s\<rparr>) = map_option link_view (upd h x (\<lambda>n. n\<lparr>seed := s\<rparr>))"
  by (rule upd_view, simp add: truncate_upd)+

lemma bind_view: "Option.bind (map_option f m) k = Option.bind m (k \<circ> f)"
  by (cases m) simp_all

lemma map_bind_option: "map_option f (Option.bind m k) = Option.bind m (map_option f \<circ> k)"
  by (cases m) simp_all

lemmas view_simps = upd_links bind_view map_bind_option o_def link_view_app

lemma dl_append_view:
  "dl_append (link_view h) hp tp x = map_option (\<lambda>(h, r). (link_view h, r)) (dl_append h hp tp x)"
  by (simp add: dl_append_def view_simps)

lemma dl_insert_view: "dl_insert (link_view h) p x = map_option link_view (dl_insert h p x)"
  by (simp add: dl_insert_def view_simps if_distrib [of "map_option link_view"] cong: if_cong)

lemma dl_unlink_view:
  "dl_unlink (link_view h) hp tp x = map_option (\<lambda>(h, r). (link_view h, r)) (dl_unlink h hp tp x)"
proof (cases "h x")
  case (Some n)
  then show ?thesis by (cases "dprev n = NULL"; cases "dnext n = NULL") (simp_all add: dl_unlink_def view_simps Let_def)
qed (simp add: dl_unlink_def view_simps)

text \<open>A run of operations on a list of one of the classes, given by its operations; the removed nodes are the
  results.\<close>

datatype es_op = Add addr | Insert addr addr | Del addr | Pop_head | Pop_tail

type_synonym 'n es_step = "'n dheap \<Rightarrow> list_obj \<Rightarrow> (addr \<times> 'n dheap \<times> list_obj) option"

definition quiet :: "('n dheap \<times> list_obj) option \<Rightarrow> (addr \<times> 'n dheap \<times> list_obj) option" where
  "quiet = map_option (\<lambda>r. (NULL, r))"

fun EsList_step :: "es_op \<Rightarrow> 'a es_heap \<Rightarrow> list_obj \<Rightarrow> (addr \<times> 'a es_heap \<times> list_obj) option" where
  "EsList_step (Add x) h l = quiet (EsList_add h l x)"
| "EsList_step (Insert p x) h l = quiet (EsList_insert h l p x)"
| "EsList_step (Del x) h l = quiet (EsList_del h l x)"
| "EsList_step Pop_head h l = EsList_pop_head h l"
| "EsList_step Pop_tail h l = EsList_pop_tail h l"

fun EsList2_step :: "es_op \<Rightarrow> 'a es2_heap \<Rightarrow> list_obj \<Rightarrow> (addr \<times> 'a es2_heap \<times> list_obj) option" where
  "EsList2_step (Add x) h l = quiet (EsList2_add h l x)"
| "EsList2_step (Insert p x) h l = quiet (EsList2_insert h l p x)"
| "EsList2_step (Del x) h l = quiet (EsList2_del h l x)"
| "EsList2_step Pop_head h l = EsList2_pop_head h l"
| "EsList2_step Pop_tail h l = EsList2_pop_tail h l"

fun es_run :: "(es_op \<Rightarrow> 'n es_step) \<Rightarrow> es_op list \<Rightarrow> 'n dheap \<Rightarrow> list_obj \<Rightarrow> (addr list \<times> 'n dheap \<times> list_obj) option" where
  "es_run st [] h l = Some ([], h, l)"
| "es_run st (c # cs) h l =
     Option.bind (st c h l) (\<lambda>(r, h, l). map_option (\<lambda>(rs, s). (r # rs, s)) (es_run st cs h l))"

text \<open>The common reference: the operations over the links alone.\<close>

definition ref_add :: "unit dheap \<Rightarrow> list_obj \<Rightarrow> addr \<Rightarrow> (unit dheap \<times> list_obj) option" where
  "ref_add h l x = do {
     h \<leftarrow> upd h x (\<lambda>n. n\<lparr>seed := mSeed l\<rparr>);
     (h, hp, tp) \<leftarrow> dl_append h (mphead l) (mptail l) x;
     Some (h, l\<lparr>mphead := hp, mptail := tp, mSize := mSize l + 1\<rparr>)
   }"

definition ref_insert :: "unit dheap \<Rightarrow> list_obj \<Rightarrow> addr \<Rightarrow> addr \<Rightarrow> (unit dheap \<times> list_obj) option" where
  "ref_insert h l p x = do {
     pn \<leftarrow> h p;
     (if seed pn \<noteq> mSeed l then Some (h, l)
      else do {
        h \<leftarrow> dl_insert h p x;
        h \<leftarrow> upd h x (\<lambda>n. n\<lparr>seed := mSeed l\<rparr>);
        Some (h, l\<lparr>mSize := mSize l + 1\<rparr>)
      })
   }"

definition ref_del :: "unit dheap \<Rightarrow> list_obj \<Rightarrow> addr \<Rightarrow> (unit dheap \<times> list_obj) option" where
  "ref_del h l x = do {
     n \<leftarrow> h x;
     (if seed n \<noteq> mSeed l then Some (h, l)
      else do {
        (h, hp, tp) \<leftarrow> dl_unlink h (mphead l) (mptail l) x;
        h \<leftarrow> upd h x (\<lambda>n. n\<lparr>seed := 0\<rparr>);
        Some (h, l\<lparr>mphead := hp, mptail := tp, mSize := mSize l - 1\<rparr>)
      })
   }"

definition ref_pop :: "addr \<Rightarrow> unit dheap \<Rightarrow> list_obj \<Rightarrow> (addr \<times> unit dheap \<times> list_obj) option" where
  "ref_pop x h l = (if x \<noteq> NULL then do { (h, l) \<leftarrow> ref_del h l x; Some (x, h, l) } else Some (x, h, l))"

fun ref_step :: "es_op \<Rightarrow> unit dheap \<Rightarrow> list_obj \<Rightarrow> (addr \<times> unit dheap \<times> list_obj) option" where
  "ref_step (Add x) h l = quiet (ref_add h l x)"
| "ref_step (Insert p x) h l = quiet (ref_insert h l p x)"
| "ref_step (Del x) h l = quiet (ref_del h l x)"
| "ref_step Pop_head h l = ref_pop (mphead l) h l"
| "ref_step Pop_tail h l = ref_pop (mptail l) h l"

definition view :: "'n dheap \<times> list_obj \<Rightarrow> unit dheap \<times> list_obj" where
  "view = map_prod link_view id"

definition out_view :: "'r \<times> 'n dheap \<times> list_obj \<Rightarrow> 'r \<times> unit dheap \<times> list_obj" where
  "out_view = map_prod id view"

lemma view_pair [simp]: "view (h, l) = (link_view h, l)" "out_view (r, s) = (r, view s)"
  by (simp_all add: view_def out_view_def)

lemma quiet_view: "map_option out_view (quiet m) = quiet (map_option view m)"
  by (simp add: quiet_def option.map_comp o_def)

text \<open>A store to the back pointer is invisible; the linking code keeps what is allocated.\<close>

lemma upd_alloc: "upd h x f = Some h' \<Longrightarrow> (h' y = None) = (h y = None)"
  by (auto simp: upd_def split: option.splits if_splits)

lemma dl_append_alloc: "dl_append h hp tp x = Some (h', r) \<Longrightarrow> (h' y = None) = (h y = None)"
  by (auto simp: dl_append_def bind_eq_Some_conv upd_alloc split: if_splits)

lemma dl_insert_alloc: "dl_insert h p x = Some h' \<Longrightarrow> (h' y = None) = (h y = None)"
  by (auto simp: dl_insert_def bind_eq_Some_conv upd_alloc split: if_splits)

lemma dl_unlink_alloc: "dl_unlink h hp tp x = Some (h', r) \<Longrightarrow> (h' y = None) = (h y = None)"
  by (auto simp: dl_unlink_def bind_eq_Some_conv Let_def upd_alloc split: if_splits)

lemma truncate_nlist [simp]: "dnode.truncate (n\<lparr>nlist := a\<rparr>) = dnode.truncate n" for n :: "'a EsNode"
  by (simp add: dnode.truncate_def)

lemma upd_nlist: "h x \<noteq> None \<Longrightarrow> \<exists>h'. upd h x (\<lambda>n. n\<lparr>nlist := a\<rparr>) = Some h' \<and> link_view h' = link_view h"
  for h :: "'a es_heap"
  by (auto simp: upd_def link_view_upd) (auto simp: link_view_def)

lemma EsList2_add_view: "map_option view (EsList2_add h l x) = ref_add (link_view h) l x"
  by (simp add: EsList2_add_def ref_add_def view_simps dl_append_view split_def)

lemma EsList2_insert_view: "map_option view (EsList2_insert h l p x) = ref_insert (link_view h) l p x"
  by (simp add: EsList2_insert_def ref_insert_def view_simps dl_insert_view if_distrib [of "map_option view"] cong: if_cong)

lemma EsList2_del_view: "map_option view (EsList2_del h l x) = ref_del (link_view h) l x"
  by (simp add: EsList2_del_def ref_del_def view_simps dl_unlink_view split_def if_distrib [of "map_option view"] cong: if_cong)

lemma EsList_add_view: "map_option view (EsList_add h l x) = ref_add (link_view h) l x"
proof (cases "h x")
  case (Some n)
  let ?h = "h(x \<mapsto> n\<lparr>seed := mSeed l\<rparr>)"
  show ?thesis
  proof (cases "dl_append ?h (mphead l) (mptail l) x")
    case (Some r)
    obtain h1 hp tp where r: "r = (h1, hp, tp)" by (cases r)
    have "h1 x \<noteq> None" using dl_append_alloc [OF Some [unfolded r], of x] by auto
    then show ?thesis using upd_nlist [of h1 x "this l"] Some \<open>h x = Some n\<close> r
      by (auto simp: EsList_add_def ref_add_def upd_links dl_append_view upd_Some)
  qed (simp add: EsList_add_def ref_add_def upd_links dl_append_view upd_Some Some)
qed (simp add: EsList_add_def ref_add_def upd_links upd_None)

lemma EsList_insert_view: "map_option view (EsList_insert h l p x) = ref_insert (link_view h) l p x"
proof (cases "dl_insert h p x")
  case (Some h1)
  show ?thesis
  proof (cases "h1 x")
    case (Some n)
    then show ?thesis using upd_nlist [of "h1(x \<mapsto> n\<lparr>seed := mSeed l\<rparr>)" x "this l"] \<open>dl_insert h p x = Some h1\<close>
      by (cases "h p") (auto simp: EsList_insert_def ref_insert_def link_view_app upd_links dl_insert_view upd_Some)
  qed (cases "h p"; simp add: EsList_insert_def ref_insert_def link_view_app upd_links dl_insert_view upd_None Some)
qed (cases "h p"; simp add: EsList_insert_def ref_insert_def link_view_app dl_insert_view)

lemma EsList_del_view: "map_option view (EsList_del h l x) = ref_del (link_view h) l x"
proof (cases "dl_unlink h (mphead l) (mptail l) x")
  case (Some r)
  obtain h1 hp tp where r: "r = (h1, hp, tp)" by (cases r)
  show ?thesis
  proof (cases "h1 x")
    case None
    then show ?thesis using dl_unlink_alloc [OF Some [unfolded r], of x] by (simp add: EsList_del_def ref_del_def link_view_app)
  next
    case (Some n)
    then show ?thesis using upd_nlist [of "h1(x \<mapsto> n\<lparr>seed := 0\<rparr>)" x NULL] \<open>dl_unlink h _ _ x = Some r\<close> r
      by (cases "h x") (auto simp: EsList_del_def ref_del_def link_view_app upd_links dl_unlink_view upd_Some)
  qed
qed (cases "h x"; simp add: EsList_del_def ref_del_def link_view_app dl_unlink_view)

lemma pop_view:
  "map_option out_view (EsList_pop_head h l) = ref_pop (mphead l) (link_view h) l"
  "map_option out_view (EsList_pop_tail h l) = ref_pop (mptail l) (link_view h) l"
  "map_option out_view (EsList2_pop_head h2 l) = ref_pop (mphead l) (link_view h2) l"
  "map_option out_view (EsList2_pop_tail h2 l) = ref_pop (mptail l) (link_view h2) l"
  by (simp_all add: EsList_pop_head_def EsList_pop_tail_def EsList2_pop_head_def EsList2_pop_tail_def ref_pop_def Let_def
      EsList_del_view [symmetric] EsList2_del_view [symmetric] bind_view map_bind_option o_def split_def)

lemma EsList_step_view: "map_option out_view (EsList_step c h l) = ref_step c (link_view h) l"
  by (cases c) (simp_all add: quiet_view pop_view EsList_add_view EsList_insert_view EsList_del_view)

lemma EsList2_step_view: "map_option out_view (EsList2_step c h l) = ref_step c (link_view h) l"
  by (cases c) (simp_all add: quiet_view pop_view EsList2_add_view EsList2_insert_view EsList2_del_view)

lemma es_run_view:
  assumes st: "\<And>c h l. map_option out_view (st c h l) = ref_step c (link_view h) l"
  shows "map_option out_view (es_run st cs h l) = es_run ref_step cs (link_view h) l"
proof (induction cs arbitrary: h l)
  case (Cons c cs)
  show ?case
  proof (cases "st c h l")
    case (Some r)
    obtain y h' l' where r: "r = (y, h', l')" by (cases r)
    have "ref_step c (link_view h) l = Some (y, link_view h', l')" using st [of c h l] Some r by simp
    then show ?thesis using Some r Cons.IH [of h' l', symmetric] by (simp add: option.map_comp o_def split_def out_view_def)
  qed (use st [of c h l] in simp)
qed simp

lemma view_results: "map_option out_view m = map_option out_view m2 \<Longrightarrow> map_option fst m = map_option fst m2"
  by (cases m; cases m2) (auto simp: out_view_def)



end
