(* ===== verification/EdHandles.thy ===== *)
theory EdHandles
  imports EsLists
begin

text \<open>
  \<^verbatim>\<open>EsHandleManager\<close> (\<^verbatim>\<open>src/ednio/EsHandleManager.h\<close>): a table of at most 65535 slots that
  hands out 32-bit handles. The slots are list nodes in one array, the free ones chained in an
  \<^verbatim>\<open>EsList\<close>; a handle carries the slot's index in its low half and a running 16-bit seed in its
  high half, so that a stale handle is told from the slot's current one. The abstraction
  \<open>hm_abs\<close> is the finite map from live handles to objects that the class implements.
\<close>

unbundle bit_operations_syntax

section \<open>State and operations\<close>

record handleinfo =
  handle :: u32
  index :: u16
  hobj :: addr

record EsHandleManager =
  mMaxHandle :: u16
  mHandleFreeList :: list_obj
  mRes :: addr
  nodes :: "handleinfo es_heap"
  mHandleSeed :: u16
  mIsObjAlloc :: bool

text \<open>The address of \<^verbatim>\<open>mRes[i]\<close>: a node takes 48 bytes.\<close>

definition res_at :: "EsHandleManager \<Rightarrow> nat \<Rightarrow> addr" where
  "res_at m i = mRes m + of_nat (48 * i)"

text \<open>The macros \<^verbatim>\<open>HIDX\<close> and \<^verbatim>\<open>HANDLE_TO_OBJ\<close> of \<^verbatim>\<open>EdType.h\<close>.\<close>

definition HIDX :: "u32 \<Rightarrow> u32" where
  "HIDX h = 0x0000ffff AND h"

definition HANDLE_TO_OBJ :: "EsHandleManager \<Rightarrow> u32 \<Rightarrow> addr option" where
  "HANDLE_TO_OBJ m h =
     (if HIDX h \<ge> ucast (mMaxHandle m) then Some NULL
      else do {
        n \<leftarrow> nodes m (res_at m (unat (HIDX h)));
        Some (if handle (nobj n) = h then res_at m (unat (HIDX h)) else NULL)
      })"

definition upd_info :: "EsHandleManager \<Rightarrow> addr \<Rightarrow> (handleinfo \<Rightarrow> handleinfo) \<Rightarrow> EsHandleManager option" where
  "upd_info m p f = do {
     h \<leftarrow> upd (nodes m) p (\<lambda>n. n\<lparr>nobj := f (nobj n)\<rparr>);
     Some (m\<lparr>nodes := h\<rparr>)
   }"

definition list_add :: "EsHandleManager \<Rightarrow> addr \<Rightarrow> EsHandleManager option" where
  "list_add m p = do {
     (h, l) \<leftarrow> EsList_add (nodes m) (mHandleFreeList m) p;
     Some (m\<lparr>nodes := h, mHandleFreeList := l\<rparr>)
   }"

text \<open>The loop of the constructor; \<open>newT i\<close> is the address \<^verbatim>\<open>new T\<close> returns in round \<open>i\<close>.\<close>

fun init_slots :: "(nat \<Rightarrow> addr) \<Rightarrow> nat \<Rightarrow> nat \<Rightarrow> EsHandleManager \<Rightarrow> EsHandleManager option" where
  "init_slots newT 0 i m = Some m"
| "init_slots newT (Suc k) i m = do {
     m \<leftarrow> upd_info m (res_at m i) (\<lambda>_. \<lparr>handle = 0, index = of_nat i,
            hobj = (if mIsObjAlloc m then newT i else NULL)\<rparr>);
     m \<leftarrow> list_add m (res_at m i);
     init_slots newT k (Suc i) m
   }"

definition EsHandleManager_new ::
  "addr \<Rightarrow> addr \<Rightarrow> handleinfo es_heap \<Rightarrow> (nat \<Rightarrow> addr) \<Rightarrow> u16 \<Rightarrow> bool \<Rightarrow> EsHandleManager option" where
  "EsHandleManager_new self arr heap newT maxh isobjalloc =
     init_slots newT (unat maxh) 0
       \<lparr>mMaxHandle = maxh, mHandleFreeList = EsList_new (self + 24), mRes = arr, nodes = heap,
        mHandleSeed = drop_bit 2 (ucast self), mIsObjAlloc = isobjalloc\<rparr>"

definition next_seed :: "u16 \<Rightarrow> u16" where
  "next_seed s = (if s + 1 = 0 then 1 else s + 1)"

definition mk_handle :: "u16 \<Rightarrow> u16 \<Rightarrow> u32" where
  "mk_handle s i = push_bit 16 (ucast s) OR ucast i"

definition allocHandle :: "EsHandleManager \<Rightarrow> (u32 \<times> EsHandleManager) option" where
  "allocHandle m = do {
     (p, h, l) \<leftarrow> EsList_pop_head (nodes m) (mHandleFreeList m);
     let m = m\<lparr>nodes := h, mHandleFreeList := l\<rparr>;
     (if p \<noteq> NULL then do {
        let s = next_seed (mHandleSeed m);
        n \<leftarrow> nodes m p;
        let v = mk_handle s (index (nobj n));
        m \<leftarrow> upd_info (m\<lparr>mHandleSeed := s\<rparr>) p (\<lambda>e. e\<lparr>handle := v\<rparr>);
        Some (v, m)
      } else Some (0, m))
   }"

definition freeHandle :: "EsHandleManager \<Rightarrow> u32 \<Rightarrow> EsHandleManager option" where
  "freeHandle m h = do {
     p \<leftarrow> HANDLE_TO_OBJ m h;
     (if p \<noteq> NULL then do {
        m \<leftarrow> upd_info m p (\<lambda>e. e\<lparr>handle := 0\<rparr>);
        list_add m p
      } else Some m)
   }"

definition setObject :: "EsHandleManager \<Rightarrow> u32 \<Rightarrow> addr \<Rightarrow> EsHandleManager option" where
  "setObject m h ob = do {
     p \<leftarrow> HANDLE_TO_OBJ m h;
     (if p \<noteq> NULL then upd_info m p (\<lambda>e. e\<lparr>hobj := ob\<rparr>) else Some m)
   }"

definition getObject :: "EsHandleManager \<Rightarrow> u32 \<Rightarrow> addr option" where
  "getObject m h = do {
     p \<leftarrow> HANDLE_TO_OBJ m h;
     (if p \<noteq> NULL then do { n \<leftarrow> nodes m p; Some (hobj (nobj n)) } else Some NULL)
   }"

definition getHandleCount :: "EsHandleManager \<Rightarrow> int" where
  "getHandleCount m = int (unat (mMaxHandle m)) - EsList_getSize (mHandleFreeList m)"

section \<open>Invariant and abstraction\<close>

abbreviation maxn :: "EsHandleManager \<Rightarrow> nat" where
  "maxn m \<equiv> unat (mMaxHandle m)"

text \<open>The slot array is one allocation: it does not hold the null address and does not wrap.\<close>

definition array_ok :: "EsHandleManager \<Rightarrow> bool" where
  "array_ok m \<longleftrightarrow> mRes m \<noteq> NULL \<and> unat (mRes m) + 48 * maxn m \<le> 2 ^ 64"

definition info :: "EsHandleManager \<Rightarrow> nat \<Rightarrow> handleinfo option" where
  "info m i = map_option nobj (nodes m (res_at m i))"

text \<open>What a slot holds: its own index; handle 0 when free, else a handle that names it.\<close>

definition slot_ok :: "nat list \<Rightarrow> nat \<Rightarrow> handleinfo option \<Rightarrow> bool" where
  "slot_ok fs i e \<longleftrightarrow>
     (case e of None \<Rightarrow> False
      | Some e \<Rightarrow> index e = of_nat i \<and>
          (if i \<in> set fs then handle e = 0 else handle e \<noteq> 0 \<and> unat (HIDX (handle e)) = i))"

definition hm_inv :: "EsHandleManager \<Rightarrow> nat list \<Rightarrow> bool" where
  "hm_inv m fs \<longleftrightarrow>
     array_ok m \<and> distinct fs \<and> (\<forall>i \<in> set fs. i < maxn m) \<and>
     es_rep (nodes m) (mHandleFreeList m) (map (res_at m) fs) \<and>
     (\<forall>i < maxn m. slot_ok fs i (info m i))"

text \<open>The map from live handles to objects.\<close>

definition hm_abs :: "EsHandleManager \<Rightarrow> u32 \<rightharpoonup> addr" where
  "hm_abs m h =
     (if h = 0 \<or> maxn m \<le> unat (HIDX h) then None
      else (case info m (unat (HIDX h)) of
              None \<Rightarrow> None | Some e \<Rightarrow> if handle e = h then Some (hobj e) else None))"

section \<open>Lemmas on handles and slots\<close>

lemma HIDX_take_bit: "HIDX h = take_bit 16 h"
  by (simp add: HIDX_def take_bit_eq_mask mask_eq_exp_minus_1 and.commute)

lemma HIDX_mk_handle: "unat (HIDX (mk_handle s i)) = unat i"
proof -
  have "HIDX (mk_handle s i) = ucast i"
    by (rule bit_word_eqI) (auto simp: HIDX_take_bit mk_handle_def bit_simps dest: bit_imp_le_length)
  then show ?thesis by (simp add: unat_ucast_up)
qed

lemma mk_handle_nonzero: "s \<noteq> 0 \<Longrightarrow> mk_handle s i \<noteq> 0"
proof
  assume s: "s \<noteq> 0" and "mk_handle s i = 0"
  then have "drop_bit 16 (mk_handle s i) = 0" by simp
  moreover have "drop_bit 16 (mk_handle s i) = ucast s"
    by (rule bit_word_eqI) (auto simp: mk_handle_def bit_simps dest: bit_imp_le_length)
  ultimately have "(ucast s :: u32) = 0" by simp
  then have "unat s = 0" using unat_ucast_up [where ?'a = 16 and ?'b = 32, of s] by simp
  then have "s = 0" by (simp add: unat_eq_zero)
  with s show False by simp
qed

lemma next_seed_nonzero: "next_seed s \<noteq> 0"
  by (simp add: next_seed_def)

lemma HIDX_less: "HIDX h < ucast (mMaxHandle m) \<longleftrightarrow> unat (HIDX h) < maxn m"
  by (simp add: word_less_nat_alt unat_ucast_up)

lemma res_at_inj:
  assumes "array_ok m" and "i < maxn m" and "j < maxn m" and "res_at m i = res_at m j"
  shows "i = j"
proof -
  have "maxn m < 2 ^ 16" using unat_less [of "mMaxHandle m"] by simp
  then have "48 * i < 2 ^ 64" "48 * j < 2 ^ 64" using assms(2,3) by auto
  moreover have "(of_nat (48 * i) :: addr) = of_nat (48 * j)" using assms(4) by (simp add: res_at_def)
  moreover have "unat (of_nat (48 * i) :: addr) = 48 * i" "unat (of_nat (48 * j) :: addr) = 48 * j"
    using calculation(1,2) by (intro unat_of_nat_small; simp)+
  ultimately show ?thesis by simp
qed

lemma res_at_not_null: "array_ok m \<Longrightarrow> i < maxn m \<Longrightarrow> res_at m i \<noteq> NULL"
proof
  assume a: "array_ok m" "i < maxn m" and "res_at m i = NULL"
  then have "unat (mRes m + of_nat (48 * i)) = 0" by (simp add: res_at_def)
  moreover have "48 * i < 48 * maxn m" using a(2) by simp
  then have "unat (mRes m) + 48 * i < 2 ^ 64" using a(1) unfolding array_ok_def by linarith
  then have "unat (of_nat (unat (mRes m) + 48 * i) :: addr) = unat (mRes m) + 48 * i"
    by (intro unat_of_nat_small) simp
  then have "unat (mRes m + of_nat (48 * i)) = unat (mRes m) + 48 * i"
    by (simp only: of_nat_add of_nat_unat)
  moreover have "unat (mRes m) \<noteq> 0" using a(1) by (simp add: array_ok_def unat_eq_zero)
  ultimately show False by linarith
qed

text \<open>The parts of the state an operation on slots does not touch.\<close>

definition same_tab :: "EsHandleManager \<Rightarrow> EsHandleManager \<Rightarrow> bool" where
  "same_tab m m' \<longleftrightarrow> mMaxHandle m' = mMaxHandle m \<and> mRes m' = mRes m \<and> mIsObjAlloc m' = mIsObjAlloc m"

lemma same_tab_simps:
  "same_tab m m' \<Longrightarrow> mMaxHandle m' = mMaxHandle m" "same_tab m m' \<Longrightarrow> res_at m' = res_at m"
  "same_tab m m' \<Longrightarrow> array_ok m' = array_ok m"
  by (auto simp: same_tab_def res_at_def array_ok_def)

lemma upd_info_ok:
  assumes arr: "array_ok m" and i: "i < maxn m" and e: "info m i = Some e"
    and rep: "es_rep (nodes m) (mHandleFreeList m) ps"
  obtains m' where "upd_info m (res_at m i) f = Some m'" "same_tab m m'"
    "\<forall>j < maxn m. info m' j = (if j = i then Some (f e) else info m j)"
    "es_rep (nodes m') (mHandleFreeList m') ps" "dom (nodes m') = dom (nodes m)"
    "mHandleSeed m' = mHandleSeed m" "mHandleFreeList m' = mHandleFreeList m"
proof -
  from e obtain n where n: "nodes m (res_at m i) = Some n" "nobj n = e" by (auto simp: info_def)
  let ?m = "m\<lparr>nodes := (nodes m)(res_at m i \<mapsto> n\<lparr>nobj := f e\<rparr>)\<rparr>"
  have "\<forall>j < maxn m. info ?m j = (if j = i then Some (f e) else info m j)"
    using res_at_inj [OF arr _ i] by (auto simp: info_def res_at_def)
  moreover have "es_rep (nodes ?m) (mHandleFreeList ?m) ps"
    using rep n(1) by (simp add: es_rep_def dl_rep_more)
  ultimately show ?thesis
    using n by (intro that [of ?m]) (auto simp: upd_info_def upd_Some same_tab_def)
qed

lemma list_add_ok:
  assumes arr: "array_ok m" and i: "i < maxn m" "i \<notin> set fs" "info m i \<noteq> None"
    and fs: "\<forall>j \<in> set fs. j < maxn m"
    and rep: "es_rep (nodes m) (mHandleFreeList m) (map (res_at m) fs)"
  obtains m' where "list_add m (res_at m i) = Some m'" "same_tab m m'" "info m' = info m"
    "es_rep (nodes m') (mHandleFreeList m') (map (res_at m) (fs @ [i]))"
    "mHandleSeed m' = mHandleSeed m" "dom (nodes m') = dom (nodes m)"
proof -
  have "es_node (nodes m) (res_at m i)"
    using i(3) res_at_not_null [OF arr i(1)] by (auto simp: es_node_def info_def)
  moreover have "res_at m i \<notin> set (map (res_at m) fs)"
    using res_at_inj [OF arr i(1)] i(2) fs by auto
  ultimately obtain h' l' where a: "EsList_add (nodes m) (mHandleFreeList m) (res_at m i) = Some (h', l')"
    "es_rep h' l' (map (res_at m) fs @ [res_at m i])"
    "\<forall>y. y \<notin> insert (res_at m i) (set (map (res_at m) fs)) \<longrightarrow> h' y = nodes m y" "dom h' = dom (nodes m)"
    "this l' = this (mHandleFreeList m)" "mSeed l' = mSeed (mHandleFreeList m)"
    "\<forall>y. map_option nobj (h' y) = map_option nobj (nodes m y)"
    using EsList_add_rep [OF rep] by metis
  show ?thesis
    using a by (intro that [of "m\<lparr>nodes := h', mHandleFreeList := l'\<rparr>"])
      (auto simp: list_add_def same_tab_def info_def res_at_def)
qed

lemma pop_ok:
  assumes arr: "array_ok m" and rep: "es_rep (nodes m) (mHandleFreeList m) (map (res_at m) (i # fs))"
  obtains h' l' where "EsList_pop_head (nodes m) (mHandleFreeList m) = Some (res_at m i, h', l')"
    "es_rep h' l' (map (res_at m) fs)" "\<forall>j. info (m\<lparr>nodes := h', mHandleFreeList := l'\<rparr>) j = info m j"
proof -
  have "es_rep (nodes m) (mHandleFreeList m) (res_at m i # map (res_at m) fs)" using rep by simp
  then obtain h' l' where
    "EsList_pop_head (nodes m) (mHandleFreeList m) = Some (res_at m i, h', l')"
    "es_rep h' l' (map (res_at m) fs)"
    "\<forall>y. map_option nobj (h' y) = map_option nobj (nodes m y)"
    using EsList_pop_head_rep by metis
  then show ?thesis by (intro that [of h' l']) (auto simp: info_def res_at_def)
qed

lemma HANDLE_TO_OBJ_eq:
  assumes inv: "hm_inv m fs" and h: "h \<noteq> 0"
  shows "HANDLE_TO_OBJ m h = Some (if hm_abs m h = None then NULL else res_at m (unat (HIDX h)))"
proof (cases "unat (HIDX h) < maxn m")
  case False
  then have "ucast (mMaxHandle m) \<le> HIDX h" using HIDX_less [of h m] by (simp add: not_less)
  then show ?thesis using False by (simp add: HANDLE_TO_OBJ_def hm_abs_def)
next
  case True
  then obtain e where e: "info m (unat (HIDX h)) = Some e"
    using inv by (auto simp: hm_inv_def slot_ok_def split: option.splits)
  have "\<not> ucast (mMaxHandle m) \<le> HIDX h" using HIDX_less [of h m] True by (simp add: not_le)
  then show ?thesis using e h True by (auto simp: HANDLE_TO_OBJ_def hm_abs_def info_def)
qed

text \<open>A live handle sits in the slot it names, and that slot is not free.\<close>

lemma hm_abs_SomeD:
  assumes inv: "hm_inv m fs" and "hm_abs m h = Some ob"
  obtains e where "h \<noteq> 0" "unat (HIDX h) < maxn m" "unat (HIDX h) \<notin> set fs"
    "info m (unat (HIDX h)) = Some e" "handle e = h" "hobj e = ob"
proof -
  from assms(2) obtain e where e: "h \<noteq> 0" "unat (HIDX h) < maxn m" "info m (unat (HIDX h)) = Some e"
    "handle e = h" "hobj e = ob"
    by (auto simp: hm_abs_def not_le split: if_splits option.splits)
  moreover have "unat (HIDX h) \<notin> set fs"
  proof
    assume "unat (HIDX h) \<in> set fs"
    moreover have "slot_ok fs (unat (HIDX h)) (info m (unat (HIDX h)))" using inv e(2) by (simp add: hm_inv_def)
    ultimately show False using e by (simp add: slot_ok_def)
  qed
  ultimately show ?thesis using that by blast
qed

text \<open>The abstraction only depends on the slots.\<close>

lemma hm_abs_upd:
  assumes "mMaxHandle m' = mMaxHandle m"
    and "\<forall>j < maxn m. info m' j = (if j = i then Some e else info m j)" and "i < maxn m"
    and "unat (HIDX h) \<noteq> i"
  shows "hm_abs m' h = hm_abs m h"
  using assms by (simp add: hm_abs_def)

lemma slot_ok_other:
  "j \<noteq> i \<Longrightarrow> slot_ok (i # fs) j e = slot_ok fs j e"
  "j \<noteq> i \<Longrightarrow> slot_ok (fs @ [i]) j e = slot_ok fs j e"
  by (auto simp: slot_ok_def split: option.splits)

lemma slots_upd:
  assumes "\<forall>j < k. info m' j = (if j = i then Some e else info m j)"
    and "\<forall>j < k. j \<noteq> i \<longrightarrow> slot_ok fs j (info m j)" and "slot_ok fs i (Some e)"
  shows "\<forall>j < k. slot_ok fs j (info m' j)"
  using assms by auto

lemma allocHandle_ok:
  assumes inv: "hm_inv m (i # fs)"
  obtains v m' ob where "allocHandle m = Some (v, m')" "hm_inv m' fs" "v \<noteq> 0"
    "hm_abs m v = None" "hm_abs m' = (hm_abs m)(v \<mapsto> ob)" "mMaxHandle m' = mMaxHandle m"
    "unat (HIDX v) = i"
proof -
  from inv have arr: "array_ok m" and i: "i < maxn m" "i \<notin> set fs" "distinct fs"
    and fs: "\<forall>j \<in> set fs. j < maxn m"
    and rep: "es_rep (nodes m) (mHandleFreeList m) (map (res_at m) (i # fs))"
    and sl: "\<forall>j < maxn m. slot_ok (i # fs) j (info m j)" by (auto simp: hm_inv_def)
  obtain e where e: "info m i = Some e" "index e = of_nat i" "handle e = 0"
    using sl i(1) by (auto simp: slot_ok_def split: option.splits)
  obtain h1 l1 where p: "EsList_pop_head (nodes m) (mHandleFreeList m) = Some (res_at m i, h1, l1)"
    "es_rep h1 l1 (map (res_at m) fs)" "\<forall>j. info (m\<lparr>nodes := h1, mHandleFreeList := l1\<rparr>) j = info m j"
    using pop_ok [OF arr rep] .
  let ?s = "next_seed (mHandleSeed m)" and ?v = "mk_handle (next_seed (mHandleSeed m)) (of_nat i)"
  let ?m1 = "m\<lparr>nodes := h1, mHandleFreeList := l1, mHandleSeed := next_seed (mHandleSeed m)\<rparr>"
  have info1: "info ?m1 j = info m j" for j using p(3) by (simp add: info_def res_at_def)
  have pre: "array_ok ?m1" "i < maxn ?m1" "info ?m1 i = Some e"
    "es_rep (nodes ?m1) (mHandleFreeList ?m1) (map (res_at m) fs)"
    using arr i(1) e(1) info1 p(2) by (simp_all add: array_ok_def)
  obtain m' where m': "upd_info ?m1 (res_at ?m1 i) (\<lambda>e. e\<lparr>handle := ?v\<rparr>) = Some m'" "same_tab ?m1 m'"
    "\<forall>j < maxn ?m1. info m' j = (if j = i then Some (e\<lparr>handle := ?v\<rparr>) else info ?m1 j)"
    "es_rep (nodes m') (mHandleFreeList m') (map (res_at m) fs)" "dom (nodes m') = dom (nodes ?m1)"
    "mHandleSeed m' = mHandleSeed ?m1" "mHandleFreeList m' = mHandleFreeList ?m1"
    by (rule upd_info_ok [OF pre])
  have tab: "mMaxHandle m' = mMaxHandle m" "res_at m' = res_at m" "array_ok m'"
    using m'(2) arr by (auto simp: same_tab_def res_at_def array_ok_def)
  have inf: "\<forall>j < maxn m. info m' j = (if j = i then Some (e\<lparr>handle := ?v\<rparr>) else info m j)"
    using m'(3) info1 by simp
  obtain n where n: "h1 (res_at m i) = Some n" "nobj n = e"
    using p(3) [rule_format, of i] e(1) by (auto simp: info_def res_at_def)
  have eq: "allocHandle m = Some (?v, m')"
    using p(1) m'(1) res_at_not_null [OF arr i(1)] n e(2) by (simp add: allocHandle_def res_at_def)
  have "i < 2 ^ 16" using i(1) unat_less [of "mMaxHandle m"] by simp
  then have vi: "unat (HIDX ?v) = i" by (simp add: HIDX_mk_handle unat_of_nat_small)
  have v0: "?v \<noteq> 0" by (rule mk_handle_nonzero [OF next_seed_nonzero])
  have "hm_abs m ?v = None" using e v0 vi by (simp add: hm_abs_def)
  moreover have "hm_abs m' = (hm_abs m)(?v \<mapsto> hobj e)"
  proof
    fix w show "hm_abs m' w = ((hm_abs m)(?v \<mapsto> hobj e)) w"
    proof (cases "unat (HIDX w) = i")
      case True
      with inf i(1) e tab vi v0 show ?thesis by (auto simp: hm_abs_def)
    next
      case False
      with vi have "w \<noteq> ?v" by auto
      with False hm_abs_upd [OF tab(1) inf i(1)] show ?thesis by simp
    qed
  qed
  moreover have "\<forall>j < maxn m. slot_ok fs j (info m' j)"
  proof (rule slots_upd [OF inf])
    show "\<forall>j < maxn m. j \<noteq> i \<longrightarrow> slot_ok fs j (info m j)" using sl slot_ok_other(1) by blast
    show "slot_ok fs i (Some (e\<lparr>handle := ?v\<rparr>))" using v0 vi e(2) i(2) by (simp add: slot_ok_def)
  qed
  then have "hm_inv m' fs" using tab m'(4) i fs by (simp add: hm_inv_def)
  ultimately show ?thesis using that eq v0 tab(1) vi by blast
qed

lemma allocHandle_full: "hm_inv m [] \<Longrightarrow> allocHandle m = Some (0, m)"
  by (simp add: allocHandle_def hm_inv_def esq.pop_empty_law)

lemma freeHandle_ok:
  assumes inv: "hm_inv m fs" and live: "hm_abs m h = Some ob"
  obtains m' where "freeHandle m h = Some m'" "hm_inv m' (fs @ [unat (HIDX h)])"
    "hm_abs m' = (hm_abs m)(h := None)" "mMaxHandle m' = mMaxHandle m"
proof -
  let ?i = "unat (HIDX h)"
  obtain e where e: "h \<noteq> 0" "?i < maxn m" "?i \<notin> set fs" "info m ?i = Some e" "handle e = h" "hobj e = ob"
    using hm_abs_SomeD [OF assms] .
  from inv have arr: "array_ok m" and d: "distinct fs" and fs: "\<forall>j \<in> set fs. j < maxn m"
    and rep: "es_rep (nodes m) (mHandleFreeList m) (map (res_at m) fs)"
    and sl: "\<forall>j < maxn m. slot_ok fs j (info m j)" by (auto simp: hm_inv_def)
  obtain m1 where m1: "upd_info m (res_at m ?i) (\<lambda>e. e\<lparr>handle := 0\<rparr>) = Some m1" "same_tab m m1"
    "\<forall>j < maxn m. info m1 j = (if j = ?i then Some (e\<lparr>handle := 0\<rparr>) else info m j)"
    "es_rep (nodes m1) (mHandleFreeList m1) (map (res_at m) fs)"
    using upd_info_ok [OF arr e(2,4) rep, of "\<lambda>e. e\<lparr>handle := 0\<rparr>"] by metis
  note st = same_tab_simps [OF m1(2)]
  have pre: "array_ok m1" "?i < maxn m1" "?i \<notin> set fs" "info m1 ?i \<noteq> None" "\<forall>j \<in> set fs. j < maxn m1"
    "es_rep (nodes m1) (mHandleFreeList m1) (map (res_at m1) fs)"
    using arr e(2,3) fs m1(3,4) by (simp_all add: st)
  obtain m' where m': "list_add m1 (res_at m1 ?i) = Some m'" "same_tab m1 m'" "info m' = info m1"
    "es_rep (nodes m') (mHandleFreeList m') (map (res_at m1) (fs @ [?i]))"
    by (rule list_add_ok [OF pre])
  have tab: "mMaxHandle m' = mMaxHandle m" "res_at m' = res_at m" "array_ok m'"
    using m'(2) arr same_tab_simps [OF m'(2)] st by auto
  have inf: "\<forall>j < maxn m. info m' j = (if j = ?i then Some (e\<lparr>handle := 0\<rparr>) else info m j)"
    using m1(3) m'(3) by simp
  have eq: "freeHandle m h = Some m'"
    using HANDLE_TO_OBJ_eq [OF inv e(1)] live res_at_not_null [OF arr e(2)] m1(1) m'(1)
    by (simp add: freeHandle_def st)
  have "slot_ok fs ?i (info m ?i)" using sl e(2) by blast
  then have ix: "index e = of_nat ?i" using e(4) by (simp add: slot_ok_def)
  have "hm_abs m' = (hm_abs m)(h := None)"
  proof
    fix w show "hm_abs m' w = ((hm_abs m)(h := None)) w"
    proof (cases "unat (HIDX w) = ?i")
      case True
      with inf e tab show ?thesis by (auto simp: hm_abs_def)
    next
      case False
      then have "w \<noteq> h" by auto
      with False hm_abs_upd [OF tab(1) inf e(2)] show ?thesis by simp
    qed
  qed
  moreover have "\<forall>j < maxn m. slot_ok (fs @ [?i]) j (info m' j)"
  proof (rule slots_upd [OF inf])
    show "\<forall>j < maxn m. j \<noteq> ?i \<longrightarrow> slot_ok (fs @ [?i]) j (info m j)" using sl slot_ok_other(2) by blast
    show "slot_ok (fs @ [?i]) ?i (Some (e\<lparr>handle := 0\<rparr>))" using ix by (simp add: slot_ok_def)
  qed
  then have "hm_inv m' (fs @ [?i])" using tab m'(4) e(2,3) d fs st by (auto simp: hm_inv_def)
  ultimately show ?thesis using that eq tab(1) by blast
qed

lemma freeHandle_dead: "hm_inv m fs \<Longrightarrow> h \<noteq> 0 \<Longrightarrow> hm_abs m h = None \<Longrightarrow> freeHandle m h = Some m"
  by (simp add: freeHandle_def HANDLE_TO_OBJ_eq)

lemma setObject_ok:
  assumes inv: "hm_inv m fs" and live: "hm_abs m h = Some ob"
  obtains m' where "setObject m h ob' = Some m'" "hm_inv m' fs" "hm_abs m' = (hm_abs m)(h \<mapsto> ob')"
    "mMaxHandle m' = mMaxHandle m"
proof -
  let ?i = "unat (HIDX h)"
  obtain e where e: "h \<noteq> 0" "?i < maxn m" "?i \<notin> set fs" "info m ?i = Some e" "handle e = h" "hobj e = ob"
    using hm_abs_SomeD [OF assms] .
  from inv have arr: "array_ok m"
    and rep: "es_rep (nodes m) (mHandleFreeList m) (map (res_at m) fs)"
    and sl: "\<forall>j < maxn m. slot_ok fs j (info m j)" by (auto simp: hm_inv_def)
  obtain m' where m': "upd_info m (res_at m ?i) (\<lambda>e. e\<lparr>hobj := ob'\<rparr>) = Some m'" "same_tab m m'"
    "\<forall>j < maxn m. info m' j = (if j = ?i then Some (e\<lparr>hobj := ob'\<rparr>) else info m j)"
    "es_rep (nodes m') (mHandleFreeList m') (map (res_at m) fs)"
    using upd_info_ok [OF arr e(2,4) rep, of "\<lambda>e. e\<lparr>hobj := ob'\<rparr>"] by metis
  note st = same_tab_simps [OF m'(2)]
  have eq: "setObject m h ob' = Some m'"
    using HANDLE_TO_OBJ_eq [OF inv e(1)] live res_at_not_null [OF arr e(2)] m'(1)
    by (simp add: setObject_def)
  have "slot_ok fs ?i (info m ?i)" using sl e(2) by blast
  then have ok: "slot_ok fs ?i (Some (e\<lparr>hobj := ob'\<rparr>))" using e(4) by (simp add: slot_ok_def)
  have "hm_abs m' = (hm_abs m)(h \<mapsto> ob')"
  proof
    fix w show "hm_abs m' w = ((hm_abs m)(h \<mapsto> ob')) w"
    proof (cases "unat (HIDX w) = ?i")
      case True
      with m'(3) e st show ?thesis by (auto simp: hm_abs_def)
    next
      case False
      then have "w \<noteq> h" by auto
      with False hm_abs_upd [OF st(1) m'(3) e(2)] show ?thesis by simp
    qed
  qed
  moreover have "hm_inv m' fs" using inv st m'(3,4) ok by (auto simp: hm_inv_def)
  ultimately show ?thesis using that eq st(1) by blast
qed

lemma setObject_dead: "hm_inv m fs \<Longrightarrow> h \<noteq> 0 \<Longrightarrow> hm_abs m h = None \<Longrightarrow> setObject m h ob = Some m"
  by (simp add: setObject_def HANDLE_TO_OBJ_eq)

lemma getObject_abs:
  assumes inv: "hm_inv m fs" and h: "h \<noteq> 0"
  shows "getObject m h = Some (case hm_abs m h of None \<Rightarrow> NULL | Some ob \<Rightarrow> ob)"
proof (cases "hm_abs m h")
  case None
  then show ?thesis using HANDLE_TO_OBJ_eq [OF assms] by (simp add: getObject_def)
next
  case (Some ob)
  from hm_abs_SomeD [OF inv Some] obtain e where "unat (HIDX h) < maxn m"
    "info m (unat (HIDX h)) = Some e" "hobj e = ob" by metis
  moreover have "array_ok m" using inv by (simp add: hm_inv_def)
  ultimately show ?thesis
    using HANDLE_TO_OBJ_eq [OF assms] Some res_at_not_null [of m "unat (HIDX h)"]
    by (auto simp: getObject_def info_def)
qed

lemma hm_inv_length: "hm_inv m fs \<Longrightarrow> length fs \<le> maxn m"
proof -
  assume "hm_inv m fs"
  then have "set fs \<subseteq> {..< maxn m}" "distinct fs" by (auto simp: hm_inv_def)
  then show ?thesis by (metis card_lessThan card_mono distinct_card finite_lessThan)
qed

lemma getHandleCount_eq:
  assumes inv: "hm_inv m fs"
  shows "getHandleCount m = int (maxn m - length fs)"
proof -
  have "length fs \<le> maxn m" using inv by (rule hm_inv_length)
  moreover have "maxn m < 2 ^ 16" using unat_less [of "mMaxHandle m"] by simp
  moreover have "mSize (mHandleFreeList m) = of_nat (length fs)" using inv by (simp add: hm_inv_def es_rep_def)
  ultimately show ?thesis
    by (simp add: getHandleCount_def EsList_getSize_def signed_of_nat signed_take_bit_int_eq_self)
qed

section \<open>The constructor\<close>

definition part_inv :: "EsHandleManager \<Rightarrow> nat \<Rightarrow> bool" where
  "part_inv m i \<longleftrightarrow>
     array_ok m \<and> es_rep (nodes m) (mHandleFreeList m) (map (res_at m) [0..<i]) \<and>
     (\<forall>j < i. slot_ok [0..<i] j (info m j)) \<and> (\<forall>j < maxn m. info m j \<noteq> None)"

lemma init_slot_step:
  assumes inv: "part_inv m i" and i: "i < maxn m"
  obtains m1 m2 where "upd_info m (res_at m i) (\<lambda>_. \<lparr>handle = 0, index = of_nat i, hobj = ob\<rparr>) = Some m1"
    "list_add m1 (res_at m1 i) = Some m2" "part_inv m2 (Suc i)" "maxn m2 = maxn m"
    "mRes m2 = mRes m"
proof -
  let ?e = "\<lparr>handle = 0, index = of_nat i, hobj = ob\<rparr>"
  from inv i have arr: "array_ok m" and rep: "es_rep (nodes m) (mHandleFreeList m) (map (res_at m) [0..<i])"
    and sl: "\<forall>j < i. slot_ok [0..<i] j (info m j)" and ex: "\<forall>j < maxn m. info m j \<noteq> None"
    by (auto simp: part_inv_def)
  from ex i obtain e where e: "info m i = Some e" by blast
  obtain m1 where m1: "upd_info m (res_at m i) (\<lambda>_. ?e) = Some m1" "same_tab m m1"
    "\<forall>j < maxn m. info m1 j = (if j = i then Some ?e else info m j)"
    "es_rep (nodes m1) (mHandleFreeList m1) (map (res_at m) [0..<i])"
    using upd_info_ok [OF arr i e rep, of "\<lambda>_. ?e"] by metis
  note st = same_tab_simps [OF m1(2)]
  have pre: "array_ok m1" "i < maxn m1" "i \<notin> set [0..<i]" "info m1 i \<noteq> None" "\<forall>j \<in> set [0..<i]. j < maxn m1"
    "es_rep (nodes m1) (mHandleFreeList m1) (map (res_at m1) [0..<i])"
    using arr i m1(3,4) by (auto simp: st)
  obtain m2 where m2: "list_add m1 (res_at m1 i) = Some m2" "same_tab m1 m2" "info m2 = info m1"
    "es_rep (nodes m2) (mHandleFreeList m2) (map (res_at m1) ([0..<i] @ [i]))"
    by (rule list_add_ok [OF pre])
  note st2 = same_tab_simps [OF m2(2)]
  have "slot_ok ([0..<i] @ [i]) j (info m2 j)" if "j < Suc i" for j
  proof (cases "j = i")
    case True
    with m1(3) m2(3) i show ?thesis by (simp add: slot_ok_def)
  next
    case False
    with that sl have "slot_ok [0..<i] j (info m j)" by simp
    with False that m1(3) m2(3) i slot_ok_other(2) [OF False] show ?thesis by simp
  qed
  moreover have "\<forall>j < maxn m2. info m2 j \<noteq> None" using ex m1(3) m2(3) st st2 by simp
  moreover have "es_rep (nodes m2) (mHandleFreeList m2) (map (res_at m2) [0..<Suc i])"
    using m2(4) st st2 by simp
  ultimately have "part_inv m2 (Suc i)" using arr st st2 by (simp add: part_inv_def)
  then show ?thesis using that m1(1) m2(1) st st2 m1(2) m2(2) by (auto simp: same_tab_def)
qed

lemma init_slots_ok:
  "part_inv m i \<Longrightarrow> i + k = maxn m \<Longrightarrow>
     \<exists>m'. init_slots newT k i m = Some m' \<and> part_inv m' (maxn m) \<and> maxn m' = maxn m"
proof (induction k arbitrary: i m)
  case 0
  then show ?case by simp
next
  case (Suc k)
  have "i < maxn m" using Suc.prems(2) by simp
  with Suc.prems(1) obtain m1 m2 where m: "upd_info m (res_at m i) (\<lambda>_. \<lparr>handle = 0, index = of_nat i,
      hobj = (if mIsObjAlloc m then newT i else NULL)\<rparr>) = Some m1"
    "list_add m1 (res_at m1 i) = Some m2" "part_inv m2 (Suc i)" "maxn m2 = maxn m" "mRes m2 = mRes m"
    by (rule init_slot_step)
  from Suc.IH [OF m(3)] Suc.prems(2) m show ?case by auto
qed

lemma EsHandleManager_new_inv:
  assumes "arr \<noteq> NULL" and "unat arr + 48 * unat maxh \<le> 2 ^ 64"
    and "\<forall>j < unat maxh. heap (arr + of_nat (48 * j)) \<noteq> None"
  shows "\<exists>m. EsHandleManager_new self arr heap newT maxh isobj = Some m \<and>
           hm_inv m [0..<unat maxh] \<and> mMaxHandle m = maxh"
proof -
  let ?m = "\<lparr>mMaxHandle = maxh, mHandleFreeList = EsList_new (self + 24), mRes = arr, nodes = heap,
        mHandleSeed = drop_bit 2 (ucast self), mIsObjAlloc = isobj\<rparr>"
  have "part_inv ?m 0"
    using assms by (simp add: part_inv_def array_ok_def es_rep_new info_def res_at_def)
  from init_slots_ok [OF this, of "unat maxh" newT] obtain m' where
    m: "init_slots newT (unat maxh) 0 ?m = Some m'" "part_inv m' (unat maxh)" "maxn m' = unat maxh" by auto
  then have "hm_inv m' [0..<unat maxh]" by (simp add: part_inv_def hm_inv_def)
  moreover have "mMaxHandle m' = maxh" using m(3) by (rule unsigned_word_eqI)
  ultimately show ?thesis using m(1) by (simp add: EsHandleManager_new_def)
qed

section \<open>The handle table interface\<close>

text \<open>What users of a handle table rely on: it is a finite map with fresh keys.\<close>

locale handle_table =
  fixes alloc :: "'s \<Rightarrow> (u32 \<times> 's) option"
    and free :: "'s \<Rightarrow> u32 \<Rightarrow> 's option"
    and setob :: "'s \<Rightarrow> u32 \<Rightarrow> addr \<Rightarrow> 's option"
    and getob :: "'s \<Rightarrow> u32 \<Rightarrow> addr option"
    and abs :: "'s \<Rightarrow> u32 \<rightharpoonup> addr"
    and inv :: "'s \<Rightarrow> bool"
  assumes alloc_law: "inv s \<Longrightarrow> \<exists>v s'. alloc s = Some (v, s') \<and> inv s' \<and>
      (v = 0 \<and> s' = s \<or> v \<noteq> 0 \<and> abs s v = None \<and> (\<exists>ob. abs s' = (abs s)(v \<mapsto> ob)))"
    and free_law: "inv s \<Longrightarrow> h \<noteq> 0 \<Longrightarrow> \<exists>s'. free s h = Some s' \<and> inv s' \<and> abs s' = (abs s)(h := None)"
    and set_law: "inv s \<Longrightarrow> h \<noteq> 0 \<Longrightarrow>
      \<exists>s'. setob s h ob = Some s' \<and> inv s' \<and> abs s' = (if abs s h = None then abs s else (abs s)(h \<mapsto> ob))"
    and get_law: "inv s \<Longrightarrow> h \<noteq> 0 \<Longrightarrow> getob s h = Some (case abs s h of None \<Rightarrow> NULL | Some ob \<Rightarrow> ob)"

datatype handle_op = AllocH | FreeH u32 | SetH u32 addr

fun op_handle :: "handle_op \<Rightarrow> u32 option" where
  "op_handle AllocH = None"
| "op_handle (FreeH h) = Some h"
| "op_handle (SetH h ob) = Some h"

fun run_handle_ops ::
  "('s \<Rightarrow> (u32 \<times> 's) option) \<Rightarrow> ('s \<Rightarrow> u32 \<Rightarrow> 's option) \<Rightarrow> ('s \<Rightarrow> u32 \<Rightarrow> addr \<Rightarrow> 's option) \<Rightarrow>
   handle_op list \<Rightarrow> 's \<Rightarrow> 's option" where
  "run_handle_ops al fr st [] s = Some s"
| "run_handle_ops al fr st (AllocH # os) s = do { (v, s) \<leftarrow> al s; run_handle_ops al fr st os s }"
| "run_handle_ops al fr st (FreeH h # os) s = do { s \<leftarrow> fr s h; run_handle_ops al fr st os s }"
| "run_handle_ops al fr st (SetH h ob # os) s = do { s \<leftarrow> st s h ob; run_handle_ops al fr st os s }"

context handle_table
begin

lemma step_keeps:
  assumes "inv s" and "op_handle c \<noteq> Some 0" and "op_handle c \<noteq> Some h" and "abs s h = Some ob"
  shows "\<exists>s'. run_handle_ops alloc free setob [c] s = Some s' \<and> inv s' \<and> abs s' h = Some ob"
proof (cases c)
  case AllocH
  obtain v s' where "alloc s = Some (v, s')" "inv s'"
    "v = 0 \<and> s' = s \<or> v \<noteq> 0 \<and> abs s v = None \<and> (\<exists>ob. abs s' = (abs s)(v \<mapsto> ob))"
    using alloc_law [OF assms(1)] by blast
  then show ?thesis using AllocH assms(4) by auto
next
  case (FreeH g)
  then obtain s' where "free s g = Some s'" "inv s'" "abs s' = (abs s)(g := None)"
    using free_law [OF assms(1), of g] assms(2) by auto
  then show ?thesis using FreeH assms(3,4) by simp
next
  case (SetH g ob')
  then obtain s' where "setob s g ob' = Some s'" "inv s'"
    "abs s' = (if abs s g = None then abs s else (abs s)(g \<mapsto> ob'))"
    using set_law [OF assms(1), of g ob'] assms(2) by auto
  then show ?thesis using SetH assms(3,4) by simp
qed

lemma stable:
  assumes "inv s" and "abs s h = Some ob" and "h \<noteq> 0"
    and "list_all (\<lambda>c. op_handle c \<noteq> Some 0 \<and> op_handle c \<noteq> Some h) os"
  shows "\<exists>s'. run_handle_ops alloc free setob os s = Some s' \<and> inv s' \<and> getob s' h = Some ob"
  using assms
proof (induction os arbitrary: s)
  case Nil
  then show ?case using get_law by simp
next
  case (Cons c os)
  then obtain s1 where 1: "run_handle_ops alloc free setob [c] s = Some s1" "inv s1" "abs s1 h = Some ob"
    using step_keeps [of s c h ob] by auto
  have "run_handle_ops alloc free setob (c # os) s = run_handle_ops alloc free setob os s1"
    using 1(1) by (cases c) (auto split: prod.splits simp: bind_Some_iff)
  then show ?case using Cons.IH [OF 1(2,3)] Cons.prems by simp
qed

end

lemma hm_live_handle: "hm_abs m h = Some ob \<Longrightarrow> h \<noteq> 0"
  by (auto simp: hm_abs_def split: if_splits)

lemma hm_abs_zero [simp]: "hm_abs m 0 = None"
  by (simp add: hm_abs_def)

interpretation hmt: handle_table allocHandle freeHandle setObject getObject hm_abs "\<lambda>m. \<exists>fs. hm_inv m fs"
proof unfold_locales
  fix m assume "\<exists>fs. hm_inv m fs"
  then obtain fs where inv: "hm_inv m fs" ..
  show "\<exists>v m'. allocHandle m = Some (v, m') \<and> (\<exists>fs. hm_inv m' fs) \<and>
    (v = 0 \<and> m' = m \<or> v \<noteq> 0 \<and> hm_abs m v = None \<and> (\<exists>ob. hm_abs m' = (hm_abs m)(v \<mapsto> ob)))"
  proof (cases fs)
    case Nil
    with inv allocHandle_full show ?thesis by blast
  next
    case (Cons i gs)
    with inv show ?thesis by (metis allocHandle_ok)
  qed
next
  fix m h assume "\<exists>fs. hm_inv m fs" and h: "h \<noteq> (0 :: u32)"
  then obtain fs where inv: "hm_inv m fs" by blast
  show "\<exists>m'. freeHandle m h = Some m' \<and> (\<exists>fs. hm_inv m' fs) \<and> hm_abs m' = (hm_abs m)(h := None)"
  proof (cases "hm_abs m h")
    case None
    with freeHandle_dead [OF inv h] inv show ?thesis by (auto simp: fun_upd_idem)
  next
    case (Some ob)
    with inv show ?thesis by (metis freeHandle_ok)
  qed
next
  fix m h ob assume "\<exists>fs. hm_inv m fs" and h: "h \<noteq> (0 :: u32)"
  then obtain fs where inv: "hm_inv m fs" by blast
  show "\<exists>m'. setObject m h ob = Some m' \<and> (\<exists>fs. hm_inv m' fs) \<and>
    hm_abs m' = (if hm_abs m h = None then hm_abs m else (hm_abs m)(h \<mapsto> ob))"
  proof (cases "hm_abs m h")
    case None
    with setObject_dead [OF inv h] inv show ?thesis by auto
  next
    case (Some ob')
    with inv show ?thesis by (simp, metis setObject_ok)
  qed
next
  fix m h assume "\<exists>fs. hm_inv m fs" and h: "h \<noteq> (0 :: u32)"
  then show "getObject m h = Some (case hm_abs m h of None \<Rightarrow> NULL | Some ob \<Rightarrow> ob)"
    using getObject_abs by blast
qed

section \<open>Properties of EsHandleManager\<close>

text \<open>The constructor of \<^verbatim>\<open>EsHandleManager\<close> succeeds on an allocated slot array, whatever
  the array holds, and leaves every slot free: no handle is live and the count is 0.\<close>

theorem handle_manager_init:
  assumes "arr \<noteq> NULL" and "unat arr + 48 * unat maxh \<le> 2 ^ 64"
    and "\<forall>j < unat maxh. heap (arr + of_nat (48 * j)) \<noteq> None"
  shows "\<exists>m. EsHandleManager_new self arr heap newT maxh isobj = Some m \<and>
           hm_inv m [0..<unat maxh] \<and> hm_abs m = Map.empty \<and> getHandleCount m = 0"
proof -
  obtain m where m: "EsHandleManager_new self arr heap newT maxh isobj = Some m"
    "hm_inv m [0..<unat maxh]" "mMaxHandle m = maxh"
    using EsHandleManager_new_inv [OF assms] by blast
  have "hm_abs m h = None" for h
  proof (rule ccontr)
    assume "hm_abs m h \<noteq> None"
    then obtain ob where "hm_abs m h = Some ob" by blast
    with m(2) show False by (rule hm_abs_SomeD) (use m(3) in simp)
  qed
  then have "hm_abs m = Map.empty" by auto
  moreover have "getHandleCount m = 0" using getHandleCount_eq [OF m(2)] m(3) by simp
  ultimately show ?thesis using m by blast
qed

definition blank_heap :: "handleinfo es_heap" where
  "blank_heap = (\<lambda>_. Some \<lparr>dprev = 7, dnext = 7, seed = 7, nlist = 7,
                   nobj = \<lparr>handle = 7, index = 7, hobj = 7\<rparr>\<rparr>)"

lemma upt4: "[0..<4] = [0, 1, 2, 3 :: nat]"
  by code_simp

theorem handle_manager_init_witness:
  "\<exists>m. EsHandleManager_new 64 4096 blank_heap (\<lambda>_. 8) 4 False = Some m \<and>
     hm_inv m [0, 1, 2, 3] \<and> hm_abs m = Map.empty \<and> getHandleCount m = 0"
  using handle_manager_init [of 4096 4 blank_heap 64 "\<lambda>_. 8" False]
  by (simp add: blank_heap_def upt4 del: upt_Suc)

text \<open>C27. While a slot is free \<^verbatim>\<open>allocHandle\<close> returns a handle that is not 0 and not live, makes
  it live and leaves every other handle's object alone; the count grows by one. With no free
  slot it returns 0 and changes nothing.\<close>

theorem handle_alloc:
  assumes inv: "hm_inv m fs"
  shows "fs = [] \<and> allocHandle m = Some (0, m) \<or>
         (\<exists>v m' ob. allocHandle m = Some (v, m') \<and> v \<noteq> 0 \<and> hm_abs m v = None \<and>
            hm_abs m' = (hm_abs m)(v \<mapsto> ob) \<and> hm_inv m' (tl fs) \<and>
            getHandleCount m' = getHandleCount m + 1)"
proof (cases fs)
  case Nil
  with inv allocHandle_full show ?thesis by blast
next
  case (Cons i gs)
  with inv obtain v m' ob where a: "allocHandle m = Some (v, m')" "hm_inv m' gs" "v \<noteq> 0"
    "hm_abs m v = None" "hm_abs m' = (hm_abs m)(v \<mapsto> ob)" "mMaxHandle m' = mMaxHandle m"
    by (metis allocHandle_ok)
  have "length (i # gs) \<le> maxn m"
    using hm_inv_length [OF inv] Cons by simp
  then have "getHandleCount m' = getHandleCount m + 1"
    using getHandleCount_eq [OF a(2)] getHandleCount_eq [OF inv] a(6) Cons by simp
  then show ?thesis using a Cons by auto
qed

definition four_slots :: EsHandleManager where
  "four_slots = (case EsHandleManager_new 64 4096 blank_heap (\<lambda>_. 8) 4 False of Some m \<Rightarrow> m)"

lemma four_slots_inv: "hm_inv four_slots [0, 1, 2, 3]" "mMaxHandle four_slots = 4"
proof -
  obtain m where m: "EsHandleManager_new 64 4096 blank_heap (\<lambda>_. 8) 4 False = Some m"
    "hm_inv m [0..<4]" "mMaxHandle m = 4"
    using EsHandleManager_new_inv [of 4096 4 blank_heap 64 "\<lambda>_. 8" False] by (auto simp: blank_heap_def)
  then show "hm_inv four_slots [0, 1, 2, 3]" "mMaxHandle four_slots = 4"
    by (simp_all add: four_slots_def upt4)
qed

theorem handle_alloc_witness:
  "\<exists>v m' ob. allocHandle four_slots = Some (v, m') \<and> v \<noteq> 0 \<and> hm_inv m' [1, 2, 3] \<and>
     hm_abs m' = (hm_abs four_slots)(v \<mapsto> ob)"
  using handle_alloc [OF four_slots_inv(1)] by auto

text \<open>C28. An object stored under a live handle stays what \<^verbatim>\<open>getObject\<close> returns through any
  sequence of allocations, frees and stores on other (non-zero) handles, and no such sequence
  goes through a bad pointer.\<close>

theorem handle_object_stable:
  assumes "hm_inv m fs" and "hm_abs m h = Some ob"
    and "list_all (\<lambda>c. op_handle c \<noteq> Some 0 \<and> op_handle c \<noteq> Some h) os"
  shows "\<exists>m' gs. run_handle_ops allocHandle freeHandle setObject os m = Some m' \<and>
           hm_inv m' gs \<and> getObject m' h = Some ob"
  using hmt.stable [of m h ob os] hm_live_handle [OF assms(2)] assms by blast

theorem handle_object_stable_witness:
  "\<exists>m h ob m' gs. hm_abs m h = Some ob \<and>
     run_handle_ops allocHandle freeHandle setObject [AllocH, AllocH] m = Some m' \<and>
     hm_inv m' gs \<and> getObject m' h = Some ob"
proof -
  obtain v m ob where "hm_inv m [1, 2, 3]" "hm_abs m v = Some ob"
    using allocHandle_ok [OF four_slots_inv(1)] by (metis fun_upd_same)
  with handle_object_stable [of m "[1, 2, 3]" v ob "[AllocH, AllocH]"] show ?thesis by fastforce
qed

text \<open>Freeing a live handle makes exactly that handle dead and puts its slot behind the free
  ones; a stale handle is recognised, so freeing it again changes nothing and looking it up
  gives the null pointer.\<close>

theorem handle_free:
  assumes "hm_inv m fs" and "hm_abs m h = Some ob"
  shows "\<exists>m'. freeHandle m h = Some m' \<and> hm_inv m' (fs @ [unat (HIDX h)]) \<and>
           hm_abs m' = (hm_abs m)(h := None) \<and> freeHandle m' h = Some m' \<and>
           getObject m' h = Some NULL \<and> getHandleCount m' = getHandleCount m - 1"
proof -
  obtain m' where m': "freeHandle m h = Some m'" "hm_inv m' (fs @ [unat (HIDX h)])"
    "hm_abs m' = (hm_abs m)(h := None)" "mMaxHandle m' = mMaxHandle m"
    using freeHandle_ok [OF assms] .
  have h: "h \<noteq> 0" using hm_live_handle [OF assms(2)] .
  have "hm_abs m' h = None" using m'(3) by simp
  with freeHandle_dead [OF m'(2) h] getObject_abs [OF m'(2) h]
  have "freeHandle m' h = Some m'" "getObject m' h = Some NULL" by simp_all
  moreover have "getHandleCount m' = getHandleCount m - 1"
    using getHandleCount_eq [OF m'(2)] getHandleCount_eq [OF assms(1)] hm_inv_length [OF m'(2)] m'(4)
    by simp
  ultimately show ?thesis using m' by blast
qed

theorem handle_free_witness:
  "\<exists>m h ob m'. hm_abs m h = Some ob \<and> freeHandle m h = Some m' \<and> freeHandle m' h = Some m' \<and>
     getObject m' h = Some NULL"
proof -
  obtain v m ob where "hm_inv m [1, 2, 3]" "hm_abs m v = Some ob"
    using allocHandle_ok [OF four_slots_inv(1)] by (metis fun_upd_same)
  with handle_free [of m "[1, 2, 3]" v ob] show ?thesis by blast
qed

text \<open>Handle 0, which \<^verbatim>\<open>allocHandle\<close> returns for failure, is not rejected by \<^verbatim>\<open>freeHandle\<close>:
  when slot 0 is free the call links that slot into the free list a second time, so the size
  of the free list grows and the handle count drops below the number of live handles.\<close>

theorem handle_free_zero:
  assumes inv: "hm_inv m fs" and z: "0 \<in> set fs"
  shows "\<exists>m'. freeHandle m 0 = Some m' \<and>
           mSize (mHandleFreeList m') = of_nat (length fs + 1) \<and> hm_abs m' = hm_abs m"
proof -
  from inv have arr: "array_ok m" and d: "0 < maxn m"
    and rep: "es_rep (nodes m) (mHandleFreeList m) (map (res_at m) fs)"
    and sl: "slot_ok fs 0 (info m 0)" using z by (auto simp: hm_inv_def)
  obtain e where e: "info m 0 = Some e" "handle e = 0" using sl z by (auto simp: slot_ok_def split: option.splits)
  then obtain n where n: "nodes m (res_at m 0) = Some n" "nobj n = e" by (auto simp: info_def)
  have "HIDX 0 < ucast (mMaxHandle m)" using HIDX_less [of 0 m] d by (simp add: HIDX_def)
  then have hto: "HANDLE_TO_OBJ m 0 = Some (res_at m 0)"
    using n e(2) by (auto simp: HANDLE_TO_OBJ_def HIDX_def)
  obtain m1 where m1: "upd_info m (res_at m 0) (\<lambda>e. e\<lparr>handle := 0\<rparr>) = Some m1" "same_tab m m1"
    "\<forall>j < maxn m. info m1 j = (if j = 0 then Some (e\<lparr>handle := 0\<rparr>) else info m j)"
    "es_rep (nodes m1) (mHandleFreeList m1) (map (res_at m) fs)" "dom (nodes m1) = dom (nodes m)"
    "mHandleFreeList m1 = mHandleFreeList m"
    using upd_info_ok [OF arr d e(1) rep, of "\<lambda>e. e\<lparr>handle := 0\<rparr>"] by metis
  obtain n1 where n1: "nodes m1 (res_at m 0) = Some n1" using m1(5) n(1) by blast
  let ?l = "mHandleFreeList m1" and ?x = "res_at m 0"
  have "fs \<noteq> []" using z by auto
  then have "last0 NULL (map (res_at m) fs) \<in> set (map (res_at m) fs)" by (intro last0_in) simp
  then have tl: "mptail ?l \<in> set (map (res_at m) fs)" "mptail ?l \<noteq> NULL"
    using m1(4) by (auto simp: es_rep_def dl_rep_def)
  have "dl_rep (nodes m1) (mSeed ?l) (mphead ?l) (mptail ?l) (map (res_at m) fs)"
    using m1(4) by (simp add: es_rep_def)
  from dl_rep_SomeD [OF this tl(1)] obtain t where t: "nodes m1 (mptail ?l) = Some t" by blast
  define h2 where "h2 = (nodes m1)(?x \<mapsto> n1\<lparr>seed := mSeed ?l, dprev := mptail ?l, dnext := NULL\<rparr>)"
  obtain t2 where t2: "h2 (mptail ?l) = Some t2"
    using t by (cases "mptail ?l = ?x") (auto simp: h2_def)
  define h3 where "h3 = h2(mptail ?l \<mapsto> t2\<lparr>dnext := ?x\<rparr>)"
  obtain n3 where n3: "h3 ?x = Some n3"
    by (cases "mptail ?l = ?x") (auto simp: h3_def h2_def)
  have "nobj n3 = nobj n1" using n3 t2 by (auto simp: h3_def h2_def split: if_splits)
  then have keep: "map_option nobj ((h3(?x \<mapsto> n3\<lparr>nlist := this ?l\<rparr>)) y) = map_option nobj (nodes m1 y)" for y
    using n1 t t2 by (auto simp: h3_def h2_def split: if_splits)
  let ?m' = "m1\<lparr>nodes := h3(?x \<mapsto> n3\<lparr>nlist := this ?l\<rparr>),
               mHandleFreeList := ?l\<lparr>mptail := ?x, mSize := mSize ?l + 1\<rparr>\<rparr>"
  have "EsList_add (nodes m1) ?l ?x
      = Some (h3(?x \<mapsto> n3\<lparr>nlist := this ?l\<rparr>), ?l\<lparr>mptail := ?x, mSize := mSize ?l + 1\<rparr>)"
    using n1 t2 n3 tl(2) by (simp add: EsList_add_def dl_append_def upd_Some h2_def [symmetric] h3_def [symmetric])
  then have "freeHandle m 0 = Some ?m'"
    using hto m1(1) res_at_not_null [OF arr d] by (simp add: freeHandle_def list_add_def)
  moreover have "mSize (mHandleFreeList ?m') = of_nat (length fs + 1)"
    using m1(4) by (simp add: es_rep_def)
  moreover have "info ?m' j = info m j" if j: "j < maxn m" for j
  proof -
    have "info ?m' j = map_option nobj ((h3(?x \<mapsto> n3\<lparr>nlist := this ?l\<rparr>)) (res_at m1 j))"
      by (simp only: info_def res_at_def) simp
    also have "\<dots> = info m1 j" by (simp only: keep info_def)
    also have "e\<lparr>handle := 0\<rparr> = e" using e(2) by (cases e) simp
    then have "info m1 j = info m j" using m1(3) j e(1) by simp
    finally show ?thesis .
  qed
  then have "hm_abs ?m' = hm_abs m" using m1(2) by (intro ext) (simp add: hm_abs_def same_tab_def)
  ultimately show ?thesis by blast
qed

theorem handle_free_zero_witness:
  "\<exists>m'. freeHandle four_slots 0 = Some m' \<and> mSize (mHandleFreeList m') = 5 \<and>
     getHandleCount m' = - 1"
proof -
  obtain m' where m': "freeHandle four_slots 0 = Some m'" "mSize (mHandleFreeList m') = 5"
    using handle_free_zero [OF four_slots_inv(1)] by auto
  moreover have "mMaxHandle m' = mMaxHandle four_slots"
    using m'(1) by (auto simp: freeHandle_def upd_info_def list_add_def bind_Some_iff split: if_splits)
  ultimately show ?thesis
    using four_slots_inv(2) by (simp add: getHandleCount_def EsList_getSize_def)
qed

end
