(* ===== verification/EdStreams.thy ===== *)
theory EdStreams
  imports EdPrelude
begin

text \<open>The contract of a byte stream, shared by the byte buffer and the ring queue: what is put
  in comes out in order. \<open>abs\<close> is the run of bytes still to be read, \<open>room s n\<close> says that \<open>n\<close>
  more bytes fit. The lemmas show that any sequence of chunks written to an empty stream is
  read back chunk by chunk.\<close>

fun put_chunks :: "('s \<Rightarrow> u8 list \<Rightarrow> 's option) \<Rightarrow> 's \<Rightarrow> u8 list list \<Rightarrow> 's option" where
  "put_chunks put s [] = Some s"
| "put_chunks put s (c # cs) = put s c \<bind> (\<lambda>s. put_chunks put s cs)"

fun get_chunks :: "('s \<Rightarrow> nat \<Rightarrow> (u8 list \<times> 's) option) \<Rightarrow> 's \<Rightarrow> nat list \<Rightarrow> (u8 list list \<times> 's) option" where
  "get_chunks get s [] = Some ([], s)"
| "get_chunks get s (n # ns) =
     get s n \<bind> (\<lambda>(c, s). get_chunks get s ns \<bind> (\<lambda>(cs, s). Some (c # cs, s)))"

locale byte_fifo =
  fixes inv :: "'s \<Rightarrow> bool"
    and abs :: "'s \<Rightarrow> u8 list"
    and room :: "'s \<Rightarrow> nat \<Rightarrow> bool"
    and put :: "'s \<Rightarrow> u8 list \<Rightarrow> 's option"
    and get :: "'s \<Rightarrow> nat \<Rightarrow> (u8 list \<times> 's) option"
  assumes put_law: "inv s \<Longrightarrow> room s (length bs) \<Longrightarrow>
      \<exists>s'. put s bs = Some s' \<and> inv s' \<and> abs s' = abs s @ bs \<and>
           (\<forall>k. room s (length bs + k) \<longrightarrow> room s' k)"
    and room_mono: "room s n \<Longrightarrow> k \<le> n \<Longrightarrow> room s k"
    and get_law: "inv s \<Longrightarrow> n \<le> length (abs s) \<Longrightarrow>
      \<exists>s'. get s n = Some (take n (abs s), s') \<and> inv s' \<and> abs s' = drop n (abs s)"
begin

lemma put_chunks_law:
  "inv s \<Longrightarrow> room s (length (concat cs)) \<Longrightarrow>
     \<exists>s'. put_chunks put s cs = Some s' \<and> inv s' \<and> abs s' = abs s @ concat cs"
proof (induction cs arbitrary: s)
  case Nil
  then show ?case by simp
next
  case (Cons c cs)
  then have "room s (length c)" by (auto intro: room_mono)
  from put_law [OF Cons.prems(1) this] obtain s1 where
    s1: "put s c = Some s1" "inv s1" "abs s1 = abs s @ c" "\<And>k. room s (length c + k) \<Longrightarrow> room s1 k"
    by blast
  moreover from Cons.prems(2) have "room s1 (length (concat cs))" by (intro s1(4)) simp
  ultimately show ?case using Cons.IH [of s1] by simp
qed

lemma get_chunks_law:
  "inv s \<Longrightarrow> abs s = concat cs @ rest \<Longrightarrow>
     \<exists>s'. get_chunks get s (map length cs) = Some (cs, s') \<and> inv s' \<and> abs s' = rest"
proof (induction cs arbitrary: s)
  case Nil
  then show ?case by simp
next
  case (Cons c cs)
  then have "length c \<le> length (abs s)" by simp
  from get_law [OF Cons.prems(1) this] Cons.prems(2) obtain s1 where
    s1: "get s (length c) = Some (c, s1)" "inv s1" "abs s1 = concat cs @ rest" by auto
  from Cons.IH [OF s1(2,3)] s1(1) show ?case by auto
qed

lemma chunks_roundtrip:
  assumes "inv s" and "abs s = []" and "room s (length (concat cs))"
  shows "\<exists>s1 s2. put_chunks put s cs = Some s1 \<and>
           get_chunks get s1 (map length cs) = Some (cs, s2) \<and> inv s2 \<and> abs s2 = []"
proof -
  from put_chunks_law [OF assms(1,3)] assms(2) obtain s1 where
    "put_chunks put s cs = Some s1" "inv s1" "abs s1 = concat cs @ []" by auto
  with get_chunks_law [of s1 cs "[]"] show ?thesis by auto
qed

end

end
