(* ===== verification/EdBytes.thy ===== *)
theory EdBytes
  imports EdStreams
begin

text \<open>\<^verbatim>\<open>EdByteBuffer\<close> (EdByteBuffer.h, EdByteBuffer.cpp): a growing byte buffer with a read
  position. The \<^verbatim>\<open>size_t\<close> members are numbers whose sums and differences wrap at \<open>2 ^ 64\<close>;
  \<^verbatim>\<open>mBuf\<close> is the allocation behind the pointer, \<open>None\<close> for a null pointer. Memory fresh from
  the allocator has the contents \<open>junk\<close>. The lemmas show that \<^verbatim>\<open>put\<close> appends for every growth
  of the buffer, that the buffer is a byte stream, that numbers of every width written in either
  byte order are read back, and what happens past the end.\<close>

section \<open>The class\<close>

record EdByteBuffer =
  mSize :: nat
  mCapacity :: nat
  mReadPos :: nat
  mBuf :: "block option"
  mErr :: int
  mOrder :: bool

definition EdByteBuffer_new :: EdByteBuffer where
  "EdByteBuffer_new = \<lparr>mSize = 0, mCapacity = 0, mReadPos = 0, mBuf = None, mErr = 0, mOrder = False\<rparr>"

text \<open>Move assignment of \<open>s\<close> to \<open>d\<close>; \<open>same\<close> says whether both are one object. The former
  buffer of \<open>d\<close> is not freed.\<close>

definition EdByteBuffer_move :: "bool \<Rightarrow> EdByteBuffer \<Rightarrow> EdByteBuffer \<Rightarrow> EdByteBuffer \<times> EdByteBuffer" where
  "EdByteBuffer_move same d s =
     (if same then (d, s)
      else (\<lparr>mSize = mSize s, mCapacity = mCapacity s, mReadPos = mReadPos s, mBuf = mBuf s,
             mErr = mErr s, mOrder = mOrder s\<rparr>,
            s\<lparr>mBuf := None, mSize := 0, mReadPos := 0, mErr := 0, mCapacity := 0, mOrder := False\<rparr>))"

text \<open>The bytes behind \<^verbatim>\<open>mBuf\<close>.\<close>

definition blk_of :: "EdByteBuffer \<Rightarrow> block" where
  "blk_of b = (case mBuf b of None \<Rightarrow> [] | Some blk \<Rightarrow> blk)"

text \<open>\<^verbatim>\<open>realloc(p, 0)\<close> frees a non-null \<open>p\<close> and returns a null pointer.\<close>

definition EdByteBuffer_reserve :: "(nat \<Rightarrow> u8) \<Rightarrow> EdByteBuffer \<Rightarrow> nat \<Rightarrow> EdByteBuffer" where
  "EdByteBuffer_reserve junk b n =
     b\<lparr>mBuf := (if n = 0 \<and> mBuf b \<noteq> None then None else Some (realloc junk (blk_of b) n)),
       mCapacity := n\<rparr>"

definition EdByteBuffer_enlarge :: "(nat \<Rightarrow> u8) \<Rightarrow> EdByteBuffer \<Rightarrow> nat \<Rightarrow> EdByteBuffer" where
  "EdByteBuffer_enlarge junk b n = EdByteBuffer_reserve junk b (add64 (mCapacity b) n)"

text \<open>The loop \<^verbatim>\<open>for (; t < mSize + size && t < 16 * 1024; t *= 2)\<close> and the choice of the new
  capacity around it.\<close>

partial_function (option) grow_loop :: "nat \<Rightarrow> nat \<Rightarrow> nat option" where
  [code]: "grow_loop t need = (if t < need \<and> t < 16 * 1024 then grow_loop (mul64 t 2) need else Some t)"

definition grow_size :: "nat \<Rightarrow> nat \<Rightarrow> nat option" where
  "grow_size cap need =
     grow_loop (if cap = 0 then 4 else cap) need \<bind>
     (\<lambda>t. Some (if t < need then mul64 (add64 (need div 128) (need mod 128)) 128 else t))"

definition EdByteBuffer_put ::
  "(nat \<Rightarrow> u8) \<Rightarrow> EdByteBuffer \<Rightarrow> u8 list \<Rightarrow> fault + (int \<times> EdByteBuffer)" where
  "EdByteBuffer_put junk b bs =
     (let need = add64 (mSize b) (length bs);
          grown = (if need > mCapacity b
                   then grow_size (mCapacity b) need \<bind> (\<lambda>t. Some (EdByteBuffer_reserve junk b t))
                   else Some b)
      in case grown of
           None \<Rightarrow> Inl Diverges
         | Some b \<Rightarrow>
             (case memcpy_to (blk_of b) (mSize b) bs of
                None \<Rightarrow> Inl Bad_access
              | Some blk \<Rightarrow>
                  Inr (sint (of_nat need :: u32),
                       b\<lparr>mBuf := map_option (\<lambda>_. blk) (mBuf b), mSize := need\<rparr>)))"

definition EdByteBuffer_rewind :: "EdByteBuffer \<Rightarrow> EdByteBuffer" where
  "EdByteBuffer_rewind b = b\<lparr>mReadPos := 0\<rparr>"

definition EdByteBuffer_remain :: "EdByteBuffer \<Rightarrow> nat" where
  "EdByteBuffer_remain b = sub64 (mSize b) (mReadPos b)"

definition EdByteBuffer_clear :: "EdByteBuffer \<Rightarrow> EdByteBuffer" where
  "EdByteBuffer_clear b = b\<lparr>mSize := 0, mReadPos := 0\<rparr>"

definition EdByteBuffer_consume :: "EdByteBuffer \<Rightarrow> nat \<Rightarrow> EdByteBuffer" where
  "EdByteBuffer_consume b len = b\<lparr>mReadPos := add64 (mReadPos b) (min len (mSize b))\<rparr>"

definition EdByteBuffer_get :: "EdByteBuffer \<Rightarrow> nat \<Rightarrow> fault + (u8 list \<times> EdByteBuffer)" where
  "EdByteBuffer_get b count =
     (let s = min count (sub64 (mSize b) (mReadPos b))
      in case mem_read (blk_of b) (mReadPos b) s of
           None \<Rightarrow> Inl Bad_access
         | Some bs \<Rightarrow> Inr (bs, b\<lparr>mReadPos := add64 (mReadPos b) s\<rparr>))"

text \<open>\<^verbatim>\<open>getCurReadPtr\<close>: what may be read through the returned pointer.\<close>

definition EdByteBuffer_getCurReadPtr :: "EdByteBuffer \<Rightarrow> block" where
  "EdByteBuffer_getCurReadPtr b = drop (mReadPos b) (blk_of b)"

definition EdByteBuffer_release :: "EdByteBuffer \<Rightarrow> block option \<times> EdByteBuffer" where
  "EdByteBuffer_release b = (mBuf b, b\<lparr>mBuf := None, mCapacity := 0, mSize := 0, mReadPos := 0\<rparr>)"

definition EdByteBuffer_takeBuffer :: "EdByteBuffer \<Rightarrow> block option \<Rightarrow> nat \<Rightarrow> nat \<Rightarrow> EdByteBuffer" where
  "EdByteBuffer_takeBuffer b ptr datasize cap =
     b\<lparr>mBuf := ptr, mReadPos := 0, mCapacity := cap, mSize := datasize\<rparr>"

definition EdByteBuffer_setOrder :: "EdByteBuffer \<Rightarrow> int \<Rightarrow> EdByteBuffer" where
  "EdByteBuffer_setOrder b order = b\<lparr>mOrder := (order \<noteq> 0)\<rparr>"

section \<open>Numbers\<close>

definition EdByteBuffer_put8 :: "(nat \<Rightarrow> u8) \<Rightarrow> EdByteBuffer \<Rightarrow> u8 \<Rightarrow> fault + (int \<times> EdByteBuffer)" where
  "EdByteBuffer_put8 junk b c = EdByteBuffer_put junk b [c]"

definition EdByteBuffer_put16 :: "(nat \<Rightarrow> u8) \<Rightarrow> EdByteBuffer \<Rightarrow> u16 \<Rightarrow> fault + (int \<times> EdByteBuffer)" where
  "EdByteBuffer_put16 junk b c =
     (if \<not> mOrder b then EdByteBuffer_put junk b (le_bytes 2 c)
      else EdByteBuffer_put junk b (le_bytes 2 (byte_swap 2 c)))"

definition EdByteBuffer_put32 :: "(nat \<Rightarrow> u8) \<Rightarrow> EdByteBuffer \<Rightarrow> u32 \<Rightarrow> fault + (int \<times> EdByteBuffer)" where
  "EdByteBuffer_put32 junk b c =
     (if \<not> mOrder b then EdByteBuffer_put junk b (le_bytes 4 c)
      else EdByteBuffer_put junk b (le_bytes 4 (byte_swap 4 c)))"

definition EdByteBuffer_put64 :: "(nat \<Rightarrow> u8) \<Rightarrow> EdByteBuffer \<Rightarrow> u64 \<Rightarrow> fault + (int \<times> EdByteBuffer)" where
  "EdByteBuffer_put64 junk b c =
     (if \<not> mOrder b then EdByteBuffer_put junk b (le_bytes 8 c)
      else EdByteBuffer_put junk b (le_bytes 8 (be_word (le_bytes 8 c) :: u64)))"

text \<open>The common shape of \<^verbatim>\<open>get16\<close>, \<^verbatim>\<open>get32\<close> and \<^verbatim>\<open>get64\<close>: read \<open>k\<close> bytes at the read position
  and build the number from them.\<close>

definition read_num :: "EdByteBuffer \<Rightarrow> nat \<Rightarrow> (u8 list \<Rightarrow> 'n) \<Rightarrow> fault + ('n \<times> EdByteBuffer)" where
  "read_num b k conv =
     (case mem_read (blk_of b) (mReadPos b) k of
        None \<Rightarrow> Inl Bad_access
      | Some bs \<Rightarrow> Inr (conv bs, b\<lparr>mReadPos := add64 (mReadPos b) k\<rparr>))"

definition EdByteBuffer_get8 :: "EdByteBuffer \<Rightarrow> fault + (u8 \<times> EdByteBuffer)" where
  "EdByteBuffer_get8 b = (if mReadPos b < mSize b then read_num b 1 hd else Inl (Throw 1))"

definition EdByteBuffer_get16 :: "EdByteBuffer \<Rightarrow> fault + (u16 \<times> EdByteBuffer)" where
  "EdByteBuffer_get16 b =
     (if EdByteBuffer_remain b \<ge> 2
      then if \<not> mOrder b then read_num b 2 le_word else read_num b 2 be_word
      else Inl (Throw 1))"

definition EdByteBuffer_get32 :: "EdByteBuffer \<Rightarrow> fault + (u32 \<times> EdByteBuffer)" where
  "EdByteBuffer_get32 b =
     (if EdByteBuffer_remain b \<ge> 4
      then if \<not> mOrder b then read_num b 4 le_word else read_num b 4 be_word
      else Inl (Throw 1))"

definition EdByteBuffer_get64 :: "EdByteBuffer \<Rightarrow> fault + (u64 \<times> EdByteBuffer)" where
  "EdByteBuffer_get64 b =
     (if EdByteBuffer_remain b \<ge> 8
      then if \<not> mOrder b then read_num b 8 le_word else read_num b 8 be_word
      else Inl (Throw 1))"

text \<open>The templates, over the word type that \<^verbatim>\<open>T\<close> is. \<^verbatim>\<open>getNum\<close> reads through a \<^verbatim>\<open>char*\<close>, a
  signed type, and casts each byte to \<^verbatim>\<open>T\<close> before it shifts.\<close>

definition sizeof :: "'a::len itself \<Rightarrow> nat" where
  "sizeof t = LENGTH('a) div 8"

definition EdByteBuffer_getT :: "EdByteBuffer \<Rightarrow> fault + ('a::len word \<times> EdByteBuffer)" where
  "EdByteBuffer_getT b =
     (if EdByteBuffer_remain b < sizeof TYPE('a) then Inr (0, b\<lparr>mErr := - 1\<rparr>)
      else case read_num b (sizeof TYPE('a)) le_word of
             Inl e \<Rightarrow> Inl e
           | Inr (w, b) \<Rightarrow> Inr (w, b\<lparr>mErr := 0\<rparr>))"

definition EdByteBuffer_putT :: "(nat \<Rightarrow> u8) \<Rightarrow> EdByteBuffer \<Rightarrow> 'a::len word \<Rightarrow> fault + (int \<times> EdByteBuffer)" where
  "EdByteBuffer_putT junk b val = EdByteBuffer_put junk b (le_bytes (sizeof TYPE('a)) val)"

fun be_word_signed :: "u8 list \<Rightarrow> 'a::len word" where
  "be_word_signed [] = 0"
| "be_word_signed (c # cs) = push_bit (8 * length cs) (scast c) OR be_word_signed cs"

definition EdByteBuffer_getNum :: "EdByteBuffer \<Rightarrow> fault + ('a::len word \<times> EdByteBuffer)" where
  "EdByteBuffer_getNum b =
     (if EdByteBuffer_remain b \<ge> sizeof TYPE('a)
      then if \<not> mOrder b then read_num b (sizeof TYPE('a)) le_word
           else read_num b (sizeof TYPE('a)) be_word_signed
      else Inl (Throw 1))"

definition EdByteBuffer_putNum :: "(nat \<Rightarrow> u8) \<Rightarrow> EdByteBuffer \<Rightarrow> 'a::len word \<Rightarrow> fault + (int \<times> EdByteBuffer)" where
  "EdByteBuffer_putNum junk b val =
     (if \<not> mOrder b then EdByteBuffer_put junk b (le_bytes (sizeof TYPE('a)) val)
      else EdByteBuffer_put junk b
             (le_bytes (sizeof TYPE('a)) (be_word (le_bytes (sizeof TYPE('a)) val) :: 'a word)))"

section \<open>Invariant and abstraction\<close>

definition bb_inv :: "EdByteBuffer \<Rightarrow> bool" where
  "bb_inv b \<longleftrightarrow> mReadPos b \<le> mSize b \<and> mSize b \<le> mCapacity b \<and> mCapacity b < 2 ^ 64 \<and>
     length (blk_of b) = mCapacity b"

definition contents :: "EdByteBuffer \<Rightarrow> u8 list" where
  "contents b = take (mSize b) (blk_of b)"

definition pending :: "EdByteBuffer \<Rightarrow> u8 list" where
  "pending b = drop (mReadPos b) (contents b)"

text \<open>Room for \<open>n\<close> more bytes: the size stays below half of the address space.\<close>

definition bb_room :: "EdByteBuffer \<Rightarrow> nat \<Rightarrow> bool" where
  "bb_room b n \<longleftrightarrow> mSize b + n < 2 ^ 63"

lemma bb_room_lt [sz_simps]: "bb_room b n \<Longrightarrow> add64 (mSize b) n = mSize b + n"
  unfolding bb_room_def using two_63 by (intro add64_exact) linarith

lemma length_contents: "bb_inv b \<Longrightarrow> length (contents b) = mSize b"
  by (simp add: bb_inv_def contents_def)

lemma length_pending: "bb_inv b \<Longrightarrow> length (pending b) = mSize b - mReadPos b"
  by (simp add: pending_def length_contents)

lemma remain_pending: "bb_inv b \<Longrightarrow> EdByteBuffer_remain b = length (pending b)"
proof -
  assume b: "bb_inv b"
  then have "mReadPos b \<le> mSize b" "mSize b < 2 ^ 64" unfolding bb_inv_def by linarith+
  then show ?thesis by (simp add: EdByteBuffer_remain_def sub64_exact length_pending [OF b])
qed

lemma pending_ge_iff: "bb_inv b \<Longrightarrow> n \<le> length (pending b) \<longleftrightarrow> mReadPos b + n \<le> mSize b"
  by (auto simp: length_pending bb_inv_def)

lemma new_inv: "bb_inv EdByteBuffer_new" "contents EdByteBuffer_new = []"
  by (simp_all add: bb_inv_def EdByteBuffer_new_def blk_of_def contents_def)

section \<open>Growth\<close>

lemma grow_loop_total:
  "0 < t \<Longrightarrow> \<exists>t'. grow_loop t need = Some t' \<and> t \<le> t' \<and> (need \<le> t' \<or> 16384 \<le> t') \<and> t' \<le> max t 32768"
proof (induction "16384 - t" arbitrary: t rule: less_induct)
  case less
  show ?case
  proof (cases "t < need \<and> t < 16384")
    case True
    then have d: "mul64 t 2 = t * 2" by (intro mul64_exact) simp
    have "16384 - t * 2 < 16384 - t" using True less.prems by linarith
    from less.hyps [OF this] less.prems obtain t' where
      "grow_loop (t * 2) need = Some t'" "t * 2 \<le> t'" "need \<le> t' \<or> 16384 \<le> t'" "t' \<le> max (t * 2) 32768"
      by auto
    then show ?thesis using True d by (subst grow_loop.simps) auto
  next
    case False
    then show ?thesis by (subst grow_loop.simps) auto
  qed
qed

text \<open>The final adjustment multiplies quotient plus remainder: it never yields less than needed
  and at most 127 * 127 bytes more.\<close>

lemma grow_adjust:
  assumes "need < 2 ^ 63"
  shows "mul64 (add64 (need div 128) (need mod 128)) 128 = need + 127 * (need mod 128)"
proof -
  have m: "need mod 128 < 128" by simp
  have e: "need = 128 * (need div 128) + need mod 128" by simp
  have "need div 128 + need mod 128 < 2 ^ 64" using assms m e two_63 by linarith
  then have a: "add64 (need div 128) (need mod 128) = need div 128 + need mod 128" by (rule add64_exact)
  have "(need div 128 + need mod 128) * 128 = (128 * (need div 128) + need mod 128) + 127 * (need mod 128)"
    by (simp add: algebra_simps)
  then have v: "(need div 128 + need mod 128) * 128 = need + 127 * (need mod 128)"
    by (simp only: mult_div_mod_eq)
  have "need + 127 * (need mod 128) < 2 ^ 64" using assms m two_63 by linarith
  with v show ?thesis by (simp only: a mul64_exact)
qed

lemma grow_size_ok:
  assumes "need < 2 ^ 63"
  obtains t where "grow_size cap need = Some t" "need \<le> t" "t \<le> max cap (max 32768 (need + 127 * 127))" "cap \<le> t"
proof -
  obtain t where t: "grow_loop (if cap = 0 then 4 else cap) need = Some t" "cap \<le> t" "t \<le> max cap 32768"
    using grow_loop_total [of "if cap = 0 then 4 else cap" need] by (cases "cap = 0") auto
  show thesis
  proof (cases "t < need")
    case True
    have "need mod 128 \<le> 127" using pos_mod_bound [of 128 "int need"] by simp
    then have "127 * (need mod 128) \<le> 127 * 127" by simp
    then show thesis using True t grow_adjust [OF assms]
      by (intro that [of "need + 127 * (need mod 128)"]) (simp_all add: grow_size_def)
  next
    case False
    then show thesis using t by (intro that [of t]) (auto simp: grow_size_def)
  qed
qed

section \<open>What the operations do\<close>

lemma reserve_inv:
  assumes "bb_inv b" "mSize b \<le> n" "n < 2 ^ 64"
  shows "bb_inv (EdByteBuffer_reserve junk b n)" "contents (EdByteBuffer_reserve junk b n) = contents b"
    "mSize (EdByteBuffer_reserve junk b n) = mSize b" "mReadPos (EdByteBuffer_reserve junk b n) = mReadPos b"
    "mOrder (EdByteBuffer_reserve junk b n) = mOrder b" "mCapacity (EdByteBuffer_reserve junk b n) = n"
    "mErr (EdByteBuffer_reserve junk b n) = mErr b"
proof -
  have blk: "blk_of (EdByteBuffer_reserve junk b n) = realloc junk (blk_of b) n"
    by (cases "mBuf b") (auto simp: EdByteBuffer_reserve_def blk_of_def realloc_def)
  have b: "mReadPos b \<le> mSize b" "mSize b \<le> length (blk_of b)" using assms(1) by (auto simp: bb_inv_def)
  show c: "contents (EdByteBuffer_reserve junk b n) = contents b"
    using assms(2) b(2) unfolding contents_def blk
    by (simp add: take_realloc EdByteBuffer_reserve_def)
  show "bb_inv (EdByteBuffer_reserve junk b n)"
    unfolding bb_inv_def blk using assms b by (simp add: length_realloc EdByteBuffer_reserve_def)
qed (simp_all add: EdByteBuffer_reserve_def)

lemma store_ok:
  assumes "bb_inv b" "mSize b + length bs \<le> mCapacity b"
  obtains blk where "memcpy_to (blk_of b) (mSize b) bs = Some blk"
    "bb_inv (b\<lparr>mBuf := map_option (\<lambda>_. blk) (mBuf b), mSize := mSize b + length bs\<rparr>)"
    "contents (b\<lparr>mBuf := map_option (\<lambda>_. blk) (mBuf b), mSize := mSize b + length bs\<rparr>) = contents b @ bs"
proof
  let ?blk = "take (mSize b) (blk_of b) @ bs @ drop (mSize b + length bs) (blk_of b)"
  let ?b = "b\<lparr>mBuf := map_option (\<lambda>_. ?blk) (mBuf b), mSize := mSize b + length bs\<rparr>"
  have l: "mSize b + length bs \<le> length (blk_of b)" using assms by (simp add: bb_inv_def)
  show "memcpy_to (blk_of b) (mSize b) bs = Some ?blk" using l by (rule memcpy_to_ok)
  have lb: "length ?blk = length (blk_of b)" using l by simp
  have e: "blk_of ?b = ?blk"
    using lb by (cases "mBuf b") (simp_all add: blk_of_def)
  have len: "length (blk_of ?b) = mCapacity b" unfolding e lb using assms(1) by (simp add: bb_inv_def)
  show "bb_inv ?b" using assms len unfolding bb_inv_def by simp
  have "min (length (blk_of b)) (mSize b) = mSize b" using l by simp
  then show "contents ?b = contents b @ bs" unfolding contents_def e by simp
qed

lemma put_ok:
  assumes inv: "bb_inv b" and room: "bb_room b (length bs)"
  obtains b' where "EdByteBuffer_put junk b bs = Inr (sint (of_nat (mSize b + length bs) :: u32), b')"
    "bb_inv b'" "contents b' = contents b @ bs" "mSize b' = mSize b + length bs"
    "mReadPos b' = mReadPos b" "mOrder b' = mOrder b" "mErr b' = mErr b"
    "mCapacity b \<le> mCapacity b'"
    "mCapacity b' \<le> max (mCapacity b) (max 32768 (mSize b + length bs + 127 * 127))"
proof -
  let ?need = "mSize b + length bs"
  have need: "add64 (mSize b) (length bs) = ?need" "?need < 2 ^ 63"
    using room by (simp_all add: bb_room_lt bb_room_def)
  obtain g where g: "(if ?need > mCapacity b
        then grow_size (mCapacity b) ?need \<bind> (\<lambda>t. Some (EdByteBuffer_reserve junk b t))
        else Some b) = Some g" "bb_inv g" "contents g = contents b" "mSize g = mSize b"
      "mReadPos g = mReadPos b" "mOrder g = mOrder b" "mErr g = mErr b" "mSize g + length bs \<le> mCapacity g"
      "mCapacity b \<le> mCapacity g" "mCapacity g \<le> max (mCapacity b) (max 32768 (?need + 127 * 127))"
  proof (cases "?need > mCapacity b")
    case True
    obtain t where t: "grow_size (mCapacity b) ?need = Some t" "?need \<le> t" "mCapacity b \<le> t"
      "t \<le> max (mCapacity b) (max 32768 (?need + 127 * 127))" by (rule grow_size_ok [OF need(2)])
    have "mCapacity b < 2 ^ 64" using inv by (simp only: bb_inv_def)
    then have "t < 2 ^ 64" using t(4) need(2) two_63 by linarith
    note r = reserve_inv [OF inv _ this, of junk]
    show thesis using True t(1-3) r inv t(4) by (intro that [of "EdByteBuffer_reserve junk b t"]) simp_all
  next
    case False
    then show thesis using inv by (intro that [of b]) simp_all
  qed
  obtain blk where blk: "memcpy_to (blk_of g) (mSize g) bs = Some blk"
    "bb_inv (g\<lparr>mBuf := map_option (\<lambda>_. blk) (mBuf g), mSize := mSize g + length bs\<rparr>)"
    "contents (g\<lparr>mBuf := map_option (\<lambda>_. blk) (mBuf g), mSize := mSize g + length bs\<rparr>) = contents g @ bs"
    by (rule store_ok [OF g(2,8)])
  show thesis
  proof (rule that)
    show "EdByteBuffer_put junk b bs = Inr (sint (of_nat ?need :: u32),
        g\<lparr>mBuf := map_option (\<lambda>_. blk) (mBuf g), mSize := mSize g + length bs\<rparr>)"
      using g(1,4) blk(1) by (simp add: EdByteBuffer_put_def need(1) Let_def)
  qed (use g(3-) blk(2,3) in simp_all)
qed

lemma pending_append: "bb_inv b \<Longrightarrow> contents b' = contents b @ bs \<Longrightarrow> mReadPos b' = mReadPos b \<Longrightarrow> pending b' = pending b @ bs"
  using length_contents [of b] by (simp add: pending_def bb_inv_def)

lemma mem_read_pending:
  "bb_inv b \<Longrightarrow> n \<le> length (pending b) \<Longrightarrow> mem_read (blk_of b) (mReadPos b) n = Some (take n (pending b))"
proof -
  assume b: "bb_inv b" and n: "n \<le> length (pending b)"
  then have l: "mReadPos b + n \<le> mSize b" by (simp add: pending_ge_iff)
  then have "mReadPos b + n \<le> length (blk_of b)" using b by (simp add: bb_inv_def)
  then have "mem_read (blk_of b) (mReadPos b) n = Some (take n (drop (mReadPos b) (blk_of b)))"
    by (rule mem_read_ok)
  also have "take n (drop (mReadPos b) (blk_of b)) = take n (pending b)"
    using l by (simp add: pending_def contents_def drop_take)
  finally show ?thesis .
qed

lemma advance_ok:
  "bb_inv b \<Longrightarrow> n \<le> length (pending b) \<Longrightarrow>
     add64 (mReadPos b) n = mReadPos b + n \<and> bb_inv (b\<lparr>mReadPos := mReadPos b + n\<rparr>) \<and>
     pending (b\<lparr>mReadPos := mReadPos b + n\<rparr>) = drop n (pending b)"
proof -
  assume b: "bb_inv b" and n: "n \<le> length (pending b)"
  then have l: "mReadPos b + n \<le> mSize b" by (simp add: pending_ge_iff)
  then have "mReadPos b + n < 2 ^ 64" using b unfolding bb_inv_def by linarith
  then show ?thesis using b l
    by (simp add: add64_exact bb_inv_def blk_of_def pending_def contents_def add.commute)
qed

lemma get_ok:
  assumes "bb_inv b" "n \<le> length (pending b)"
  shows "EdByteBuffer_get b n = Inr (take n (pending b), b\<lparr>mReadPos := mReadPos b + n\<rparr>)"
proof -
  have "sub64 (mSize b) (mReadPos b) = length (pending b)"
    using remain_pending [OF assms(1)] by (simp add: EdByteBuffer_remain_def)
  then show ?thesis using assms mem_read_pending [OF assms] advance_ok [OF assms]
    by (simp add: EdByteBuffer_get_def min_absorb1)
qed

lemma read_num_ok:
  assumes "bb_inv b" "n \<le> length (pending b)"
  shows "read_num b n conv = Inr (conv (take n (pending b)), b\<lparr>mReadPos := mReadPos b + n\<rparr>)"
  using mem_read_pending [OF assms] advance_ok [OF assms] by (simp add: read_num_def)

section \<open>The buffer as a byte stream\<close>

definition bb_put :: "(nat \<Rightarrow> u8) \<Rightarrow> EdByteBuffer \<Rightarrow> u8 list \<Rightarrow> EdByteBuffer option" where
  "bb_put junk b bs = map_option snd (outcome (EdByteBuffer_put junk b bs))"

definition bb_get :: "EdByteBuffer \<Rightarrow> nat \<Rightarrow> (u8 list \<times> EdByteBuffer) option" where
  "bb_get b n = outcome (EdByteBuffer_get b n)"

interpretation bb: byte_fifo bb_inv pending bb_room "bb_put junk" bb_get for junk
proof
  fix b and bs :: "u8 list"
  assume b: "bb_inv b" and r: "bb_room b (length bs)"
  obtain b' where b': "EdByteBuffer_put junk b bs = Inr (sint (of_nat (mSize b + length bs) :: u32), b')"
    "bb_inv b'" "contents b' = contents b @ bs" "mSize b' = mSize b + length bs" "mReadPos b' = mReadPos b"
    by (rule put_ok [OF b r])
  then show "\<exists>s'. bb_put junk b bs = Some s' \<and> bb_inv s' \<and> pending s' = pending b @ bs \<and>
      (\<forall>k. bb_room b (length bs + k) \<longrightarrow> bb_room s' k)"
    using pending_append [OF b b'(3,5)] by (simp add: bb_put_def bb_room_def add.assoc)
next
  fix b n k assume "bb_room b n" "k \<le> n"
  then show "bb_room b k" unfolding bb_room_def by linarith
next
  fix b n assume b: "bb_inv b" "n \<le> length (pending b)"
  then show "\<exists>s'. bb_get b n = Some (take n (pending b), s') \<and> bb_inv s' \<and> pending s' = drop n (pending b)"
    using get_ok [OF b] advance_ok [OF b] by (simp add: bb_get_def)
qed

section \<open>Sequences of numbers\<close>

datatype number = N8 u8 | N16 u16 | N32 u32 | N64 u64

fun put_num :: "(nat \<Rightarrow> u8) \<Rightarrow> EdByteBuffer \<Rightarrow> number \<Rightarrow> fault + (int \<times> EdByteBuffer)" where
  "put_num junk b (N8 c) = EdByteBuffer_put8 junk b c"
| "put_num junk b (N16 c) = EdByteBuffer_put16 junk b c"
| "put_num junk b (N32 c) = EdByteBuffer_put32 junk b c"
| "put_num junk b (N64 c) = EdByteBuffer_put64 junk b c"

text \<open>Reading a number of the width of a given one.\<close>

fun get_num :: "EdByteBuffer \<Rightarrow> number \<Rightarrow> fault + (number \<times> EdByteBuffer)" where
  "get_num b (N8 _) = map_sum id (map_prod N8 id) (EdByteBuffer_get8 b)"
| "get_num b (N16 _) = map_sum id (map_prod N16 id) (EdByteBuffer_get16 b)"
| "get_num b (N32 _) = map_sum id (map_prod N32 id) (EdByteBuffer_get32 b)"
| "get_num b (N64 _) = map_sum id (map_prod N64 id) (EdByteBuffer_get64 b)"

fun num_bytes :: "bool \<Rightarrow> number \<Rightarrow> u8 list" where
  "num_bytes net (N8 c) = [c]"
| "num_bytes net (N16 c) = (if net then rev (le_bytes 2 c) else le_bytes 2 c)"
| "num_bytes net (N32 c) = (if net then rev (le_bytes 4 c) else le_bytes 4 c)"
| "num_bytes net (N64 c) = (if net then rev (le_bytes 8 c) else le_bytes 8 c)"

lemma put_num_bytes: "put_num junk b x = EdByteBuffer_put junk b (num_bytes (mOrder b) x)"
proof (cases x)
  case (N64 c)
  have "le_bytes 8 (be_word (le_bytes 8 c) :: u64) = rev (le_bytes 8 c)"
    using le_bytes_le_word [of "rev (le_bytes 8 c)", where ?'a = 64] by (simp add: be_word_rev)
  then show ?thesis using N64 by (simp add: EdByteBuffer_put64_def)
qed (simp_all add: EdByteBuffer_put8_def EdByteBuffer_put16_def EdByteBuffer_put32_def le_bytes_byte_swap)

lemma be_word_inverse: "8 * k = LENGTH('a) \<Longrightarrow> be_word (rev (le_bytes k w)) = (w :: 'a::len word)"
  by (simp add: be_word_le_bytes)

lemma read_num_bytes:
  assumes "bb_inv b" "pending b = bs @ rest" "length bs = k"
  shows "read_num b k conv = Inr (conv bs, b\<lparr>mReadPos := mReadPos b + k\<rparr>)"
  using read_num_ok [OF assms(1), of k conv] assms(2,3) by simp

lemma get_num_bytes:
  assumes b: "bb_inv b" and p: "pending b = num_bytes (mOrder b) x @ rest"
  shows "get_num b x = Inr (x, b\<lparr>mReadPos := mReadPos b + length (num_bytes (mOrder b) x)\<rparr>)"
proof -
  let ?n = "length (num_bytes (mOrder b) x)"
  have n: "?n \<le> length (pending b)" and r: "EdByteBuffer_remain b = ?n + length rest"
    using p by (simp_all add: remain_pending [OF b])
  have pos: "mReadPos b < mSize b \<longleftrightarrow> 0 < length (pending b)"
    using length_pending [OF b] by simp
  show ?thesis using n r pos p
    by (cases x; cases "mOrder b")
       (simp_all add: EdByteBuffer_get8_def EdByteBuffer_get16_def EdByteBuffer_get32_def
          EdByteBuffer_get64_def be_word_inverse read_num_bytes [OF b p])
qed

fun num_width :: "number \<Rightarrow> nat" where
  "num_width (N8 _) = 1"
| "num_width (N16 _) = 2"
| "num_width (N32 _) = 4"
| "num_width (N64 _) = 8"

lemma length_num_bytes [simp]: "length (num_bytes net x) = num_width x"
  by (cases x) auto

text \<open>Every run of bytes of the right length is the image of a number of that width.\<close>

lemma number_of_bytes:
  assumes "length bs = num_width x"
  obtains y where "num_bytes net y = bs" "num_width y = num_width x" "get_num b y = get_num b x"
proof -
  let ?c = "if net then rev bs else bs"
  show thesis
  proof (cases x)
    case (N8 u)
    with assms obtain v where "bs = [v]" by (cases bs) auto
    with N8 show thesis by (intro that [of "N8 v"]) simp_all
  next
    case (N16 u)
    with assms le_bytes_le_word [of ?c, where ?'a = 16] show thesis
      by (intro that [of "N16 (le_word ?c)"]) (auto split: if_splits)
  next
    case (N32 u)
    with assms le_bytes_le_word [of ?c, where ?'a = 32] show thesis
      by (intro that [of "N32 (le_word ?c)"]) (auto split: if_splits)
  next
    case (N64 u)
    with assms le_bytes_le_word [of ?c, where ?'a = 64] show thesis
      by (intro that [of "N64 (le_word ?c)"]) (auto split: if_splits)
  qed
qed

text \<open>A sequence of writes, each with the byte order set first, and the reads that answer it.\<close>

fun put_nums :: "(nat \<Rightarrow> u8) \<Rightarrow> EdByteBuffer \<Rightarrow> (int \<times> number) list \<Rightarrow> fault + EdByteBuffer" where
  "put_nums junk b [] = Inr b"
| "put_nums junk b ((ord, x) # xs) =
     (case put_num junk (EdByteBuffer_setOrder b ord) x of
        Inl e \<Rightarrow> Inl e
      | Inr (_, b) \<Rightarrow> put_nums junk b xs)"

fun get_nums :: "EdByteBuffer \<Rightarrow> (int \<times> number) list \<Rightarrow> fault + ((int \<times> number) list \<times> EdByteBuffer)" where
  "get_nums b [] = Inr ([], b)"
| "get_nums b ((ord, x) # xs) =
     (case get_num (EdByteBuffer_setOrder b ord) x of
        Inl e \<Rightarrow> Inl e
      | Inr (y, b) \<Rightarrow> (case get_nums b xs of Inl e \<Rightarrow> Inl e | Inr (ys, b) \<Rightarrow> Inr ((ord, y) # ys, b)))"

definition nums_bytes :: "(int \<times> number) list \<Rightarrow> u8 list" where
  "nums_bytes xs = concat (map (\<lambda>(ord, x). num_bytes (ord \<noteq> 0) x) xs)"

lemma nums_bytes_simps [simp]: "nums_bytes [] = []"
  "nums_bytes ((ord, x) # xs) = num_bytes (ord \<noteq> 0) x @ nums_bytes xs"
  by (simp_all add: nums_bytes_def)

lemma setOrder_simps [simp]:
  "bb_inv (EdByteBuffer_setOrder b ord) = bb_inv b" "pending (EdByteBuffer_setOrder b ord) = pending b"
  "mOrder (EdByteBuffer_setOrder b ord) = (ord \<noteq> 0)" "bb_room (EdByteBuffer_setOrder b ord) = bb_room b"
  by (simp_all add: EdByteBuffer_setOrder_def bb_inv_def blk_of_def pending_def contents_def bb_room_def fun_eq_iff)

lemma put_nums_ok:
  "bb_inv b \<Longrightarrow> bb_room b (length (nums_bytes xs)) \<Longrightarrow>
     \<exists>b'. put_nums junk b xs = Inr b' \<and> bb_inv b' \<and> pending b' = pending b @ nums_bytes xs"
proof (induction xs arbitrary: b)
  case Nil
  then show ?case by simp
next
  case (Cons p xs)
  obtain ord x where p: "p = (ord, x)" by (cases p)
  let ?b = "EdByteBuffer_setOrder b ord" and ?bs = "num_bytes (ord \<noteq> 0) x"
  have b: "bb_inv ?b" "bb_room ?b (length ?bs)"
    using Cons.prems by (auto simp: p bb_room_def)
  from bb.put_law [OF b, of junk] obtain b' where
    b': "bb_put junk ?b ?bs = Some b'" "bb_inv b'" "pending b' = pending ?b @ ?bs"
      "\<And>k. bb_room ?b (length ?bs + k) \<Longrightarrow> bb_room b' k" by blast
  have put: "\<exists>r. put_num junk ?b x = Inr (r, b')"
    using b'(1) by (auto simp: bb_put_def put_num_bytes outcome_def split: sum.splits)
  have "bb_room b' (length (nums_bytes xs))" using Cons.prems(2) by (intro b'(4)) (simp add: p)
  from Cons.IH [OF b'(2) this] put b'(3) show ?case by (auto simp: p)
qed

lemma get_nums_ok:
  "bb_inv b \<Longrightarrow> pending b = nums_bytes xs @ rest \<Longrightarrow>
     \<exists>b'. get_nums b xs = Inr (xs, b') \<and> bb_inv b' \<and> pending b' = rest"
proof (induction xs arbitrary: b)
  case Nil
  then show ?case by simp
next
  case (Cons p xs)
  obtain ord x where p: "p = (ord, x)" by (cases p)
  let ?b = "EdByteBuffer_setOrder b ord" and ?n = "num_width x"
  have b: "bb_inv ?b" and pe: "pending ?b = num_bytes (mOrder ?b) x @ nums_bytes xs @ rest"
    using Cons.prems by (simp_all add: p)
  have "?n \<le> length (pending ?b)" using pe by simp
  note adv = advance_ok [OF b this]
  have "get_num ?b x = Inr (x, ?b\<lparr>mReadPos := mReadPos ?b + ?n\<rparr>)"
    using get_num_bytes [OF b pe] by simp
  with Cons.IH [of "?b\<lparr>mReadPos := mReadPos ?b + ?n\<rparr>"] adv pe show ?case by (auto simp: p)
qed

section \<open>Properties\<close>

text \<open>C24. \<^verbatim>\<open>EdByteBuffer::put\<close> returns on every buffer whose size stays below half the address
  space, whatever growth it needs: it appends the bytes, keeps what was there and the read
  position, keeps the invariant, returns the new size as an \<^verbatim>\<open>int\<close>, never shrinks the capacity and
  over-allocates by at most 127 * 127 bytes or up to 32768.\<close>

theorem bytebuf_put:
  assumes "bb_inv b" "mSize b + length bs < 2 ^ 63"
  shows "\<exists>b'. EdByteBuffer_put junk b bs = Inr (sint (of_nat (mSize b + length bs) :: u32), b') \<and>
     bb_inv b' \<and> contents b' = contents b @ bs \<and> pending b' = pending b @ bs \<and>
     mReadPos b' = mReadPos b \<and> mOrder b' = mOrder b \<and> mCapacity b \<le> mCapacity b' \<and>
     mCapacity b' \<le> max (mCapacity b) (max 32768 (mSize b + length bs + 127 * 127))"
proof -
  have r: "bb_room b (length bs)" using assms(2) by (simp only: bb_room_def)
  show ?thesis
    by (rule put_ok [OF assms(1) r, of junk]) (use pending_append [OF assms(1)] in blast)
qed

theorem bytebuf_put_witness:
  "\<exists>b'. EdByteBuffer_put (\<lambda>_. 0) EdByteBuffer_new [1, 2, 3, 4, 5] = Inr (5, b') \<and> bb_inv b' \<and>
     contents b' = [1, 2, 3, 4, 5] \<and> mCapacity b' \<le> 32768"
proof -
  have "mSize EdByteBuffer_new = 0" "mCapacity EdByteBuffer_new = 0" by (simp_all add: EdByteBuffer_new_def)
  with bytebuf_put [OF new_inv(1), of "[1, 2, 3, 4, 5]" "\<lambda>_. 0"] new_inv(2) show ?thesis by auto
qed

text \<open>C25. A byte buffer is a stream: chunks of any lengths written with \<^verbatim>\<open>put\<close> to a buffer with
  nothing left to read come back from \<^verbatim>\<open>get\<close> calls of the same lengths, in order, and nothing is
  left over.\<close>

theorem bytebuf_stream:
  assumes "bb_inv b" "pending b = []" "mSize b + length (concat cs) < 2 ^ 63"
  shows "\<exists>b1 b2. put_chunks (\<lambda>b bs. map_option snd (outcome (EdByteBuffer_put junk b bs))) b cs = Some b1 \<and>
     get_chunks (\<lambda>b n. outcome (EdByteBuffer_get b n)) b1 (map length cs) = Some (cs, b2) \<and>
     bb_inv b2 \<and> pending b2 = []"
proof -
  have "bb_room b (length (concat cs))" using assms(3) by (simp only: bb_room_def)
  from bb.chunks_roundtrip [OF assms(1,2) this, of junk] show ?thesis
    by (simp only: bb_put_def [abs_def] bb_get_def [abs_def])
qed

theorem bytebuf_stream_witness:
  "\<exists>b1 b2. put_chunks (\<lambda>b bs. map_option snd (outcome (EdByteBuffer_put (\<lambda>_. 0) b bs))) EdByteBuffer_new [[7, 8], [], [9]] = Some b1 \<and>
     get_chunks (\<lambda>b n. outcome (EdByteBuffer_get b n)) b1 [2, 0, 1] = Some ([[7, 8], [], [9]], b2) \<and>
     bb_inv b2 \<and> pending b2 = []"
proof -
  have h: "pending EdByteBuffer_new = []" "mSize EdByteBuffer_new + length (concat [[7, 8], [], [9 :: u8]]) < 2 ^ 63"
    by (simp_all add: pending_def new_inv(2)) (simp add: EdByteBuffer_new_def)
  have l: "map length [[7, 8], [], [9 :: u8]] = [2, 0, 1]" by simp
  from bytebuf_stream [OF new_inv(1) h, of "\<lambda>_. 0"] show ?thesis by (simp only: l)
qed

text \<open>C26. Numbers of the four widths, each written after its own \<^verbatim>\<open>setOrder\<close>, are read back equal
  by the \<^verbatim>\<open>get\<close> functions of the same widths under the same orders, in any sequence and any mix of
  host and network order.\<close>

theorem bytebuf_numbers:
  assumes "bb_inv b" "pending b = []" "mSize b + length (nums_bytes xs) < 2 ^ 63"
  shows "\<exists>b1 b2. put_nums junk b xs = Inr b1 \<and> get_nums b1 xs = Inr (xs, b2) \<and>
     EdByteBuffer_remain b2 = 0"
proof -
  have "bb_room b (length (nums_bytes xs))" using assms(3) by (simp only: bb_room_def)
  from put_nums_ok [OF assms(1) this, of junk] assms(2) obtain b1 where
    b1: "put_nums junk b xs = Inr b1" "bb_inv b1" "pending b1 = nums_bytes xs @ []" by auto
  from get_nums_ok [OF b1(2,3)] obtain b2 where
    b2: "get_nums b1 xs = Inr (xs, b2)" "bb_inv b2" "pending b2 = []" by blast
  with b1(1) remain_pending [OF b2(2)] show ?thesis by auto
qed

theorem bytebuf_numbers_witness:
  "\<exists>b1 b2. put_nums (\<lambda>_. 0) EdByteBuffer_new [(1, N32 0x11223344), (0, N16 0x1122), (1, N64 5)] = Inr b1 \<and>
     get_nums b1 [(1, N32 0x11223344), (0, N16 0x1122), (1, N64 5)]
       = Inr ([(1, N32 0x11223344), (0, N16 0x1122), (1, N64 5)], b2) \<and> EdByteBuffer_remain b2 = 0"
  by (rule bytebuf_numbers [OF new_inv(1)]) (simp_all add: EdByteBuffer_new_def pending_def contents_def blk_of_def)

text \<open>On a well-formed buffer a numeric read throws 1 exactly when fewer bytes are left than
  the number has; otherwise it consumes just its bytes and returns the number whose image in the
  current byte order they are. It never touches memory outside the buffer.\<close>

theorem bytebuf_read_number:
  assumes b: "bb_inv b"
  shows "if length (pending b) < num_width x then get_num b x = Inl (Throw 1)
     else \<exists>y b'. get_num b x = Inr (y, b') \<and> num_bytes (mOrder b) y = take (num_width x) (pending b) \<and>
            num_width y = num_width x \<and> bb_inv b' \<and> pending b' = drop (num_width x) (pending b)"
proof (cases "length (pending b) < num_width x")
  case True
  then have "EdByteBuffer_remain b < num_width x" and "num_width x = 1 \<Longrightarrow> \<not> mReadPos b < mSize b"
    using remain_pending [OF b] length_pending [OF b] by simp_all
  then have "get_num b x = Inl (Throw 1)"
    by (cases x) (simp_all add: EdByteBuffer_get8_def EdByteBuffer_get16_def EdByteBuffer_get32_def EdByteBuffer_get64_def)
  with True show ?thesis by simp
next
  case False
  then have n: "num_width x \<le> length (pending b)" by simp
  then have "length (take (num_width x) (pending b)) = num_width x" by simp
  from this obtain y where y: "num_bytes (mOrder b) y = take (num_width x) (pending b)"
    "num_width y = num_width x" "get_num b y = get_num b x" by (rule number_of_bytes)
  have "pending b = num_bytes (mOrder b) y @ drop (num_width x) (pending b)" by (simp add: y(1))
  from get_num_bytes [OF b this] y have "get_num b x = Inr (y, b\<lparr>mReadPos := mReadPos b + num_width x\<rparr>)"
    using \<open>length (take (num_width x) (pending b)) = num_width x\<close> by (simp only: y(1,3))
  with y(1,2) advance_ok [OF b n] False show ?thesis by auto
qed

theorem bytebuf_read_number_witness:
  "get_num EdByteBuffer_new (N32 0) = Inl (Throw 1)"
  using bytebuf_read_number [OF new_inv(1), of "N32 0"] new_inv(2) by (simp add: pending_def)

text \<open>\<^verbatim>\<open>consume\<close> clamps its argument to the size of the buffer, not to what is left: up to
  the bytes left it skips exactly that many, but past them the read position moves behind the end,
  \<^verbatim>\<open>remain\<close> wraps to a value near \<open>2 ^ 64\<close>, and a following read of as much as the buffer holds is
  an access outside it.\<close>

theorem bytebuf_consume:
  assumes b: "bb_inv b" and s: "mSize b < 2 ^ 63"
  shows "(len \<le> length (pending b) \<longrightarrow>
           bb_inv (EdByteBuffer_consume b len) \<and> pending (EdByteBuffer_consume b len) = drop len (pending b)) \<and>
         (length (pending b) < len \<and> 0 < mReadPos b \<longrightarrow>
           mSize b < mReadPos (EdByteBuffer_consume b len) \<and>
           EdByteBuffer_remain (EdByteBuffer_consume b len) \<ge> 2 ^ 63 \<and>
           (mCapacity b < n \<and> n < 2 ^ 63 \<longrightarrow> EdByteBuffer_get (EdByteBuffer_consume b len) n = Inl Bad_access))"
proof (intro conjI impI)
  assume l: "len \<le> length (pending b)"
  then have "min len (mSize b) = len" using length_pending [OF b] by simp
  then show "bb_inv (EdByteBuffer_consume b len)" "pending (EdByteBuffer_consume b len) = drop len (pending b)"
    using advance_ok [OF b l] by (simp_all add: EdByteBuffer_consume_def)
next
  assume l: "length (pending b) < len \<and> 0 < mReadPos b"
  let ?c = "min len (mSize b)" and ?b = "EdByteBuffer_consume b len"
  have r: "mReadPos b \<le> mSize b" using b by (simp add: bb_inv_def)
  have "mReadPos b + ?c < 2 ^ 64" using r s two_63 by linarith
  then have p: "mReadPos ?b = mReadPos b + ?c" by (simp add: EdByteBuffer_consume_def add64_exact)
  show gt: "mSize b < mReadPos ?b" using p l r length_pending [OF b] by linarith
  have "mReadPos ?b \<le> 2 ^ 64" using p \<open>mReadPos b + ?c < 2 ^ 64\<close> by linarith
  then have w: "sub64 (mSize b) (mReadPos ?b) = 2 ^ 64 - (mReadPos ?b - mSize b)" using gt by (intro sub64_wraps)
  have "mReadPos ?b - mSize b \<le> mSize b" using p r by linarith
  then have big: "2 ^ 63 \<le> sub64 (mSize b) (mReadPos ?b)" using w s two_63 by linarith
  then show "2 ^ 63 \<le> EdByteBuffer_remain ?b" by (simp add: EdByteBuffer_remain_def EdByteBuffer_consume_def)
  assume n: "mCapacity b < n \<and> n < 2 ^ 63"
  then have "min n (sub64 (mSize b) (mReadPos ?b)) = n" using big by linarith
  moreover have "blk_of ?b = blk_of b" "mSize ?b = mSize b"
    by (simp_all add: EdByteBuffer_consume_def blk_of_def)
  ultimately show "EdByteBuffer_get ?b n = Inl Bad_access"
    using n b by (simp add: EdByteBuffer_get_def mem_read_def bb_inv_def)
qed

definition half_read :: EdByteBuffer where
  "half_read = \<lparr>mSize = 4, mCapacity = 4, mReadPos = 2, mBuf = Some [1, 2, 3, 4], mErr = 0, mOrder = False\<rparr>"

theorem bytebuf_consume_witness:
  "EdByteBuffer_remain (EdByteBuffer_consume half_read 4) \<ge> 2 ^ 63 \<and>
   EdByteBuffer_get (EdByteBuffer_consume half_read 4) 5 = Inl Bad_access \<and>
   pending (EdByteBuffer_consume half_read 1) = [4]"
proof -
  have i: "bb_inv half_read" "mSize half_read < 2 ^ 63" and p: "pending half_read = [3, 4]"
    by (simp_all add: half_read_def bb_inv_def blk_of_def pending_def contents_def)
  have h: "length (pending half_read) < 4 \<and> 0 < mReadPos half_read" "mCapacity half_read < 5 \<and> 5 < (2::nat) ^ 63"
    by (simp_all add: p) (simp_all add: half_read_def)
  from bytebuf_consume [OF i, of 4 5] h
  have "EdByteBuffer_remain (EdByteBuffer_consume half_read 4) \<ge> 2 ^ 63"
    "EdByteBuffer_get (EdByteBuffer_consume half_read 4) 5 = Inl Bad_access" by blast+
  moreover from bytebuf_consume [OF i, of 1 0] have "pending (EdByteBuffer_consume half_read 1) = [4]"
    by (simp add: p)
  ultimately show ?thesis by blast
qed

lemma be_word_signed_16:
  "be_word_signed (rev (le_bytes 2 w)) = (if bit w 7 then w OR 0xFF00 else w :: u16)"
proof -
  have l: "le_bytes 2 w = [ucast w, ucast (drop_bit 8 w)]" by (simp add: numeral_2_eq_2)
  have m: "(0xFF00 :: u16) = push_bit 8 (mask 8)" by (simp add: mask_eq_exp_minus_1)
  have b: "be_word_signed (rev (le_bytes 2 w))
      = push_bit 8 (scast (ucast (drop_bit 8 w) :: u8)) OR scast (ucast w :: u8)" by (simp add: l)
  show ?thesis unfolding b m
  proof (rule bit_word_eqI)
    fix n assume "n < LENGTH(16)"
    then show "bit (push_bit 8 (scast (ucast (drop_bit 8 w) :: u8)) OR scast (ucast w :: u8) :: u16) n
        = bit (if bit w 7 then w OR push_bit 8 (mask 8) else w) n"
      by (cases "n = 7"; cases "n = 15"; cases "n < 8") (auto simp: bit_simps min_def split: if_splits)
  qed
qed

text \<open>In network order \<^verbatim>\<open>getNum\<close> does not undo \<^verbatim>\<open>putNum\<close>: bytes are read through a signed
  \<^verbatim>\<open>char\<close> pointer, so a low byte of 128 or more is sign extended over the high byte. For a 16-bit
  number the result has the high byte 0xFF whenever bit 7 of the number is set, and is the number
  otherwise.\<close>

theorem bytebuf_getNum_sign:
  assumes b: "bb_inv b" and p: "pending b = []" and s: "mSize b + 2 < 2 ^ 63"
  shows "\<exists>r b1 b2. EdByteBuffer_putNum junk (EdByteBuffer_setOrder b 1) (w :: u16) = Inr (r, b1) \<and>
     EdByteBuffer_getNum b1 = Inr (if bit w 7 then w OR 0xFF00 else w, b2)"
proof -
  let ?b = "EdByteBuffer_setOrder b 1" and ?bs = "rev (le_bytes 2 w)"
  have sz: "sizeof TYPE(16) = 2" by (simp add: sizeof_def)
  have "le_bytes 2 (be_word (le_bytes 2 w) :: u16) = ?bs"
    using le_bytes_le_word [of ?bs, where ?'a = 16] by (simp add: be_word_rev)
  then have put: "EdByteBuffer_putNum junk ?b w = EdByteBuffer_put junk ?b ?bs"
    by (simp add: EdByteBuffer_putNum_def sz)
  have ib: "bb_inv ?b" and r: "bb_room ?b (length ?bs)" using b s by (simp_all add: bb_room_def)
  obtain r b1 where b1: "EdByteBuffer_put junk ?b ?bs = Inr (r, b1)" "bb_inv b1"
      "contents b1 = contents ?b @ ?bs" "mReadPos b1 = mReadPos ?b" "mOrder b1 = mOrder ?b"
    by (rule put_ok [OF ib r, of junk]) blast
  have pe: "pending b1 = ?bs @ []" using pending_append [OF ib b1(3,4)] p by simp
  have "read_num b1 2 be_word_signed = Inr (if bit w 7 then w OR 0xFF00 else w, b1\<lparr>mReadPos := mReadPos b1 + 2\<rparr>)"
    using read_num_bytes [OF b1(2) pe, of 2 "be_word_signed :: u8 list \<Rightarrow> u16"] by (simp add: be_word_signed_16)
  then show ?thesis using put b1(1,5) remain_pending [OF b1(2)] pe
    by (simp add: EdByteBuffer_getNum_def sz)
qed

theorem bytebuf_getNum_sign_witness:
  "\<exists>r b1 b2. EdByteBuffer_putNum (\<lambda>_. 0) (EdByteBuffer_setOrder EdByteBuffer_new 1) (0x0180 :: u16) = Inr (r, b1) \<and>
     EdByteBuffer_getNum b1 = Inr (0xFF80 :: u16, b2)"
proof -
  have "bit (0x0180 :: u16) 7" "(0x0180 :: u16) OR 0xFF00 = 0xFF80" by (simp_all add: bit_simps)
  with bytebuf_getNum_sign [OF new_inv(1), of "\<lambda>_. 0" "0x0180"] new_inv(2) show ?thesis
    by (simp add: pending_def EdByteBuffer_new_def)
qed

end
