(* ===== verification/EdRing.thy ===== *)
theory EdRing
  imports EdStreams
begin

text \<open>\<^verbatim>\<open>EdRingQue\<close> (EdRingQue.h, EdRingQue.cpp): a ring of bytes with a read position, a write
  position and a fill count, all of type \<^verbatim>\<open>int\<close>. Copies out of range are \<open>Bad_access\<close>, sums that
  leave \<^verbatim>\<open>int\<close> are \<open>Int_overflow\<close>, the remainder by a zero buffer size is \<open>Div_by_zero\<close>. The lemmas
  show that a ring of at most \<open>2 ^ 30\<close> bytes refines a bounded byte queue.\<close>

section \<open>The class\<close>

record EdRingQue =
  mBuf :: block
  mReadPos :: int
  mWritePos :: int
  mBufSize :: int
  mDataSize :: int
  mLastPeekPos :: int
  mLastPeekDataSize :: int

text \<open>The constructor; \<open>junk\<close> is what \<^verbatim>\<open>malloc\<close> hands out.\<close>

definition EdRingQue_new :: "(nat \<Rightarrow> u8) \<Rightarrow> int \<Rightarrow> EdRingQue" where
  "EdRingQue_new junk bufsize =
     \<lparr>mBuf = map junk [0..<nat bufsize], mReadPos = 0, mWritePos = 0, mBufSize = bufsize, mDataSize = 0,
      mLastPeekPos = 0, mLastPeekDataSize = 0\<rparr>"

text \<open>\<^verbatim>\<open>memcpy\<close> with \<^verbatim>\<open>int\<close> offset and length: a negative one converts to a huge \<^verbatim>\<open>size_t\<close>.\<close>

definition copy_out :: "block \<Rightarrow> int \<Rightarrow> int \<Rightarrow> fault + u8 list" where
  "copy_out blk pos n =
     (if pos < 0 \<or> n < 0 then Inl Bad_access
      else case mem_read blk (nat pos) (nat n) of None \<Rightarrow> Inl Bad_access | Some bs \<Rightarrow> Inr bs)"

definition copy_in :: "block \<Rightarrow> int \<Rightarrow> u8 list \<Rightarrow> int \<Rightarrow> fault + block" where
  "copy_in blk pos src n =
     (if pos < 0 \<or> n < 0 \<or> length src < nat n then Inl Bad_access
      else case memcpy_to blk (nat pos) (take (nat n) src) of None \<Rightarrow> Inl Bad_access | Some b \<Rightarrow> Inr b)"

text \<open>\<^verbatim>\<open>readPos\<close>: the count and the bytes copied to \<^verbatim>\<open>buf\<close>, none when \<^verbatim>\<open>buf\<close> is null
  (\<open>dest\<close> false).\<close>

definition EdRingQue_readPos :: "EdRingQue \<Rightarrow> bool \<Rightarrow> int \<Rightarrow> int \<Rightarrow> int \<Rightarrow> fault + (int \<times> u8 list)" where
  "EdRingQue_readPos q dest sz readpos datasize =
     (let rdsize = min sz datasize; c = min rdsize (mBufSize q - readpos) in
      bindr (if dest then copy_out (mBuf q) readpos c else Inr []) (\<lambda>bs1.
      bindr (iadd readpos c) (\<lambda>p.
      bindr (imod p (mBufSize q)) (\<lambda>_.
      bindr (if rdsize - c > 0 \<and> dest then copy_out (mBuf q) 0 (rdsize - c) else Inr []) (\<lambda>bs2.
      Inr (rdsize, bs1 @ bs2))))))"

definition EdRingQue_get :: "EdRingQue \<Rightarrow> bool \<Rightarrow> int \<Rightarrow> fault + (int \<times> u8 list \<times> EdRingQue)" where
  "EdRingQue_get q dest sz =
     bindr (EdRingQue_readPos q dest sz (mReadPos q) (mDataSize q)) (\<lambda>(rdcnt, bs).
     bindr (iadd (mReadPos q) rdcnt) (\<lambda>p.
     bindr (imod p (mBufSize q)) (\<lambda>r.
     Inr (rdcnt, bs, q\<lparr>mReadPos := r, mDataSize := mDataSize q - rdcnt\<rparr>))))"

definition EdRingQue_peek :: "EdRingQue \<Rightarrow> bool \<Rightarrow> int \<Rightarrow> fault + (int \<times> u8 list \<times> EdRingQue)" where
  "EdRingQue_peek q dest sz =
     bindr (EdRingQue_readPos q dest sz (mReadPos q) (mDataSize q)) (\<lambda>(rdcnt, bs).
     bindr (iadd (mReadPos q) rdcnt) (\<lambda>p.
     bindr (imod p (mBufSize q)) (\<lambda>r.
     Inr (rdcnt, bs, q\<lparr>mLastPeekPos := r, mLastPeekDataSize := mDataSize q - rdcnt\<rparr>))))"

definition EdRingQue_peekNext :: "EdRingQue \<Rightarrow> bool \<Rightarrow> int \<Rightarrow> fault + (int \<times> u8 list \<times> EdRingQue)" where
  "EdRingQue_peekNext q dest sz =
     bindr (EdRingQue_readPos q dest sz (mLastPeekPos q) (mLastPeekDataSize q)) (\<lambda>(rdcnt, bs).
     bindr (iadd (mLastPeekPos q) rdcnt) (\<lambda>p.
     bindr (imod p (mBufSize q)) (\<lambda>r.
     Inr (rdcnt, bs, q\<lparr>mLastPeekPos := r, mLastPeekDataSize := mLastPeekDataSize q - rdcnt\<rparr>))))"

definition EdRingQue_put :: "EdRingQue \<Rightarrow> u8 list \<Rightarrow> int \<Rightarrow> fault + (int \<times> EdRingQue)" where
  "EdRingQue_put q buf sz =
     (let wsize = min sz (mBufSize q - mDataSize q); c = min wsize (mBufSize q - mWritePos q) in
      bindr (copy_in (mBuf q) (mWritePos q) buf c) (\<lambda>blk.
      bindr (iadd (mWritePos q) c) (\<lambda>p.
      bindr (imod p (mBufSize q)) (\<lambda>w.
      bindr (if wsize - c > 0
             then bindr (copy_in blk 0 (drop (nat c) buf) (wsize - c)) (\<lambda>blk.
                  bindr (iadd w (wsize - c)) (\<lambda>w. Inr (blk, w)))
             else Inr (blk, w)) (\<lambda>(blk, w).
      Inr (wsize, q\<lparr>mBuf := blk, mWritePos := w, mDataSize := mDataSize q + wsize\<rparr>))))))"

definition EdRingQue_getDataSize :: "EdRingQue \<Rightarrow> int" where
  "EdRingQue_getDataSize q = mDataSize q"

definition EdRingQue_getFreeSize :: "EdRingQue \<Rightarrow> int" where
  "EdRingQue_getFreeSize q = mBufSize q - mDataSize q"

section \<open>Bytes of a ring\<close>

text \<open>The \<open>k\<close> bytes of a block that start at \<open>p\<close> and wrap around its end.\<close>

definition ring_bytes :: "block \<Rightarrow> nat \<Rightarrow> nat \<Rightarrow> u8 list" where
  "ring_bytes blk p k = map (\<lambda>i. blk ! ((p + i) mod length blk)) [0..<k]"

lemma length_ring_bytes [simp]: "length (ring_bytes blk p k) = k"
  by (simp add: ring_bytes_def)

lemma nth_ring_bytes [simp]: "i < k \<Longrightarrow> ring_bytes blk p k ! i = blk ! ((p + i) mod length blk)"
  by (simp add: ring_bytes_def)

lemma ring_bytes_0 [simp]: "ring_bytes blk p 0 = []"
  by (simp add: ring_bytes_def)

lemma take_ring_bytes: "j \<le> k \<Longrightarrow> take j (ring_bytes blk p k) = ring_bytes blk p j"
  by (rule nth_equalityI) simp_all

lemma drop_ring_bytes: "j \<le> k \<Longrightarrow> drop j (ring_bytes blk p k) = ring_bytes blk ((p + j) mod length blk) (k - j)"
  by (rule nth_equalityI) (simp_all add: mod_simps add.assoc)

lemma mod_wrap: "p < n \<Longrightarrow> i < n \<Longrightarrow> (p + i) mod n = (if p + i < n then p + i else p + i - n)" for n :: nat
  by (simp add: mod_if)

text \<open>The two copies of \<^verbatim>\<open>readPos\<close> read just these bytes.\<close>

lemma ring_bytes_split:
  assumes "p < length blk" "k \<le> length blk"
  shows "take (min k (length blk - p)) (drop p blk) @ take (k - min k (length blk - p)) blk = ring_bytes blk p k"
proof (cases "k \<le> length blk - p")
  case True
  then have "take k (drop p blk) = ring_bytes blk p k"
    using assms by (intro nth_equalityI) simp_all
  with True show ?thesis by simp
next
  case False
  then have m: "min k (length blk - p) = length blk - p" by simp
  show ?thesis unfolding m
    using False assms by (intro nth_equalityI) (auto simp: nth_append mod_wrap add.commute)
qed

text \<open>The two copies of \<^verbatim>\<open>put\<close>, from position \<open>p\<close>, and the block they leave.\<close>

definition ring_write :: "block \<Rightarrow> nat \<Rightarrow> u8 list \<Rightarrow> block" where
  "ring_write blk p src =
     (let c = min (length src) (length blk - p);
          blk1 = take p blk @ take c src @ drop (p + c) blk
      in drop c src @ drop (length src - c) blk1)"

lemma length_ring_write: "p < length blk \<Longrightarrow> length src \<le> length blk \<Longrightarrow> length (ring_write blk p src) = length blk"
  by (auto simp: ring_write_def Let_def)

lemma nth_ring_write:
  assumes "p < length blk" "length src \<le> length blk" "i < length blk"
  shows "ring_write blk p src ! ((p + i) mod length blk)
       = (if i < length src then src ! i else blk ! ((p + i) mod length blk))"
proof (cases "length src \<le> length blk - p")
  case True
  then have w: "ring_write blk p src = take p blk @ src @ drop (p + length src) blk"
    by (simp add: ring_write_def Let_def)
  have m: "min (length blk) p = p" using assms(1) by simp
  show ?thesis
  proof (cases "p + i < length blk")
    case c: True
    then have "(p + i) mod length blk = p + i" by simp
    then show ?thesis using c True by (simp add: w nth_append m)
  next
    case c: False
    then have "(p + i) mod length blk = p + i - length blk" "p + i - length blk < p"
      using assms by (simp_all add: mod_wrap)
    moreover have "\<not> i < length src" using c True by linarith
    ultimately show ?thesis by (simp add: w nth_append m)
  qed
next
  case False
  define c where "c = length blk - p"
  have lc: "p + c = length blk" "c < length src" "length src - c \<le> p"
    using False assms(1,2) by (simp_all add: c_def)
  have "min (length src) (length blk - p) = c" using False by (simp add: c_def)
  then have w: "ring_write blk p src = drop c src @ drop (length src - c) (take p blk @ take c src)"
    by (simp add: ring_write_def Let_def lc(1))
  have m: "length (take p blk) = p" "length (drop c src) = length src - c" using assms(1) by simp_all
  show ?thesis
  proof (cases "p + i < length blk")
    case t: True
    then have i: "(p + i) mod length blk = p + i" "i < c" by (simp_all add: c_def)
    have "drop (length src - c) (take p blk @ take c src) ! (p + i - (length src - c)) = (take p blk @ take c src) ! (p + i)"
      using lc m i(2) by (subst nth_drop) simp_all
    then show ?thesis using i lc m by (simp add: w nth_append)
  next
    case f: False
    define k where "k = i - c"
    have i: "i = c + k" "k < p" using f assms(3) lc(1) by (simp_all add: k_def)
    have j: "(p + i) mod length blk = k" using i lc(1) assms(1) by (simp add: add.assoc [symmetric])
    show ?thesis unfolding j w
    proof (cases "k < length src - c")
      case True
      then have "c + k < length src" by linarith
      with True show "(drop c src @ drop (length src - c) (take p blk @ take c src)) ! k = (if i < length src then src ! i else blk ! k)"
        using lc(2) by (simp add: nth_append i(1))
    next
      case k: False
      then have "drop (length src - c) (take p blk @ take c src) ! (k - (length src - c)) = blk ! k"
        using lc m i(2) by (subst nth_drop) (simp_all add: nth_append)
      moreover have "\<not> i < length src" using k i(1) by linarith
      ultimately show "(drop c src @ drop (length src - c) (take p blk @ take c src)) ! k = (if i < length src then src ! i else blk ! k)"
        using k by (simp only: nth_append m if_False)
    qed
  qed
qed

lemma ring_bytes_write:
  assumes "r < length blk" "d + length src \<le> length blk" "p = (r + d) mod length blk"
  shows "ring_bytes (ring_write blk p src) r (d + length src) = ring_bytes blk r d @ src"
proof (rule nth_equalityI)
  fix i assume "i < length (ring_bytes (ring_write blk p src) r (d + length src))"
  then have i: "i < d + length src" by simp
  have p: "p < length blk" unfolding assms(3) using assms(1) by (intro mod_less_divisor) linarith
  have len: "length (ring_write blk p src) = length blk" using p assms(2) by (intro length_ring_write) simp_all
  let ?n = "length blk"
  let ?j = "if d \<le> i then i - d else ?n + i - d"
  have j: "?j < ?n" using i assms(1,2) by auto
  have "(p + ?j) mod ?n = (r + (d + ?j)) mod ?n" using assms(3) by (simp add: mod_simps add.assoc)
  also have "d + ?j = (if d \<le> i then i else ?n + i)" using i assms(2) by auto
  also have "(r + (if d \<le> i then i else ?n + i)) mod ?n = (r + i) mod ?n"
    by (simp add: add.left_commute [of r ?n])
  finally have e: "(p + ?j) mod ?n = (r + i) mod ?n" .
  have "ring_write blk p src ! ((r + i) mod ?n) = (if ?j < length src then src ! ?j else blk ! ((r + i) mod ?n))"
    using nth_ring_write [OF p _ j, of src] assms(2) by (simp only: e)
  then show "ring_bytes (ring_write blk p src) r (d + length src) ! i = (ring_bytes blk r d @ src) ! i"
    using i assms(2) by (cases "d \<le> i") (auto simp: len nth_append)
qed simp

section \<open>Refinement to a byte queue\<close>

definition ring_inv :: "EdRingQue \<Rightarrow> bool" where
  "ring_inv q \<longleftrightarrow> 0 < mBufSize q \<and> mBufSize q \<le> 2 ^ 30 \<and> int (length (mBuf q)) = mBufSize q \<and>
     0 \<le> mReadPos q \<and> mReadPos q < mBufSize q \<and> 0 \<le> mDataSize q \<and> mDataSize q \<le> mBufSize q \<and>
     mWritePos q = (mReadPos q + mDataSize q) mod mBufSize q"

definition ring_abs :: "EdRingQue \<Rightarrow> u8 list" where
  "ring_abs q = ring_bytes (mBuf q) (nat (mReadPos q)) (nat (mDataSize q))"

text \<open>The bytes the peek cursor still has before it, and when the cursor is inside the data.\<close>

definition peek_abs :: "EdRingQue \<Rightarrow> u8 list" where
  "peek_abs q = ring_bytes (mBuf q) (nat (mLastPeekPos q)) (nat (mLastPeekDataSize q))"

definition peek_inv :: "EdRingQue \<Rightarrow> bool" where
  "peek_inv q \<longleftrightarrow> 0 \<le> mLastPeekPos q \<and> mLastPeekPos q < mBufSize q \<and>
     0 \<le> mLastPeekDataSize q \<and> mLastPeekDataSize q \<le> mBufSize q"

lemma length_ring_abs: "ring_inv q \<Longrightarrow> int (length (ring_abs q)) = mDataSize q"
  by (simp add: ring_abs_def ring_inv_def)

lemma new_ring_inv: "0 < n \<Longrightarrow> n \<le> 2 ^ 30 \<Longrightarrow> ring_inv (EdRingQue_new junk n)"
  "ring_abs (EdRingQue_new junk n) = []"
  by (simp_all add: ring_inv_def ring_abs_def EdRingQue_new_def)

lemma copy_out_ok:
  "0 \<le> pos \<Longrightarrow> 0 \<le> n \<Longrightarrow> pos + n \<le> int (length blk) \<Longrightarrow>
     copy_out blk pos n = Inr (take (nat n) (drop (nat pos) blk))"
proof -
  assume h: "0 \<le> pos" "0 \<le> n" "pos + n \<le> int (length blk)"
  then have "nat pos + nat n \<le> length blk" by linarith
  with h show ?thesis by (simp add: copy_out_def mem_read_def)
qed

lemma copy_in_ok:
  "0 \<le> pos \<Longrightarrow> 0 \<le> n \<Longrightarrow> n \<le> int (length src) \<Longrightarrow> pos + n \<le> int (length blk) \<Longrightarrow>
     copy_in blk pos src n = Inr (take (nat pos) blk @ take (nat n) src @ drop (nat pos + nat n) blk)"
proof -
  assume h: "0 \<le> pos" "0 \<le> n" "n \<le> int (length src)" "pos + n \<le> int (length blk)"
  then have "nat pos + nat n \<le> length blk" "min (length src) (nat n) = nat n" by linarith+
  with h show ?thesis by (simp add: copy_in_def memcpy_to_def)
qed

lemma readPos_ok:
  assumes q: "ring_inv q" and p: "0 \<le> p" "p < mBufSize q" and d: "0 \<le> d" "d \<le> mBufSize q" and n: "0 \<le> n"
  shows "EdRingQue_readPos q dest n p d
     = Inr (min n d, if dest then ring_bytes (mBuf q) (nat p) (nat (min n d)) else [])"
proof -
  define k where "k = min n d"
  define N where "N = mBufSize q"
  define c where "c = min k (N - p)"
  have N: "0 < N" "N \<le> 2 ^ 30" "int (length (mBuf q)) = N" using q by (simp_all only: ring_inv_def N_def)
  have k: "0 \<le> k" "k \<le> N" using d n by (simp_all add: k_def N_def)
  have c: "0 \<le> c" "p + c \<le> N" "c \<le> k" using p k by (simp_all add: c_def N_def)
  have pN: "p < N" using p by (simp add: N_def)
  have nc: "nat c = min (nat k) (length (mBuf q) - nat p)" using p(1) pN k N(3) unfolding c_def by linarith
  have r1: "copy_out (mBuf q) p c = Inr (take (nat c) (drop (nat p) (mBuf q)))"
    by (rule copy_out_ok) (use c p N(3) in linarith)+
  have i1: "iadd p c = Inr (p + c)" using c p(1) pN N(2) by (intro iadd_small) linarith+
  have i2: "imod (p + c) N = Inr ((p + c) mod N)" using c p(1) N(1) by (intro imod_ok) linarith+
  have r2: "copy_out (mBuf q) 0 (k - c) = Inr (take (nat (k - c)) (mBuf q))"
    using copy_out_ok [of 0 "k - c" "mBuf q"] c k N(3) by simp
  have kc: "nat (k - c) = nat k - nat c" using c by linarith
  have "nat p < length (mBuf q)" "nat k \<le> length (mBuf q)" using p(1) pN k N(3) by linarith+
  from ring_bytes_split [OF this] have j: "take (nat c) (drop (nat p) (mBuf q)) @ take (nat (k - c)) (mBuf q)
      = ring_bytes (mBuf q) (nat p) (nat k)" unfolding kc nc .
  have e: "EdRingQue_readPos q dest n p d =
      bindr (if dest then copy_out (mBuf q) p c else Inr []) (\<lambda>bs1.
      bindr (iadd p c) (\<lambda>p.
      bindr (imod p N) (\<lambda>_.
      bindr (if k - c > 0 \<and> dest then copy_out (mBuf q) 0 (k - c) else Inr []) (\<lambda>bs2.
      Inr (k, bs1 @ bs2)))))"
    by (simp only: EdRingQue_readPos_def Let_def k_def N_def c_def)
  have "bindr (if k - c > 0 \<and> dest then copy_out (mBuf q) 0 (k - c) else Inr []) f
      = f (if dest then take (nat (k - c)) (mBuf q) else [])" for f :: "u8 list \<Rightarrow> fault + (int \<times> u8 list)"
    by (cases "k - c > 0"; cases dest) (simp_all add: r2)
  then show ?thesis unfolding e using j by (cases dest) (simp_all add: r1 i1 i2 k_def)
qed

text \<open>Reading up to \<open>n\<close> bytes from a cursor at \<open>p\<close> with \<open>d\<close> bytes before it, as \<^verbatim>\<open>get\<close>, \<^verbatim>\<open>peek\<close>
  and \<^verbatim>\<open>peekNext\<close> do, and where the cursor goes.\<close>

lemma cursor_ok:
  assumes q: "ring_inv q" and p: "0 \<le> p" "p < mBufSize q" and d: "0 \<le> d" "d \<le> mBufSize q" and n: "0 \<le> n"
  defines "k \<equiv> min n d" and "B \<equiv> ring_bytes (mBuf q) (nat p) (nat d)"
  shows "EdRingQue_readPos q dest n p d = Inr (k, if dest then take (nat n) B else [])"
    "iadd p k = Inr (p + k)" "imod (p + k) (mBufSize q) = Inr ((p + k) mod mBufSize q)"
    "ring_bytes (mBuf q) (nat ((p + k) mod mBufSize q)) (nat (d - k)) = drop (nat n) B"
proof -
  have N: "0 < mBufSize q" "mBufSize q \<le> 2 ^ 30" "int (length (mBuf q)) = mBufSize q"
    using q by (simp_all only: ring_inv_def)
  have k: "0 \<le> k" "k \<le> d" using d n by (simp_all add: k_def)
  show "iadd p k = Inr (p + k)" using p d k N(2) by (intro iadd_small) linarith+
  show "imod (p + k) (mBufSize q) = Inr ((p + k) mod mBufSize q)" using p k N(1) by (intro imod_ok) linarith+
  have kd: "nat k \<le> nat d" using k by linarith
  have lB: "length B = nat d" by (simp add: B_def)
  have td: "take (nat n) B = take (nat k) B" "drop (nat n) B = drop (nat k) B"
    using lB unfolding k_def by (simp_all add: min_def)
  show "EdRingQue_readPos q dest n p d = Inr (k, if dest then take (nat n) B else [])"
    using readPos_ok [OF q p d n, of dest] take_ring_bytes [OF kd, of "mBuf q" "nat p"] td(1)
    by (simp add: k_def B_def)
  have "nat ((p + k) mod mBufSize q) = (nat p + nat k) mod length (mBuf q)"
    using p(1) k(1) N(3) [symmetric] by (simp add: nat_mod_distrib nat_add_distrib)
  moreover have "nat (d - k) = nat d - nat k" using k by linarith
  ultimately show "ring_bytes (mBuf q) (nat ((p + k) mod mBufSize q)) (nat (d - k)) = drop (nat n) B"
    using drop_ring_bytes [OF kd, of "mBuf q" "nat p"] td(2) by (simp add: B_def)
qed

lemma ring_get_ok:
  assumes q: "ring_inv q" and n: "0 \<le> n"
  obtains q' where
    "EdRingQue_get q dest n = Inr (min n (mDataSize q), if dest then take (nat n) (ring_abs q) else [], q')"
    "ring_inv q'" "ring_abs q' = drop (nat n) (ring_abs q)" "mBufSize q' = mBufSize q"
    "mDataSize q' = mDataSize q - min n (mDataSize q)"
proof -
  let ?k = "min n (mDataSize q)"
  let ?q = "q\<lparr>mReadPos := (mReadPos q + ?k) mod mBufSize q, mDataSize := mDataSize q - ?k\<rparr>"
  have r: "0 \<le> mReadPos q" "mReadPos q < mBufSize q" "0 \<le> mDataSize q" "mDataSize q \<le> mBufSize q"
    using q by (simp_all add: ring_inv_def)
  note cur = cursor_ok [OF q r n]
  have "EdRingQue_get q dest n = Inr (?k, if dest then take (nat n) (ring_abs q) else [], ?q)"
    using cur(1) [of dest] cur(2,3) by (simp add: EdRingQue_get_def ring_abs_def [symmetric])
  moreover have "ring_inv ?q" using q r n by (auto simp: ring_inv_def mod_simps min_def)
  moreover have "ring_abs ?q = drop (nat n) (ring_abs q)" using cur(4) by (simp add: ring_abs_def)
  ultimately show thesis by (intro that [of ?q]) simp_all
qed

lemma ring_peek_ok:
  assumes q: "ring_inv q" and n: "0 \<le> n"
  obtains q' where "EdRingQue_peek q True n = Inr (min n (mDataSize q), take (nat n) (ring_abs q), q')"
    "ring_inv q'" "peek_inv q'" "ring_abs q' = ring_abs q" "peek_abs q' = drop (nat n) (ring_abs q)"
    "mLastPeekDataSize q' = mDataSize q - min n (mDataSize q)"
proof -
  let ?k = "min n (mDataSize q)"
  let ?q = "q\<lparr>mLastPeekPos := (mReadPos q + ?k) mod mBufSize q, mLastPeekDataSize := mDataSize q - ?k\<rparr>"
  have r: "0 \<le> mReadPos q" "mReadPos q < mBufSize q" "0 \<le> mDataSize q" "mDataSize q \<le> mBufSize q"
    using q by (simp_all add: ring_inv_def)
  note cur = cursor_ok [OF q r n]
  have "EdRingQue_peek q True n = Inr (?k, take (nat n) (ring_abs q), ?q)"
    using cur(1) [of True] cur(2,3) by (simp add: EdRingQue_peek_def ring_abs_def [symmetric])
  moreover have "ring_inv ?q" "ring_abs ?q = ring_abs q" using q by (simp_all add: ring_inv_def ring_abs_def)
  moreover have "peek_inv ?q" using r n by (auto simp: peek_inv_def)
  moreover have "peek_abs ?q = drop (nat n) (ring_abs q)" using cur(4) by (simp add: ring_abs_def peek_abs_def)
  ultimately show thesis by (intro that [of ?q]) simp_all
qed

lemma ring_peekNext_ok:
  assumes q: "ring_inv q" "peek_inv q" and n: "0 \<le> n"
  obtains q' where "EdRingQue_peekNext q True n = Inr (min n (mLastPeekDataSize q), take (nat n) (peek_abs q), q')"
    "ring_inv q'" "peek_inv q'" "ring_abs q' = ring_abs q" "peek_abs q' = drop (nat n) (peek_abs q)"
    "mLastPeekDataSize q' = mLastPeekDataSize q - min n (mLastPeekDataSize q)"
proof -
  let ?k = "min n (mLastPeekDataSize q)"
  let ?q = "q\<lparr>mLastPeekPos := (mLastPeekPos q + ?k) mod mBufSize q, mLastPeekDataSize := mLastPeekDataSize q - ?k\<rparr>"
  have r: "0 \<le> mLastPeekPos q" "mLastPeekPos q < mBufSize q" "0 \<le> mLastPeekDataSize q"
    "mLastPeekDataSize q \<le> mBufSize q"
    using q by (simp_all add: peek_inv_def)
  note cur = cursor_ok [OF q(1) r n]
  have "EdRingQue_peekNext q True n = Inr (?k, take (nat n) (peek_abs q), ?q)"
    using cur(1) [of True] cur(2,3) by (simp add: EdRingQue_peekNext_def peek_abs_def [symmetric])
  moreover have "ring_inv ?q" "ring_abs ?q = ring_abs q" using q by (simp_all add: ring_inv_def ring_abs_def)
  moreover have "peek_inv ?q" using r n by (auto simp: peek_inv_def)
  moreover have "peek_abs ?q = drop (nat n) (peek_abs q)" using cur(4) by (simp add: peek_abs_def)
  ultimately show thesis by (intro that [of ?q]) simp_all
qed

lemma ring_put_ok:
  assumes q: "ring_inv q" and n: "0 \<le> n" "n \<le> int (length src)"
  defines "w \<equiv> min n (mBufSize q - mDataSize q)"
  obtains q' where "EdRingQue_put q src n = Inr (w, q')" "ring_inv q'"
    "ring_abs q' = ring_abs q @ take (nat w) src" "mBufSize q' = mBufSize q" "mDataSize q' = mDataSize q + w"
proof -
  define N where "N = mBufSize q"
  define p where "p = mWritePos q"
  define c where "c = min w (N - p)"
  have N: "0 < N" "N \<le> 2 ^ 30" "int (length (mBuf q)) = N" using q by (simp_all only: ring_inv_def N_def)
  have r: "0 \<le> mReadPos q" "mReadPos q < N" "0 \<le> mDataSize q" "mDataSize q \<le> N"
    and pd: "p = (mReadPos q + mDataSize q) mod N"
    using q by (simp_all add: ring_inv_def N_def p_def)
  have p: "0 \<le> p" "p < N" using N(1) by (simp_all add: pd)
  have w: "0 \<le> w" "mDataSize q + w \<le> N" "w \<le> int (length src)" using n r by (simp_all add: w_def N_def)
  have c: "0 \<le> c" "p + c \<le> N" "c \<le> w" "w - c > 0 \<Longrightarrow> c = N - p" using p w by (auto simp: c_def)
  let ?s = "take (nat w) src"
  let ?b1 = "take (nat p) (mBuf q) @ take (nat c) src @ drop (nat p + nat c) (mBuf q)"
  have r1: "copy_in (mBuf q) p src c = Inr ?b1"
    by (rule copy_in_ok) (use c p w N(3) in linarith)+
  have i1: "iadd p c = Inr (p + c)" using c p w r N(2) by (intro iadd_small) linarith+
  have i2: "imod (p + c) N = Inr ((p + c) mod N)" using c p N(1) by (intro imod_ok) linarith+
  have ls: "length ?s = nat w" using w by simp
  have nc: "min (nat w) (length (mBuf q) - nat p) = nat c" unfolding c_def using p w N(3) by linarith
  have tc: "take (nat c) ?s = take (nat c) src" using c(3) by (simp add: min_absorb1)
  have wr: "ring_write (mBuf q) (nat p) ?s = drop (nat c) ?s @ drop (nat w - nat c) ?b1"
    unfolding ring_write_def Let_def ls nc tc ..
  have lb1: "int (length ?b1) = N" using c p w N(3) by simp
  have step: "(if w - c > 0
             then bindr (copy_in ?b1 0 (drop (nat c) src) (w - c)) (\<lambda>blk.
                  bindr (iadd ((p + c) mod N) (w - c)) (\<lambda>w. Inr (blk, w)))
             else Inr (?b1, (p + c) mod N)) = Inr (ring_write (mBuf q) (nat p) ?s, (p + w) mod N)"
  proof (cases "w - c > 0")
    case True
    then have e: "c = N - p" by (rule c(4))
    have s: "w - c < N" using True w r p e by linarith
    have "w - c \<le> int (length (drop (nat c) src))" using w c by simp
    moreover have "0 + (w - c) \<le> int (length ?b1)" using s unfolding lb1 by simp
    ultimately have "copy_in ?b1 0 (drop (nat c) src) (w - c) = Inr (take (nat (w - c)) (drop (nat c) src) @ drop (nat (w - c)) ?b1)"
      using copy_in_ok [of 0 "w - c" "drop (nat c) src" ?b1] True by simp
    also have "take (nat (w - c)) (drop (nat c) src) = drop (nat c) ?s"
      using c by (simp add: drop_take nat_diff_distrib')
    finally have cp: "copy_in ?b1 0 (drop (nat c) src) (w - c) = Inr (ring_write (mBuf q) (nat p) ?s)"
      unfolding wr using c by (simp add: nat_diff_distrib')
    have "p + c = N" using e by linarith
    then have z: "(p + c) mod N = 0" by (simp only: mod_self)
    have "iadd 0 (w - c) = Inr (w - c)" using s N(2) True by (subst iadd_small) simp_all
    moreover have "(p + w) mod N = w - c"
    proof -
      have "p + w = N + (w - c)" using e by linarith
      then have "(p + w) mod N = (w - c) mod N" by (simp only: mod_add_self1)
      then show ?thesis using s True by simp
    qed
    ultimately show ?thesis using True cp z by (simp only: if_True bindr_simps)
  next
    case False
    then have "w = c" using c(3) by linarith
    then show ?thesis using False wr ls by (simp add: min_absorb2)
  qed
  let ?q = "q\<lparr>mBuf := ring_write (mBuf q) (nat p) ?s, mWritePos := (p + w) mod N, mDataSize := mDataSize q + w\<rparr>"
  have put: "EdRingQue_put q src n = Inr (w, ?q)"
  proof -
    have "EdRingQue_put q src n =
       bindr (copy_in (mBuf q) p src c) (\<lambda>blk.
       bindr (iadd p c) (\<lambda>p.
       bindr (imod p N) (\<lambda>v.
       bindr (if w - c > 0
              then bindr (copy_in blk 0 (drop (nat c) src) (w - c)) (\<lambda>blk.
                   bindr (iadd v (w - c)) (\<lambda>w. Inr (blk, w)))
              else Inr (blk, v)) (\<lambda>(blk, v).
       Inr (w, q\<lparr>mBuf := blk, mWritePos := v, mDataSize := mDataSize q + w\<rparr>)))))"
      by (simp only: EdRingQue_put_def Let_def w_def p_def N_def c_def)
    then show ?thesis by (simp only: r1 bindr_simps i1 i2 step prod.case)
  qed
  have np: "nat p < length (mBuf q)" and nr: "nat (mReadPos q) < length (mBuf q)"
    and nd: "nat (mDataSize q) + length ?s \<le> length (mBuf q)"
    unfolding ls using p r w N(3) by linarith+
  have len: "length (ring_write (mBuf q) (nat p) ?s) = length (mBuf q)"
    using length_ring_write [OF np] nd by simp
  have "nat p = (nat (mReadPos q) + nat (mDataSize q)) mod length (mBuf q)"
    using r N(3) [symmetric] by (simp add: pd nat_mod_distrib nat_add_distrib)
  from ring_bytes_write [OF nr nd this]
  have "ring_abs ?q = ring_abs q @ ?s"
    unfolding ring_abs_def ls using w r by (simp add: nat_add_distrib)
  moreover have "ring_inv ?q"
    using N r w len by (simp add: ring_inv_def N_def [symmetric] pd mod_simps add.assoc)
  ultimately show thesis using put by (intro that [of ?q]) (simp_all add: N_def)
qed

section \<open>The ring as a byte stream\<close>

definition ring_room :: "EdRingQue \<Rightarrow> nat \<Rightarrow> bool" where
  "ring_room q n \<longleftrightarrow> mDataSize q + int n \<le> mBufSize q"

definition ring_put :: "EdRingQue \<Rightarrow> u8 list \<Rightarrow> EdRingQue option" where
  "ring_put q bs = map_option snd (outcome (EdRingQue_put q bs (int (length bs))))"

definition ring_get :: "EdRingQue \<Rightarrow> nat \<Rightarrow> (u8 list \<times> EdRingQue) option" where
  "ring_get q n = map_option snd (outcome (EdRingQue_get q True (int n)))"

interpretation ring: byte_fifo ring_inv ring_abs ring_room ring_put ring_get
proof
  fix q and bs :: "u8 list"
  assume q: "ring_inv q" and r: "ring_room q (length bs)"
  let ?w = "min (int (length bs)) (mBufSize q - mDataSize q)"
  have w: "?w = int (length bs)" using r by (simp add: ring_room_def)
  obtain q' where "EdRingQue_put q bs (int (length bs)) = Inr (?w, q')" "ring_inv q'"
    "ring_abs q' = ring_abs q @ take (nat ?w) bs" "mBufSize q' = mBufSize q" "mDataSize q' = mDataSize q + ?w"
    by (rule ring_put_ok [OF q, of "int (length bs)" bs]) simp_all
  then show "\<exists>s'. ring_put q bs = Some s' \<and> ring_inv s' \<and> ring_abs s' = ring_abs q @ bs \<and>
      (\<forall>k. ring_room q (length bs + k) \<longrightarrow> ring_room s' k)"
    by (simp add: ring_put_def w ring_room_def)
next
  fix q :: EdRingQue and n k assume "ring_room q n" "k \<le> n"
  then show "ring_room q k" by (simp add: ring_room_def)
next
  fix q n assume q: "ring_inv q" and n: "n \<le> length (ring_abs q)"
  have i: "0 \<le> int n" by simp
  show "\<exists>s'. ring_get q n = Some (take n (ring_abs q), s') \<and> ring_inv s' \<and> ring_abs s' = drop n (ring_abs q)"
    by (rule ring_get_ok [OF q i, of True]) (simp add: ring_get_def)
qed

text \<open>A run of \<^verbatim>\<open>peekNext\<close> calls.\<close>

fun peek_chunks :: "EdRingQue \<Rightarrow> int list \<Rightarrow> fault + (u8 list \<times> EdRingQue)" where
  "peek_chunks q [] = Inr ([], q)"
| "peek_chunks q (n # ns) =
     bindr (EdRingQue_peekNext q True n) (\<lambda>(_, bs, q).
     bindr (peek_chunks q ns) (\<lambda>(bs', q). Inr (bs @ bs', q)))"

lemma peek_chunks_ok:
  "ring_inv q \<Longrightarrow> peek_inv q \<Longrightarrow> \<forall>n\<in>set ns. 0 \<le> n \<Longrightarrow>
     \<exists>q'. peek_chunks q ns = Inr (take (nat (sum_list ns)) (peek_abs q), q') \<and> ring_abs q' = ring_abs q"
proof (induction ns arbitrary: q)
  case Nil
  then show ?case by simp
next
  case (Cons n ns)
  then have n: "0 \<le> n" "0 \<le> sum_list ns" by (auto intro: sum_list_nonneg)
  obtain q1 where q1: "EdRingQue_peekNext q True n = Inr (min n (mLastPeekDataSize q), take (nat n) (peek_abs q), q1)"
    "ring_inv q1" "peek_inv q1" "ring_abs q1 = ring_abs q" "peek_abs q1 = drop (nat n) (peek_abs q)"
    by (rule ring_peekNext_ok [OF Cons.prems(1,2) n(1)])
  from Cons.IH [OF q1(2,3)] Cons.prems(3) obtain q2 where
    "peek_chunks q1 ns = Inr (take (nat (sum_list ns)) (drop (nat n) (peek_abs q)), q2)" "ring_abs q2 = ring_abs q"
    by (auto simp: q1(4,5))
  then show ?case using n by (simp add: q1(1) take_add nat_add_distrib)
qed

section \<open>Properties\<close>

text \<open>C22. A ring queue of at most \<open>2 ^ 30\<close> bytes is a bounded byte queue: \<^verbatim>\<open>put\<close> appends as many
  of the bytes as are free and returns their number, whatever the positions and whether the copy
  wraps around the end of the buffer; no access leaves the buffer and the invariant is kept.\<close>

theorem ring_put_refines:
  assumes "ring_inv q"
  shows "\<exists>q'. EdRingQue_put q bs (int (length bs)) = Inr (min (int (length bs)) (EdRingQue_getFreeSize q), q') \<and>
     ring_inv q' \<and> ring_abs q' = ring_abs q @ take (nat (EdRingQue_getFreeSize q)) bs \<and>
     EdRingQue_getDataSize q' = EdRingQue_getDataSize q + min (int (length bs)) (EdRingQue_getFreeSize q)"
proof -
  have z: "0 \<le> int (length bs)" "int (length bs) \<le> int (length bs)" by simp_all
  have "take (nat (min (int (length bs)) n)) bs = take (nat n) bs" for n by (simp add: min_def)
  then show ?thesis unfolding EdRingQue_getFreeSize_def EdRingQue_getDataSize_def
    by (metis ring_put_ok [OF assms z])
qed

definition full_ring :: EdRingQue where
  "full_ring = \<lparr>mBuf = [1, 2, 3, 4], mReadPos = 2, mWritePos = 1, mBufSize = 4, mDataSize = 3,
     mLastPeekPos = 0, mLastPeekDataSize = 0\<rparr>"

lemma full_ring_inv: "ring_inv full_ring" "ring_abs full_ring = [3, 4, 1]"
proof -
  show "ring_inv full_ring" by (simp add: ring_inv_def full_ring_def)
  have "[0..<3::nat] = [0, 1, 2]" by (simp add: upt_rec)
  then show "ring_abs full_ring = [3, 4, 1]" by (simp add: ring_abs_def full_ring_def ring_bytes_def)
qed

theorem ring_put_refines_witness:
  "\<exists>q'. EdRingQue_put full_ring [8, 9] 2 = Inr (1, q') \<and> ring_abs q' = [3, 4, 1, 8]"
proof -
  have "EdRingQue_getFreeSize full_ring = 1" by (simp add: EdRingQue_getFreeSize_def full_ring_def)
  with ring_put_refines [OF full_ring_inv(1), of "[8, 9]"] show ?thesis by (auto simp: full_ring_inv(2))
qed

text \<open>C23. \<^verbatim>\<open>get\<close> removes the oldest bytes, at most as many as there are, and returns their number;
  with a null buffer it discards them. \<^verbatim>\<open>peek\<close> followed by any number of \<^verbatim>\<open>peekNext\<close> calls reads the
  same bytes without removing them.\<close>

theorem ring_get_refines:
  assumes "ring_inv q" "0 \<le> n" "\<forall>k\<in>set ns. 0 \<le> k"
  shows "(\<exists>q'. EdRingQue_get q dest n =
             Inr (min n (EdRingQue_getDataSize q), if dest then take (nat n) (ring_abs q) else [], q') \<and>
             ring_inv q' \<and> ring_abs q' = drop (nat n) (ring_abs q)) \<and>
         (\<exists>q1 q2. EdRingQue_peek q True n = Inr (min n (EdRingQue_getDataSize q), take (nat n) (ring_abs q), q1) \<and>
             peek_chunks q1 ns = Inr (take (nat (sum_list ns)) (drop (nat n) (ring_abs q)), q2) \<and>
             ring_abs q2 = ring_abs q)"
proof
  show "\<exists>q'. EdRingQue_get q dest n =
             Inr (min n (EdRingQue_getDataSize q), if dest then take (nat n) (ring_abs q) else [], q') \<and>
             ring_inv q' \<and> ring_abs q' = drop (nat n) (ring_abs q)"
    unfolding EdRingQue_getDataSize_def by (rule ring_get_ok [OF assms(1,2), of dest]) blast
  obtain q1 where q1: "EdRingQue_peek q True n = Inr (min n (mDataSize q), take (nat n) (ring_abs q), q1)"
    "ring_inv q1" "peek_inv q1" "ring_abs q1 = ring_abs q" "peek_abs q1 = drop (nat n) (ring_abs q)"
    by (rule ring_peek_ok [OF assms(1,2)])
  from peek_chunks_ok [OF q1(2,3) assms(3)] q1(1,4,5)
  show "\<exists>q1 q2. EdRingQue_peek q True n = Inr (min n (EdRingQue_getDataSize q), take (nat n) (ring_abs q), q1) \<and>
             peek_chunks q1 ns = Inr (take (nat (sum_list ns)) (drop (nat n) (ring_abs q)), q2) \<and>
             ring_abs q2 = ring_abs q"
    unfolding EdRingQue_getDataSize_def by auto
qed

theorem ring_get_refines_witness:
  "(\<exists>q'. EdRingQue_get full_ring True 2 = Inr (2, [3, 4], q') \<and> ring_abs q' = [1]) \<and>
   (\<exists>q1 q2. EdRingQue_peek full_ring True 2 = Inr (2, [3, 4], q1) \<and> peek_chunks q1 [1] = Inr ([1], q2))"
proof -
  have "EdRingQue_getDataSize full_ring = 3" by (simp add: EdRingQue_getDataSize_def full_ring_def)
  with ring_get_refines [OF full_ring_inv(1), of 2 "[1]" True] show ?thesis
    by (auto simp: full_ring_inv(2))
qed

end
