(* ===== verification/EdLogs.thy ===== *)
theory EdLogs
  imports EdRing
begin

text \<open>\<^verbatim>\<open>EdLog\<close> (EdLog.h, EdLog.cpp): a log of strings kept in a ring queue, each as a 16-bit length
  followed by the string and its terminating zero. A \<^verbatim>\<open>u16\<close> local that is read before it is set
  has the value \<open>u0\<close>, and \<open>junk\<close> fills the scratch buffer of \<^verbatim>\<open>flush\<close> and \<^verbatim>\<open>dumpAll\<close>. What
  \<^verbatim>\<open>puts\<close> writes is returned as a list of strings.\<close>

section \<open>The class\<close>

text \<open>A \<^verbatim>\<open>u16\<close> after the bytes \<open>bs\<close>, at most two, were copied over it.\<close>

definition set_u16 :: "u16 \<Rightarrow> u8 list \<Rightarrow> u16" where
  "set_u16 old bs = le_word (bs @ drop (length bs) (le_bytes 2 old))"

text \<open>The loop of \<^verbatim>\<open>print\<close> that drops old entries until the new one fits; the flag is false when
  it returns -1.\<close>

partial_function (option) print_loop :: "u16 \<Rightarrow> EdRingQue \<Rightarrow> int \<Rightarrow> (fault + (bool \<times> EdRingQue)) option" where
  [code]: "print_loop u0 q need =
     (if EdRingQue_getFreeSize q < need
      then case EdRingQue_get q True 2 of
             Inl e \<Rightarrow> Some (Inl e)
           | Inr (_, bs, q) \<Rightarrow>
               (case EdRingQue_get q False (uint (set_u16 u0 bs)) of
                  Inl e \<Rightarrow> Some (Inl e)
                | Inr (rdcnt, _, q) \<Rightarrow> if rdcnt = 0 then Some (Inr (False, q)) else print_loop u0 q need)
      else Some (Inr (True, q)))"

definition EdLog_print :: "u16 \<Rightarrow> EdRingQue \<Rightarrow> u8 list \<Rightarrow> fault + (int \<times> EdRingQue)" where
  "EdLog_print u0 q str =
     (let len = of_nat (length str + 1) :: u16 in
      case print_loop u0 q (2 + uint len) of
        None \<Rightarrow> Inl Diverges
      | Some r \<Rightarrow>
          bindr r (\<lambda>(fits, q).
          if \<not> fits then Inr (- 1, q)
          else bindr (EdRingQue_put q (le_bytes 2 len) 2) (\<lambda>(_, q).
               bindr (EdRingQue_put q (str @ [0]) (uint len)) (\<lambda>(_, q). Inr (0, q)))))"

text \<open>What \<^verbatim>\<open>puts\<close> prints from a buffer: the bytes before the first zero.\<close>

definition puts :: "block \<Rightarrow> fault + u8 list" where
  "puts blk = (if 0 \<in> set blk then Inr (takeWhile (\<lambda>b. b \<noteq> 0) blk) else Inl Bad_access)"

definition fill :: "block \<Rightarrow> u8 list \<Rightarrow> fault + block" where
  "fill blk bs = (case memcpy_to blk 0 bs of None \<Rightarrow> Inl Bad_access | Some b \<Rightarrow> Inr b)"

fun flush_loop :: "nat \<Rightarrow> u16 \<Rightarrow> block \<Rightarrow> EdRingQue \<Rightarrow> fault + (u8 list list \<times> EdRingQue)" where
  "flush_loop 0 slen logstr q = Inr ([], q)"
| "flush_loop (Suc i) slen logstr q =
     bindr (EdRingQue_get q True 2) (\<lambda>(rdcnt, bs, q).
     if rdcnt = 0 then Inr ([], q)
     else let slen = set_u16 slen bs in
       bindr (EdRingQue_get q True (uint slen)) (\<lambda>(_, ds, q).
       bindr (fill logstr ds) (\<lambda>logstr.
       bindr (puts logstr) (\<lambda>out.
       bindr (flush_loop i slen logstr q) (\<lambda>(outs, q). Inr (out # outs, q))))))"

definition log_buf :: "(nat \<Rightarrow> u8) \<Rightarrow> block" where
  "log_buf junk = map junk [0..<64 * 1024]"

definition EdLog_flush :: "u16 \<Rightarrow> (nat \<Rightarrow> u8) \<Rightarrow> EdRingQue \<Rightarrow> int \<Rightarrow> fault + (u8 list list \<times> EdRingQue)" where
  "EdLog_flush u0 junk q count =
     flush_loop (nat (if count \<le> 0 then EdRingQue_getDataSize q else count)) u0 (log_buf junk) q"

partial_function (option) dump_loop ::
  "int \<Rightarrow> u16 \<Rightarrow> block \<Rightarrow> EdRingQue \<Rightarrow> (fault + (u8 list list \<times> EdRingQue)) option" where
  [code]: "dump_loop rdcnt slen logstr q =
     (if rdcnt = 0 then Some (Inr ([], q))
      else case puts logstr of
             Inl e \<Rightarrow> Some (Inl e)
           | Inr out \<Rightarrow>
               (case EdRingQue_peekNext q True 2 of
                  Inl e \<Rightarrow> Some (Inl e)
                | Inr (_, bs, q) \<Rightarrow>
                    (let slen = set_u16 slen bs in
                     case EdRingQue_peekNext q True (uint slen) of
                       Inl e \<Rightarrow> Some (Inl e)
                     | Inr (rdcnt, ds, q) \<Rightarrow>
                         (case fill logstr ds of
                            Inl e \<Rightarrow> Some (Inl e)
                          | Inr logstr \<Rightarrow>
                              dump_loop rdcnt slen logstr q \<bind> (\<lambda>r.
                              Some (bindr r (\<lambda>(outs, q). Inr (out # outs, q))))))))"

definition EdLog_dumpAll :: "u16 \<Rightarrow> (nat \<Rightarrow> u8) \<Rightarrow> EdRingQue \<Rightarrow> fault + (u8 list list \<times> EdRingQue)" where
  "EdLog_dumpAll u0 junk q =
     bindr (EdRingQue_peek q True 2) (\<lambda>(_, bs, q).
     let slen = set_u16 u0 bs in
     bindr (EdRingQue_peekNext q True (uint slen)) (\<lambda>(rdcnt, ds, q).
     bindr (fill (log_buf junk) ds) (\<lambda>logstr.
     case dump_loop rdcnt slen logstr q of None \<Rightarrow> Inl Diverges | Some r \<Rightarrow> r)))"

section \<open>The log as a list of strings\<close>

text \<open>A string of the log: no zero inside, and short enough for a 16-bit length.\<close>

definition log_str :: "u8 list \<Rightarrow> bool" where
  "log_str s \<longleftrightarrow> 0 \<notin> set s \<and> length s + 1 < 2 ^ 16"

definition enc :: "u8 list \<Rightarrow> u8 list" where
  "enc s = le_bytes 2 (of_nat (length s + 1) :: u16) @ s @ [0]"

definition enc_all :: "u8 list list \<Rightarrow> u8 list" where
  "enc_all ss = concat (map enc ss)"

definition log_rep :: "EdRingQue \<Rightarrow> u8 list list \<Rightarrow> bool" where
  "log_rep q ss \<longleftrightarrow> ring_inv q \<and> ring_abs q = enc_all ss \<and> (\<forall>s\<in>set ss. log_str s)"

text \<open>What \<^verbatim>\<open>print\<close> promises: drop just as many of the oldest entries as needed to stay within
  \<open>room\<close> bytes.\<close>

fun evict :: "int \<Rightarrow> u8 list list \<Rightarrow> u8 list list" where
  "evict room [] = []"
| "evict room (s # ss) = (if int (length (enc_all (s # ss))) \<le> room then s # ss else evict room ss)"

lemma enc_all_simps [simp]: "enc_all [] = []" "enc_all (s # ss) = enc s @ enc_all ss"
  "enc_all (ss @ ts) = enc_all ss @ enc_all ts"
  by (simp_all add: enc_all_def)

lemma length_enc [simp]: "length (enc s) = length s + 3"
  by (simp add: enc_def)

lemma set_u16_full: "set_u16 u (le_bytes 2 w) = w"
  by (simp add: set_u16_def)

lemma uint_len: "log_str s \<Longrightarrow> uint (of_nat (length s + 1) :: u16) = int (length s + 1)"
  by (simp add: log_str_def uint_nat unsigned_of_nat take_bit_nat_eq_self del: of_nat_Suc of_nat_add)

lemma log_rep_data: "log_rep q ss \<Longrightarrow> mDataSize q = int (length (enc_all ss))"
  using length_ring_abs [of q] by (simp add: log_rep_def)

lemma evict_suffix: "\<exists>k. evict room ss = drop k ss"
proof (induction ss)
  case (Cons s ss)
  then obtain k where "evict room ss = drop k ss" by blast
  then show ?case by (cases "int (length (enc_all (s # ss))) \<le> room") (auto intro: exI [of _ 0] exI [of _ "Suc k"])
qed simp

lemma evict_fits: "0 \<le> room \<Longrightarrow> int (length (enc_all (evict room ss))) \<le> room"
  by (induction ss) auto

lemma evict_set: "set (evict room ss) \<subseteq> set ss"
  using evict_suffix [of room ss] set_drop_subset by fastforce

lemma memcpy_prefix:
  "length bs \<le> length blk \<Longrightarrow> fill blk bs = Inr (bs @ drop (length bs) blk)"
  by (simp add: fill_def memcpy_to_def)

lemma puts_entry: "log_str s \<Longrightarrow> puts ((s @ [0]) @ rest) = Inr s"
proof -
  assume "log_str s"
  then have "\<forall>x\<in>set s. x \<noteq> 0" by (auto simp: log_str_def)
  then have "takeWhile (\<lambda>b. b \<noteq> 0) (s @ 0 # rest) = s" by simp
  then show ?thesis by (simp add: puts_def)
qed

lemma get_entry:
  assumes q: "log_rep q (s # ss)"
  obtains q1 q2 where "EdRingQue_get q True 2 = Inr (2, le_bytes 2 (of_nat (length s + 1) :: u16), q1)"
    "EdRingQue_get q1 dest (uint (of_nat (length s + 1) :: u16))
       = Inr (int (length s + 1), if dest then s @ [0] else [], q2)"
    "log_rep q2 ss" "mBufSize q2 = mBufSize q"
proof -
  let ?l = "of_nat (length s + 1) :: u16"
  have i: "ring_inv q" and a: "ring_abs q = le_bytes 2 ?l @ (s @ [0]) @ enc_all ss"
    and str: "log_str s" "\<forall>s\<in>set ss. log_str s"
    using q by (simp_all add: log_rep_def enc_def)
  have dq: "mDataSize q = int (length s + 3 + length (enc_all ss))" using log_rep_data [OF q] by simp
  obtain q1 where q1: "EdRingQue_get q True 2 = Inr (min 2 (mDataSize q), if True then take (nat 2) (ring_abs q) else [], q1)"
    "ring_inv q1" "ring_abs q1 = drop (nat 2) (ring_abs q)" "mBufSize q1 = mBufSize q"
    "mDataSize q1 = mDataSize q - min 2 (mDataSize q)" by (rule ring_get_ok [OF i, of 2 True]) simp
  have a1: "ring_abs q1 = (s @ [0]) @ enc_all ss" using q1(3) a by simp
  have d1: "mDataSize q1 = int (length s + 1 + length (enc_all ss))" using q1(5) dq by simp
  have u: "uint ?l = int (length s + 1)" using str(1) by (rule uint_len)
  obtain q2 where q2: "EdRingQue_get q1 dest (int (length s + 1))
      = Inr (min (int (length s + 1)) (mDataSize q1), if dest then take (nat (int (length s + 1))) (ring_abs q1) else [], q2)"
    "ring_inv q2" "ring_abs q2 = drop (nat (int (length s + 1))) (ring_abs q1)" "mBufSize q2 = mBufSize q1"
    by (rule ring_get_ok [OF q1(2), of "int (length s + 1)" dest]) simp
  have "EdRingQue_get q True 2 = Inr (2, le_bytes 2 ?l, q1)" using q1(1) a dq by simp
  moreover have "EdRingQue_get q1 dest (uint ?l) = Inr (int (length s + 1), if dest then s @ [0] else [], q2)"
    unfolding u q2(1) a1 d1 nat_int by simp
  moreover have "log_rep q2 ss" using q2(2) q2(3) [unfolded nat_int] a1 str(2) by (simp add: log_rep_def)
  ultimately show thesis using q1(4) q2(4) by (intro that [of q1 q2]) simp_all
qed

lemma get_empty:
  assumes q: "log_rep q []" and n: "0 \<le> n"
  obtains q' where "EdRingQue_get q dest n = Inr (0, [], q')" "log_rep q' []" "mBufSize q' = mBufSize q"
proof -
  have i: "ring_inv q" and a: "ring_abs q = []" using q by (simp_all add: log_rep_def)
  have d: "mDataSize q = 0" using log_rep_data [OF q] by simp
  show thesis by (rule ring_get_ok [OF i n, of dest]) (use a d n in \<open>auto intro!: that simp: log_rep_def\<close>)
qed

lemma print_loop_ok:
  "log_rep q ss \<Longrightarrow> need \<le> mBufSize q \<Longrightarrow>
     \<exists>q'. print_loop u0 q need = Some (Inr (True, q')) \<and> log_rep q' (evict (mBufSize q - need) ss) \<and>
       mBufSize q' = mBufSize q"
proof (induction ss arbitrary: q)
  case Nil
  then have "\<not> EdRingQue_getFreeSize q < need" using log_rep_data [of q "[]"] by (simp add: EdRingQue_getFreeSize_def)
  with Nil show ?case by (subst print_loop.simps) simp
next
  case (Cons s ss)
  have d: "EdRingQue_getFreeSize q = mBufSize q - int (length (enc_all (s # ss)))"
    using log_rep_data [OF Cons.prems(1)] by (simp add: EdRingQue_getFreeSize_def)
  show ?case
  proof (cases "EdRingQue_getFreeSize q < need")
    case True
    obtain q1 q2 where g: "EdRingQue_get q True 2 = Inr (2, le_bytes 2 (of_nat (length s + 1) :: u16), q1)"
      "EdRingQue_get q1 False (uint (of_nat (length s + 1) :: u16))
         = Inr (int (length s + 1), if False then s @ [0] else [], q2)"
      "log_rep q2 ss" "mBufSize q2 = mBufSize q"
      by (rule get_entry [OF Cons.prems(1)])
    have nf: "\<not> int (length (enc_all (s # ss))) \<le> mBufSize q - need" using True d by linarith
    from Cons.IH [OF g(3)] Cons.prems(2) g(4) obtain q' where
      q': "print_loop u0 q2 need = Some (Inr (True, q'))" "log_rep q' (evict (mBufSize q - need) ss)" "mBufSize q' = mBufSize q"
      by auto
    have "print_loop u0 q need = print_loop u0 q2 need"
      by (subst print_loop.simps)
        (simp only: True if_True g(1,2) set_u16_full sum.case prod.case, simp del: of_nat_Suc of_nat_add)
    with q' nf show ?thesis by (simp only: evict.simps if_False) blast
  next
    case False
    then have "int (length (enc_all (s # ss))) \<le> mBufSize q - need" using d by linarith
    with False Cons.prems show ?thesis by (subst print_loop.simps) (simp only: if_False evict.simps if_True, blast)
  qed
qed

lemma print_loop_too_big:
  "log_rep q ss \<Longrightarrow> mBufSize q < need \<Longrightarrow>
     \<exists>q'. print_loop u0 q need = Some (Inr (False, q')) \<and> log_rep q' [] \<and> mBufSize q' = mBufSize q"
proof (induction ss arbitrary: q)
  case Nil
  have f: "EdRingQue_getFreeSize q < need"
    using log_rep_data [OF Nil.prems(1)] Nil.prems(2) by (simp add: EdRingQue_getFreeSize_def)
  obtain q1 where q1: "EdRingQue_get q True 2 = Inr (0, [], q1)" "log_rep q1 []" "mBufSize q1 = mBufSize q"
    by (rule get_empty [OF Nil.prems(1), of 2 True]) simp_all
  obtain q2 where q2: "EdRingQue_get q1 False (uint (set_u16 u0 [])) = Inr (0, [], q2)" "log_rep q2 []"
    "mBufSize q2 = mBufSize q1"
    by (rule get_empty [OF q1(2), of "uint (set_u16 u0 [])" False]) simp_all
  show ?case by (subst print_loop.simps) (simp add: f q1 q2)
next
  case (Cons s ss)
  have f: "EdRingQue_getFreeSize q < need"
    using log_rep_data [OF Cons.prems(1)] Cons.prems(2) by (simp add: EdRingQue_getFreeSize_def)
  obtain q1 q2 where g: "EdRingQue_get q True 2 = Inr (2, le_bytes 2 (of_nat (length s + 1) :: u16), q1)"
    "EdRingQue_get q1 False (uint (of_nat (length s + 1) :: u16))
       = Inr (int (length s + 1), if False then s @ [0] else [], q2)"
    "log_rep q2 ss" "mBufSize q2 = mBufSize q"
    by (rule get_entry [OF Cons.prems(1)])
  have "print_loop u0 q need = print_loop u0 q2 need"
    by (subst print_loop.simps)
      (simp only: f if_True g(1,2) set_u16_full sum.case prod.case, simp del: of_nat_Suc of_nat_add)
  with Cons.IH [OF g(3)] Cons.prems(2) g(4) show ?case by simp
qed

text \<open>The two writes of \<^verbatim>\<open>print\<close>, from the contract of the ring as a byte stream.\<close>

lemma put_mBufSize: "EdRingQue_put q bs n = Inr (r, q') \<Longrightarrow> mBufSize q' = mBufSize q"
  by (auto simp: EdRingQue_put_def bindr_def Let_def split: sum.splits if_splits)

lemma put_entry:
  assumes q: "log_rep q ss" and s: "log_str s" and r: "mDataSize q + int (length (enc s)) \<le> mBufSize q"
  obtains q1 q2 r1 r2 where "EdRingQue_put q (le_bytes 2 (of_nat (length s + 1) :: u16)) 2 = Inr (r1, q1)"
    "EdRingQue_put q1 (s @ [0]) (uint (of_nat (length s + 1) :: u16)) = Inr (r2, q2)" "log_rep q2 (ss @ [s])"
proof -
  let ?cs = "[le_bytes 2 (of_nat (length s + 1) :: u16), s @ [0]]"
  have i: "ring_inv q" using q by (simp add: log_rep_def)
  have "ring_room q (length (concat ?cs))" using r by (simp add: ring_room_def)
  from ring.put_chunks_law [OF i this] obtain q2 where
    c: "put_chunks ring_put q ?cs = Some q2" "ring_inv q2" "ring_abs q2 = ring_abs q @ concat ?cs" by blast
  then obtain q1 where p: "ring_put q (le_bytes 2 (of_nat (length s + 1) :: u16)) = Some q1" "ring_put q1 (s @ [0]) = Some q2"
    by (auto simp: bind_Some_iff)
  have "log_rep q2 (ss @ [s])" using c q s by (simp add: log_rep_def enc_def)
  moreover have "\<exists>r. EdRingQue_put q (le_bytes 2 (of_nat (length s + 1) :: u16)) 2 = Inr (r, q1)"
    using p(1) by (auto simp: ring_put_def outcome_def split: sum.splits)
  moreover have "\<exists>r. EdRingQue_put q1 (s @ [0]) (uint (of_nat (length s + 1) :: u16)) = Inr (r, q2)"
    using p(2) unfolding uint_len [OF s] by (auto simp: ring_put_def outcome_def split: sum.splits)
  ultimately show thesis by (blast intro: that)
qed

lemma flush_loop_ok:
  "log_rep q ss \<Longrightarrow> length logstr = 65536 \<Longrightarrow>
     \<exists>q'. flush_loop n u logstr q = Inr (take n ss, q') \<and> log_rep q' (drop n ss)"
proof (induction n arbitrary: q ss u logstr)
  case 0
  then show ?case by simp
next
  case (Suc n)
  show ?case
  proof (cases ss)
    case Nil
    with Suc.prems(1) have q: "log_rep q []" by simp
    obtain q1 where "EdRingQue_get q True 2 = Inr (0, [], q1)" "log_rep q1 []"
      by (rule get_empty [OF q, of 2 True]) simp_all
    then show ?thesis using Nil by simp
  next
    case (Cons s ss')
    with Suc.prems(1) have q: "log_rep q (s # ss')" by simp
    then have s: "log_str s" by (simp add: log_rep_def)
    obtain q1 q2 where g: "EdRingQue_get q True 2 = Inr (2, le_bytes 2 (of_nat (length s + 1) :: u16), q1)"
      "EdRingQue_get q1 True (uint (of_nat (length s + 1) :: u16))
         = Inr (int (length s + 1), if True then s @ [0] else [], q2)" "log_rep q2 ss'"
      by (rule get_entry [OF q])
    have l: "length (s @ [0]) \<le> length logstr" using s Suc.prems(2) by (simp add: log_str_def)
    let ?log = "(s @ [0]) @ drop (length (s @ [0])) logstr"
    have f: "fill logstr (s @ [0]) = Inr ?log" using l by (rule memcpy_prefix)
    have "length ?log = 65536" using l Suc.prems(2) by simp
    from Suc.IH [OF g(3) this] obtain q' where
      q': "flush_loop n (of_nat (length s + 1)) ?log q2 = Inr (take n ss', q')" "log_rep q' (drop n ss')" by blast
    have "flush_loop (Suc n) u logstr q = Inr (s # take n ss', q')"
      unfolding flush_loop.simps g(1) bindr_simps prod.case Let_def set_u16_full g(2) if_True f
      using q'(1) puts_entry [OF s] by simp
    then show ?thesis using q'(2) Cons by simp
  qed
qed

lemma length_log_buf: "length (log_buf junk) = 65536"
  by (simp add: log_buf_def)

text \<open>The entries before the peek cursor.\<close>

definition peek_rep :: "EdRingQue \<Rightarrow> u8 list list \<Rightarrow> bool" where
  "peek_rep q ss \<longleftrightarrow> ring_inv q \<and> peek_inv q \<and> peek_abs q = enc_all ss \<and> (\<forall>s\<in>set ss. log_str s)"

lemma peekNext_str:
  assumes q: "ring_inv q" "peek_inv q" "peek_abs q = (s @ [0]) @ enc_all ss" and s: "log_str s" "\<forall>s\<in>set ss. log_str s"
  obtains q' where "EdRingQue_peekNext q True (uint (of_nat (length s + 1) :: u16)) = Inr (int (length s + 1), s @ [0], q')"
    "peek_rep q' ss" "ring_abs q' = ring_abs q"
proof -
  have d: "mLastPeekDataSize q = int (length (s @ [0]) + length (enc_all ss))"
    using arg_cong [OF q(3), of length] q(2) by (simp add: peek_abs_def peek_inv_def)
  obtain q' where q': "EdRingQue_peekNext q True (int (length s + 1)) = Inr (min (int (length s + 1)) (mLastPeekDataSize q),
      take (nat (int (length s + 1))) (peek_abs q), q')" "ring_inv q'" "peek_inv q'" "ring_abs q' = ring_abs q"
    "peek_abs q' = drop (nat (int (length s + 1))) (peek_abs q)"
    by (rule ring_peekNext_ok [OF q(1,2), of "int (length s + 1)"]) simp
  show thesis
  proof (rule that)
    show "EdRingQue_peekNext q True (uint (of_nat (length s + 1) :: u16)) = Inr (int (length s + 1), s @ [0], q')"
      unfolding uint_len [OF s(1)] q'(1) d q(3) nat_int by simp
    show "peek_rep q' ss" using q'(2,3) q'(5) [unfolded nat_int] q(3) s(2) by (simp add: peek_rep_def)
  qed (rule q'(4))
qed

lemma peekNext_len:
  assumes q: "peek_rep q (s # ss)"
  obtains q1 where "EdRingQue_peekNext q True 2 = Inr (2, le_bytes 2 (of_nat (length s + 1) :: u16), q1)"
    "ring_inv q1" "peek_inv q1" "peek_abs q1 = (s @ [0]) @ enc_all ss" "ring_abs q1 = ring_abs q"
proof -
  have i: "ring_inv q" "peek_inv q" and a: "peek_abs q = le_bytes 2 (of_nat (length s + 1) :: u16) @ (s @ [0]) @ enc_all ss"
    using q by (simp_all add: peek_rep_def enc_def)
  have d: "2 \<le> mLastPeekDataSize q"
    using arg_cong [OF a, of length] i(2) by (simp add: peek_abs_def peek_inv_def)
  show thesis by (rule ring_peekNext_ok [OF i, of 2]) (use a d in \<open>auto intro!: that\<close>)
qed

lemma peekNext_empty:
  assumes q: "peek_rep q []" and n: "0 \<le> n"
  obtains q' where "EdRingQue_peekNext q True n = Inr (0, [], q')" "peek_rep q' []" "ring_abs q' = ring_abs q"
proof -
  have i: "ring_inv q" "peek_inv q" and a: "peek_abs q = []" using q by (simp_all add: peek_rep_def)
  have d: "mLastPeekDataSize q = 0"
    using arg_cong [OF a, of length] i(2) by (simp add: peek_abs_def peek_inv_def)
  show thesis by (rule ring_peekNext_ok [OF i n]) (use a d n in \<open>auto intro!: that simp: peek_rep_def\<close>)
qed

lemma dump_loop_ok:
  "peek_rep q ss \<Longrightarrow> log_str s \<Longrightarrow> length (s @ [0]) + length rest = 65536 \<Longrightarrow> rdcnt \<noteq> 0 \<Longrightarrow>
     \<exists>q'. dump_loop rdcnt u ((s @ [0]) @ rest) q = Some (Inr (s # ss, q')) \<and> ring_abs q' = ring_abs q"
proof (induction ss arbitrary: q s u rest rdcnt)
  case Nil
  obtain q1 where q1: "EdRingQue_peekNext q True 2 = Inr (0, [], q1)" "peek_rep q1 []" "ring_abs q1 = ring_abs q"
    by (rule peekNext_empty [OF Nil.prems(1), of 2]) simp_all
  obtain q2 where q2: "EdRingQue_peekNext q1 True (uint (set_u16 u [])) = Inr (0, [], q2)" "ring_abs q2 = ring_abs q1"
    by (rule peekNext_empty [OF q1(2), of "uint (set_u16 u [])"]) simp_all
  have e: "dump_loop 0 u' logstr q2 = Some (Inr ([], q2))" for u' logstr by (subst dump_loop.simps) simp
  show ?case
    by (subst dump_loop.simps) (simp add: Nil.prems(4) puts_entry [OF Nil.prems(2), simplified] q1 q2 memcpy_prefix e)
next
  case (Cons t ss)
  then have t: "log_str t" "\<forall>s\<in>set ss. log_str s" by (simp_all add: peek_rep_def)
  obtain q1 where q1: "EdRingQue_peekNext q True 2 = Inr (2, le_bytes 2 (of_nat (length t + 1) :: u16), q1)"
    "ring_inv q1" "peek_inv q1" "peek_abs q1 = (t @ [0]) @ enc_all ss" "ring_abs q1 = ring_abs q"
    by (rule peekNext_len [OF Cons.prems(1)])
  obtain q2 where q2: "EdRingQue_peekNext q1 True (uint (of_nat (length t + 1) :: u16)) = Inr (int (length t + 1), t @ [0], q2)"
    "peek_rep q2 ss" "ring_abs q2 = ring_abs q1" by (rule peekNext_str [OF q1(2-4) t])
  let ?log = "(s @ [0]) @ rest"
  have l: "length (t @ [0]) \<le> length ?log" using t(1) Cons.prems(3) by (simp add: log_str_def)
  have f: "fill ?log (t @ [0]) = Inr ((t @ [0]) @ drop (length (t @ [0])) ?log)" using l by (rule memcpy_prefix)
  have "length (t @ [0]) + length (drop (length (t @ [0])) ?log) = 65536" "int (length t + 1) \<noteq> 0"
    using l Cons.prems(3) by simp_all
  from Cons.IH [OF q2(2) t(1) this] obtain q' where
    q': "dump_loop (int (length t + 1)) (of_nat (length t + 1)) ((t @ [0]) @ drop (length (t @ [0])) ?log) q2 = Some (Inr (t # ss, q'))"
    "ring_abs q' = ring_abs q2" by blast
  have "dump_loop rdcnt u ?log q = Some (Inr (s # t # ss, q'))"
    by (subst dump_loop.simps)
      (simp only: Cons.prems(4) if_False puts_entry [OF Cons.prems(2)] sum.case q1(1) prod.case Let_def
        set_u16_full q2(1) f q'(1) option.case bind.bind_lunit bindr_simps)
  then show ?case using q'(2) q2(3) q1(5) by simp
qed

section \<open>Properties\<close>

text \<open>C39. Printing a string with no zero byte whose entry fits the ring returns 0 and appends it,
  dropping just as many of the oldest entries as needed and none when there is room; entries are
  never torn. If the entry is larger than the ring, the call empties the log and returns -1. The
  loop ends in every case and the capacity stays.\<close>

theorem log_print:
  assumes q: "log_rep q ss" and s: "log_str s"
  shows "\<exists>r q'. EdLog_print u0 q s = Inr (r, q') \<and> mBufSize q' = mBufSize q \<and>
     (if int (length s + 3) \<le> mBufSize q
      then r = 0 \<and> log_rep q' (evict (mBufSize q - int (length s + 3)) ss @ [s])
      else r = - 1 \<and> log_rep q' [])"
proof -
  let ?l = "of_nat (length s + 1) :: u16"
  have u: "2 + uint ?l = int (length s + 3)" using uint_len [OF s] by simp
  show ?thesis
  proof (cases "int (length s + 3) \<le> mBufSize q")
    case True
    from print_loop_ok [OF q this, of u0] obtain q1 where
      q1: "print_loop u0 q (int (length s + 3)) = Some (Inr (True, q1))"
        "log_rep q1 (evict (mBufSize q - int (length s + 3)) ss)" "mBufSize q1 = mBufSize q" by blast
    have "mDataSize q1 + int (length (enc s)) \<le> mBufSize q1"
      using log_rep_data [OF q1(2)] evict_fits [of "mBufSize q - int (length s + 3)" ss] True q1(3) by simp
    from q1(2) s this obtain q2 q3 r1 r2 where p: "EdRingQue_put q1 (le_bytes 2 ?l) 2 = Inr (r1, q2)"
      "EdRingQue_put q2 (s @ [0]) (uint ?l) = Inr (r2, q3)"
      "log_rep q3 (evict (mBufSize q - int (length s + 3)) ss @ [s])" by (rule put_entry)
    have "EdLog_print u0 q s = Inr (0, q3)"
      by (simp only: EdLog_print_def Let_def u q1(1) p(1,2) option.case bindr_simps prod.case if_False not_True_eq_False)
    with True p(3) put_mBufSize [OF p(1)] put_mBufSize [OF p(2)] q1(3) show ?thesis by simp
  next
    case False
    then have "mBufSize q < int (length s + 3)" by linarith
    from print_loop_too_big [OF q this, of u0] obtain q1 where
      q1: "print_loop u0 q (int (length s + 3)) = Some (Inr (False, q1))" "log_rep q1 []" "mBufSize q1 = mBufSize q" by blast
    have "EdLog_print u0 q s = Inr (- 1, q1)"
      by (simp only: EdLog_print_def Let_def u q1(1) option.case bindr_simps prod.case if_True not_False_eq_True)
    with False q1(2,3) show ?thesis by auto
  qed
qed

lemma new_log: "0 < n \<Longrightarrow> n \<le> 2 ^ 30 \<Longrightarrow> log_rep (EdRingQue_new junk n) []"
  by (simp add: log_rep_def new_ring_inv)

theorem log_print_witness:
  "\<exists>q q' q''. EdLog_print 0 (EdRingQue_new (\<lambda>_. 0) 8) [65, 66] = Inr (0, q) \<and> log_rep q [[65, 66]] \<and>
     EdLog_print 0 q [67] = Inr (0, q') \<and> log_rep q' [[67]] \<and>
     EdLog_print 0 q' [1, 2, 3, 4, 5, 6] = Inr (- 1, q'') \<and> log_rep q'' []"
proof -
  have n: "log_rep (EdRingQue_new (\<lambda>_. 0) 8) []" by (rule new_log) simp_all
  have s: "log_str [65, 66]" "log_str [67]" "log_str [1, 2, 3, 4, 5, 6]" and b: "mBufSize (EdRingQue_new (\<lambda>_. 0) 8) = 8"
    by (simp_all add: log_str_def EdRingQue_new_def)
  from log_print [OF n s(1), of 0] obtain q where
    q: "EdLog_print 0 (EdRingQue_new (\<lambda>_. 0) 8) [65, 66] = Inr (0, q)" "log_rep q [[65, 66]]" "mBufSize q = 8"
    by (auto simp: b)
  from log_print [OF q(2) s(2), of 0] obtain q' where
    q': "EdLog_print 0 q [67] = Inr (0, q')" "log_rep q' [[67]]" "mBufSize q' = 8" by (auto simp: q(3))
  from log_print [OF q'(2) s(3), of 0] obtain q'' where
    "EdLog_print 0 q' [1, 2, 3, 4, 5, 6] = Inr (- 1, q'')" "log_rep q'' []" by (auto simp: q'(3))
  with q q' show ?thesis by blast
qed

lemma length_le_enc_all: "length ss \<le> length (enc_all ss)"
  by (induction ss) simp_all

lemma dumpAll_ok:
  assumes q: "log_rep q ss"
  shows "\<exists>q'. EdLog_dumpAll u0 junk q = Inr (ss, q') \<and> ring_abs q' = ring_abs q"
proof -
  have i: "ring_inv q" using q by (simp add: log_rep_def)
  have two: "(0::int) \<le> 2" by simp
  obtain q1 where q1: "EdRingQue_peek q True 2 = Inr (min 2 (mDataSize q), take (nat 2) (ring_abs q), q1)"
    "ring_inv q1" "peek_inv q1" "ring_abs q1 = ring_abs q" "peek_abs q1 = drop (nat 2) (ring_abs q)"
    by (rule ring_peek_ok [OF i two])
  have z: "dump_loop 0 u logstr q = Some (Inr ([], q))" for u logstr q by (subst dump_loop.simps) simp
  show ?thesis
  proof (cases ss)
    case Nil
    then have "ring_abs q = []" using q by (simp add: log_rep_def)
    then have p: "peek_rep q1 []" and t: "take (nat 2) (ring_abs q) = []" using q1 by (simp_all add: peek_rep_def)
    obtain q2 where "EdRingQue_peekNext q1 True (uint (set_u16 u0 [])) = Inr (0, [], q2)" "ring_abs q2 = ring_abs q1"
      by (rule peekNext_empty [OF p, of "uint (set_u16 u0 [])"]) simp_all
    then show ?thesis using q1(1,4) Nil t by (simp add: EdLog_dumpAll_def memcpy_prefix z)
  next
    case (Cons s ss')
    then have s: "log_str s" "\<forall>s\<in>set ss'. log_str s"
      and a: "ring_abs q = le_bytes 2 (of_nat (length s + 1) :: u16) @ (s @ [0]) @ enc_all ss'"
      using q by (simp_all add: log_rep_def enc_def)
    have p: "take (nat 2) (ring_abs q) = le_bytes 2 (of_nat (length s + 1) :: u16)"
      "peek_abs q1 = (s @ [0]) @ enc_all ss'" using a q1(5) by simp_all
    obtain q2 where q2: "EdRingQue_peekNext q1 True (uint (of_nat (length s + 1) :: u16)) = Inr (int (length s + 1), s @ [0], q2)"
      "peek_rep q2 ss'" "ring_abs q2 = ring_abs q1" by (rule peekNext_str [OF q1(2,3) p(2) s])
    have l: "length (s @ [0]) \<le> length (log_buf junk)" using s(1) by (simp add: length_log_buf log_str_def)
    let ?rest = "drop (length (s @ [0])) (log_buf junk)"
    have f: "fill (log_buf junk) (s @ [0]) = Inr ((s @ [0]) @ ?rest)" using l by (rule memcpy_prefix)
    have "length (s @ [0]) + length ?rest = 65536" "int (length s + 1) \<noteq> 0" using l by (simp_all add: length_log_buf)
    from dump_loop_ok [OF q2(2) s(1) this, of "of_nat (length s + 1)"] obtain q' where
      "dump_loop (int (length s + 1)) (of_nat (length s + 1)) ((s @ [0]) @ ?rest) q2 = Some (Inr (s # ss', q'))"
      "ring_abs q' = ring_abs q2" by blast
    then show ?thesis
      by (simp only: EdLog_dumpAll_def q1(1) bindr_simps prod.case Let_def p(1) set_u16_full q2(1) f option.case
          Cons q2(3) q1(4)) simp
  qed
qed

text \<open>\<^verbatim>\<open>flush\<close> with a positive count writes out and removes that many of the oldest strings, or
  all there are; with any other count it writes out and removes every string. \<^verbatim>\<open>dumpAll\<close> writes out
  every string, in order, and leaves the log as it was.\<close>

theorem log_output:
  assumes q: "log_rep q ss"
  shows "(\<exists>q'. EdLog_flush u0 junk q count = Inr (if 0 < count then take (nat count) ss else ss, q') \<and>
            log_rep q' (if 0 < count then drop (nat count) ss else [])) \<and>
         (\<exists>q'. EdLog_dumpAll u0 junk q = Inr (ss, q') \<and> ring_abs q' = ring_abs q)"
proof
  let ?n = "nat (if count \<le> 0 then EdRingQue_getDataSize q else count)"
  have d: "EdRingQue_getDataSize q = int (length (enc_all ss))"
    using log_rep_data [OF q] by (simp add: EdRingQue_getDataSize_def)
  have n: "take ?n ss = (if 0 < count then take (nat count) ss else ss)"
    "drop ?n ss = (if 0 < count then drop (nat count) ss else [])"
    using d length_le_enc_all [of ss] by auto
  from flush_loop_ok [OF q length_log_buf, of ?n u0 junk]
  show "\<exists>q'. EdLog_flush u0 junk q count = Inr (if 0 < count then take (nat count) ss else ss, q') \<and>
            log_rep q' (if 0 < count then drop (nat count) ss else [])"
    unfolding EdLog_flush_def n .
qed (rule dumpAll_ok [OF q])

theorem log_output_witness:
  "\<exists>q q'. EdLog_print 0 (EdRingQue_new (\<lambda>_. 0) 8) [65, 66] = Inr (0, q) \<and>
     EdLog_flush 0 (\<lambda>_. 7) q 0 = Inr ([[65, 66]], q') \<and> log_rep q' []"
proof -
  have "log_rep (EdRingQue_new (\<lambda>_. 0) 8) []" by (rule new_log) simp_all
  moreover have "log_str [65, 66]" "mBufSize (EdRingQue_new (\<lambda>_. 0) 8) = 8"
    by (simp_all add: log_str_def EdRingQue_new_def)
  ultimately have r: "log_rep (EdRingQue_new (\<lambda>_. 0) 8) []" "log_str [65, 66]" "mBufSize (EdRingQue_new (\<lambda>_. 0) 8) = 8"
    by blast+
  from print_loop_ok [OF r(1), of 5 0] r(3) obtain q1 where
    q1: "print_loop 0 (EdRingQue_new (\<lambda>_. 0) 8) 5 = Some (Inr (True, q1))" "log_rep q1 []" "mBufSize q1 = 8" by auto
  have u: "2 + uint (of_nat (length [65, 66 :: u8] + 1) :: u16) = 5" by simp
  have "mDataSize q1 + int (length (enc [65, 66])) \<le> mBufSize q1" using log_rep_data [OF q1(2)] q1(3) by simp
  from q1(2) r(2) this obtain q2 q3 r1 r2 where p:
    "EdRingQue_put q1 (le_bytes 2 (of_nat (length [65, 66 :: u8] + 1) :: u16)) 2 = Inr (r1, q2)"
    "EdRingQue_put q2 ([65, 66] @ [0]) (uint (of_nat (length [65, 66 :: u8] + 1) :: u16)) = Inr (r2, q3)"
    "log_rep q3 ([] @ [[65, 66]])" by (rule put_entry)
  have "EdLog_print 0 (EdRingQue_new (\<lambda>_. 0) 8) [65, 66] = Inr (0, q3)"
    by (simp only: EdLog_print_def Let_def u q1(1) p(1,2) option.case bindr_simps prod.case if_False not_True_eq_False)
  with log_output [OF p(3), of 0 "\<lambda>_. 7" 0] show ?thesis by auto
qed

end
