(* ===== verification/EdMemIO.thy ===== *)
theory EdMemIO
  imports EdPrelude
begin

text \<open>The in-memory streams: \<^verbatim>\<open>EdMemReader\<close> (EdMemReader.h, EdMemReader.cpp), which hands out a
  buffer in pieces, and \<^verbatim>\<open>EdMemStreamWriter\<close> (EdMemStreamWriter.h, EdMemStreamWriter.cpp). A vector
  is its reserved storage; memory fresh from the allocator is \<open>junk\<close>.\<close>

section \<open>EdMemReader\<close>

record EdMemReader =
  mBuf :: "block option"
  mSize :: nat
  mReadCnt :: nat

definition EdMemReader_new :: EdMemReader where
  "EdMemReader_new = \<lparr>mBuf = None, mSize = 0, mReadCnt = 0\<rparr>"

definition EdMemReader_remain :: "EdMemReader \<Rightarrow> nat" where
  "EdMemReader_remain r = sub64 (mSize r) (mReadCnt r)"

definition EdMemReader_read :: "EdMemReader \<Rightarrow> nat \<Rightarrow> fault + (nat \<times> u8 list \<times> EdMemReader)" where
  "EdMemReader_read r bufsize =
     (let rcnt = min bufsize (EdMemReader_remain r) in
      if rcnt > 0
      then case mBuf r of
             None \<Rightarrow> Inl Bad_access
           | Some blk \<Rightarrow>
               (case mem_read blk (mReadCnt r) rcnt of
                  None \<Rightarrow> Inl Bad_access
                | Some bs \<Rightarrow> Inr (rcnt, bs, r\<lparr>mReadCnt := add64 (mReadCnt r) rcnt\<rparr>))
      else Inr (rcnt, [], r))"

definition EdMemReader_setBuffer :: "EdMemReader \<Rightarrow> block option \<Rightarrow> nat \<Rightarrow> EdMemReader" where
  "EdMemReader_setBuffer r buf bsize = r\<lparr>mBuf := buf, mSize := bsize, mReadCnt := 0\<rparr>"

section \<open>EdMemStreamWriter\<close>

record EdMemStreamWriter =
  mVecBuf :: block
  mWritePos :: nat

definition EdMemStreamWriter_new :: EdMemStreamWriter where
  "EdMemStreamWriter_new = \<lparr>mVecBuf = [], mWritePos = 0\<rparr>"

definition EdMemStreamWriter_remain :: "EdMemStreamWriter \<Rightarrow> nat" where
  "EdMemStreamWriter_remain w = sub64 (length (mVecBuf w)) (mWritePos w)"

definition EdMemStreamWriter_write :: "EdMemStreamWriter \<Rightarrow> u8 list \<Rightarrow> fault + (nat \<times> EdMemStreamWriter)" where
  "EdMemStreamWriter_write w buf =
     (let wcnt = min (length buf) (EdMemStreamWriter_remain w) in
      case memcpy_to (mVecBuf w) (mWritePos w) (take wcnt buf) of
        None \<Rightarrow> Inl Bad_access
      | Some blk \<Rightarrow> Inr (wcnt, w\<lparr>mVecBuf := blk\<rparr>))"

text \<open>\<^verbatim>\<open>vector::reserve\<close> never shrinks; the vector has no elements, so fresh storage keeps nothing.\<close>

definition EdMemStreamWriter_reserve :: "(nat \<Rightarrow> u8) \<Rightarrow> EdMemStreamWriter \<Rightarrow> nat \<Rightarrow> EdMemStreamWriter" where
  "EdMemStreamWriter_reserve junk w n =
     (if length (mVecBuf w) < n then w\<lparr>mVecBuf := map junk [0..<n]\<rparr> else w)"

section \<open>Lemmas\<close>

fun read_all :: "EdMemReader \<Rightarrow> nat list \<Rightarrow> fault + (u8 list \<times> EdMemReader)" where
  "read_all r [] = Inr ([], r)"
| "read_all r (n # ns) =
     bindr (EdMemReader_read r n) (\<lambda>(_, bs, r).
     bindr (read_all r ns) (\<lambda>(bs', r). Inr (bs @ bs', r)))"

definition rd_rep :: "EdMemReader \<Rightarrow> block \<Rightarrow> bool" where
  "rd_rep r blk \<longleftrightarrow> mBuf r = Some blk \<and> mReadCnt r \<le> mSize r \<and> mSize r \<le> length blk \<and> length blk < 2 ^ 64"

definition rd_abs :: "EdMemReader \<Rightarrow> block \<Rightarrow> u8 list" where
  "rd_abs r blk = drop (mReadCnt r) (take (mSize r) blk)"

lemma remain_rd: "rd_rep r blk \<Longrightarrow> EdMemReader_remain r = length (rd_abs r blk)"
proof -
  assume r: "rd_rep r blk"
  then have "mReadCnt r \<le> mSize r" "mSize r < 2 ^ 64" "mSize r \<le> length blk" unfolding rd_rep_def by linarith+
  then show ?thesis by (simp add: EdMemReader_remain_def rd_abs_def sub64_exact)
qed

lemma memread_ok:
  assumes r: "rd_rep r blk"
  obtains r' where "EdMemReader_read r n = Inr (min n (length (rd_abs r blk)), take n (rd_abs r blk), r')"
    "rd_rep r' blk" "rd_abs r' blk = drop n (rd_abs r blk)"
proof -
  define k where "k = min n (length (rd_abs r blk))"
  let ?r = "r\<lparr>mReadCnt := mReadCnt r + k\<rparr>"
  have b: "mBuf r = Some blk" "mReadCnt r \<le> mSize r" "mSize r \<le> length blk" "length blk < 2 ^ 64"
    using r by (simp_all only: rd_rep_def)
  have l: "length (rd_abs r blk) = mSize r - mReadCnt r" using b by (simp add: rd_abs_def)
  have k: "mReadCnt r + k \<le> mSize r" using b(2) l by (simp add: k_def)
  have a: "add64 (mReadCnt r) k = mReadCnt r + k" by (rule add64_exact) (use k b in linarith)
  have t: "take k (drop (mReadCnt r) blk) = take n (rd_abs r blk)"
    using k l by (simp add: rd_abs_def drop_take k_def min_def)
  have m: "mem_read blk (mReadCnt r) k = Some (take n (rd_abs r blk))"
    using k b(3) t by (simp add: mem_read_def)
  have "k = 0 \<Longrightarrow> ?r = r" "k = 0 \<Longrightarrow> take n (rd_abs r blk) = []" by (auto simp: k_def min_def split: if_splits)
  then have "EdMemReader_read r n = Inr (k, take n (rd_abs r blk), ?r)"
    using m a b(1) by (cases "k = 0") (simp_all add: EdMemReader_read_def remain_rd [OF r] k_def [symmetric])
  moreover have "rd_rep ?r blk" using b k by (simp add: rd_rep_def)
  moreover have "rd_abs ?r blk = drop n (rd_abs r blk)"
    using l by (simp add: rd_abs_def k_def min_def add.commute)
  ultimately show thesis unfolding k_def by (rule that)
qed

lemma read_all_ok:
  "rd_rep r blk \<Longrightarrow> \<exists>r'. read_all r ns = Inr (take (sum_list ns) (rd_abs r blk), r') \<and>
     rd_rep r' blk \<and> rd_abs r' blk = drop (sum_list ns) (rd_abs r blk)"
proof (induction ns arbitrary: r)
  case Nil
  then show ?case by simp
next
  case (Cons n ns)
  obtain r1 where r1: "EdMemReader_read r n = Inr (min n (length (rd_abs r blk)), take n (rd_abs r blk), r1)"
    "rd_rep r1 blk" "rd_abs r1 blk = drop n (rd_abs r blk)" by (rule memread_ok [OF Cons.prems])
  from Cons.IH [OF r1(2)] r1(1,3) show ?case by (auto simp: take_add add.commute)
qed

section \<open>Properties\<close>

text \<open>Reading a buffer through \<^verbatim>\<open>EdMemReader\<close> in pieces of any sizes delivers its bytes in
  order, at most as many as were set, never reading outside the buffer; \<^verbatim>\<open>remain\<close> is then what was
  not delivered.\<close>

theorem memreader_pieces:
  assumes "n \<le> length blk" "length blk < 2 ^ 64"
  shows "\<exists>r'. read_all (EdMemReader_setBuffer r (Some blk) n) ns = Inr (take (sum_list ns) (take n blk), r') \<and>
     EdMemReader_remain r' = n - sum_list ns"
proof -
  let ?r = "EdMemReader_setBuffer r (Some blk) n"
  have r: "rd_rep ?r blk" and a: "rd_abs ?r blk = take n blk"
    using assms by (simp_all add: rd_rep_def rd_abs_def EdMemReader_setBuffer_def)
  from read_all_ok [OF r, of ns] obtain r' where
    r': "read_all ?r ns = Inr (take (sum_list ns) (take n blk), r')" "rd_rep r' blk"
      "rd_abs r' blk = drop (sum_list ns) (take n blk)" unfolding a by blast
  moreover from remain_rd [OF r'(2)] r'(3) assms(1) have "EdMemReader_remain r' = n - sum_list ns" by simp
  ultimately show ?thesis by blast
qed

theorem memreader_pieces_witness:
  "\<exists>r'. read_all (EdMemReader_setBuffer EdMemReader_new (Some [1, 2, 3, 4]) 3) [2, 2] = Inr ([1, 2, 3], r') \<and>
     EdMemReader_remain r' = 0"
  using memreader_pieces [of 3 "[1, 2, 3, 4]" EdMemReader_new "[2, 2]"] by (simp add: numeral_3_eq_3)

text \<open>\<^verbatim>\<open>EdMemStreamWriter::write\<close> never advances its write position: of two writes the second
  overwrites the first from the start of the storage, and \<^verbatim>\<open>remain\<close> never goes down.\<close>

theorem memwriter_overwrites:
  assumes "length a \<le> n" "length b \<le> n" "n < 2 ^ 64"
  shows "\<exists>w1 w2. EdMemStreamWriter_write (EdMemStreamWriter_reserve junk EdMemStreamWriter_new n) a = Inr (length a, w1) \<and>
     EdMemStreamWriter_write w1 b = Inr (length b, w2) \<and> EdMemStreamWriter_remain w2 = n \<and>
     take (length b) (mVecBuf w2) = b \<and> drop (length b) (take (length a) (mVecBuf w2)) = drop (length b) a"
proof -
  let ?w = "EdMemStreamWriter_reserve junk EdMemStreamWriter_new n"
  have len: "length (mVecBuf ?w) = n" and pos: "mWritePos ?w = 0"
    by (auto simp: EdMemStreamWriter_reserve_def EdMemStreamWriter_new_def)
  have w: "\<exists>w'. EdMemStreamWriter_write w bs = Inr (length bs, w') \<and> mWritePos w' = 0 \<and>
      mVecBuf w' = bs @ drop (length bs) (mVecBuf w)"
    if "length (mVecBuf w) = n" "mWritePos w = 0" "length bs \<le> n" for w bs
    using that assms(3) by (simp add: EdMemStreamWriter_write_def EdMemStreamWriter_remain_def sub64_exact memcpy_to_def Let_def)
  from w [OF len pos assms(1)] obtain w1 where
    w1: "EdMemStreamWriter_write ?w a = Inr (length a, w1)" "mWritePos w1 = 0" "mVecBuf w1 = a @ drop (length a) (mVecBuf ?w)" by blast
  have l1: "length (mVecBuf w1) = n" using w1(3) len assms(1) by simp
  from w [OF l1 w1(2) assms(2)] obtain w2 where
    w2: "EdMemStreamWriter_write w1 b = Inr (length b, w2)" "mWritePos w2 = 0" "mVecBuf w2 = b @ drop (length b) (mVecBuf w1)" by blast
  have "EdMemStreamWriter_remain w2 = n"
    using w2(2,3) l1 assms(2,3) by (simp add: EdMemStreamWriter_remain_def sub64_exact)
  moreover have "drop (length b) (take (length a) (mVecBuf w2)) = drop (length b) a"
    using w2(3) w1(3) by (cases "length b \<le> length a") simp_all
  ultimately show ?thesis using w1(1) w2(1,3) by auto
qed

theorem memwriter_overwrites_witness:
  "\<exists>w1 w2. EdMemStreamWriter_write (EdMemStreamWriter_reserve (\<lambda>_. 0) EdMemStreamWriter_new 4) [1, 2] = Inr (2, w1) \<and>
     EdMemStreamWriter_write w1 [3] = Inr (1, w2) \<and> EdMemStreamWriter_remain w2 = 4 \<and> take 1 (mVecBuf w2) = [3]"
proof -
  have l: "length [1, 2 :: u8] = 2" "length [3 :: u8] = 1" by simp_all
  have h: "length [1, 2 :: u8] \<le> 4" "length [3 :: u8] \<le> 4" "(4 :: nat) < 2 ^ 64" by simp_all
  from memwriter_overwrites [OF h, of "\<lambda>_. 0"] show ?thesis unfolding l by blast
qed

end
