(* ===== verification/EdEvents.thy ===== *)
theory EdEvents
  imports EdLists
begin

text \<open>The event loop of a task (EdTask.cpp, EdContext.h): the \<^verbatim>\<open>edevt_t\<close> objects, their registration
  with epoll and the loop \<^verbatim>\<open>esMain\<close>. A deregistered object goes to \<^verbatim>\<open>mDummyEvtList\<close> and is freed
  only after the whole batch of events is processed. The results of \<^verbatim>\<open>epoll_ctl\<close> and \<^verbatim>\<open>epoll_wait\<close>
  and the addresses of \<^verbatim>\<open>new\<close> are arguments; a callback is a function on the state.\<close>

section \<open>State\<close>

datatype evtcb = MsgCb | EsCb

record edevt_t =
  evfd :: int
  evuser :: addr
  isReg :: bool
  ecb :: evtcb

text \<open>The part of \<^verbatim>\<open>EdTask\<close> and \<^verbatim>\<open>EdContext\<close> the event loop works on.\<close>

record evsys =
  ehdrs :: hdr_heap
  evts :: "addr \<rightharpoonup> edevt_t"
  mEvtList :: list_obj
  mDummyEvtList :: list_obj
  epfd :: int
  cmode :: int
  ctx_exit :: int
  opened :: int
  evt_count :: int
  evt_alloc_cnt :: int
  timer_alloc_cnt :: int

definition EPOLLIN :: u32 where "EPOLLIN = 0x1"
definition EPOLLOUT :: u32 where "EPOLLOUT = 0x4"
definition EPOLLERR :: u32 where "EPOLLERR = 0x8"
definition EPOLLHUP :: u32 where "EPOLLHUP = 0x10"
definition EPOLLRDHUP :: u32 where "EPOLLRDHUP = 0x2000"
definition EVT_READ :: u32 where "EVT_READ = EPOLLIN"
definition EVT_WRITE :: u32 where "EVT_WRITE = EPOLLOUT"
definition EVT_HANGUP :: u32 where "EVT_HANGUP = EPOLLRDHUP"

text \<open>\<^verbatim>\<open>esOpen\<close> with run mode \<open>mode\<close>, \<open>fd\<close> the result of \<^verbatim>\<open>epoll_create\<close>: it clears the context, so
  the counters start at zero.\<close>

definition EdTask_esOpen :: "'a evsys_scheme \<Rightarrow> int \<Rightarrow> int \<Rightarrow> fault + (int \<times> 'a evsys_scheme)" where
  "EdTask_esOpen w mode fd =
     (let w = w\<lparr>epfd := 0, cmode := mode, ctx_exit := 0, opened := 0, evt_count := 0, evt_alloc_cnt := 0, timer_alloc_cnt := 0\<rparr> in
      if mode = 0 \<and> fd = 0 then Inl Assert_failed
      else let w = (if mode = 0 then w\<lparr>epfd := fd\<rparr> else w)\<lparr>ctx_exit := 0, evt_count := 0, opened := 1\<rparr>
           in Inr (epfd w, w))"

section \<open>Registration\<close>

definition EdTask_allocEvent :: "'a evsys_scheme \<Rightarrow> addr \<Rightarrow> 'a evsys_scheme" where
  "EdTask_allocEvent w a =
     w\<lparr>ehdrs := EdObjList_allocObj (ehdrs w) a,
       evts := (evts w)(a \<mapsto> \<lparr>evfd = 0, evuser = NULL, isReg = False, ecb = EsCb\<rparr>),
       evt_alloc_cnt := evt_alloc_cnt w + 1\<rparr>"

definition EdTask_freeEvent :: "'a evsys_scheme \<Rightarrow> addr \<Rightarrow> fault + 'a evsys_scheme" where
  "EdTask_freeEvent w p =
     (case EdObjList_freeObj (ehdrs w) p of
        None \<Rightarrow> Inl Bad_access
      | Some h \<Rightarrow> Inr (w\<lparr>ehdrs := h, evts := (evts w)(p := None), evt_alloc_cnt := evt_alloc_cnt w - 1\<rparr>))"

definition upd_evt :: "'a evsys_scheme \<Rightarrow> addr \<Rightarrow> (edevt_t \<Rightarrow> edevt_t) \<Rightarrow> fault + 'a evsys_scheme" where
  "upd_evt w p f = (case evts w p of None \<Rightarrow> Inl Bad_access | Some e \<Rightarrow> Inr (w\<lparr>evts := (evts w)(p \<mapsto> f e)\<rparr>))"

text \<open>\<^verbatim>\<open>regEdEvent\<close>, with the new object at \<open>a\<close> and the result \<open>ctl\<close> of \<^verbatim>\<open>epoll_ctl\<close>.\<close>

definition EdTask_regEdEvent :: "'a evsys_scheme \<Rightarrow> addr \<Rightarrow> int \<Rightarrow> int \<Rightarrow> evtcb \<Rightarrow> addr \<Rightarrow> fault + (addr \<times> 'a evsys_scheme)" where
  "EdTask_regEdEvent w a ctl fd cb user =
     (let w = EdTask_allocEvent w a in
      bindr (upd_evt w a (\<lambda>e. e\<lparr>evfd := fd, ecb := cb, evuser := user\<rparr>)) (\<lambda>w.
      let w = w\<lparr>evt_count := evt_count w + 1\<rparr> in
      if ctl \<noteq> 0 then bindr (EdTask_freeEvent w a) (\<lambda>w. Inr (NULL, w))
      else bindr (upd_evt w a (\<lambda>e. e\<lparr>isReg := True\<rparr>)) (\<lambda>w.
           case EdObjList_push_back (ehdrs w) (mEvtList w) a of
             None \<Rightarrow> Inl Bad_access
           | Some (h, l) \<Rightarrow> Inr (a, w\<lparr>ehdrs := h, mEvtList := l\<rparr>))))"

definition EdTask_deregEdEvent :: "'a evsys_scheme \<Rightarrow> addr \<Rightarrow> int \<Rightarrow> fault + 'a evsys_scheme" where
  "EdTask_deregEdEvent w p ctl =
     (if evts w p = None then Inl Bad_access
      else if ctl \<noteq> 0 then Inl Assert_failed
      else bindr (upd_evt (w\<lparr>evt_count := evt_count w - 1\<rparr>) p (\<lambda>e. e\<lparr>isReg := False\<rparr>)) (\<lambda>w.
           case EdObjList_remove (ehdrs w) (mEvtList w) p of
             None \<Rightarrow> Inl Bad_access
           | Some (h, l) \<Rightarrow>
               (case EdObjList_push_back h (mDummyEvtList w) p of
                  None \<Rightarrow> Inl Bad_access
                | Some (h, d) \<Rightarrow> Inr (w\<lparr>ehdrs := h, mEvtList := l, mDummyEvtList := d\<rparr>))))"

definition EdTask_changeEdEvent :: "'a evsys_scheme \<Rightarrow> addr \<Rightarrow> int \<Rightarrow> fault + int" where
  "EdTask_changeEdEvent w p ctl = (if evts w p = None then Inl Bad_access else Inr ctl)"

text \<open>The loop of \<^verbatim>\<open>cleanUpEventResource\<close>; the fuel bounds the length of the list it drains.\<close>

fun EdTask_cleanUpEventResource :: "nat \<Rightarrow> 'a evsys_scheme \<Rightarrow> fault + 'a evsys_scheme" where
  "EdTask_cleanUpEventResource 0 w = Inl Diverges"
| "EdTask_cleanUpEventResource (Suc n) w =
     (case EdObjList_pop_front (ehdrs w) (mDummyEvtList w) of
        None \<Rightarrow> Inl Bad_access
      | Some (p, h, d) \<Rightarrow>
          let w = w\<lparr>ehdrs := h, mDummyEvtList := d\<rparr> in
          if p = NULL then Inr w
          else bindr (upd_evt w p (\<lambda>e. e\<lparr>evfd := 0\<rparr>)) (\<lambda>w.
               bindr (EdTask_freeEvent w p) (EdTask_cleanUpEventResource n)))"

section \<open>The loop\<close>

text \<open>A callback gets the kind of the event's function, the object and the event flag.\<close>

type_synonym 'a callback = "evtcb \<Rightarrow> addr \<Rightarrow> u32 \<Rightarrow> 'a evsys_scheme \<Rightarrow> fault + 'a evsys_scheme"

text \<open>One guarded call: nothing when the object is no longer registered or the flag is not set.\<close>

definition es_call :: "'a callback \<Rightarrow> addr \<Rightarrow> bool \<Rightarrow> u32 \<Rightarrow> 'a evsys_scheme \<Rightarrow> fault + 'a evsys_scheme" where
  "es_call cb p on flag w =
     (case evts w p of
        None \<Rightarrow> Inl Bad_access
      | Some e \<Rightarrow> if isReg e \<and> on then cb (ecb e) p flag w else Inr w)"

definition es_event :: "'a callback \<Rightarrow> addr \<times> u32 \<Rightarrow> 'a evsys_scheme \<Rightarrow> fault + 'a evsys_scheme" where
  "es_event cb pe w =
     (let p = fst pe; ev = snd pe in
      if p = NULL then Inl Assert_failed
      else case evts w p of
             None \<Rightarrow> Inl Bad_access
           | Some e \<Rightarrow>
               if evfd e = 0 then Inl Assert_failed
               else bindr (es_call cb p (ev AND EPOLLIN \<noteq> 0) EVT_READ w) (\<lambda>w.
                    bindr (es_call cb p (ev AND EPOLLRDHUP \<noteq> 0 \<or> ev AND EPOLLHUP \<noteq> 0 \<or> ev AND EPOLLERR \<noteq> 0) EVT_HANGUP w) (\<lambda>w.
                    es_call cb p (ev AND EPOLLOUT \<noteq> 0) EVT_WRITE w)))"

fun es_batch :: "'a callback \<Rightarrow> (addr \<times> u32) list \<Rightarrow> 'a evsys_scheme \<Rightarrow> fault + 'a evsys_scheme" where
  "es_batch cb [] w = Inr w"
| "es_batch cb (pe # pes) w = bindr (es_event cb pe w) (es_batch cb pes)"

text \<open>\<^verbatim>\<open>esMain\<close> over the batches that \<^verbatim>\<open>epoll_wait\<close> returns; with no further batch it is still
  waiting, which is the result \<open>None\<close>. \<open>fuel\<close> bounds the clean-up of each batch.\<close>

fun EdTask_esMain :: "nat \<Rightarrow> 'a callback \<Rightarrow> (addr \<times> u32) list list \<Rightarrow> 'a evsys_scheme \<Rightarrow> (fault + 'a evsys_scheme) option" where
  "EdTask_esMain fuel cb [] w =
     (if ctx_exit w = 0 then None else Some (Inr (w\<lparr>opened := 0\<rparr>)))"
| "EdTask_esMain fuel cb (b # bs) w =
     (if ctx_exit w = 0
      then case bindr (es_batch cb b w) (EdTask_cleanUpEventResource fuel) of
             Inl e \<Rightarrow> Some (Inl e)
           | Inr w \<Rightarrow> EdTask_esMain fuel cb bs w
      else Some (Inr (w\<lparr>opened := 0\<rparr>)))"

definition EdTask_esClose :: "'a evsys_scheme \<Rightarrow> fault + 'a evsys_scheme" where
  "EdTask_esClose w =
     (let w = (if cmode w = 0 then w\<lparr>epfd := - 1\<rparr> else w) in
      if timer_alloc_cnt w > 0 then Inl Assert_failed else Inr (w\<lparr>opened := 0\<rparr>))"

text \<open>\<^verbatim>\<open>edEventLoop\<close>: register the message event at \<open>a\<close>, run the loop, call the closing handler,
  deregister and clean up; events that are still registered then fail the assertion.\<close>

definition EdTask_edEventLoop ::
  "nat \<Rightarrow> 'a callback \<Rightarrow> (addr \<times> u32) list list \<Rightarrow> ('a evsys_scheme \<Rightarrow> fault + 'a evsys_scheme) \<Rightarrow> addr \<Rightarrow> int \<Rightarrow> int \<Rightarrow> int \<Rightarrow> addr \<Rightarrow> 'a evsys_scheme \<Rightarrow> (fault + 'a evsys_scheme) option" where
  "EdTask_edEventLoop fuel cb bs close_proc a ctl1 ctl2 msgfd self w =
     (case EdTask_regEdEvent w a ctl1 msgfd MsgCb self of
        Inl e \<Rightarrow> Some (Inl e)
      | Inr (p, w) \<Rightarrow>
          (case EdTask_esMain fuel cb bs w of
             None \<Rightarrow> None
           | Some r \<Rightarrow>
               Some (bindr r (\<lambda>w.
                     bindr (close_proc w) (\<lambda>w.
                     bindr (EdTask_deregEdEvent w p ctl2) (\<lambda>w.
                     bindr (EdTask_cleanUpEventResource fuel w) (\<lambda>w.
                     if EdObjList_size (mEvtList w) > 0 then Inl Assert_failed else Inr w)))))))"

section \<open>The event lists\<close>

text \<open>\<open>es\<close> are the registered events, \<open>ds\<close> those that wait to be freed; there are no others, and the
  descriptor of none of them is 0.\<close>

definition ev_rep :: "'a evsys_scheme \<Rightarrow> addr list \<Rightarrow> addr list \<Rightarrow> bool" where
  "ev_rep w es ds \<longleftrightarrow>
     ol_rep (ehdrs w) (mEvtList w) es \<and> ol_rep (ehdrs w) (mDummyEvtList w) ds \<and> distinct (es @ ds) \<and>
     dom (ehdrs w) = set (es @ ds) \<and> dom (evts w) = set (es @ ds) \<and>
     (\<forall>x e. evts w x = Some e \<longrightarrow> isReg e = (x \<in> set es) \<and> evfd e \<noteq> 0) \<and>
     evt_alloc_cnt w = int (length (es @ ds))"

lemma ev_rep_evt: "ev_rep w es ds \<Longrightarrow> x \<in> set (es @ ds) \<Longrightarrow> \<exists>e. evts w x = Some e \<and> isReg e = (x \<in> set es) \<and> evfd e \<noteq> 0"
  unfolding ev_rep_def by blast

lemma regEdEvent_ok:
  assumes r: "ev_rep w es ds" and a: "ehdrs w a = None" "a \<noteq> NULL" and fd: "fd \<noteq> 0"
  obtains w' where "EdTask_regEdEvent w a 0 fd cb user = Inr (a, w')" "ev_rep w' (es @ [a]) ds"
    "evts w' = (evts w)(a \<mapsto> \<lparr>evfd = fd, evuser = user, isReg = True, ecb = cb\<rparr>)" "evt_count w' = evt_count w + 1"
    "ctx_exit w' = ctx_exit w" "cmode w' = cmode w"
proof -
  let ?h = "EdObjList_allocObj (ehdrs w) a"
  let ?e = "\<lparr>evfd = fd, evuser = user, isReg = True, ecb = cb\<rparr>"
  have n: "a \<notin> set (es @ ds)" using r a(1) by (auto simp: ev_rep_def)
  have l: "ol_rep ?h (mEvtList w) es" "ol_rep ?h (mDummyEvtList w) ds" "detached ?h a"
    using r allocObj_rep [of "ehdrs w" a, OF a(1)] allocObj_detached [OF a(2)] by (simp_all add: ev_rep_def)
  obtain h' l' where p: "EdObjList_push_back ?h (mEvtList w) a = Some (h', l')" "ol_rep h' l' (es @ [a])"
    "ol_frame (insert a (set es)) ?h (mEvtList w) h' l'" using l(1,3) by (rule push_back_rep)
  let ?w = "w\<lparr>ehdrs := h', evts := (evts w)(a \<mapsto> ?e), evt_alloc_cnt := evt_alloc_cnt w + 1, evt_count := evt_count w + 1, mEvtList := l'\<rparr>"
  have "EdTask_regEdEvent w a 0 fd cb user = Inr (a, ?w)"
    using p(1) by (simp add: EdTask_regEdEvent_def EdTask_allocEvent_def upd_evt_def Let_def)
  moreover have "ol_rep h' (mDummyEvtList w) ds"
    by (rule ol_frame_other [OF p(3) l(2)]) (use r n in \<open>auto simp: ev_rep_def\<close>)
  moreover have "dom h' = insert a (dom (ehdrs w))" "mSeed l' = mSeed (mEvtList w)"
    using p(3) by (auto simp: ol_frame_def EdObjList_allocObj_def)
  ultimately have "ev_rep ?w (es @ [a]) ds"
    using r p(2) n fd by (auto simp: ev_rep_def)
  with \<open>EdTask_regEdEvent w a 0 fd cb user = Inr (a, ?w)\<close> show thesis by (intro that [of ?w]) simp_all
qed

text \<open>A registration that epoll refuses leaves no event behind, but the counter stays incremented.\<close>

lemma regEdEvent_refused:
  assumes "ehdrs w a = None" "evts w a = None" "ctl \<noteq> 0"
  shows "EdTask_regEdEvent w a ctl fd cb user = Inr (NULL, w\<lparr>evt_count := evt_count w + 1\<rparr>)"
proof -
  have "(ehdrs w)(a := None) = ehdrs w" "(evts w)(a := None) = evts w" using assms by auto
  then show ?thesis using assms(3)
    by (simp add: EdTask_regEdEvent_def EdTask_allocEvent_def upd_evt_def EdTask_freeEvent_def EdObjList_freeObj_def
        EdObjList_allocObj_def Let_def)
qed

lemma deregEdEvent_ok:
  assumes r: "ev_rep w es ds" and p: "p \<in> set es"
  obtains w' where "EdTask_deregEdEvent w p 0 = Inr w'" "ev_rep w' (remove1 p es) (ds @ [p])"
    "evt_count w' = evt_count w - 1" "ctx_exit w' = ctx_exit w" "cmode w' = cmode w"
    "\<exists>e. evts w p = Some e \<and> evts w' = (evts w)(p \<mapsto> e\<lparr>isReg := False\<rparr>)"
proof -
  obtain e where e: "evts w p = Some e" "evfd e \<noteq> 0" using ev_rep_evt [OF r, of p] p by auto
  have l: "ol_rep (ehdrs w) (mEvtList w) es" "ol_rep (ehdrs w) (mDummyEvtList w) ds" using r by (simp_all add: ev_rep_def)
  obtain h l' where q: "EdObjList_remove (ehdrs w) (mEvtList w) p = Some (h, l')" "ol_rep h l' (remove1 p es)" "detached h p"
    "ol_frame (set es) (ehdrs w) (mEvtList w) h l'" using l(1) p by (rule remove_rep)
  have dj: "set es \<inter> set ds = {}" "distinct es" "distinct ds" using r by (auto simp: ev_rep_def)
  have d1: "ol_rep h (mDummyEvtList w) ds" by (rule ol_frame_other [OF q(4) l(2) dj(1)])
  obtain h' d' where d: "EdObjList_push_back h (mDummyEvtList w) p = Some (h', d')" "ol_rep h' d' (ds @ [p])"
    "ol_frame (insert p (set ds)) h (mDummyEvtList w) h' d'" using d1 q(3) by (rule push_back_rep)
  have np: "p \<notin> set (remove1 p es)" "set (remove1 p es) = set es - {p}" using dj(2) by simp_all
  have e2: "ol_rep h' l' (remove1 p es)"
    by (rule ol_frame_other [OF d(3) q(2)]) (use np dj(1) in auto)
  let ?w = "w\<lparr>evt_count := evt_count w - 1, evts := (evts w)(p \<mapsto> e\<lparr>isReg := False\<rparr>), ehdrs := h', mEvtList := l', mDummyEvtList := d'\<rparr>"
  have run: "EdTask_deregEdEvent w p 0 = Inr ?w" using e(1) q(1) d(1) by (simp add: EdTask_deregEdEvent_def upd_evt_def)
  have seeds: "mSeed l' = mSeed (mEvtList w)" "mSeed d' = mSeed (mDummyEvtList w)" "dom h' = dom (ehdrs w)"
    using q(4) d(3) by (simp_all add: ol_frame_def)
  have len: "length (remove1 p es @ ds @ [p]) = length (es @ ds)" using p dj(2)
    by (simp add: length_remove1) (metis Suc_pred length_pos_if_in_set)
  have "ev_rep ?w (remove1 p es) (ds @ [p])"
    unfolding ev_rep_def
  proof (intro conjI)
    show "\<forall>x e'. evts ?w x = Some e' \<longrightarrow> isReg e' = (x \<in> set (remove1 p es)) \<and> evfd e' \<noteq> 0"
      using r e np by (auto simp: ev_rep_def)
    show "evt_alloc_cnt ?w = int (length (remove1 p es @ ds @ [p]))" unfolding len using r by (simp add: ev_rep_def)
  qed (use r p e e2 d(2) np dj seeds in \<open>auto simp: ev_rep_def\<close>)
  then show thesis using run e(1) by (intro that [of ?w]) simp_all
qed

lemma cleanUp_ok:
  "ev_rep w es ds \<Longrightarrow> length ds < n \<Longrightarrow>
     \<exists>w'. EdTask_cleanUpEventResource n w = Inr w' \<and> ev_rep w' es [] \<and> evt_count w' = evt_count w \<and> ctx_exit w' = ctx_exit w"
proof (induction ds arbitrary: w n)
  case Nil
  then obtain k where "n = Suc k" by (cases n) auto
  then show ?case using Nil(1) pop_front_empty [of "ehdrs w" "mDummyEvtList w"] by (simp add: ev_rep_def)
next
  case (Cons p ds)
  then obtain k where k: "n = Suc k" "length ds < k" by (cases n) auto
  have l: "ol_rep (ehdrs w) (mDummyEvtList w) (p # ds)" "ol_rep (ehdrs w) (mEvtList w) es"
    using Cons.prems(1) by (simp_all add: ev_rep_def)
  obtain h d where q: "EdObjList_pop_front (ehdrs w) (mDummyEvtList w) = Some (p, h, d)" "ol_rep h d ds" "detached h p"
    "ol_frame (set (p # ds)) (ehdrs w) (mDummyEvtList w) h d" using l(1) by (rule pop_front_rep)
  have np: "p \<noteq> NULL" "p \<in> dom h" using q(3) by (auto simp: detached_def split: option.splits)
  obtain e where e: "evts w p = Some e" using ev_rep_evt [OF Cons.prems(1), of p] by auto
  have nin: "p \<notin> set es" "p \<notin> set ds" using Cons.prems(1) by (auto simp: ev_rep_def)
  have le: "ol_rep h (mEvtList w) es" by (rule ol_frame_other [OF q(4) l(2)]) (use Cons.prems(1) in \<open>auto simp: ev_rep_def\<close>)
  have f: "EdObjList_freeObj h p = Some (h(p := None))" using np by (auto simp: EdObjList_freeObj_def)
  let ?w = "w\<lparr>mDummyEvtList := d, ehdrs := h(p := None), evts := (evts w)(p := None), evt_alloc_cnt := evt_alloc_cnt w - 1\<rparr>"
  have rep: "ol_rep (h(p := None)) d ds" "ol_rep (h(p := None)) (mEvtList w) es"
    using freeObj_rep [OF f nin(2) q(2)] freeObj_rep [OF f nin(1) le] by simp_all
  have "mSeed d = mSeed (mDummyEvtList w)" "dom h = dom (ehdrs w)" using q(4) by (simp_all add: ol_frame_def)
  then have "ev_rep ?w es ds" using Cons.prems(1) rep nin by (auto simp: ev_rep_def)
  moreover have "EdTask_cleanUpEventResource n w = EdTask_cleanUpEventResource k ?w"
    using q(1) np(1) e f by (simp add: k(1) Let_def upd_evt_def EdTask_freeEvent_def)
  ultimately show ?case using Cons.IH [of ?w k] k(2) by simp
qed

text \<open>The clean-up touches nothing else: it removes the objects that are not registered.\<close>

lemma cleanUp_more: "EdTask_cleanUpEventResource n w = Inr w' \<Longrightarrow> evsys.more w' = evsys.more w"
proof (induction n arbitrary: w)
  case (Suc n)
  then show ?case
    by (auto simp: Let_def upd_evt_def EdTask_freeEvent_def bindr_def split: option.splits if_splits sum.splits dest!: Suc.IH)
qed simp

definition cleaned :: "'a evsys_scheme \<Rightarrow> 'a evsys_scheme \<Rightarrow> bool" where
  "cleaned w w' \<longleftrightarrow> evsys.more w' = evsys.more w \<and> cmode w' = cmode w \<and>
     (\<forall>p. evts w' p = (case evts w p of None \<Rightarrow> None | Some e \<Rightarrow> if isReg e then Some e else None))"

lemma map_le_delete: "m \<subseteq>\<^sub>m (\<lambda>b. if b = x then None else f b) \<Longrightarrow> m \<subseteq>\<^sub>m f"
  unfolding map_le_def by (metis domD option.distinct(1))

lemma cleanUp_evts: "EdTask_cleanUpEventResource n w = Inr w' \<Longrightarrow> cmode w' = cmode w \<and> evts w' \<subseteq>\<^sub>m evts w"
proof (induction n arbitrary: w)
  case (Suc n)
  then show ?case
    by (auto simp: Let_def upd_evt_def EdTask_freeEvent_def bindr_def split: option.splits if_splits sum.splits dest!: Suc.IH map_le_delete)
qed simp

lemma cleanUp_cleaned:
  assumes "EdTask_cleanUpEventResource n w = Inr w'" "ev_rep w es ds" "ev_rep w' es []"
  shows "cleaned w w'"
  unfolding cleaned_def
proof (intro conjI allI)
  show "evsys.more w' = evsys.more w" "cmode w' = cmode w" using cleanUp_more [OF assms(1)] cleanUp_evts [OF assms(1)] by simp_all
  fix p
  have d: "dom (evts w') = set es" "dom (evts w) = set es \<union> set ds" using assms(2,3) by (auto simp: ev_rep_def)
  show "evts w' p = (case evts w p of None \<Rightarrow> None | Some e \<Rightarrow> if isReg e then Some e else None)"
  proof (cases "p \<in> set es")
    case True
    then have "p \<in> dom (evts w')" "p \<in> dom (evts w)" using d by simp_all
    then obtain e where e: "evts w p = Some e" "evts w' p = Some e" using cleanUp_evts [OF assms(1)] unfolding map_le_def by (metis domD)
    then have "isReg e" using assms(3) True unfolding ev_rep_def by blast
    then show ?thesis using e by simp
  next
    case False
    then have "evts w' p = None" using d(1) by (metis domIff)
    moreover have "evts w p = Some e \<Longrightarrow> \<not> isReg e" for e using assms(2) False unfolding ev_rep_def by blast
    ultimately show ?thesis by (auto split: option.split)
  qed
qed

section \<open>Callbacks\<close>

text \<open>What the loop relies on of a callback, and what every registration and deregistration keeps: it
  returns, and it frees no event object. It may deregister any events, its own too, and register
  new ones. \<open>J\<close> is an invariant of the rest of the state that the callbacks need and keep; it holds also when
  the clean-up has removed the events that are not registered.\<close>

locale evt_callback =
  fixes cb :: "'a callback" and J :: "'a evsys_scheme \<Rightarrow> bool"
  assumes cb_law: "ev_rep w es ds \<Longrightarrow> J w \<Longrightarrow> p \<in> set es \<Longrightarrow> evts w p = Some e \<Longrightarrow> k = ecb e \<Longrightarrow>
    \<exists>w' es' ds'. cb k p flag w = Inr w' \<and> ev_rep w' es' ds' \<and> set (es @ ds) \<subseteq> set (es' @ ds') \<and> J w'"
  and J_rest: "J w \<Longrightarrow> cleaned w w' \<Longrightarrow> J w'"
begin

lemma call_safe:
  assumes "ev_rep w es ds" "J w" "p \<in> set (es @ ds)"
  shows "\<exists>w' es' ds'. es_call cb p on flag w = Inr w' \<and> ev_rep w' es' ds' \<and> set (es @ ds) \<subseteq> set (es' @ ds') \<and> J w'"
proof -
  obtain e where e: "evts w p = Some e" "isReg e = (p \<in> set es)" using ev_rep_evt [OF assms(1,3)] by blast
  show ?thesis
  proof (cases "isReg e \<and> on")
    case True
    with e cb_law [OF assms(1,2), of p e "ecb e" flag] show ?thesis by (auto simp: es_call_def)
  next
    case False
    then have "es_call cb p on flag w = Inr w" using e(1) by (auto simp: es_call_def)
    then show ?thesis using assms(1,2) by blast
  qed
qed

lemma event_safe:
  assumes r: "ev_rep w es ds" "J w" and p: "fst pe \<in> set (es @ ds)"
  shows "\<exists>w' es' ds'. es_event cb pe w = Inr w' \<and> ev_rep w' es' ds' \<and> set (es @ ds) \<subseteq> set (es' @ ds') \<and> J w'"
proof -
  obtain q ev where pe: "pe = (q, ev)" by (cases pe)
  obtain e where e: "evts w q = Some e" "evfd e \<noteq> 0" using ev_rep_evt [OF r(1) p] pe by auto
  have nn: "q \<noteq> NULL" using r(1) p pe ol_rep_not_null by (auto simp: ev_rep_def)
  from call_safe [OF r, of q "ev AND EPOLLIN \<noteq> 0" EVT_READ] p pe obtain w1 es1 ds1 where
    1: "es_call cb q (ev AND EPOLLIN \<noteq> 0) EVT_READ w = Inr w1" "ev_rep w1 es1 ds1" "set (es @ ds) \<subseteq> set (es1 @ ds1)" "J w1" by auto
  let ?hup = "ev AND EPOLLRDHUP \<noteq> 0 \<or> ev AND EPOLLHUP \<noteq> 0 \<or> ev AND EPOLLERR \<noteq> 0"
  have q1: "q \<in> set (es1 @ ds1)" using 1(3) p pe by auto
  from call_safe [OF 1(2,4) q1, of ?hup EVT_HANGUP] obtain w2 es2 ds2 where
    2: "es_call cb q ?hup EVT_HANGUP w1 = Inr w2" "ev_rep w2 es2 ds2" "set (es1 @ ds1) \<subseteq> set (es2 @ ds2)" "J w2" by blast
  have q2: "q \<in> set (es2 @ ds2)" using 2(3) q1 by auto
  from call_safe [OF 2(2,4) q2, of "ev AND EPOLLOUT \<noteq> 0" EVT_WRITE] obtain w3 es3 ds3 where
    3: "es_call cb q (ev AND EPOLLOUT \<noteq> 0) EVT_WRITE w2 = Inr w3" "ev_rep w3 es3 ds3" "set (es2 @ ds2) \<subseteq> set (es3 @ ds3)" "J w3" by blast
  have "es_event cb pe w = Inr w3" using 1(1) 2(1) 3(1) e nn by (simp add: es_event_def pe Let_def)
  with 1(3) 2(3) 3(2,3,4) show ?thesis by blast
qed

lemma batch_safe:
  "ev_rep w es ds \<Longrightarrow> J w \<Longrightarrow> fst ` set b \<subseteq> set (es @ ds) \<Longrightarrow>
     \<exists>w' es' ds'. es_batch cb b w = Inr w' \<and> ev_rep w' es' ds' \<and> set (es @ ds) \<subseteq> set (es' @ ds') \<and> J w'"
proof (induction b arbitrary: w es ds)
  case Nil
  then show ?case by auto
next
  case (Cons pe b)
  then have p: "fst pe \<in> set (es @ ds)" by simp
  obtain w1 es1 ds1 where 1: "es_event cb pe w = Inr w1" "ev_rep w1 es1 ds1" "set (es @ ds) \<subseteq> set (es1 @ ds1)" "J w1"
    using event_safe [OF Cons.prems(1,2) p] by blast
  have "fst ` set b \<subseteq> set (es1 @ ds1)" using 1(3) Cons.prems(3) by auto
  from Cons.IH [OF 1(2,4) this] obtain w2 es2 ds2 where
    "es_batch cb b w1 = Inr w2" "ev_rep w2 es2 ds2" "set (es1 @ ds1) \<subseteq> set (es2 @ ds2)" "J w2" by blast
  with 1(1,3) show ?case by (intro exI [of _ w2] exI [of _ es2] exI [of _ ds2]) (simp, blast)
qed

end

text \<open>The callbacks of the library end in the two registration calls. A callback that deregisters its
  own event, as closing an event object in its handler does, and one that registers an event at the
  address \<open>a\<close>, where that is free, keep the contract.\<close>

definition dereg_self :: "'a callback" where
  "dereg_self k p flag w = EdTask_deregEdEvent w p 0"

definition reg_at :: "addr \<Rightarrow> int \<Rightarrow> addr \<Rightarrow> 'a callback" where
  "reg_at a fd user k p flag w =
     (if a \<noteq> NULL \<and> ehdrs w a = None \<and> fd \<noteq> 0 then map_sum id snd (EdTask_regEdEvent w a 0 fd EsCb user) else Inr w)"

interpretation self_close: evt_callback dereg_self "\<lambda>_. True"
proof
  fix w :: "'b evsys_scheme" and es ds p k flag assume r: "ev_rep w es ds" "p \<in> set es"
  show "\<exists>w' es' ds'. dereg_self k p flag w = Inr w' \<and> ev_rep w' es' ds' \<and> set (es @ ds) \<subseteq> set (es' @ ds') \<and> True"
  proof (rule deregEdEvent_ok [OF r])
    fix w' assume w': "EdTask_deregEdEvent w p 0 = Inr w'" "ev_rep w' (remove1 p es) (ds @ [p])"
    have "set (es @ ds) \<subseteq> set (remove1 p es @ ds @ [p])" by auto
    with w' show ?thesis unfolding dereg_self_def by blast
  qed
qed simp

interpretation opener: evt_callback "reg_at a fd user" "\<lambda>_. True" for a fd user
proof
  fix w :: "'b evsys_scheme" and es ds p k flag assume r: "ev_rep w es ds"
  show "\<exists>w' es' ds'. reg_at a fd user k p flag w = Inr w' \<and> ev_rep w' es' ds' \<and> set (es @ ds) \<subseteq> set (es' @ ds') \<and> True"
  proof (cases "a \<noteq> NULL \<and> ehdrs w a = None \<and> fd \<noteq> 0")
    case True
    then have h: "ehdrs w a = None" "a \<noteq> NULL" "fd \<noteq> 0" by auto
    show ?thesis
    proof (rule regEdEvent_ok [OF r h])
      fix w' assume "EdTask_regEdEvent w a 0 fd EsCb user = Inr (a, w')" "ev_rep w' (es @ [a]) ds"
      then show ?thesis using True unfolding reg_at_def by (intro exI [of _ w'] exI [of _ "es @ [a]"] exI [of _ ds]) auto
    qed
  next
    case False
    then show ?thesis using r unfolding reg_at_def by auto
  qed
qed simp

section \<open>Properties\<close>

text \<open>C4. The event loop never touches a freed event object: whatever events epoll reports for objects
  that were registered when it was called, in whatever order and however often, and whatever the
  callbacks deregister and register, a whole batch is processed without a bad access and without a
  failed assertion, and afterwards exactly the events still registered are left allocated.\<close>

theorem batch_no_use_after_free:
  assumes c: "evt_callback cb J" and r: "ev_rep w es ds" "J w" and b: "fst ` set b \<subseteq> set es"
  shows "\<exists>w1 w2 es'. es_batch cb b w = Inr w1 \<and>
     (\<exists>n. EdTask_cleanUpEventResource n w1 = Inr w2 \<and> ev_rep w2 es' [] \<and> dom (evts w2) = set es' \<and>
          evt_alloc_cnt w2 = int (length es'))"
proof -
  have "fst ` set b \<subseteq> set (es @ ds)" using b by auto
  from evt_callback.batch_safe [OF c r this] obtain w1 es1 ds1 where
    w1: "es_batch cb b w = Inr w1" "ev_rep w1 es1 ds1" by blast
  from cleanUp_ok [OF w1(2), of "Suc (length ds1)"] obtain w2 where
    w2: "EdTask_cleanUpEventResource (Suc (length ds1)) w1 = Inr w2" "ev_rep w2 es1 []" by auto
  have "dom (evts w2) = set es1" "evt_alloc_cnt w2 = int (length es1)" using w2(2) by (simp_all add: ev_rep_def)
  with w1(1) w2 show ?thesis by blast
qed

definition no_events :: evsys where
  "no_events = \<lparr>ehdrs = Map.empty, evts = Map.empty, mEvtList = EdObjList_new 100, mDummyEvtList = EdObjList_new 200,
     epfd = 3, cmode = 0, ctx_exit = 0, opened = 1, evt_count = 0, evt_alloc_cnt = 0, timer_alloc_cnt = 0\<rparr>"

lemma no_events_rep: "ev_rep no_events [] []"
  by (simp add: ev_rep_def no_events_def ol_rep_new)

lemma one_event:
  obtains w where "EdTask_regEdEvent no_events 1000 0 7 EsCb 5000 = Inr (1000, w)" "ev_rep w [1000] []"
proof -
  have h: "ehdrs no_events 1000 = None" "(1000 :: addr) \<noteq> NULL" "(7 :: int) \<noteq> 0" by (simp_all add: no_events_def)
  show thesis by (rule regEdEvent_ok [OF no_events_rep h, of EsCb 5000]) (use that in simp)
qed

theorem batch_no_use_after_free_witness:
  "\<exists>w w1 w2 n es'. EdTask_regEdEvent no_events 1000 0 7 EsCb 5000 = Inr (1000, w) \<and>
     es_batch dereg_self [(1000, EPOLLIN), (1000, EPOLLOUT)] w = Inr w1 \<and>
     EdTask_cleanUpEventResource n w1 = Inr w2 \<and> ev_rep w2 es' []"
proof -
  obtain w where w: "EdTask_regEdEvent no_events 1000 0 7 EsCb 5000 = Inr (1000, w)" "ev_rep w [1000] []" by (rule one_event)
  have "fst ` set [(1000, EPOLLIN), (1000, EPOLLOUT)] \<subseteq> set [1000 :: addr]" by simp
  from batch_no_use_after_free [OF self_close.evt_callback_axioms w(2) TrueI this] w(1) show ?thesis by blast
qed

text \<open>Registering an event and deregistering it keeps the books: a successful registration adds
  one object to the event list and one to both counters, deregistering moves exactly it to the list
  of objects to free. A registration that epoll refuses returns a null pointer and leaves no object,
  but the event counter stays one too high.\<close>

theorem event_registration:
  assumes r: "ev_rep w es ds" and a: "ehdrs w a = None" "evts w a = None" "a \<noteq> NULL" and fd: "fd \<noteq> 0" and p: "p \<in> set es" and c: "ctl \<noteq> 0"
  shows "(\<exists>w1. EdTask_regEdEvent w a 0 fd cb user = Inr (a, w1) \<and> ev_rep w1 (es @ [a]) ds \<and> evt_count w1 = evt_count w + 1) \<and>
     (\<exists>w1. EdTask_deregEdEvent w p 0 = Inr w1 \<and> ev_rep w1 (remove1 p es) (ds @ [p]) \<and> evt_count w1 = evt_count w - 1) \<and>
     (\<exists>w1. EdTask_regEdEvent w a ctl fd cb user = Inr (NULL, w1) \<and> ev_rep w1 es ds \<and> evt_count w1 = evt_count w + 1)"
proof (intro conjI)
  show "\<exists>w1. EdTask_regEdEvent w a 0 fd cb user = Inr (a, w1) \<and> ev_rep w1 (es @ [a]) ds \<and> evt_count w1 = evt_count w + 1"
    by (rule regEdEvent_ok [OF r a(1,3) fd]) blast
  show "\<exists>w1. EdTask_deregEdEvent w p 0 = Inr w1 \<and> ev_rep w1 (remove1 p es) (ds @ [p]) \<and> evt_count w1 = evt_count w - 1"
    by (rule deregEdEvent_ok [OF r p]) blast
  show "\<exists>w1. EdTask_regEdEvent w a ctl fd cb user = Inr (NULL, w1) \<and> ev_rep w1 es ds \<and> evt_count w1 = evt_count w + 1"
    using regEdEvent_refused [OF a(1,2) c] r by (simp add: ev_rep_def)
qed

theorem event_registration_witness:
  "\<exists>w w1. EdTask_regEdEvent no_events 1000 0 7 EsCb 5000 = Inr (1000, w) \<and>
     EdTask_regEdEvent w 2000 (- 1) 9 EsCb 5000 = Inr (NULL, w1) \<and> ev_rep w1 [1000] [] \<and> evt_count w1 = evt_count w + 1"
proof -
  obtain w where w: "EdTask_regEdEvent no_events 1000 0 7 EsCb 5000 = Inr (1000, w)" "ev_rep w [1000] []" by (rule one_event)
  then have "dom (ehdrs w) = {1000}" "dom (evts w) = {1000}" by (simp_all add: ev_rep_def)
  then have "2000 \<notin> dom (ehdrs w)" "2000 \<notin> dom (evts w)" by simp_all
  then have "ehdrs w 2000 = None" "evts w 2000 = None" by (simp_all add: domIff)
  moreover have "(2000 :: addr) \<noteq> NULL" "(9 :: int) \<noteq> 0" "(1000 :: addr) \<in> set [1000]" "(- 1 :: int) \<noteq> 0" by simp_all
  ultimately show ?thesis
    using event_registration [OF w(2), of 2000 9 1000 "- 1" EsCb 5000] w(1) by blast
qed

end
