(* ===== verification/EdTaskMsg.thy ===== *)
theory EdTaskMsg
  imports EdEvents
begin

text \<open>The messages of a task (EdTask.cpp, EdTask.h): the pool and the queue of \<^verbatim>\<open>EdMsg\<close> objects,
  \<^verbatim>\<open>postEdMsg\<close>, \<^verbatim>\<open>sendEdMsg\<close>, \<^verbatim>\<open>dispatchMsgs\<close>, \<^verbatim>\<open>closeMsg\<close> and the task message queues. Both lists are
  \<^verbatim>\<open>EdObjList\<close>s over one heap of headers; \<open>msgs\<close> holds the message behind each header. The kernel
  is a parameter: the address a \<^verbatim>\<open>new\<close> returns and the results of \<^verbatim>\<open>eventfd\<close> and \<^verbatim>\<open>write\<close> are
  arguments, and \<open>signals\<close> counts the 8-byte writes that no read has collected. A thread that waits
  in \<^verbatim>\<open>sendEdMsg\<close> is known by a number; its result variable and whether it was notified are in
  \<open>results\<close> and \<open>notified\<close>. \<^verbatim>\<open>assert\<close> is active.\<close>

section \<open>State\<close>

record EdMsg =
  msgid :: u16
  mdata :: u64
  msgobj :: addr
  taskque_handle :: u32
  sync :: int
  psend_result :: nat

definition EdMsg_zero :: EdMsg where
  "EdMsg_zero = \<lparr>msgid = 0, mdata = 0, msgobj = NULL, taskque_handle = 0, sync = 0, psend_result = 0\<rparr>"

definition EDM_INIT :: u16 where "EDM_INIT = 1"
definition EDM_CLOSE :: u16 where "EDM_CLOSE = 2"
definition EDM_TIMER :: u16 where "EDM_TIMER = 3"
definition EDM_EXIT :: u16 where "EDM_EXIT = 5"

record taskq = evsys +
  hdrs :: hdr_heap
  msgs :: "addr \<rightharpoonup> EdMsg"
  mEmptyMsgs :: list_obj
  mQuedMsgs :: list_obj
  mMsgFd :: int
  mMaxMsqQueSize :: int
  signals :: nat
  results :: "nat \<rightharpoonup> int"
  notified :: "nat set"

text \<open>The constructor, with the addresses of the four lists; \<^verbatim>\<open>initMsg\<close>, \<open>fd\<close> the result of \<^verbatim>\<open>eventfd\<close>; and
  the beginning of \<^verbatim>\<open>run\<close>.\<close>

definition EdTask_new :: "addr \<Rightarrow> addr \<Rightarrow> addr \<Rightarrow> addr \<Rightarrow> taskq" where
  "EdTask_new e q l d =
     \<lparr>ehdrs = Map.empty, evts = Map.empty, mEvtList = EdObjList_new l, mDummyEvtList = EdObjList_new d,
      epfd = 0, cmode = 0, ctx_exit = 0, opened = 0, evt_count = 0, evt_alloc_cnt = 0, timer_alloc_cnt = 0,
      hdrs = Map.empty, msgs = Map.empty, mEmptyMsgs = EdObjList_new e, mQuedMsgs = EdObjList_new q,
      mMsgFd = - 1, mMaxMsqQueSize = 0, signals = 0, results = Map.empty, notified = {}\<rparr>"

definition EdTask_initMsg :: "'a taskq_scheme \<Rightarrow> int \<Rightarrow> 'a taskq_scheme" where
  "EdTask_initMsg t fd = t\<lparr>mMsgFd := fd, signals := 0\<rparr>"

definition EdTask_start :: "addr \<Rightarrow> addr \<Rightarrow> addr \<Rightarrow> addr \<Rightarrow> int \<Rightarrow> int \<Rightarrow> taskq" where
  "EdTask_start e q l d msgqnum fd = EdTask_initMsg ((EdTask_new e q l d)\<lparr>mMaxMsqQueSize := msgqnum\<rparr>) fd"

lemmas start_defs = EdTask_start_def EdTask_initMsg_def EdTask_new_def

section \<open>Posting and sending\<close>

text \<open>List operations on the task's heap; a wild pointer is a \<open>Bad_access\<close>.\<close>

definition of_opt :: "'a option \<Rightarrow> fault + 'a" where
  "of_opt x = (case x of None \<Rightarrow> Inl Bad_access | Some y \<Rightarrow> Inr y)"

lemma of_opt_simps [simp]: "of_opt (Some y) = Inr y" "of_opt None = Inl Bad_access"
  by (simp_all add: of_opt_def)

definition pop_empty :: "'a taskq_scheme \<Rightarrow> fault + (addr \<times> 'a taskq_scheme)" where
  "pop_empty t =
     bindr (of_opt (EdObjList_pop_front (hdrs t) (mEmptyMsgs t))) (\<lambda>(p, h, l).
     Inr (p, t\<lparr>hdrs := h, mEmptyMsgs := l\<rparr>))"

definition push_empty :: "'a taskq_scheme \<Rightarrow> addr \<Rightarrow> fault + 'a taskq_scheme" where
  "push_empty t p =
     bindr (of_opt (EdObjList_push_back (hdrs t) (mEmptyMsgs t) p)) (\<lambda>(h, l).
     Inr (t\<lparr>hdrs := h, mEmptyMsgs := l\<rparr>))"

definition pop_qued :: "'a taskq_scheme \<Rightarrow> fault + (addr \<times> 'a taskq_scheme)" where
  "pop_qued t =
     bindr (of_opt (EdObjList_pop_front (hdrs t) (mQuedMsgs t))) (\<lambda>(p, h, l).
     Inr (p, t\<lparr>hdrs := h, mQuedMsgs := l\<rparr>))"

definition push_qued :: "'a taskq_scheme \<Rightarrow> addr \<Rightarrow> fault + 'a taskq_scheme" where
  "push_qued t p =
     bindr (of_opt (EdObjList_push_back (hdrs t) (mQuedMsgs t) p)) (\<lambda>(h, l).
     Inr (t\<lparr>hdrs := h, mQuedMsgs := l\<rparr>))"

text \<open>\<^verbatim>\<open>allocMsgObj\<close>: reuse a message of the pool, or make one at \<open>a\<close> while the limit allows.\<close>

definition EdTask_allocMsgObj :: "'a taskq_scheme \<Rightarrow> addr \<Rightarrow> fault + (addr \<times> 'a taskq_scheme)" where
  "EdTask_allocMsgObj t a =
     bindr (pop_empty t) (\<lambda>(p, t).
     if p = NULL
     then if EdObjList_size (mEmptyMsgs t) + EdObjList_size (mQuedMsgs t) < mMaxMsqQueSize t
          then Inr (a, t\<lparr>hdrs := EdObjList_allocObj (hdrs t) a, msgs := (msgs t)(a \<mapsto> EdMsg_zero)\<rparr>)
          else Inr (NULL, t)
     else Inr (p, t))"

text \<open>What a caller fills in: the union as a number, or the message object.\<close>

datatype payload = Data u64 | MsgObj addr

fun set_payload :: "payload \<Rightarrow> EdMsg \<Rightarrow> EdMsg" where
  "set_payload (Data d) m = m\<lparr>mdata := d\<rparr>"
| "set_payload (MsgObj p) m = m\<lparr>msgobj := p\<rparr>"

definition upd_msg :: "'a taskq_scheme \<Rightarrow> addr \<Rightarrow> (EdMsg \<Rightarrow> EdMsg) \<Rightarrow> fault + 'a taskq_scheme" where
  "upd_msg t p f = (case msgs t p of None \<Rightarrow> Inl Bad_access | Some m \<Rightarrow> Inr (t\<lparr>msgs := (msgs t)(p \<mapsto> f m)\<rparr>))"

text \<open>A \<^verbatim>\<open>write\<close> of 8 bytes to the event descriptor that returned \<open>wret\<close>.\<close>

definition raise_signal :: "'a taskq_scheme \<Rightarrow> int \<Rightarrow> 'a taskq_scheme" where
  "raise_signal t wret = (if wret = 8 then t\<lparr>signals := signals t + 1\<rparr> else t)"

definition EdTask_postEdMsg :: "'a taskq_scheme \<Rightarrow> addr \<Rightarrow> int \<Rightarrow> u32 \<Rightarrow> u16 \<Rightarrow> payload \<Rightarrow> fault + (int \<times> 'a taskq_scheme)" where
  "EdTask_postEdMsg t a wret view_handle mid pl =
     (if mMsgFd t < 0 then Inr (- 1, t)
      else bindr (EdTask_allocMsgObj t a) (\<lambda>(p, t).
           if p \<noteq> NULL
           then bindr (upd_msg t p (\<lambda>m. (set_payload pl (m\<lparr>msgid := mid\<rparr>))\<lparr>sync := 0, taskque_handle := view_handle\<rparr>)) (\<lambda>t.
                bindr (push_qued t p) (\<lambda>t.
                Inr (if wret = 8 then 0 else - 2, raise_signal t wret)))
           else if mMsgFd t = 0 then Inr (- 1, t) else Inl Assert_failed))"

text \<open>\<^verbatim>\<open>sendEdMsg\<close> up to the unlock of the task mutex, for the sender \<open>sid\<close>. The result is the
  return value when the call ends there, and \<open>None\<close> when it goes on to write and wait.\<close>

definition EdTask_sendEdMsg_queue ::
  "'a taskq_scheme \<Rightarrow> addr \<Rightarrow> nat \<Rightarrow> u32 \<Rightarrow> u16 \<Rightarrow> payload \<Rightarrow> fault + (int option \<times> 'a taskq_scheme)" where
  "EdTask_sendEdMsg_queue t a sid handle mid pl =
     (if mMsgFd t < 0 then Inr (Some (- 1), t)
      else bindr (EdTask_allocMsgObj t a) (\<lambda>(p, t).
           if p \<noteq> NULL
           then bindr (upd_msg t p (\<lambda>m. (set_payload pl (m\<lparr>taskque_handle := handle, msgid := mid\<rparr>))\<lparr>sync := 1, psend_result := sid\<rparr>)) (\<lambda>t.
                bindr (push_qued (t\<lparr>results := (results t)(sid \<mapsto> 0)\<rparr>) p) (\<lambda>t.
                Inr (None, t)))
           else if mMsgFd t = 0 then Inr (Some (- 1), t) else Inl Assert_failed))"

text \<open>The unlocked \<^verbatim>\<open>write\<close>: on success the sender waits, otherwise the \<^verbatim>\<open>assert(0)\<close> fails.\<close>

definition EdTask_sendEdMsg_write :: "'a taskq_scheme \<Rightarrow> int \<Rightarrow> fault + 'a taskq_scheme" where
  "EdTask_sendEdMsg_write t wret = (if wret = 8 then Inr (raise_signal t wret) else Inl Assert_failed)"

text \<open>After the wait: the value of the result variable, once the sender was notified.\<close>

definition EdTask_sendEdMsg_result :: "'a taskq_scheme \<Rightarrow> nat \<Rightarrow> int option" where
  "EdTask_sendEdMsg_result t sid = (if sid \<in> notified t then results t sid else None)"

definition params :: "u32 \<Rightarrow> u32 \<Rightarrow> u64" where
  "params p1 p2 = ucast p1 OR push_bit 32 (ucast p2)"

definition EdTask_postMsg :: "'a taskq_scheme \<Rightarrow> addr \<Rightarrow> int \<Rightarrow> u16 \<Rightarrow> u32 \<Rightarrow> u32 \<Rightarrow> fault + (int \<times> 'a taskq_scheme)" where
  "EdTask_postMsg t a wret mid p1 p2 = EdTask_postEdMsg t a wret 0 mid (Data (params p1 p2))"

definition EdTask_postObj :: "'a taskq_scheme \<Rightarrow> addr \<Rightarrow> int \<Rightarrow> u16 \<Rightarrow> addr \<Rightarrow> fault + (int \<times> 'a taskq_scheme)" where
  "EdTask_postObj t a wret mid obj = EdTask_postEdMsg t a wret 0 mid (Data obj)"

definition EdTask_postMsgObj :: "'a taskq_scheme \<Rightarrow> addr \<Rightarrow> int \<Rightarrow> u16 \<Rightarrow> addr \<Rightarrow> fault + (int \<times> 'a taskq_scheme)" where
  "EdTask_postMsgObj t a wret mid obj = EdTask_postEdMsg t a wret 0 mid (MsgObj obj)"

definition EdTask_sendMsg :: "'a taskq_scheme \<Rightarrow> addr \<Rightarrow> nat \<Rightarrow> u16 \<Rightarrow> u32 \<Rightarrow> u32 \<Rightarrow> fault + (int option \<times> 'a taskq_scheme)" where
  "EdTask_sendMsg t a sid mid p1 p2 = EdTask_sendEdMsg_queue t a sid 0 mid (Data (params p1 p2))"

definition EdTask_sendObj :: "'a taskq_scheme \<Rightarrow> addr \<Rightarrow> nat \<Rightarrow> u16 \<Rightarrow> addr \<Rightarrow> fault + (int option \<times> 'a taskq_scheme)" where
  "EdTask_sendObj t a sid mid obj = EdTask_sendEdMsg_queue t a sid 0 mid (Data obj)"

definition EdTask_sendMsgObj :: "'a taskq_scheme \<Rightarrow> addr \<Rightarrow> nat \<Rightarrow> u16 \<Rightarrow> addr \<Rightarrow> fault + (int option \<times> 'a taskq_scheme)" where
  "EdTask_sendMsgObj t a sid mid obj = EdTask_sendEdMsg_queue t a sid 0 mid (MsgObj obj)"

definition EdTask_postTaskMsgQue :: "'a taskq_scheme \<Rightarrow> addr \<Rightarrow> int \<Rightarrow> u32 \<Rightarrow> u16 \<Rightarrow> u32 \<Rightarrow> u32 \<Rightarrow> fault + (int \<times> 'a taskq_scheme)" where
  "EdTask_postTaskMsgQue t a wret handle mid p1 p2 = EdTask_postEdMsg t a wret handle mid (Data (params p1 p2))"

definition EdTask_sendTaskMsgQue :: "'a taskq_scheme \<Rightarrow> addr \<Rightarrow> nat \<Rightarrow> u32 \<Rightarrow> u16 \<Rightarrow> u32 \<Rightarrow> u32 \<Rightarrow> fault + (int option \<times> 'a taskq_scheme)" where
  "EdTask_sendTaskMsgQue t a sid handle mid p1 p2 = EdTask_sendEdMsg_queue t a sid handle mid (Data (params p1 p2))"

definition EdTask_postTaskMsgObj :: "'a taskq_scheme \<Rightarrow> addr \<Rightarrow> int \<Rightarrow> u32 \<Rightarrow> u16 \<Rightarrow> addr \<Rightarrow> fault + (int \<times> 'a taskq_scheme)" where
  "EdTask_postTaskMsgObj t a wret handle mid obj = EdTask_postEdMsg t a wret handle mid (Data obj)"

definition EdTask_sendTaskMsgObj :: "'a taskq_scheme \<Rightarrow> addr \<Rightarrow> nat \<Rightarrow> u32 \<Rightarrow> u16 \<Rightarrow> addr \<Rightarrow> fault + (int option \<times> 'a taskq_scheme)" where
  "EdTask_sendTaskMsgObj t a sid handle mid obj = EdTask_sendEdMsg_queue t a sid handle mid (Data obj)"

definition EdTask_postExit :: "'a taskq_scheme \<Rightarrow> addr \<Rightarrow> int \<Rightarrow> fault + (int \<times> 'a taskq_scheme)" where
  "EdTask_postExit t a wret = EdTask_postMsg t a wret EDM_EXIT 0 0"

definition EdTask_setSendMsgResult :: "'a taskq_scheme \<Rightarrow> addr \<Rightarrow> int \<Rightarrow> fault + 'a taskq_scheme" where
  "EdTask_setSendMsgResult t p code =
     (case msgs t p of
        None \<Rightarrow> Inl Bad_access
      | Some m \<Rightarrow> Inr (if sync m \<noteq> 0 then t\<lparr>results := (results t)(psend_result m \<mapsto> code)\<rparr> else t))"

section \<open>Task message queues\<close>

text \<open>\<^verbatim>\<open>gViewMap\<close> and \<^verbatim>\<open>seed_handle\<close>; a listener is known by a number.\<close>

record views =
  gViewMap :: "u32 \<rightharpoonup> nat"
  seed_handle :: u32

definition createTaskMsgQue :: "views \<Rightarrow> nat \<Rightarrow> u32 \<times> views" where
  "createTaskMsgQue v lis =
     (let s = (if seed_handle v + 1 = 0 then seed_handle v + 2 else seed_handle v + 1)
      in (s, v\<lparr>seed_handle := s, gViewMap := (gViewMap v)(s \<mapsto> lis)\<rparr>))"

definition destroyTaskMsgQue :: "views \<Rightarrow> u32 \<Rightarrow> views" where
  "destroyTaskMsgQue v handle = v\<lparr>gViewMap := (gViewMap v)(handle := None)\<rparr>"

section \<open>Dispatching\<close>

text \<open>Where \<^verbatim>\<open>dispatchMsgs\<close> hands a message: the exit flag, the task's own \<^verbatim>\<open>OnEventProc\<close>, the
  listener of a task message queue, or nobody when that queue is gone.\<close>

datatype target = Exit | Proc | View nat | Nobody

definition msg_target :: "views \<Rightarrow> EdMsg \<Rightarrow> target" where
  "msg_target v m =
     (if msgid m = EDM_EXIT then Exit
      else if taskque_handle m = 0 then Proc
      else case gViewMap v (taskque_handle m) of None \<Rightarrow> Nobody | Some lis \<Rightarrow> View lis)"

text \<open>The steps of one turn of the loop: pop under the mutex, the call, the notification of a
  waiting sender, and the return of the message to the pool under the mutex. \<open>call\<close> is the effect
  of the called listener on the task.\<close>

definition dispatch_call ::
  "(target \<Rightarrow> addr \<Rightarrow> 'a taskq_scheme \<Rightarrow> fault + 'a taskq_scheme) \<Rightarrow> views \<Rightarrow> 'a taskq_scheme \<Rightarrow> addr \<Rightarrow> fault + 'a taskq_scheme" where
  "dispatch_call call v t p =
     (case msgs t p of
        None \<Rightarrow> Inl Bad_access
      | Some m \<Rightarrow>
          (case msg_target v m of
             Exit \<Rightarrow> Inr (t\<lparr>ctx_exit := 1\<rparr>)
           | Nobody \<Rightarrow> Inr t
           | tg \<Rightarrow> call tg p t))"

definition dispatch_finish :: "'a taskq_scheme \<Rightarrow> addr \<Rightarrow> fault + 'a taskq_scheme" where
  "dispatch_finish t p =
     (case msgs t p of
        None \<Rightarrow> Inl Bad_access
      | Some m \<Rightarrow>
          push_empty (if sync m \<noteq> 0 then t\<lparr>notified := insert (psend_result m) (notified t)\<rparr> else t) p)"

fun EdTask_dispatchMsgs ::
  "(target \<Rightarrow> addr \<Rightarrow> 'a taskq_scheme \<Rightarrow> fault + 'a taskq_scheme) \<Rightarrow> views \<Rightarrow> 'a taskq_scheme \<Rightarrow> nat \<Rightarrow> fault + 'a taskq_scheme" where
  "EdTask_dispatchMsgs call v t 0 = Inr t"
| "EdTask_dispatchMsgs call v t (Suc n) =
     bindr (pop_qued t) (\<lambda>(p, t).
     if p \<noteq> NULL
     then bindr (dispatch_call call v t p) (\<lambda>t.
          bindr (dispatch_finish t p) (\<lambda>t.
          EdTask_dispatchMsgs call v t n))
     else Inr t)"

text \<open>\<^verbatim>\<open>msgevent_cb\<close>: a read that returned 8 bytes collects every signal, converted to \<^verbatim>\<open>int\<close>; any
  other reads nothing.\<close>

definition EdTask_msgevent_cb ::
  "(target \<Rightarrow> addr \<Rightarrow> 'a taskq_scheme \<Rightarrow> fault + 'a taskq_scheme) \<Rightarrow> views \<Rightarrow> 'a taskq_scheme \<Rightarrow> int \<Rightarrow> fault + 'a taskq_scheme" where
  "EdTask_msgevent_cb call v t rcnt =
     (if rcnt = 8
      then EdTask_dispatchMsgs call v (t\<lparr>signals := 0\<rparr>) (nat (sint (of_nat (signals t) :: u32)))
      else Inr t)"

section \<open>Closing\<close>

text \<open>The two loops of \<^verbatim>\<open>closeMsg\<close>; the fuel is the length of the list they drain.\<close>

fun close_qued :: "nat \<Rightarrow> 'a taskq_scheme \<Rightarrow> fault + 'a taskq_scheme" where
  "close_qued 0 t = Inl Diverges"
| "close_qued (Suc n) t =
     bindr (pop_qued t) (\<lambda>(p, t).
     if p = NULL then Inr t
     else case msgs t p of
            None \<Rightarrow> Inl Bad_access
          | Some m \<Rightarrow>
              bindr (push_empty (if sync m \<noteq> 0
                       then t\<lparr>results := (results t)(psend_result m \<mapsto> - 1000),
                              notified := insert (psend_result m) (notified t)\<rparr>
                       else t) p) (close_qued n))"

fun close_empty :: "nat \<Rightarrow> 'a taskq_scheme \<Rightarrow> fault + 'a taskq_scheme" where
  "close_empty 0 t = Inl Diverges"
| "close_empty (Suc n) t =
     bindr (pop_empty t) (\<lambda>(p, t).
     if p = NULL then Inr t
     else bindr (of_opt (EdObjList_freeObj (hdrs t) p)) (\<lambda>h.
          close_empty n (t\<lparr>hdrs := h, msgs := (msgs t)(p := None)\<rparr>)))"

definition EdTask_closeMsg :: "nat \<Rightarrow> 'a taskq_scheme \<Rightarrow> fault + 'a taskq_scheme" where
  "EdTask_closeMsg fuel t =
     (let t = (if mMsgFd t \<ge> 0 then t\<lparr>mMsgFd := - 1\<rparr> else t) in
      bindr (if EdObjList_size (mQuedMsgs t) > 0 then close_qued fuel t else Inr t) (close_empty fuel))"

section \<open>The two lists\<close>

text \<open>The pool holds \<open>es\<close>, the queue \<open>qs\<close>, and the messages \<open>fl\<close> are in neither; there are no
  others.\<close>

definition tq_rep :: "'a taskq_scheme \<Rightarrow> addr list \<Rightarrow> addr list \<Rightarrow> addr list \<Rightarrow> bool" where
  "tq_rep t es qs fl \<longleftrightarrow>
     ol_rep (hdrs t) (mEmptyMsgs t) es \<and> ol_rep (hdrs t) (mQuedMsgs t) qs \<and>
     (\<forall>x\<in>set fl. detached (hdrs t) x) \<and> distinct (es @ qs @ fl) \<and>
     dom (hdrs t) = set (es @ qs @ fl) \<and> dom (msgs t) = dom (hdrs t)"

lemma tq_rep_init: "e \<noteq> NULL \<Longrightarrow> q \<noteq> NULL \<Longrightarrow> tq_rep (EdTask_start e q l d n fd) [] [] []"
  by (simp add: tq_rep_def start_defs ol_rep_new)

lemma tq_rep_other:
  "tq_rep (t\<lparr>signals := a\<rparr>) es qs fl = tq_rep t es qs fl" "tq_rep (t\<lparr>results := b\<rparr>) es qs fl = tq_rep t es qs fl"
  "tq_rep (t\<lparr>notified := c\<rparr>) es qs fl = tq_rep t es qs fl" "tq_rep (t\<lparr>ctx_exit := d\<rparr>) es qs fl = tq_rep t es qs fl"
  "tq_rep (t\<lparr>mMsgFd := f\<rparr>) es qs fl = tq_rep t es qs fl"
  by (simp_all add: tq_rep_def)

declare tq_rep_other [simp]

lemma frame_detached_all:
  "ol_frame A h l h' l' \<Longrightarrow> \<forall>x\<in>set fl. detached h x \<Longrightarrow> A \<inter> set fl = {} \<Longrightarrow> \<forall>x\<in>set fl. detached h' x"
  by (blast intro: ol_frame_detached)

lemma frame_dom: "ol_frame A h l h' l' \<Longrightarrow> dom h' = dom h"
  by (simp add: ol_frame_def)

lemma pop_empty_rep:
  assumes "tq_rep t (x # es) qs fl"
  obtains h l where "pop_empty t = Inr (x, t\<lparr>hdrs := h, mEmptyMsgs := l\<rparr>)"
    "tq_rep (t\<lparr>hdrs := h, mEmptyMsgs := l\<rparr>) es qs (x # fl)" "x \<noteq> NULL"
proof -
  have r: "ol_rep (hdrs t) (mEmptyMsgs t) (x # es)" using assms by (simp add: tq_rep_def)
  obtain h l where h: "EdObjList_pop_front (hdrs t) (mEmptyMsgs t) = Some (x, h, l)" "ol_rep h l es"
    "detached h x" "ol_frame (set (x # es)) (hdrs t) (mEmptyMsgs t) h l" using r by (rule pop_front_rep)
  have "ol_rep h (mQuedMsgs t) qs" by (rule ol_frame_other [OF h(4)]) (use assms in \<open>auto simp: tq_rep_def\<close>)
  moreover have "\<forall>x\<in>set fl. detached h x"
    by (rule frame_detached_all [OF h(4)]) (use assms in \<open>auto simp: tq_rep_def\<close>)
  ultimately have "tq_rep (t\<lparr>hdrs := h, mEmptyMsgs := l\<rparr>) es qs (x # fl)"
    using assms h(2,3) frame_dom [OF h(4)] by (auto simp: tq_rep_def)
  moreover have "x \<noteq> NULL" using h(3) by (simp add: detached_def)
  ultimately show thesis using h(1) by (intro that) (simp_all add: pop_empty_def)
qed

lemma pop_qued_rep:
  assumes "tq_rep t es (x # qs) fl"
  obtains h l where "pop_qued t = Inr (x, t\<lparr>hdrs := h, mQuedMsgs := l\<rparr>)"
    "tq_rep (t\<lparr>hdrs := h, mQuedMsgs := l\<rparr>) es qs (x # fl)" "x \<noteq> NULL"
proof -
  have r: "ol_rep (hdrs t) (mQuedMsgs t) (x # qs)" using assms by (simp add: tq_rep_def)
  obtain h l where h: "EdObjList_pop_front (hdrs t) (mQuedMsgs t) = Some (x, h, l)" "ol_rep h l qs"
    "detached h x" "ol_frame (set (x # qs)) (hdrs t) (mQuedMsgs t) h l" using r by (rule pop_front_rep)
  have "ol_rep h (mEmptyMsgs t) es" by (rule ol_frame_other [OF h(4)]) (use assms in \<open>auto simp: tq_rep_def\<close>)
  moreover have "\<forall>x\<in>set fl. detached h x"
    by (rule frame_detached_all [OF h(4)]) (use assms in \<open>auto simp: tq_rep_def\<close>)
  ultimately have "tq_rep (t\<lparr>hdrs := h, mQuedMsgs := l\<rparr>) es qs (x # fl)"
    using assms h(2,3) frame_dom [OF h(4)] by (auto simp: tq_rep_def)
  moreover have "x \<noteq> NULL" using h(3) by (simp add: detached_def)
  ultimately show thesis using h(1) by (intro that) (simp_all add: pop_qued_def)
qed

lemma push_empty_rep:
  assumes "tq_rep t es qs (x # fl)"
  obtains h l where "push_empty t x = Inr (t\<lparr>hdrs := h, mEmptyMsgs := l\<rparr>)"
    "tq_rep (t\<lparr>hdrs := h, mEmptyMsgs := l\<rparr>) (es @ [x]) qs fl"
proof -
  have r: "ol_rep (hdrs t) (mEmptyMsgs t) es" "detached (hdrs t) x" using assms by (simp_all add: tq_rep_def)
  obtain h l where h: "EdObjList_push_back (hdrs t) (mEmptyMsgs t) x = Some (h, l)" "ol_rep h l (es @ [x])"
    "ol_frame (insert x (set es)) (hdrs t) (mEmptyMsgs t) h l" using r by (rule push_back_rep)
  have "ol_rep h (mQuedMsgs t) qs" by (rule ol_frame_other [OF h(3)]) (use assms in \<open>auto simp: tq_rep_def\<close>)
  moreover have "\<forall>x\<in>set fl. detached h x"
    by (rule frame_detached_all [OF h(3)]) (use assms in \<open>auto simp: tq_rep_def\<close>)
  ultimately have "tq_rep (t\<lparr>hdrs := h, mEmptyMsgs := l\<rparr>) (es @ [x]) qs fl"
    using assms h(2,3) frame_dom [OF h(3)] by (auto simp: tq_rep_def)
  then show thesis using h(1) by (intro that) (simp_all add: push_empty_def)
qed

text \<open>The end of a turn of the dispatch loop: a waiting sender is notified, the message returns to the pool.\<close>

lemma finish_rep:
  assumes r: "tq_rep t es qs (x # fl)" and m: "msgs t x = Some m"
  obtains h l n where "dispatch_finish t x = Inr (t\<lparr>notified := n, hdrs := h, mEmptyMsgs := l\<rparr>)"
    "tq_rep (t\<lparr>notified := n, hdrs := h, mEmptyMsgs := l\<rparr>) (es @ [x]) qs fl" "notified t \<subseteq> n" "sync m \<noteq> 0 \<longrightarrow> psend_result m \<in> n"
proof -
  let ?n = "if sync m \<noteq> 0 then insert (psend_result m) (notified t) else notified t"
  have "tq_rep (t\<lparr>notified := ?n\<rparr>) es qs (x # fl)" using r by simp
  then obtain h l where h: "push_empty (t\<lparr>notified := ?n\<rparr>) x = Inr (t\<lparr>notified := ?n, hdrs := h, mEmptyMsgs := l\<rparr>)"
    "tq_rep (t\<lparr>notified := ?n, hdrs := h, mEmptyMsgs := l\<rparr>) (es @ [x]) qs fl" by (rule push_empty_rep)
  have "dispatch_finish t x = push_empty (t\<lparr>notified := ?n\<rparr>) x" using m by (simp add: dispatch_finish_def)
  then show thesis using h by (intro that [of l h ?n]) auto
qed

lemma push_qued_rep:
  assumes "tq_rep t es qs (x # fl)"
  obtains h l where "push_qued t x = Inr (t\<lparr>hdrs := h, mQuedMsgs := l\<rparr>)"
    "tq_rep (t\<lparr>hdrs := h, mQuedMsgs := l\<rparr>) es (qs @ [x]) fl"
proof -
  have r: "ol_rep (hdrs t) (mQuedMsgs t) qs" "detached (hdrs t) x" using assms by (simp_all add: tq_rep_def)
  obtain h l where h: "EdObjList_push_back (hdrs t) (mQuedMsgs t) x = Some (h, l)" "ol_rep h l (qs @ [x])"
    "ol_frame (insert x (set qs)) (hdrs t) (mQuedMsgs t) h l" using r by (rule push_back_rep)
  have "ol_rep h (mEmptyMsgs t) es" by (rule ol_frame_other [OF h(3)]) (use assms in \<open>auto simp: tq_rep_def\<close>)
  moreover have "\<forall>x\<in>set fl. detached h x"
    by (rule frame_detached_all [OF h(3)]) (use assms in \<open>auto simp: tq_rep_def\<close>)
  ultimately have "tq_rep (t\<lparr>hdrs := h, mQuedMsgs := l\<rparr>) es (qs @ [x]) fl"
    using assms h(2,3) frame_dom [OF h(3)] by (auto simp: tq_rep_def)
  then show thesis using h(1) by (intro that) (simp_all add: push_qued_def)
qed

lemma pop_empty_none: "tq_rep t [] qs fl \<Longrightarrow> pop_empty t = Inr (NULL, t)"
  by (simp add: pop_empty_def tq_rep_def pop_front_empty)

lemma pop_qued_none: "tq_rep t es [] fl \<Longrightarrow> pop_qued t = Inr (NULL, t)"
  by (simp add: pop_qued_def tq_rep_def pop_front_empty)

section \<open>Posting and sending in terms of the lists\<close>

text \<open>The bound on the number of messages: one more than the limit, because the message that is
  being handled is in neither list when the limit is checked.\<close>

definition tq_bound :: "'a taskq_scheme \<Rightarrow> nat \<Rightarrow> bool" where
  "tq_bound t n \<longleftrightarrow> int n \<le> mMaxMsqQueSize t + 1 \<and> 0 \<le> mMaxMsqQueSize t \<and> mMaxMsqQueSize t < 2 ^ 31 - 1"

definition can_alloc :: "'a taskq_scheme \<Rightarrow> addr list \<Rightarrow> addr list \<Rightarrow> bool" where
  "can_alloc t es qs \<longleftrightarrow> es \<noteq> [] \<or> int (length qs) < mMaxMsqQueSize t"

text \<open>The fields no list operation touches.\<close>

definition same_env :: "'a taskq_scheme \<Rightarrow> 'a taskq_scheme \<Rightarrow> bool" where
  "same_env t t' \<longleftrightarrow> mMsgFd t' = mMsgFd t \<and> mMaxMsqQueSize t' = mMaxMsqQueSize t \<and> ctx_exit t' = ctx_exit t \<and>
     signals t' = signals t \<and> results t' = results t \<and> notified t' = notified t"

lemma size_empty_qued:
  assumes "tq_rep t [] qs fl" "tq_bound t (length qs)"
  shows "EdObjList_size (mEmptyMsgs t) + EdObjList_size (mQuedMsgs t) = int (length qs)"
proof -
  have "int (length qs) < 2 ^ 31" using assms(2) unfolding tq_bound_def by linarith
  then have "length qs < 2 ^ 31" by simp
  with assms(1) ol_rep_size [of "hdrs t" "mQuedMsgs t" qs] ol_rep_size [of "hdrs t" "mEmptyMsgs t" "[]"]
  show ?thesis by (simp add: tq_rep_def)
qed

lemma allocMsgObj_ok:
  assumes r: "tq_rep t es qs fl" and b: "tq_bound t (length qs)" and a: "hdrs t a = None" "a \<noteq> NULL"
    and c: "can_alloc t es qs"
  obtains p es' t' where "EdTask_allocMsgObj t a = Inr (p, t')" "p \<noteq> NULL" "tq_rep t' es' qs (p # fl)" "same_env t t'"
    "\<forall>x\<in>set (qs @ fl). msgs t' x = msgs t x" "es' = tl es"
proof (cases es)
  case Nil
  with c have lt: "EdObjList_size (mEmptyMsgs t) + EdObjList_size (mQuedMsgs t) < mMaxMsqQueSize t"
    using size_empty_qued [of t qs fl] r b by (simp add: can_alloc_def)
  let ?t = "t\<lparr>hdrs := EdObjList_allocObj (hdrs t) a, msgs := (msgs t)(a \<mapsto> EdMsg_zero)\<rparr>"
  have n: "a \<notin> set (es @ qs @ fl)" using r a(1) by (auto simp: tq_rep_def)
  have "EdTask_allocMsgObj t a = Inr (a, ?t)"
    using lt pop_empty_none [of t qs fl] r Nil by (simp add: EdTask_allocMsgObj_def)
  moreover have "detached (EdObjList_allocObj (hdrs t) a) x" if "x \<in> set fl" for x
    using that r n by (auto simp: tq_rep_def detached_def EdObjList_allocObj_def)
  then have "tq_rep ?t [] qs (a # fl)"
    using r Nil n a(2) allocObj_rep [of "hdrs t" a, OF a(1)] allocObj_detached [OF a(2)]
    by (auto simp: tq_rep_def EdObjList_allocObj_def)
  moreover have "\<forall>x\<in>set (qs @ fl). msgs ?t x = msgs t x" using n by auto
  ultimately show thesis using a(2) Nil by (intro that [of a ?t "[]"]) (simp_all add: same_env_def)
next
  case (Cons e es')
  obtain h l where h: "pop_empty t = Inr (e, t\<lparr>hdrs := h, mEmptyMsgs := l\<rparr>)"
    "tq_rep (t\<lparr>hdrs := h, mEmptyMsgs := l\<rparr>) es' qs (e # fl)" "e \<noteq> NULL"
    using r unfolding Cons by (rule pop_empty_rep)
  then show thesis using Cons
    by (intro that [of e "t\<lparr>hdrs := h, mEmptyMsgs := l\<rparr>" es']) (simp_all add: EdTask_allocMsgObj_def same_env_def)
qed

lemma allocMsgObj_full:
  assumes r: "tq_rep t es qs fl" and b: "tq_bound t (length qs)" and c: "\<not> can_alloc t es qs"
  shows "EdTask_allocMsgObj t a = Inr (NULL, t)"
proof -
  have "es = []" "\<not> EdObjList_size (mEmptyMsgs t) + EdObjList_size (mQuedMsgs t) < mMaxMsqQueSize t"
    using c size_empty_qued [of t qs fl] r b by (auto simp: can_alloc_def)
  then show ?thesis using pop_empty_none [of t qs fl] r by (simp add: EdTask_allocMsgObj_def)
qed

text \<open>Filling a message and queueing it.\<close>

lemma queue_msg:
  assumes r: "tq_rep t es qs (p # fl)"
  obtains t1 m h l where "msgs t p = Some m" "upd_msg t p f = Inr t1" "t1 = t\<lparr>msgs := (msgs t)(p \<mapsto> f m)\<rparr>"
    "push_qued t1 p = Inr (t1\<lparr>hdrs := h, mQuedMsgs := l\<rparr>)" "tq_rep (t1\<lparr>hdrs := h, mQuedMsgs := l\<rparr>) es (qs @ [p]) fl"
proof -
  have "p \<in> dom (msgs t)" using r by (simp add: tq_rep_def)
  then obtain m where m: "msgs t p = Some m" by blast
  let ?t = "t\<lparr>msgs := (msgs t)(p \<mapsto> f m)\<rparr>"
  have "tq_rep ?t es qs (p # fl)" using r by (auto simp: tq_rep_def)
  then obtain h l where q: "push_qued ?t p = Inr (?t\<lparr>hdrs := h, mQuedMsgs := l\<rparr>)"
    "tq_rep (?t\<lparr>hdrs := h, mQuedMsgs := l\<rparr>) es (qs @ [p]) fl" by (rule push_qued_rep)
  have "upd_msg t p f = Inr ?t" using m by (simp add: upd_msg_def)
  then show thesis by (rule that [OF m _ refl q])
qed

text \<open>What a message carries of the arguments it was posted with.\<close>

definition carries :: "EdMsg \<Rightarrow> u16 \<times> u32 \<times> payload \<Rightarrow> bool" where
  "carries m a \<longleftrightarrow> (case a of (mid, handle, pl) \<Rightarrow> msgid m = mid \<and> taskque_handle m = handle \<and>
     (case pl of Data d \<Rightarrow> mdata m = d | MsgObj p \<Rightarrow> msgobj m = p))"

lemma carries_set [simp]:
  "carries ((set_payload pl m)\<lparr>sync := k, taskque_handle := h\<rparr>) (mid, h, pl) \<longleftrightarrow> msgid m = mid"
  "carries ((set_payload pl m)\<lparr>sync := k, psend_result := r\<rparr>) (mid, h, pl) \<longleftrightarrow> msgid m = mid \<and> taskque_handle m = h"
  by (cases pl; auto simp: carries_def)+

lemma set_payload_simps [simp]:
  "msgid (set_payload pl m) = msgid m" "sync (set_payload pl m) = sync m"
  "taskque_handle (set_payload pl m) = taskque_handle m" "psend_result (set_payload pl m) = psend_result m"
  by (cases pl; simp)+

lemma post_ok:
  assumes r: "tq_rep t es qs fl" and b: "tq_bound t (length qs)" and a: "hdrs t a = None" "a \<noteq> NULL"
    and c: "can_alloc t es qs" and fd: "0 \<le> mMsgFd t"
  obtains p m t' where "EdTask_postEdMsg t a wret vh mid pl = Inr (if wret = 8 then 0 else - 2, t')"
    "tq_rep t' (tl es) (qs @ [p]) fl" "msgs t' p = Some m" "carries m (mid, vh, pl)" "sync m = 0"
    "\<forall>x\<in>set (qs @ fl). msgs t' x = msgs t x" "same_env (raise_signal t wret) t'"
proof -
  obtain p es' t1 where al: "EdTask_allocMsgObj t a = Inr (p, t1)" "p \<noteq> NULL" "tq_rep t1 es' qs (p # fl)" "same_env t t1"
    "\<forall>x\<in>set (qs @ fl). msgs t1 x = msgs t x" "es' = tl es" by (rule allocMsgObj_ok [OF r b a c])
  let ?f = "\<lambda>m. (set_payload pl (m\<lparr>msgid := mid\<rparr>))\<lparr>sync := 0, taskque_handle := vh\<rparr>"
  obtain t2 m h l where q: "msgs t1 p = Some m" "upd_msg t1 p ?f = Inr t2" "t2 = t1\<lparr>msgs := (msgs t1)(p \<mapsto> ?f m)\<rparr>"
    "push_qued t2 p = Inr (t2\<lparr>hdrs := h, mQuedMsgs := l\<rparr>)" "tq_rep (t2\<lparr>hdrs := h, mQuedMsgs := l\<rparr>) es' (qs @ [p]) fl"
    by (rule queue_msg [OF al(3), of ?f])
  let ?t = "raise_signal (t2\<lparr>hdrs := h, mQuedMsgs := l\<rparr>) wret"
  have np: "p \<notin> set (qs @ fl)" using al(3) by (auto simp: tq_rep_def)
  have "EdTask_postEdMsg t a wret vh mid pl = Inr (if wret = 8 then 0 else - 2, ?t)"
    using fd al(1,2) q(2,4) by (simp add: EdTask_postEdMsg_def)
  moreover have "tq_rep ?t (tl es) (qs @ [p]) fl" using q(5) al(6) by (simp add: raise_signal_def)
  moreover have "msgs ?t = (msgs t1)(p \<mapsto> ?f m)" using q(3) by (simp add: raise_signal_def)
  moreover have "same_env (raise_signal t wret) ?t" using al(4) q(3) by (simp add: same_env_def raise_signal_def)
  ultimately show thesis using al(5) np by (intro that [of ?t p "?f m"]) auto
qed

lemma send_queue_ok:
  assumes r: "tq_rep t es qs fl" and b: "tq_bound t (length qs)" and a: "hdrs t a = None" "a \<noteq> NULL"
    and c: "can_alloc t es qs" and fd: "0 \<le> mMsgFd t"
  obtains p m t' where "EdTask_sendEdMsg_queue t a sid vh mid pl = Inr (None, t')"
    "tq_rep t' (tl es) (qs @ [p]) fl" "msgs t' p = Some m" "carries m (mid, vh, pl)" "sync m = 1" "psend_result m = sid"
    "\<forall>x\<in>set (qs @ fl). msgs t' x = msgs t x" "same_env (t\<lparr>results := (results t)(sid \<mapsto> 0)\<rparr>) t'"
proof -
  obtain p es' t1 where al: "EdTask_allocMsgObj t a = Inr (p, t1)" "p \<noteq> NULL" "tq_rep t1 es' qs (p # fl)" "same_env t t1"
    "\<forall>x\<in>set (qs @ fl). msgs t1 x = msgs t x" "es' = tl es" by (rule allocMsgObj_ok [OF r b a c])
  let ?f = "\<lambda>m. (set_payload pl (m\<lparr>taskque_handle := vh, msgid := mid\<rparr>))\<lparr>sync := 1, psend_result := sid\<rparr>"
  have r1: "tq_rep (t1\<lparr>results := (results t)(sid \<mapsto> 0)\<rparr>) es' qs (p # fl)" using al(3) by simp
  obtain t2 m h l where q: "msgs (t1\<lparr>results := (results t)(sid \<mapsto> 0)\<rparr>) p = Some m"
    "upd_msg (t1\<lparr>results := (results t)(sid \<mapsto> 0)\<rparr>) p ?f = Inr t2"
    "t2 = (t1\<lparr>results := (results t)(sid \<mapsto> 0)\<rparr>)\<lparr>msgs := (msgs (t1\<lparr>results := (results t)(sid \<mapsto> 0)\<rparr>))(p \<mapsto> ?f m)\<rparr>"
    "push_qued t2 p = Inr (t2\<lparr>hdrs := h, mQuedMsgs := l\<rparr>)" "tq_rep (t2\<lparr>hdrs := h, mQuedMsgs := l\<rparr>) es' (qs @ [p]) fl"
    by (rule queue_msg [OF r1, of ?f])
  let ?t = "t2\<lparr>hdrs := h, mQuedMsgs := l\<rparr>"
  have np: "p \<notin> set (qs @ fl)" using al(3) by (auto simp: tq_rep_def)
  have u: "upd_msg t1 p ?f = Inr (t1\<lparr>msgs := (msgs t1)(p \<mapsto> ?f m)\<rparr>)" using q(1) by (simp add: upd_msg_def)
  have t2: "t2 = (t1\<lparr>msgs := (msgs t1)(p \<mapsto> ?f m)\<rparr>)\<lparr>results := (results t1)(sid \<mapsto> 0)\<rparr>"
    using q(3) al(4) by (simp add: same_env_def)
  have "EdTask_sendEdMsg_queue t a sid vh mid pl = Inr (None, ?t)"
    using fd al(1,2) u q(4) t2 by (simp add: EdTask_sendEdMsg_queue_def)
  moreover have "msgs ?t = (msgs t1)(p \<mapsto> ?f m)" using t2 by simp
  moreover have "same_env (t\<lparr>results := (results t)(sid \<mapsto> 0)\<rparr>) ?t" using al(4) t2 by (simp add: same_env_def)
  ultimately show thesis using al(5,6) np q(5) by (intro that [of ?t p "?f m"]) auto
qed

text \<open>When the limit is reached: with a live descriptor the assertion fails.\<close>

lemma post_full:
  assumes "tq_rep t es qs fl" "tq_bound t (length qs)" "\<not> can_alloc t es qs" "0 < mMsgFd t"
  shows "EdTask_postEdMsg t a wret vh mid pl = Inl Assert_failed"
    "EdTask_sendEdMsg_queue t a sid vh mid pl = Inl Assert_failed"
  using allocMsgObj_full [OF assms(1-3)] assms(4)
  by (simp_all add: EdTask_postEdMsg_def EdTask_sendEdMsg_queue_def)

lemma post_closed: "mMsgFd t < 0 \<Longrightarrow> EdTask_postEdMsg t a wret vh mid pl = Inr (- 1, t)"
  "mMsgFd t < 0 \<Longrightarrow> EdTask_sendEdMsg_queue t a sid vh mid pl = Inr (Some (- 1), t)"
  by (simp_all add: EdTask_postEdMsg_def EdTask_sendEdMsg_queue_def)

end
