(* ===== verification/EdTaskSys.thy ===== *)
theory EdTaskSys
  imports EdTaskMsg
begin

text \<open>The message queue of a task under concurrency: threads that post and send, and the task's own
  thread that collects the signals of the event descriptor and handles the messages. A step is one
  critical section of the code. The lemmas show that the queue never runs dry while messages were
  announced, that every accepted message is handled once and in order, the bound on the number
  of messages, and what closing the queue does to the senders that wait.\<close>

section \<open>Steps\<close>

text \<open>\<open>budget\<close> is what is left of the loop of \<^verbatim>\<open>dispatchMsgs\<close>, \<open>inflight\<close> the message it handles,
  \<open>writers\<close> the senders that queued a message and have not written to the event descriptor yet,
  \<open>lost\<close> the posts whose write failed, \<open>accepted\<close> the arguments of the successful posts and sends and
  \<open>handled\<close> the messages that were popped.\<close>

record msys =
  task :: taskq
  budget :: nat
  inflight :: "addr list"
  writers :: nat
  lost :: nat
  accepted :: "(u16 \<times> u32 \<times> payload) list"
  handled :: "EdMsg list"

definition msys_init :: "taskq \<Rightarrow> msys" where
  "msys_init t = \<lparr>task = t, budget = 0, inflight = [], writers = 0, lost = 0, accepted = [], handled = []\<rparr>"

inductive msg_step :: "msys \<Rightarrow> msys \<Rightarrow> bool" where
  post: "hdrs (task s) a = None \<Longrightarrow> a \<noteq> NULL \<Longrightarrow>
     EdTask_postEdMsg (task s) a wret vh mid pl = Inr (r, t) \<Longrightarrow>
     msg_step s (s\<lparr>task := t, lost := lost s + (if r = - 2 then 1 else 0),
                   accepted := accepted s @ (if r = - 1 then [] else [(mid, vh, pl)])\<rparr>)"
| send: "hdrs (task s) a = None \<Longrightarrow> a \<noteq> NULL \<Longrightarrow>
     EdTask_sendEdMsg_queue (task s) a sid vh mid pl = Inr (r, t) \<Longrightarrow>
     msg_step s (s\<lparr>task := t, writers := writers s + (if r = None then 1 else 0),
                   accepted := accepted s @ (if r = None then [(mid, vh, pl)] else [])\<rparr>)"
| send_write: "0 < writers s \<Longrightarrow> EdTask_sendEdMsg_write (task s) wret = Inr t \<Longrightarrow>
     msg_step s (s\<lparr>task := t, writers := writers s - 1\<rparr>)"
| collect: "budget s = 0 \<Longrightarrow> inflight s = [] \<Longrightarrow> 0 < signals (task s) \<Longrightarrow>
     msg_step s (s\<lparr>task := (task s)\<lparr>signals := 0\<rparr>, budget := nat (sint (of_nat (signals (task s)) :: u32))\<rparr>)"
| pop: "0 < budget s \<Longrightarrow> inflight s = [] \<Longrightarrow> pop_qued (task s) = Inr (p, t) \<Longrightarrow> p \<noteq> NULL \<Longrightarrow> msgs t p = Some m \<Longrightarrow>
     msg_step s (s\<lparr>task := t, budget := budget s - 1, inflight := [p], handled := handled s @ [m]\<rparr>)"
| stop: "0 < budget s \<Longrightarrow> inflight s = [] \<Longrightarrow> pop_qued (task s) = Inr (NULL, t) \<Longrightarrow>
     msg_step s (s\<lparr>task := t, budget := 0\<rparr>)"
| answer: "inflight s = [p] \<Longrightarrow> EdTask_setSendMsgResult (task s) p code = Inr t \<Longrightarrow> msg_step s (s\<lparr>task := t\<rparr>)"
| call: "inflight s = [p] \<Longrightarrow> dispatch_call (\<lambda>_ _ t. Inr t) v (task s) p = Inr t \<Longrightarrow> msg_step s (s\<lparr>task := t\<rparr>)"
| finish: "inflight s = [p] \<Longrightarrow> dispatch_finish (task s) p = Inr t \<Longrightarrow> msg_step s (s\<lparr>task := t, inflight := []\<rparr>)"

section \<open>Invariant\<close>

definition queue_msgs :: "'a taskq_scheme \<Rightarrow> addr list \<Rightarrow> EdMsg list" where
  "queue_msgs t qs = map (\<lambda>x. the (msgs t x)) qs"

definition sys_rep :: "msys \<Rightarrow> addr list \<Rightarrow> addr list \<Rightarrow> bool" where
  "sys_rep s es qs \<longleftrightarrow>
     tq_rep (task s) es qs (inflight s) \<and> tq_bound (task s) (length es + length qs + length (inflight s)) \<and>
     length (inflight s) \<le> 1 \<and> 0 < mMsgFd (task s) \<and>
     signals (task s) + budget s + writers s + lost s = length qs \<and>
     list_all2 carries (handled s @ queue_msgs (task s) qs) (accepted s)"

definition sys_inv :: "msys \<Rightarrow> bool" where
  "sys_inv s \<longleftrightarrow> (\<exists>es qs. sys_rep s es qs)"

lemma sys_inv_init:
  assumes "e \<noteq> NULL" "q \<noteq> NULL" "0 < fd" "0 \<le> n" "n < 2 ^ 31 - 1"
  shows "sys_inv (msys_init (EdTask_start e q l d n fd))"
proof -
  have "sys_rep (msys_init (EdTask_start e q l d n fd)) [] []"
    using tq_rep_init [OF assms(1,2), of l d n fd] assms
    by (simp add: sys_rep_def msys_init_def queue_msgs_def) (simp add: tq_bound_def start_defs)
  then show ?thesis by (auto simp: sys_inv_def)
qed

lemma tq_bound_le: "tq_bound t n \<Longrightarrow> k \<le> n \<Longrightarrow> tq_bound t k"
  by (auto simp: tq_bound_def)

lemma tq_bound_env: "mMaxMsqQueSize t' = mMaxMsqQueSize t \<Longrightarrow> tq_bound t' n = tq_bound t n"
  by (simp add: tq_bound_def)

lemma queue_msgs_cong: "\<forall>x\<in>set qs. msgs t' x = msgs t x \<Longrightarrow> queue_msgs t' qs = queue_msgs t qs"
  by (simp add: queue_msgs_def)

text \<open>The growth of the pool keeps the bound.\<close>

lemma bound_after_alloc:
  assumes "tq_bound t (length es + length qs + k)" "can_alloc t es qs" "k \<le> 1"
  shows "tq_bound t (length (tl es) + (length qs + 1) + k)"
proof (cases es)
  case Nil
  then have "int (length qs) < mMaxMsqQueSize t" using assms(2) by (simp add: can_alloc_def)
  then show ?thesis using assms(1,3) Nil unfolding tq_bound_def by auto
next
  case (Cons e es')
  then show ?thesis using assms(1) by (simp add: ac_simps)
qed

lemma not_full:
  assumes "tq_rep t es qs fl" "tq_bound t (length qs)" "0 < mMsgFd t"
  shows "EdTask_postEdMsg t a wret vh mid pl = Inr r \<Longrightarrow> can_alloc t es qs"
    "EdTask_sendEdMsg_queue t a sid vh mid pl = Inr r' \<Longrightarrow> can_alloc t es qs"
  using post_full [OF assms(1,2) _ assms(3)] by fastforce+

lemma step_post:
  assumes s: "sys_rep s es qs" and a: "hdrs (task s) a = None" "a \<noteq> NULL"
    and p: "EdTask_postEdMsg (task s) a wret vh mid pl = Inr (r, t)"
  shows "\<exists>p. sys_rep (s\<lparr>task := t, lost := lost s + (if r = - 2 then 1 else 0),
     accepted := accepted s @ (if r = - 1 then [] else [(mid, vh, pl)])\<rparr>) (tl es) (qs @ [p])"
proof -
  have r: "tq_rep (task s) es qs (inflight s)" and fd: "0 < mMsgFd (task s)"
    and b: "tq_bound (task s) (length es + length qs + length (inflight s))" "tq_bound (task s) (length qs)"
    using s by (auto simp: sys_rep_def elim: tq_bound_le)
  have c: "can_alloc (task s) es qs" using not_full(1) [OF r b(2) fd p] .
  have fd0: "0 \<le> mMsgFd (task s)" using fd by simp
  obtain x m t' where q: "EdTask_postEdMsg (task s) a wret vh mid pl = Inr (if wret = 8 then 0 else - 2, t')"
    "tq_rep t' (tl es) (qs @ [x]) (inflight s)" "msgs t' x = Some m" "carries m (mid, vh, pl)" "sync m = 0"
    "\<forall>x\<in>set (qs @ inflight s). msgs t' x = msgs (task s) x" "same_env (raise_signal (task s) wret) t'"
    by (rule post_ok [OF r b(2) a c fd0])
  have e: "t = t'" "r = (if wret = 8 then 0 else - 2)" using p q(1) by simp_all
  have env: "mMsgFd t' = mMsgFd (task s)" "mMaxMsqQueSize t' = mMaxMsqQueSize (task s)"
    "signals t' = signals (task s) + (if wret = 8 then 1 else 0)"
    using q(7) by (auto simp: same_env_def raise_signal_def)
  have "queue_msgs t' (qs @ [x]) = queue_msgs (task s) qs @ [m]"
    using queue_msgs_cong [of qs t' "task s"] q(3,6) by (simp add: queue_msgs_def)
  then have l: "list_all2 carries (handled s @ queue_msgs t' (qs @ [x])) (accepted s @ [(mid, vh, pl)])"
    using s q(4) by (simp add: sys_rep_def list_all2_appendI append_assoc [symmetric] del: append_assoc)
  have "tq_bound t' (length (tl es) + length (qs @ [x]) + length (inflight s))"
    using bound_after_alloc [OF b(1) c] s tq_bound_env [OF env(2)] by (simp add: sys_rep_def)
  then have "sys_rep (s\<lparr>task := t, lost := lost s + (if r = - 2 then 1 else 0),
     accepted := accepted s @ (if r = - 1 then [] else [(mid, vh, pl)])\<rparr>) (tl es) (qs @ [x])"
    using s q(2) env l fd by (simp add: sys_rep_def e)
  then show ?thesis by blast
qed

lemma step_send:
  assumes s: "sys_rep s es qs" and a: "hdrs (task s) a = None" "a \<noteq> NULL"
    and p: "EdTask_sendEdMsg_queue (task s) a sid vh mid pl = Inr (r, t)"
  shows "\<exists>p. sys_rep (s\<lparr>task := t, writers := writers s + (if r = None then 1 else 0),
     accepted := accepted s @ (if r = None then [(mid, vh, pl)] else [])\<rparr>) (tl es) (qs @ [p])"
proof -
  have r: "tq_rep (task s) es qs (inflight s)" and fd: "0 < mMsgFd (task s)"
    and b: "tq_bound (task s) (length es + length qs + length (inflight s))" "tq_bound (task s) (length qs)"
    using s by (auto simp: sys_rep_def elim: tq_bound_le)
  have c: "can_alloc (task s) es qs" using not_full(2) [OF r b(2) fd p] .
  have fd0: "0 \<le> mMsgFd (task s)" using fd by simp
  obtain x m t' where q: "EdTask_sendEdMsg_queue (task s) a sid vh mid pl = Inr (None, t')"
    "tq_rep t' (tl es) (qs @ [x]) (inflight s)" "msgs t' x = Some m" "carries m (mid, vh, pl)" "sync m = 1" "psend_result m = sid"
    "\<forall>x\<in>set (qs @ inflight s). msgs t' x = msgs (task s) x" "same_env ((task s)\<lparr>results := (results (task s))(sid \<mapsto> 0)\<rparr>) t'"
    by (rule send_queue_ok [OF r b(2) a c fd0])
  have e: "t = t'" "r = None" using p q(1) by simp_all
  have env: "mMsgFd t' = mMsgFd (task s)" "mMaxMsqQueSize t' = mMaxMsqQueSize (task s)" "signals t' = signals (task s)"
    using q(8) by (auto simp: same_env_def)
  have "queue_msgs t' (qs @ [x]) = queue_msgs (task s) qs @ [m]"
    using queue_msgs_cong [of qs t' "task s"] q(3,7) by (simp add: queue_msgs_def)
  then have l: "list_all2 carries (handled s @ queue_msgs t' (qs @ [x])) (accepted s @ [(mid, vh, pl)])"
    using s q(4) by (simp add: sys_rep_def list_all2_appendI append_assoc [symmetric] del: append_assoc)
  have "tq_bound t' (length (tl es) + length (qs @ [x]) + length (inflight s))"
    using bound_after_alloc [OF b(1) c] s tq_bound_env [OF env(2)] by (simp add: sys_rep_def)
  then have "sys_rep (s\<lparr>task := t, writers := writers s + (if r = None then 1 else 0),
     accepted := accepted s @ (if r = None then [(mid, vh, pl)] else [])\<rparr>) (tl es) (qs @ [x])"
    using s q(2) env l fd by (simp add: sys_rep_def e)
  then show ?thesis by blast
qed

lemma step_pop:
  assumes s: "sys_rep s es qs" and bu: "0 < budget s" "inflight s = []"
  obtains x qs' t m where "qs = x # qs'" "pop_qued (task s) = Inr (x, t)" "x \<noteq> NULL" "msgs t x = Some m"
    "sys_rep (s\<lparr>task := t, budget := budget s - 1, inflight := [x], handled := handled s @ [m]\<rparr>) es qs'"
proof -
  have "qs \<noteq> []" using s bu(1) by (auto simp: sys_rep_def)
  then obtain x qs' where qs: "qs = x # qs'" by (cases qs) auto
  have r: "tq_rep (task s) es (x # qs') []" using s bu(2) qs by (simp add: sys_rep_def)
  obtain h l where h: "pop_qued (task s) = Inr (x, (task s)\<lparr>hdrs := h, mQuedMsgs := l\<rparr>)"
    "tq_rep ((task s)\<lparr>hdrs := h, mQuedMsgs := l\<rparr>) es qs' (x # [])" "x \<noteq> NULL" using r by (rule pop_qued_rep)
  have "x \<in> dom (msgs (task s))" using r by (simp add: tq_rep_def)
  then obtain m where m: "msgs (task s) x = Some m" by blast
  let ?t = "(task s)\<lparr>hdrs := h, mQuedMsgs := l\<rparr>"
  have "sys_rep (s\<lparr>task := ?t, budget := budget s - 1, inflight := [x], handled := handled s @ [m]\<rparr>) es qs'"
    using s h(2) m bu qs tq_bound_env [of ?t "task s"] by (simp add: sys_rep_def queue_msgs_def)
  then show thesis using qs h(1,3) m by (intro that [of x qs' ?t m]) simp_all
qed

lemma signals_small:
  assumes "sys_rep s es qs"
  shows "nat (sint (of_nat (signals (task s)) :: u32)) = signals (task s)"
proof -
  have "int (length qs) < 2 ^ 31" "signals (task s) \<le> length qs"
    using assms by (auto simp: sys_rep_def tq_bound_def)
  then have "int (signals (task s)) < int (2 ^ 31)" by simp
  then show ?thesis by (intro nat_sint_small) (simp only: of_nat_less_iff)
qed

lemma step_finish:
  assumes s: "sys_rep s es qs" and f: "inflight s = [p]" "dispatch_finish (task s) p = Inr t"
  shows "sys_rep (s\<lparr>task := t, inflight := []\<rparr>) (es @ [p]) qs"
proof -
  have "p \<in> dom (msgs (task s))" using s f(1) by (simp add: sys_rep_def tq_rep_def)
  then obtain m where m: "msgs (task s) p = Some m" by blast
  let ?t = "if sync m \<noteq> 0 then (task s)\<lparr>notified := insert (psend_result m) (notified (task s))\<rparr> else task s"
  have "tq_rep ?t es qs (p # [])" using s f(1) by (simp add: sys_rep_def)
  then obtain h l where h: "push_empty ?t p = Inr (?t\<lparr>hdrs := h, mEmptyMsgs := l\<rparr>)"
    "tq_rep (?t\<lparr>hdrs := h, mEmptyMsgs := l\<rparr>) (es @ [p]) qs []" by (rule push_empty_rep)
  have t: "t = ?t\<lparr>hdrs := h, mEmptyMsgs := l\<rparr>" using f(2) m h(1) by (simp add: dispatch_finish_def)
  have env: "mMaxMsqQueSize t = mMaxMsqQueSize (task s)" "mMsgFd t = mMsgFd (task s)" "signals t = signals (task s)"
    "msgs t = msgs (task s)" by (simp_all add: t)
  show ?thesis using s f(1) h(2) [folded t] tq_bound_env [OF env(1)] env
    by (simp add: sys_rep_def queue_msgs_def add.commute)
qed

lemma sys_rep_same:
  assumes "sys_rep s es qs" "hdrs t = hdrs (task s)" "msgs t = msgs (task s)" "mEmptyMsgs t = mEmptyMsgs (task s)"
    "mQuedMsgs t = mQuedMsgs (task s)" "mMsgFd t = mMsgFd (task s)" "mMaxMsqQueSize t = mMaxMsqQueSize (task s)"
    "signals t = signals (task s)"
  shows "sys_rep (s\<lparr>task := t\<rparr>) es qs"
  using assms by (simp add: sys_rep_def tq_rep_def tq_bound_def queue_msgs_def)

lemma sys_inv_same:
  "sys_inv s \<Longrightarrow> sys_inv (s\<lparr>task := (task s)\<lparr>results := r\<rparr>\<rparr>)" "sys_inv s \<Longrightarrow> sys_inv (s\<lparr>task := (task s)\<lparr>ctx_exit := e\<rparr>\<rparr>)"
  unfolding sys_inv_def by (elim exE, intro exI, erule sys_rep_same, simp_all)+

lemma sys_inv_step: "msg_step s s' \<Longrightarrow> sys_inv s \<Longrightarrow> sys_inv s'"
proof (induction rule: msg_step.induct)
  case (post s a wret vh mid pl r t)
  then show ?case using step_post [OF _ post(1-3)] unfolding sys_inv_def by blast
next
  case (send s a sid vh mid pl r t)
  then show ?case using step_send [OF _ send(1-3)] unfolding sys_inv_def by blast
next
  case (send_write s wret t)
  then have "t = (task s)\<lparr>signals := signals (task s) + 1\<rparr>"
    by (simp add: EdTask_sendEdMsg_write_def raise_signal_def split: if_splits)
  with send_write show ?case by (auto simp: sys_inv_def sys_rep_def queue_msgs_def tq_bound_def)
next
  case (collect s)
  then obtain es qs where s: "sys_rep s es qs" by (auto simp: sys_inv_def)
  have "sys_rep (s\<lparr>task := (task s)\<lparr>signals := 0\<rparr>, budget := signals (task s)\<rparr>) es qs"
    using s collect by (simp add: sys_rep_def queue_msgs_def tq_bound_def)
  then show ?case unfolding signals_small [OF s] sys_inv_def by blast
next
  case (pop s p t m)
  then obtain es qs where s: "sys_rep s es qs" by (auto simp: sys_inv_def)
  obtain x qs' t' m' where "pop_qued (task s) = Inr (x, t')" "msgs t' x = Some m'"
    "sys_rep (s\<lparr>task := t', budget := budget s - 1, inflight := [x], handled := handled s @ [m']\<rparr>) es qs'"
    by (rule step_pop [OF s pop(1,2)])
  with pop show ?case by (auto simp: sys_inv_def)
next
  case (stop s t)
  then obtain es qs where s: "sys_rep s es qs" by (auto simp: sys_inv_def)
  have False by (rule step_pop [OF s stop(1,2)]) (use stop(3) in simp)
  then show ?case ..
next
  case (answer s p code t)
  then have "\<exists>r. t = (task s)\<lparr>results := r\<rparr>"
    by (auto simp: EdTask_setSendMsgResult_def split: option.splits if_splits intro: exI [of _ "results (task s)"])
  with answer(3) sys_inv_same(1) show ?case by blast
next
  case (call s p v t)
  then have "\<exists>r. t = (task s)\<lparr>ctx_exit := r\<rparr>"
    by (auto simp: dispatch_call_def split: option.splits target.splits intro: exI [of _ "ctx_exit (task s)"])
  with call(3) sys_inv_same(2) show ?case by blast
next
  case (finish s p t)
  then show ?case using step_finish [OF _ finish(1,2)] unfolding sys_inv_def by blast
qed

definition sys_reach :: "msys \<Rightarrow> msys \<Rightarrow> bool" where
  "sys_reach = msg_step\<^sup>*\<^sup>*"

lemma sys_inv_reach: "sys_reach s s' \<Longrightarrow> sys_inv s \<Longrightarrow> sys_inv s'"
  unfolding sys_reach_def by (induction rule: rtranclp_induct) (auto intro: sys_inv_step)

text \<open>A freshly initialised task, as \<^verbatim>\<open>run\<close> leaves it when \<^verbatim>\<open>eventfd\<close> succeeded.\<close>

definition fresh_task :: "msys \<Rightarrow> bool" where
  "fresh_task s \<longleftrightarrow> (\<exists>e q l d n fd. e \<noteq> NULL \<and> q \<noteq> NULL \<and> 0 < fd \<and> 0 \<le> n \<and> n < 2 ^ 31 - 1 \<and>
     s = msys_init (EdTask_start e q l d n fd))"

lemma reach_inv: "fresh_task s \<Longrightarrow> sys_reach s s' \<Longrightarrow> sys_inv s'"
  unfolding fresh_task_def using sys_inv_init sys_inv_reach by blast

section \<open>Properties\<close>

text \<open>C6. However posting threads, sending threads and the task thread interleave, the loop of
  \<^verbatim>\<open>dispatchMsgs\<close> never finds the queue empty: while its count is not used up there is a message to
  pop, so the branch that reports an unexpected queue error is dead.\<close>

theorem dispatch_finds_message:
  assumes "fresh_task s0" "sys_reach s0 s" "0 < budget s" "inflight s = []"
  shows "\<exists>p t. pop_qued (task s) = Inr (p, t) \<and> p \<noteq> NULL \<and> msgs t p \<noteq> None"
proof -
  obtain es qs where "sys_rep s es qs" using reach_inv [OF assms(1,2)] by (auto simp: sys_inv_def)
  then show ?thesis by (rule step_pop [OF _ assms(3,4)]) blast
qed


text \<open>A run that posts one message and collects its signal.\<close>

definition s_init :: msys where
  "s_init = msys_init (EdTask_start 100 200 300 400 1 5)"

lemma s_init_fresh: "fresh_task s_init"
  unfolding fresh_task_def s_init_def
  by (intro exI [of _ 100] exI [of _ 200] exI [of _ 300] exI [of _ 400] exI [of _ 1] exI [of _ 5]) simp

lemma one_post:
  obtains t where "EdTask_postEdMsg (task s_init) 1000 8 0 1000 (Data 7) = Inr (0, t)" "signals t = 1"
    "sys_reach s_init (s_init\<lparr>task := t, accepted := [(1000, 0, Data 7)]\<rparr>)"
proof -
  have r: "tq_rep (task s_init) [] [] []" unfolding s_init_def msys_init_def using tq_rep_init [of 100 200 300 400 1 5] by simp
  have b: "tq_bound (task s_init) (length ([] :: addr list))" "can_alloc (task s_init) [] []"
    "hdrs (task s_init) 1000 = None" "(1000 :: addr) \<noteq> NULL" "0 \<le> mMsgFd (task s_init)"
    and sg: "signals (task s_init) = 0"
    by (simp_all add: s_init_def msys_init_def start_defs tq_bound_def can_alloc_def)
  obtain p :: addr and m :: EdMsg and t where t: "EdTask_postEdMsg (task s_init) 1000 8 0 1000 (Data 7) = Inr (if (8::int) = 8 then 0 else - 2, t)"
    "same_env (raise_signal (task s_init) 8) t" by (rule post_ok [OF r b(1,3,4,2,5)])
  then have t1: "EdTask_postEdMsg (task s_init) 1000 8 0 1000 (Data 7) = Inr (0, t)" by simp
  have "msg_step s_init (s_init\<lparr>task := t, lost := lost s_init + (if (0::int) = - 2 then 1 else 0),
      accepted := accepted s_init @ (if (0::int) = - 1 then [] else [(1000, 0, Data 7)])\<rparr>)"
    by (rule msg_step.post [OF b(3,4) t1])
  moreover have "s_init\<lparr>task := t, lost := lost s_init + (if (0::int) = - 2 then 1 else 0),
      accepted := accepted s_init @ (if (0::int) = - 1 then [] else [(1000, 0, Data 7)])\<rparr>
      = s_init\<lparr>task := t, accepted := [(1000, 0, Data 7)]\<rparr>" by (simp add: s_init_def msys_init_def)
  ultimately have "sys_reach s_init (s_init\<lparr>task := t, accepted := [(1000, 0, Data 7)]\<rparr>)"
    unfolding sys_reach_def by (simp only: r_into_rtranclp)
  moreover have "signals t = 1" using t(2) sg by (simp add: same_env_def raise_signal_def)
  ultimately show thesis using t1 by (intro that)
qed

lemma one_collect:
  obtains s where "sys_reach s_init s" "budget s = 1" "inflight s = []" "accepted s = [(1000, 0, Data 7)]" "handled s = []"
    "signals (task s) = 0" "lost s = 0" "writers s = 0"
proof -
  obtain t where t: "signals t = 1" "sys_reach s_init (s_init\<lparr>task := t, accepted := [(1000, 0, Data 7)]\<rparr>)"
    by (rule one_post)
  let ?s = "s_init\<lparr>task := t, accepted := [(1000, 0, Data 7)]\<rparr>"
  have i: "budget ?s = 0" "inflight ?s = []" "0 < signals (task ?s)" using t(1) by (simp_all add: s_init_def msys_init_def)
  let ?s' = "?s\<lparr>task := (task ?s)\<lparr>signals := 0\<rparr>, budget := nat (sint (of_nat (signals (task ?s)) :: u32))\<rparr>"
  have "msg_step ?s ?s'" by (rule msg_step.collect [OF i])
  then have "sys_reach s_init ?s'" using t(2) unfolding sys_reach_def by (rule rtranclp.rtrancl_into_rtrancl [rotated])
  then show thesis by (rule that) (simp_all add: s_init_def msys_init_def t(1))
qed

theorem dispatch_finds_message_witness:
  "\<exists>s p t. sys_reach s_init s \<and> budget s = 1 \<and> pop_qued (task s) = Inr (p, t) \<and> p \<noteq> NULL"
proof -
  obtain s where "sys_reach s_init s" "budget s = 1" "inflight s = []" by (rule one_collect)
  with dispatch_finds_message [OF s_init_fresh, of s] show ?thesis by auto
qed





section \<open>Closing the queue\<close>

lemma dom_msgs: "tq_rep t es qs fl \<Longrightarrow> x \<in> set (es @ qs @ fl) \<Longrightarrow> \<exists>m. msgs t x = Some m"
  unfolding tq_rep_def by blast

text \<open>The first loop answers every waiting sender of the queue with -1000.\<close>

lemma close_qued_ok:
  "tq_rep t es qs [] \<Longrightarrow> length qs < n \<Longrightarrow>
     \<exists>t'. close_qued n t = Inr t' \<and> tq_rep t' (es @ qs) [] [] \<and> msgs t' = msgs t \<and> mMsgFd t' = mMsgFd t \<and>
       mMaxMsqQueSize t' = mMaxMsqQueSize t \<and> notified t \<subseteq> notified t' \<and>
       (\<forall>x\<in>set qs. \<forall>m. msgs t x = Some m \<and> sync m \<noteq> 0 \<longrightarrow>
          psend_result m \<in> notified t' \<and> results t' (psend_result m) = Some (- 1000)) \<and>
       (\<forall>r. results t r = Some (- 1000) \<longrightarrow> results t' r = Some (- 1000))"
proof (induction qs arbitrary: t es n)
  case Nil
  then obtain k where "n = Suc k" by (cases n) auto
  then show ?case using Nil pop_qued_none [OF Nil(1)] by auto
next
  case (Cons x qs)
  then obtain k where k: "n = Suc k" "length qs < k" by (cases n) auto
  obtain h l where h: "pop_qued t = Inr (x, t\<lparr>hdrs := h, mQuedMsgs := l\<rparr>)"
    "tq_rep (t\<lparr>hdrs := h, mQuedMsgs := l\<rparr>) es qs (x # [])" "x \<noteq> NULL" using Cons.prems(1) by (rule pop_qued_rep)
  obtain m where m: "msgs t x = Some m" using dom_msgs [OF Cons.prems(1), of x] by auto
  define t1 where "t1 = t\<lparr>hdrs := h, mQuedMsgs := l\<rparr>"
  define t2 where "t2 = (if sync m \<noteq> 0 then t1\<lparr>results := (results t1)(psend_result m \<mapsto> - 1000),
     notified := insert (psend_result m) (notified t1)\<rparr> else t1)"
  have "tq_rep t2 es qs (x # [])" using h(2) by (simp add: t2_def t1_def [symmetric])
  then obtain h' l' where h': "push_empty t2 x = Inr (t2\<lparr>hdrs := h', mEmptyMsgs := l'\<rparr>)"
    "tq_rep (t2\<lparr>hdrs := h', mEmptyMsgs := l'\<rparr>) (es @ [x]) qs []" by (rule push_empty_rep)
  define t3 where "t3 = t2\<lparr>hdrs := h', mEmptyMsgs := l'\<rparr>"
  have env: "msgs t3 = msgs t" "mMsgFd t3 = mMsgFd t" "mMaxMsqQueSize t3 = mMaxMsqQueSize t" "notified t \<subseteq> notified t3"
    and me: "sync m \<noteq> 0 \<Longrightarrow> psend_result m \<in> notified t3 \<and> results t3 (psend_result m) = Some (- 1000)"
    and old: "\<And>r. results t r = Some (- 1000) \<Longrightarrow> results t3 r = Some (- 1000)"
    by (auto simp: t3_def t2_def t1_def)
  have m1: "msgs t1 x = Some m" using m by (simp add: t1_def)
  have "close_qued n t = close_qued k t3"
    using h(1,3) m1 h'(1) by (simp add: k(1) t1_def [symmetric] t2_def [symmetric] t3_def [symmetric])
  moreover from Cons.IH [OF h'(2) k(2), folded t3_def] obtain t' where
    t': "close_qued k t3 = Inr t'" "tq_rep t' ((es @ [x]) @ qs) [] []" "msgs t' = msgs t3" "mMsgFd t' = mMsgFd t3"
      "mMaxMsqQueSize t' = mMaxMsqQueSize t3" "notified t3 \<subseteq> notified t'"
      "\<forall>x\<in>set qs. \<forall>m. msgs t3 x = Some m \<and> sync m \<noteq> 0 \<longrightarrow>
          psend_result m \<in> notified t' \<and> results t' (psend_result m) = Some (- 1000)"
      "\<forall>r. results t3 r = Some (- 1000) \<longrightarrow> results t' r = Some (- 1000)" by blast
  ultimately show ?case using env me old m by (intro exI [of _ t']) auto
qed

text \<open>The second loop frees every message.\<close>

lemma close_empty_ok:
  "tq_rep t es [] [] \<Longrightarrow> length es < n \<Longrightarrow>
     \<exists>t'. close_empty n t = Inr t' \<and> tq_rep t' [] [] [] \<and> mMsgFd t' = mMsgFd t \<and> notified t' = notified t \<and> results t' = results t"
proof (induction es arbitrary: t n)
  case Nil
  then obtain k where "n = Suc k" by (cases n) auto
  then show ?case using Nil pop_empty_none [OF Nil(1)] by auto
next
  case (Cons x es)
  then obtain k where k: "n = Suc k" "length es < k" by (cases n) auto
  obtain h l where h: "pop_empty t = Inr (x, t\<lparr>hdrs := h, mEmptyMsgs := l\<rparr>)"
    "tq_rep (t\<lparr>hdrs := h, mEmptyMsgs := l\<rparr>) es [] (x # [])" "x \<noteq> NULL" using Cons.prems(1) by (rule pop_empty_rep)
  have "x \<in> dom h" using h(2) by (simp add: tq_rep_def)
  then have f: "EdObjList_freeObj h x = Some (h(x := None))" by (auto simp: EdObjList_freeObj_def)
  let ?t = "t\<lparr>mEmptyMsgs := l, hdrs := h(x := None), msgs := (msgs t)(x := None)\<rparr>"
  have "tq_rep ?t es [] []"
    using h(2) freeObj_rep [OF f] by (auto simp: tq_rep_def)
  from Cons.IH [OF this k(2)] show ?case using h(1,3) f by (simp add: k(1))
qed

lemma closeMsg_ok:
  assumes r: "tq_rep t es qs []" and b: "tq_bound t (length es + length qs)" and n: "length es + length qs < n"
  obtains t' where "EdTask_closeMsg n t = Inr t'" "mMsgFd t' < 0" "tq_rep t' [] [] []"
    "\<forall>x\<in>set qs. \<forall>m. msgs t x = Some m \<and> sync m \<noteq> 0 \<longrightarrow> EdTask_sendEdMsg_result t' (psend_result m) = Some (- 1000)"
proof -
  let ?t = "if mMsgFd t \<ge> 0 then t\<lparr>mMsgFd := - 1\<rparr> else t"
  have r': "tq_rep ?t es qs []" and fd: "mMsgFd ?t < 0" and ms: "msgs ?t = msgs t" using r by auto
  have "int (length qs) < 2 ^ 31" using b unfolding tq_bound_def by linarith
  then have sz: "EdObjList_size (mQuedMsgs ?t) = int (length qs)"
    using r ol_rep_size [of "hdrs t" "mQuedMsgs t" qs] by (simp add: tq_rep_def)
  obtain t1 where t1: "(if EdObjList_size (mQuedMsgs ?t) > 0 then close_qued n ?t else Inr ?t) = Inr t1"
    "tq_rep t1 (es @ qs) [] []" "mMsgFd t1 = mMsgFd ?t"
    "\<forall>x\<in>set qs. \<forall>m. msgs t x = Some m \<and> sync m \<noteq> 0 \<longrightarrow>
       psend_result m \<in> notified t1 \<and> results t1 (psend_result m) = Some (- 1000)"
  proof (cases "qs = []")
    case True
    then show thesis using r' sz by (intro that [of ?t]) simp_all
  next
    case False
    have lt: "length qs < n" using n by simp
    from close_qued_ok [OF r' lt] obtain t1 where "close_qued n ?t = Inr t1" "tq_rep t1 (es @ qs) [] []" "mMsgFd t1 = mMsgFd ?t"
      "\<forall>x\<in>set qs. \<forall>m. msgs ?t x = Some m \<and> sync m \<noteq> 0 \<longrightarrow>
         psend_result m \<in> notified t1 \<and> results t1 (psend_result m) = Some (- 1000)" by blast
    then show thesis using False sz ms by (intro that [of t1]) simp_all
  qed
  have "length (es @ qs) < n" using n by simp
  from close_empty_ok [OF t1(2) this] obtain t2 where
    t2: "close_empty n t1 = Inr t2" "tq_rep t2 [] [] []" "mMsgFd t2 = mMsgFd t1" "notified t2 = notified t1" "results t2 = results t1"
    by blast
  have c: "EdTask_closeMsg n t = Inr t2" using t1(1) t2(1) by (simp only: EdTask_closeMsg_def Let_def bindr_simps)
  have fd2: "mMsgFd t2 < 0" using t2(3) t1(3) fd by simp
  have "\<forall>x\<in>set qs. \<forall>m. msgs t x = Some m \<and> sync m \<noteq> 0 \<longrightarrow> EdTask_sendEdMsg_result t2 (psend_result m) = Some (- 1000)"
    using t1(4) t2(4,5) by (auto simp: EdTask_sendEdMsg_result_def)
  with c fd2 t2(2) show thesis by (rule that)
qed

text \<open>The message queue is apart from the event system and from what extends the task.\<close>

lemma close_loops_frame:
  "close_qued n t = Inr t' \<Longrightarrow> evsys.truncate t' = evsys.truncate t \<and> taskq.more t' = taskq.more t"
  "close_empty n t = Inr t' \<Longrightarrow> evsys.truncate t' = evsys.truncate t \<and> taskq.more t' = taskq.more t"
proof (induction n arbitrary: t)
  case (Suc n)
  { case 1
    then show ?case
      by (auto simp: bindr_def pop_qued_def push_empty_def of_opt_def evsys.truncate_def split: option.splits if_splits sum.splits dest!: Suc.IH(1))
  next
    case 2
    then show ?case
      by (auto simp: bindr_def pop_empty_def of_opt_def evsys.truncate_def split: option.splits if_splits sum.splits dest!: Suc.IH(2)) }
qed simp_all

lemma closeMsg_frame: "EdTask_closeMsg n t = Inr t' \<Longrightarrow> evsys.truncate t' = evsys.truncate t \<and> taskq.more t' = taskq.more t"
  by (auto simp: EdTask_closeMsg_def bindr_def Let_def evsys.truncate_def split: if_splits sum.splits dest!: close_loops_frame)

text \<open>C8. \<^verbatim>\<open>closeMsg\<close>, called when no message is in flight, ends: the descriptor is invalid, both
  lists are empty and every message object is freed; every sender whose message was still in the
  queue is notified with the result -1000; later posts and sends return -1.\<close>

theorem closeMsg_answers_senders:
  assumes r: "tq_rep t es qs []" and b: "tq_bound t (length es + length qs)" and n: "length es + length qs < n"
  shows "\<exists>t'. EdTask_closeMsg n t = Inr t' \<and> mMsgFd t' < 0 \<and> tq_rep t' [] [] [] \<and>
     (\<forall>x\<in>set qs. \<forall>m. msgs t x = Some m \<and> sync m \<noteq> 0 \<longrightarrow> EdTask_sendEdMsg_result t' (psend_result m) = Some (- 1000)) \<and>
     EdTask_postEdMsg t' a wret vh mid pl = Inr (- 1, t') \<and>
     EdTask_sendEdMsg_queue t' a sid vh mid pl = Inr (Some (- 1), t')"
  by (rule closeMsg_ok [OF r b n]) (use post_closed in blast)

lemma one_send:
  obtains t x m where "EdTask_sendEdMsg_queue (task s_init) 1000 9 0 1000 (Data 7) = Inr (None, t)"
    "tq_rep t [] [x] []" "msgs t x = Some m" "sync m = 1" "psend_result m = 9" "carries m (1000, 0, Data 7)"
    "mMsgFd t = 5" "mMaxMsqQueSize t = 1" "signals t = 0"
proof -
  have r: "tq_rep (task s_init) [] [] []" unfolding s_init_def msys_init_def using tq_rep_init [of 100 200 300 400 1 5] by simp
  have b: "tq_bound (task s_init) (length ([] :: addr list))" "can_alloc (task s_init) [] []"
    "hdrs (task s_init) 1000 = None" "(1000 :: addr) \<noteq> NULL" "0 \<le> mMsgFd (task s_init)"
    and e: "mMsgFd (task s_init) = 5" "mMaxMsqQueSize (task s_init) = 1" "signals (task s_init) = 0"
    by (simp_all add: s_init_def msys_init_def start_defs tq_bound_def can_alloc_def)
  show thesis
    by (rule send_queue_ok [OF r b(1,3,4,2,5), of 9 0 1000 "Data 7"]) (rule that, auto simp: same_env_def e)
qed

theorem closeMsg_answers_senders_witness:
  "\<exists>t t'. EdTask_sendEdMsg_queue (task s_init) 1000 9 0 1000 (Data 7) = Inr (None, t) \<and>
     EdTask_closeMsg 2 t = Inr t' \<and> EdTask_sendEdMsg_result t' 9 = Some (- 1000)"
proof -
  obtain t x m where t: "EdTask_sendEdMsg_queue (task s_init) 1000 9 0 1000 (Data 7) = Inr (None, t)"
    "tq_rep t [] [x] []" "msgs t x = Some m" "sync m = 1" "psend_result m = 9" "mMaxMsqQueSize t = 1" by (rule one_send)
  have "tq_bound t (length [] + length [x])" "length [] + length [x] < 2" using t(6) by (simp_all add: tq_bound_def)
  from closeMsg_answers_senders [OF t(2) this, of NULL 0 0 0 "Data 0" 0] t show ?thesis by auto
qed

section \<open>Listeners\<close>

text \<open>What \<^verbatim>\<open>dispatchMsgs\<close> relies on of a listener: it returns, it leaves the message it handles and
  the messages in the queue alone, it may post more messages, it takes no notification back. The
  loop then handles the messages of the queue in order and notifies their senders.\<close>

locale msg_listener =
  fixes call :: "target \<Rightarrow> addr \<Rightarrow> 'a taskq_scheme \<Rightarrow> fault + 'a taskq_scheme"
  assumes call_law: "tq_rep t es qs [p] \<Longrightarrow>
    \<exists>t' es' more. call tg p t = Inr t' \<and> tq_rep t' es' (qs @ more) [p] \<and>
      (\<forall>x\<in>set (p # qs). msgs t' x = msgs t x) \<and> notified t \<subseteq> notified t'"
begin

lemma call_any:
  assumes "tq_rep t es qs [p]" "msgs t p = Some m"
  shows "\<exists>t' es' more. dispatch_call call v t p = Inr t' \<and> tq_rep t' es' (qs @ more) [p] \<and>
      (\<forall>x\<in>set (p # qs). msgs t' x = msgs t x) \<and> notified t \<subseteq> notified t'"
proof (cases "msg_target v m")
  case Exit
  then show ?thesis using assms by (intro exI [of _ "t\<lparr>ctx_exit := 1\<rparr>"] exI [of _ es] exI [of _ "[]"]) (simp add: dispatch_call_def)
next
  case Nobody
  then show ?thesis using assms by (intro exI [of _ t] exI [of _ es] exI [of _ "[]"]) (simp add: dispatch_call_def)
next
  case Proc
  then show ?thesis using call_law [OF assms(1), of Proc] assms(2) by (simp add: dispatch_call_def)
next
  case (View n)
  then show ?thesis using call_law [OF assms(1), of "View n"] assms(2) by (simp add: dispatch_call_def)
qed

lemma dispatch_all:
  "tq_rep t es qs [] \<Longrightarrow> n \<le> length qs \<Longrightarrow>
     \<exists>t' es' more. EdTask_dispatchMsgs call v t n = Inr t' \<and> tq_rep t' es' (drop n qs @ more) [] \<and> notified t \<subseteq> notified t' \<and>
       (\<forall>x\<in>set (drop n qs). msgs t' x = msgs t x) \<and>
       (\<forall>x\<in>set (take n qs). \<forall>m. msgs t x = Some m \<and> sync m \<noteq> 0 \<longrightarrow> psend_result m \<in> notified t')"
proof (induction n arbitrary: t es qs)
  case 0
  then show ?case by (intro exI [of _ t] exI [of _ es] exI [of _ "[]"]) simp
next
  case (Suc n)
  then obtain x qs' where qs: "qs = x # qs'" "n \<le> length qs'" by (cases qs) auto
  obtain h l where h: "pop_qued t = Inr (x, t\<lparr>hdrs := h, mQuedMsgs := l\<rparr>)"
    "tq_rep (t\<lparr>hdrs := h, mQuedMsgs := l\<rparr>) es qs' (x # [])" "x \<noteq> NULL"
    using Suc.prems(1) unfolding qs(1) by (rule pop_qued_rep)
  define t1 where "t1 = t\<lparr>hdrs := h, mQuedMsgs := l\<rparr>"
  obtain m where m: "msgs t x = Some m" using dom_msgs [OF Suc.prems(1), of x] qs(1) by auto
  have e1: "msgs t1 = msgs t" "notified t1 = notified t" by (simp_all add: t1_def)
  from call_any [OF h(2) [folded t1_def], of m v] m e1 obtain t2 es2 more where
    t2: "dispatch_call call v t1 x = Inr t2" "tq_rep t2 es2 (qs' @ more) [x]" "msgs t2 x = Some m"
      "\<forall>x\<in>set qs'. msgs t2 x = msgs t x" "notified t \<subseteq> notified t2" by auto
  obtain h' l' N where h': "dispatch_finish t2 x = Inr (t2\<lparr>notified := N, hdrs := h', mEmptyMsgs := l'\<rparr>)"
    "tq_rep (t2\<lparr>notified := N, hdrs := h', mEmptyMsgs := l'\<rparr>) (es2 @ [x]) (qs' @ more) []" "notified t2 \<subseteq> N" "sync m \<noteq> 0 \<longrightarrow> psend_result m \<in> N"
    using t2(2,3) by (rule finish_rep)
  define t4 where "t4 = t2\<lparr>notified := N, hdrs := h', mEmptyMsgs := l'\<rparr>"
  have fin: "dispatch_finish t2 x = Inr t4" using h'(1) by (simp add: t4_def)
  have e4: "msgs t4 = msgs t2" "notified t2 \<subseteq> notified t4" "sync m \<noteq> 0 \<Longrightarrow> psend_result m \<in> notified t4"
    using h'(3,4) by (simp_all add: t4_def)
  have "n \<le> length (qs' @ more)" using qs(2) by simp
  from Suc.IH [OF h'(2) [folded t4_def] this] obtain t' es' more' where
    t': "EdTask_dispatchMsgs call v t4 n = Inr t'" "tq_rep t' es' (drop n (qs' @ more) @ more') []" "notified t4 \<subseteq> notified t'"
      "\<forall>x\<in>set (drop n (qs' @ more)). msgs t' x = msgs t4 x"
      "\<forall>x\<in>set (take n (qs' @ more)). \<forall>m. msgs t4 x = Some m \<and> sync m \<noteq> 0 \<longrightarrow> psend_result m \<in> notified t'" by blast
  have run: "EdTask_dispatchMsgs call v t (Suc n) = Inr t'"
    using h(1,3) t2(1) fin t'(1) by (simp add: t1_def [symmetric])
  have "tq_rep t' es' (drop (Suc n) qs @ (more @ more')) []" using t'(2) qs by simp
  moreover have "notified t \<subseteq> notified t'" using t2(5) e4(2) t'(3) by blast
  moreover have "\<forall>x\<in>set (drop (Suc n) qs). msgs t' x = msgs t x"
    using t'(4) t2(4) e4(1) qs by (auto dest: in_set_dropD)
  moreover have "\<forall>x\<in>set (take (Suc n) qs). \<forall>m. msgs t x = Some m \<and> sync m \<noteq> 0 \<longrightarrow> psend_result m \<in> notified t'"
  proof -
    have "\<forall>x\<in>set (take n qs'). msgs t2 x = msgs t x" using t2(4) by (meson in_set_takeD)
    then show ?thesis using t'(3,5) e4(1,3) m qs by auto
  qed
  ultimately show ?case using run by blast
qed

end

text \<open>The two listeners the code itself has: \<^verbatim>\<open>OnEventProc\<close> of a task without listener, and one
  that answers with \<^verbatim>\<open>setSendMsgResult\<close>.\<close>

definition OnEventProc_default :: "target \<Rightarrow> addr \<Rightarrow> 'a taskq_scheme \<Rightarrow> fault + 'a taskq_scheme" where
  "OnEventProc_default tg p t = Inr t"

definition reply_with :: "int \<Rightarrow> target \<Rightarrow> addr \<Rightarrow> 'a taskq_scheme \<Rightarrow> fault + 'a taskq_scheme" where
  "reply_with code tg p t = EdTask_setSendMsgResult t p code"

interpretation quiet: msg_listener OnEventProc_default
proof
  fix t :: "'b taskq_scheme" and es qs p tg assume "tq_rep t es qs [p]"
  then show "\<exists>t' es' more. OnEventProc_default tg p t = Inr t' \<and> tq_rep t' es' (qs @ more) [p] \<and>
      (\<forall>x\<in>set (p # qs). msgs t' x = msgs t x) \<and> notified t \<subseteq> notified t'"
    by (intro exI [of _ t] exI [of _ es] exI [of _ "[]"]) (simp add: OnEventProc_default_def)
qed

interpretation reply: msg_listener "reply_with code" for code
proof
  fix t :: "'b taskq_scheme" and es qs p tg assume r: "tq_rep t es qs [p]"
  then obtain m where "msgs t p = Some m" using dom_msgs [OF r, of p] by auto
  then show "\<exists>t' es' more. reply_with code tg p t = Inr t' \<and> tq_rep t' es' (qs @ more) [p] \<and>
      (\<forall>x\<in>set (p # qs). msgs t' x = msgs t x) \<and> notified t \<subseteq> notified t'"
    using r by (intro exI [of _ "if sync m \<noteq> 0 then t\<lparr>results := (results t)(psend_result m \<mapsto> code)\<rparr> else t"]
      exI [of _ es] exI [of _ "[]"]) (simp add: reply_with_def EdTask_setSendMsgResult_def)
qed

text \<open>One run of \<^verbatim>\<open>msgevent_cb\<close> on a quiet task, with any listener that returns and leaves the
  queued messages alone: it handles every message that was announced, returns each to the pool, and
  every sender of a synchronous message among them is notified. Messages that listeners post
  meanwhile stay queued.\<close>

theorem msgevent_handles_announced:
  assumes l: "msg_listener call" and r: "tq_rep t es qs []" and b: "tq_bound t (length qs)" and s: "signals t = length qs"
  shows "\<exists>t' es' more. EdTask_msgevent_cb call v t 8 = Inr t' \<and> tq_rep t' es' more [] \<and>
     (\<forall>x\<in>set qs. \<forall>m. msgs t x = Some m \<and> sync m \<noteq> 0 \<longrightarrow> psend_result m \<in> notified t')"
proof -
  have "int (length qs) < 2 ^ 31" using b unfolding tq_bound_def by linarith
  then have n: "nat (sint (of_nat (signals t) :: u32)) = length qs"
    by (simp add: s signed_of_nat signed_take_bit_int_eq_self)
  have r': "tq_rep (t\<lparr>signals := 0\<rparr>) es qs []" using r by simp
  from msg_listener.dispatch_all [OF l r', of "length qs" v] show ?thesis
    by (simp add: EdTask_msgevent_cb_def n) blast
qed

theorem msgevent_handles_announced_witness:
  "\<exists>t t1 t'. EdTask_sendEdMsg_queue (task s_init) 1000 9 0 1000 (Data 7) = Inr (None, t) \<and>
     EdTask_sendEdMsg_write t 8 = Inr t1 \<and>
     EdTask_msgevent_cb OnEventProc_default \<lparr>gViewMap = Map.empty, seed_handle = 0\<rparr> t1 8 = Inr t' \<and> 9 \<in> notified t'"
proof -
  obtain t x m where t: "EdTask_sendEdMsg_queue (task s_init) 1000 9 0 1000 (Data 7) = Inr (None, t)"
    "tq_rep t [] [x] []" "msgs t x = Some m" "sync m = 1" "psend_result m = 9" "mMaxMsqQueSize t = 1" "signals t = 0" by (rule one_send)
  let ?t = "t\<lparr>signals := 1\<rparr>"
  have w: "EdTask_sendEdMsg_write t 8 = Inr ?t" using t(7) by (simp add: EdTask_sendEdMsg_write_def raise_signal_def)
  have h: "tq_rep ?t [] [x] []" "tq_bound ?t (length [x])" "signals ?t = length [x]" using t by (simp_all add: tq_bound_def)
  from msgevent_handles_announced [OF quiet.msg_listener_axioms h, of "\<lparr>gViewMap = Map.empty, seed_handle = 0\<rparr>"]
  obtain t' where "EdTask_msgevent_cb OnEventProc_default \<lparr>gViewMap = Map.empty, seed_handle = 0\<rparr> ?t 8 = Inr t'"
    "\<forall>x\<in>set [x]. \<forall>m. msgs ?t x = Some m \<and> sync m \<noteq> 0 \<longrightarrow> psend_result m \<in> notified t'" by blast
  with t w show ?thesis by auto
qed

text \<open>C10. A synchronous send is answered: queueing the message, writing to the event descriptor and
  one run of \<^verbatim>\<open>msgevent_cb\<close> whose listener calls \<^verbatim>\<open>setSendMsgResult\<close> with a code leave the sender
  notified and its return value equal to that code, and the queue empty again.\<close>

theorem send_roundtrip:
  assumes r: "tq_rep t es [] []" and b: "tq_bound t 0" and a: "hdrs t a = None" "a \<noteq> NULL"
    and c: "es \<noteq> [] \<or> 0 < mMaxMsqQueSize t" and fd: "0 \<le> mMsgFd t" and s: "signals t = 0" and mid: "mid \<noteq> EDM_EXIT"
  shows "\<exists>t1 t2 t3 es3. EdTask_sendEdMsg_queue t a sid 0 mid pl = Inr (None, t1) \<and> EdTask_sendEdMsg_write t1 8 = Inr t2 \<and>
     EdTask_msgevent_cb (reply_with code) v t2 8 = Inr t3 \<and> EdTask_sendEdMsg_result t3 sid = Some code \<and>
     tq_rep t3 es3 [] [] \<and> signals t3 = 0"
proof -
  have b0: "tq_bound t (length ([] :: addr list))" and c0: "can_alloc t es []" using b c by (simp_all add: can_alloc_def)
  obtain x m t1 where t1: "EdTask_sendEdMsg_queue t a sid 0 mid pl = Inr (None, t1)" "tq_rep t1 (tl es) ([] @ [x]) []"
    "msgs t1 x = Some m" "carries m (mid, 0, pl)" "sync m = 1" "psend_result m = sid"
    "same_env (t\<lparr>results := (results t)(sid \<mapsto> 0)\<rparr>) t1" by (rule send_queue_ok [OF r b0 a c0 fd])
  have sg: "signals t1 = 0" using t1(7) s by (simp add: same_env_def)
  define t2 where "t2 = t1\<lparr>signals := 0\<rparr>"
  have w: "EdTask_sendEdMsg_write t1 8 = Inr (t1\<lparr>signals := 1\<rparr>)" using sg by (simp add: EdTask_sendEdMsg_write_def raise_signal_def)
  have "tq_rep t2 (tl es) (x # []) []" using t1(2) by (simp add: t2_def)
  then obtain h l where h: "pop_qued t2 = Inr (x, t2\<lparr>hdrs := h, mQuedMsgs := l\<rparr>)"
    "tq_rep (t2\<lparr>hdrs := h, mQuedMsgs := l\<rparr>) (tl es) [] (x # [])" "x \<noteq> NULL" by (rule pop_qued_rep)
  define t3 where "t3 = t2\<lparr>hdrs := h, mQuedMsgs := l\<rparr>"
  define t4 where "t4 = t3\<lparr>results := (results t3)(sid \<mapsto> code)\<rparr>"
  define t5 where "t5 = t4\<lparr>notified := insert sid (notified t4)\<rparr>"
  have m3: "msgs t3 x = Some m" and m4: "msgs t4 x = Some m" using t1(3) by (simp_all add: t3_def t4_def t2_def)
  have "msg_target v m = Proc" using t1(4) mid by (simp add: msg_target_def carries_def)
  then have call: "dispatch_call (reply_with code) v t3 x = Inr t4"
    using m3 t1(5,6) by (simp add: dispatch_call_def reply_with_def EdTask_setSendMsgResult_def t4_def)
  have "tq_rep t5 (tl es) [] (x # [])" using h(2) by (simp add: t5_def t4_def t3_def [symmetric])
  then obtain h' l' where h': "push_empty t5 x = Inr (t5\<lparr>hdrs := h', mEmptyMsgs := l'\<rparr>)"
    "tq_rep (t5\<lparr>hdrs := h', mEmptyMsgs := l'\<rparr>) (tl es @ [x]) [] []" by (rule push_empty_rep)
  let ?t6 = "t5\<lparr>hdrs := h', mEmptyMsgs := l'\<rparr>"
  have fin: "dispatch_finish t4 x = Inr ?t6" using m4 t1(5,6) h'(1) by (simp add: dispatch_finish_def t5_def)
  have "EdTask_dispatchMsgs (reply_with code) v t2 (Suc 0) = Inr ?t6"
    using h(1,3) call fin by (simp add: t3_def [symmetric])
  then have "EdTask_msgevent_cb (reply_with code) v (t1\<lparr>signals := 1\<rparr>) 8 = Inr ?t6"
    by (simp add: EdTask_msgevent_cb_def t2_def)
  moreover have "EdTask_sendEdMsg_result ?t6 sid = Some code" "signals ?t6 = 0"
    by (simp_all add: EdTask_sendEdMsg_result_def t5_def t4_def t3_def t2_def)
  ultimately show ?thesis using t1(1) w h'(2) by blast
qed

theorem send_roundtrip_witness:
  "\<exists>t1 t2 t3. EdTask_sendEdMsg_queue (task s_init) 1000 9 0 1000 (Data 7) = Inr (None, t1) \<and> EdTask_sendEdMsg_write t1 8 = Inr t2 \<and>
     EdTask_msgevent_cb (reply_with 42) \<lparr>gViewMap = Map.empty, seed_handle = 0\<rparr> t2 8 = Inr t3 \<and>
     EdTask_sendEdMsg_result t3 9 = Some 42"
proof -
  have r: "tq_rep (task s_init) [] [] []" unfolding s_init_def msys_init_def using tq_rep_init [of 100 200 300 400 1 5] by simp
  have b: "tq_bound (task s_init) 0" "hdrs (task s_init) 1000 = None" "(1000 :: addr) \<noteq> NULL"
    "([] :: addr list) \<noteq> [] \<or> 0 < mMaxMsqQueSize (task s_init)" "0 \<le> mMsgFd (task s_init)"
    "signals (task s_init) = 0" "1000 \<noteq> EDM_EXIT"
    by (simp_all add: s_init_def msys_init_def start_defs tq_bound_def EDM_EXIT_def)
  from send_roundtrip [OF r b, of 9 "Data 7" 42 "\<lparr>gViewMap = Map.empty, seed_handle = 0\<rparr>"] show ?thesis by blast
qed



end
