(* ===== verification/EdEvtObjs.thy ===== *)
theory EdEvtObjs
  imports EdEvents
begin

text \<open>Event objects (EdEvent.cpp) and the classes that own one descriptor: EdEventFd.cpp, EdPipe.cpp,
  EdSignalFd.cpp, EdTimer.cpp, EdMq.cpp. System calls are arguments: the descriptor a call returned,
  the result of \<^verbatim>\<open>epoll_ctl\<close>, the count of a \<^verbatim>\<open>read\<close>. \<open>cur\<close> is the task of the current thread and its
  context, both null outside a task.\<close>

section \<open>EdEvent\<close>

record EdEvent =
  eself :: addr
  mFd :: int
  mIsReg :: bool
  mEvt :: addr
  mTask :: addr
  mContext :: addr
  mUser :: u64

record thread_env =
  curTask :: addr
  curContext :: addr

definition EdEvent_new :: "addr \<Rightarrow> thread_env \<Rightarrow> EdEvent" where
  "EdEvent_new self cur =
     \<lparr>eself = self, mFd = - 1, mIsReg = False, mEvt = NULL, mTask = NULL, mContext = curContext cur, mUser = 0\<rparr>"

definition EdEvent_new_ctx :: "addr \<Rightarrow> thread_env \<Rightarrow> addr \<Rightarrow> EdEvent" where
  "EdEvent_new_ctx self cur ctx = (EdEvent_new self cur)\<lparr>mContext := ctx\<rparr>"

definition EdEvent_setContext :: "'o EdEvent_scheme \<Rightarrow> addr \<Rightarrow> 'o EdEvent_scheme" where
  "EdEvent_setContext e ctx = e\<lparr>mContext := ctx\<rparr>"

definition EdEvent_getContext :: "'o EdEvent_scheme \<Rightarrow> addr" where
  "EdEvent_getContext e = mContext e"

definition EdEvent_getTask :: "'o EdEvent_scheme \<Rightarrow> addr" where
  "EdEvent_getTask e = mTask e"

definition EdEvent_getFd :: "'o EdEvent_scheme \<Rightarrow> int" where
  "EdEvent_getFd e = mFd e"

text \<open>The user data: one 8-byte union of a pointer, a 64-bit and a 32-bit number, the last in the low half.\<close>

definition EdEvent_getUser :: "'o EdEvent_scheme \<Rightarrow> addr" where
  "EdEvent_getUser e = mUser e"

definition EdEvent_setUser :: "'o EdEvent_scheme \<Rightarrow> addr \<Rightarrow> 'o EdEvent_scheme" where
  "EdEvent_setUser e user = e\<lparr>mUser := user\<rparr>"

definition EdEvent_getUserLong :: "'o EdEvent_scheme \<Rightarrow> u64" where
  "EdEvent_getUserLong e = mUser e"

definition EdEvent_setUserLong :: "'o EdEvent_scheme \<Rightarrow> u64 \<Rightarrow> 'o EdEvent_scheme" where
  "EdEvent_setUserLong e data = e\<lparr>mUser := data\<rparr>"

definition EdEvent_getUserInt :: "'o EdEvent_scheme \<Rightarrow> u32" where
  "EdEvent_getUserInt e = ucast (mUser e)"

definition EdEvent_setUserInt :: "'o EdEvent_scheme \<Rightarrow> u32 \<Rightarrow> 'o EdEvent_scheme" where
  "EdEvent_setUserInt e data = e\<lparr>mUser := push_bit 32 (drop_bit 32 (mUser e)) OR ucast data\<rparr>"

lemma getUserInt_setUserInt [simp]: "EdEvent_getUserInt (EdEvent_setUserInt e data) = data"
  by (rule bit_word_eqI) (auto simp: EdEvent_getUserInt_def EdEvent_setUserInt_def bit_simps)

definition EdEvent_setFd :: "'o EdEvent_scheme \<Rightarrow> int \<Rightarrow> thread_env \<Rightarrow> 'o EdEvent_scheme" where
  "EdEvent_setFd e fd cur = e\<lparr>mFd := fd, mContext := curContext cur, mTask := curTask cur\<rparr>"

definition EdEvent_setDefaultContext :: "'o EdEvent_scheme \<Rightarrow> thread_env \<Rightarrow> 'o EdEvent_scheme" where
  "EdEvent_setDefaultContext e cur = e\<lparr>mContext := curContext cur\<rparr>"

text \<open>\<^verbatim>\<open>registerEvent\<close> in the mode without libevent; the flags only go to \<^verbatim>\<open>epoll_ctl\<close>.\<close>

definition EdEvent_registerEvent ::
  "'o EdEvent_scheme \<Rightarrow> 'w evsys_scheme \<Rightarrow> addr \<Rightarrow> int \<Rightarrow> fault + ('o EdEvent_scheme \<times> 'w evsys_scheme)" where
  "EdEvent_registerEvent e w a ctl =
     (if mIsReg e then Inr (e, w)
      else if mContext e = NULL then Inl Bad_access
      else if cmode w = 0
      then if mEvt e = NULL
           then if mTask e = NULL then Inl Bad_access
                else bindr (EdTask_regEdEvent w a ctl (mFd e) EsCb (eself e)) (\<lambda>(p, w).
                     Inr (e\<lparr>mEvt := p, mIsReg := True\<rparr>, w))
           else Inr (e, w)
      else Inr (e, w))"

definition EdEvent_deregisterEvent ::
  "'o EdEvent_scheme \<Rightarrow> 'w evsys_scheme \<Rightarrow> thread_env \<Rightarrow> int \<Rightarrow> fault + ('o EdEvent_scheme \<times> 'w evsys_scheme)" where
  "EdEvent_deregisterEvent e w cur ctl =
     (if mTask e \<noteq> curTask cur then Inl Assert_failed
      else if \<not> mIsReg e then Inr (e, w)
      else if mContext e = NULL then Inl Bad_access
      else bindr (if cmode w = 0 \<and> mEvt e \<noteq> NULL
                  then if mTask e = NULL then Inl Bad_access
                       else bindr (EdTask_deregEdEvent w (mEvt e) ctl) (\<lambda>w. Inr (e\<lparr>mEvt := NULL\<rparr>, w))
                  else Inr (e, w)) (\<lambda>(e, w).
           Inr (e\<lparr>mIsReg := False, mTask := NULL\<rparr>, w)))"

definition EdEvent_changeEvent ::
  "'o EdEvent_scheme \<Rightarrow> 'w evsys_scheme \<Rightarrow> addr \<Rightarrow> int \<Rightarrow> fault + ('o EdEvent_scheme \<times> 'w evsys_scheme)" where
  "EdEvent_changeEvent e w a ctl =
     (if mContext e = NULL then Inl Bad_access
      else if cmode w = 0
      then if mEvt e \<noteq> NULL
           then if mTask e = NULL then Inl Bad_access
                else bindr (EdTask_changeEdEvent w (mEvt e) ctl) (\<lambda>_. Inr (e, w))
           else EdEvent_registerEvent e w a ctl
      else Inr (e, w))"

text \<open>The destructor.\<close>

definition EdEvent_destroy :: "'o EdEvent_scheme \<Rightarrow> 'w evsys_scheme \<Rightarrow> thread_env \<Rightarrow> int \<Rightarrow> fault + ('o EdEvent_scheme \<times> 'w evsys_scheme)" where
  "EdEvent_destroy e w cur ctl =
     (if mEvt e \<noteq> NULL
      then if curTask cur \<noteq> mTask e then Inl Assert_failed else EdEvent_deregisterEvent e w cur ctl
      else Inr (e, w))"

text \<open>Which virtual method \<^verbatim>\<open>esevent_cb\<close> calls.\<close>

datatype handler = OnEventRead | OnEventWrite | OnEventHangup | NoHandler

definition EdEvent_esevent_cb :: "u32 \<Rightarrow> handler" where
  "EdEvent_esevent_cb events =
     (if events AND EVT_READ \<noteq> 0 then OnEventRead
      else if events AND EVT_WRITE \<noteq> 0 then OnEventWrite
      else if events AND EVT_HANGUP \<noteq> 0 then OnEventHangup
      else NoHandler)"

section \<open>Classes with one descriptor\<close>

text \<open>\<^verbatim>\<open>EdEventFd\<close>: \<open>fd\<close> is the result of \<^verbatim>\<open>eventfd\<close>, \<open>wcnt\<close> and \<open>rcnt\<close> those of \<^verbatim>\<open>write\<close> and \<^verbatim>\<open>read\<close>.\<close>

definition EdEventFd_open :: "'o EdEvent_scheme \<Rightarrow> 'w evsys_scheme \<Rightarrow> addr \<Rightarrow> int \<Rightarrow> int \<Rightarrow> thread_env \<Rightarrow> fault + (int \<times> 'o EdEvent_scheme \<times> 'w evsys_scheme)" where
  "EdEventFd_open e w a fd ctl cur =
     (if fd \<ge> 0
      then bindr (EdEvent_registerEvent (EdEvent_setFd e fd cur) w a ctl) (\<lambda>(e, w). Inr (fd, e, w))
      else Inr (- 1, e, w))"

definition EdEventFd_close :: "'o EdEvent_scheme \<Rightarrow> 'w evsys_scheme \<Rightarrow> int \<Rightarrow> thread_env \<Rightarrow> fault + ('o EdEvent_scheme \<times> 'w evsys_scheme)" where
  "EdEventFd_close e w ctl cur =
     (if mFd e \<ge> 0
      then bindr (EdEvent_deregisterEvent e w cur ctl) (\<lambda>(e, w). Inr (e\<lparr>mFd := - 1\<rparr>, w))
      else Inr (e, w))"

definition EdEventFd_raise :: "int \<Rightarrow> int" where
  "EdEventFd_raise wcnt = (if wcnt = 8 then 0 else - 1)"

text \<open>The count given to \<^verbatim>\<open>OnEventFd\<close>, when it is called.\<close>

definition EdEventFd_OnEventRead :: "int \<Rightarrow> u64 \<Rightarrow> int option" where
  "EdEventFd_OnEventRead rcnt cnt = (if rcnt = 8 then Some (sint (ucast cnt :: u32)) else None)"

record EdPipe = EdEvent +
  mRecvFd :: int
  mSendFd :: int
  pLis :: bool

definition EdPipe_open :: "'o EdPipe_scheme \<Rightarrow> 'w evsys_scheme \<Rightarrow> addr \<Rightarrow> bool \<Rightarrow> int \<Rightarrow> int \<Rightarrow> int \<Rightarrow> int \<Rightarrow> thread_env \<Rightarrow> fault + (int \<times> 'o EdPipe_scheme \<times> 'w evsys_scheme)" where
  "EdPipe_open e w a lis ret rfd sfd ctl cur =
     (let e = (if lis then e\<lparr>pLis := lis\<rparr> else e) in
      if ret = 0
      then let e = e\<lparr>mRecvFd := rfd, mSendFd := sfd\<rparr>;
               e = (if mContext e = NULL then EdEvent_setDefaultContext e cur else e)
           in bindr (EdEvent_registerEvent (EdEvent_setFd e (mRecvFd e) cur) w a ctl) (\<lambda>(e, w). Inr (ret, e, w))
      else Inr (ret, e, w))"

definition EdPipe_close :: "'o EdPipe_scheme \<Rightarrow> 'w evsys_scheme \<Rightarrow> int \<Rightarrow> thread_env \<Rightarrow> fault + ('o EdPipe_scheme \<times> 'w evsys_scheme)" where
  "EdPipe_close e w ctl cur =
     (if mRecvFd e \<noteq> - 1
      then bindr (EdEvent_deregisterEvent e w cur ctl) (\<lambda>(e, w). Inr (e\<lparr>mRecvFd := - 1, mSendFd := - 1\<rparr>, w))
      else Inr (e, w))"

record EdSignalFd = EdEvent +
  sgLis :: bool

text \<open>\<^verbatim>\<open>EdSignalFd\<close>: \<open>fd\<close> is the result of \<^verbatim>\<open>signalfd\<close>; a short read closes the object.\<close>

definition EdSignalFd_setSignal :: "'o EdEvent_scheme \<Rightarrow> 'w evsys_scheme \<Rightarrow> addr \<Rightarrow> int \<Rightarrow> int \<Rightarrow> thread_env \<Rightarrow> fault + (int \<times> 'o EdEvent_scheme \<times> 'w evsys_scheme)" where
  "EdSignalFd_setSignal e w a fd ctl cur =
     (if fd < 0 then Inr (- 1, e, w)
      else bindr (EdEvent_registerEvent (EdEvent_setFd e fd cur) w a ctl) (\<lambda>(e, w). Inr (0, e, w)))"

definition EdSignalFd_close :: "'o EdEvent_scheme \<Rightarrow> 'w evsys_scheme \<Rightarrow> int \<Rightarrow> thread_env \<Rightarrow> fault + ('o EdEvent_scheme \<times> 'w evsys_scheme)" where
  "EdSignalFd_close e w ctl cur =
     (if mFd e \<ge> 0
      then bindr (EdEvent_deregisterEvent e w cur ctl) (\<lambda>(e, w). Inr (e\<lparr>mFd := - 1\<rparr>, w))
      else Inr (e, w))"

definition EdSignalFd_OnEventRead ::
  "'o EdSignalFd_scheme \<Rightarrow> 'w evsys_scheme \<Rightarrow> int \<Rightarrow> u32 \<Rightarrow> int \<Rightarrow> thread_env \<Rightarrow> fault + (u32 option \<times> 'o EdSignalFd_scheme \<times> 'w evsys_scheme)" where
  "EdSignalFd_OnEventRead e w rcnt signo ctl cur =
     (if rcnt \<noteq> 128
      then bindr (EdSignalFd_close e w ctl cur) (\<lambda>(e, w). Inr (None, e, w))
      else Inr (if sgLis e then Some signo else None, e, w))"

record timespec =
  tv_sec :: nat
  tv_nsec :: nat

record EdTimer = EdEvent +
  it_interval :: timespec
  it_value :: timespec
  mLis :: bool
  armed :: "(timespec \<times> timespec) option"
  mHitCount :: u64

definition usec_spec :: "u64 \<Rightarrow> timespec" where
  "usec_spec us = \<lparr>tv_sec = unat us div 1000000, tv_nsec = (unat us mod 1000000) * 1000\<rparr>"

text \<open>\<open>armed\<close> is what the timer descriptor was last told.\<close>

definition EdTimer_setUsec :: "'o EdTimer_scheme \<Rightarrow> 'w evsys_scheme \<Rightarrow> addr \<Rightarrow> int \<Rightarrow> int \<Rightarrow> thread_env \<Rightarrow> u64 \<Rightarrow> u64 \<Rightarrow> bool \<Rightarrow> fault + ('o EdTimer_scheme \<times> 'w evsys_scheme)" where
  "EdTimer_setUsec e w a fd ctl cur usec first_usec lis =
     (let e = (if lis then e\<lparr>mLis := lis\<rparr> else e) in
     bindr (if mFd e < 0 then EdEvent_registerEvent (EdEvent_setFd e fd cur) w a ctl else Inr (e, w)) (\<lambda>(e, w).
     let iusec = (if first_usec = 0 then usec else first_usec);
         e = e\<lparr>it_interval := usec_spec usec, it_value := usec_spec iusec\<rparr>
     in Inr (e\<lparr>armed := Some (it_interval e, it_value e)\<rparr>, w)))"

text \<open>The products of \<^verbatim>\<open>set\<close> are computed in \<^verbatim>\<open>u32\<close> before they are converted.\<close>

definition EdTimer_set :: "'o EdTimer_scheme \<Rightarrow> 'w evsys_scheme \<Rightarrow> addr \<Rightarrow> int \<Rightarrow> int \<Rightarrow> thread_env \<Rightarrow> u32 \<Rightarrow> u32 \<Rightarrow> bool \<Rightarrow> fault + ('o EdTimer_scheme \<times> 'w evsys_scheme)" where
  "EdTimer_set e w a fd ctl cur msec first_msec lis =
     EdTimer_setUsec e w a fd ctl cur (ucast (msec * 1000)) (ucast (first_msec * 1000)) lis"

definition EdTimer_kill :: "'o EdTimer_scheme \<Rightarrow> 'w evsys_scheme \<Rightarrow> int \<Rightarrow> thread_env \<Rightarrow> fault + ('o EdTimer_scheme \<times> 'w evsys_scheme)" where
  "EdTimer_kill e w ctl cur =
     (if mFd e < 0 then Inr (e, w)
      else bindr (EdEvent_deregisterEvent e w cur ctl) (\<lambda>(e, w). Inr (e\<lparr>mFd := - 1, armed := None\<rparr>, w)))"

definition EdTimer_pause :: "'o EdTimer_scheme \<Rightarrow> 'o EdTimer_scheme" where
  "EdTimer_pause e = e\<lparr>armed := Some (\<lparr>tv_sec = 0, tv_nsec = 0\<rparr>, \<lparr>tv_sec = 0, tv_nsec = 0\<rparr>)\<rparr>"

definition EdTimer_resume :: "'o EdTimer_scheme \<Rightarrow> 'o EdTimer_scheme" where
  "EdTimer_resume e = e\<lparr>armed := Some (it_interval e, it_value e)\<rparr>"

definition EdTimer_reset :: "'o EdTimer_scheme \<Rightarrow> 'o EdTimer_scheme" where
  "EdTimer_reset e = EdTimer_resume (EdTimer_pause e)"

definition EdTimer_isActive :: "'o EdTimer_scheme \<Rightarrow> bool" where
  "EdTimer_isActive e = (mFd e \<ge> 0)"

text \<open>Whether a listener runs; a failed read is only logged.\<close>

definition EdTimer_OnTimer :: "'o EdTimer_scheme \<Rightarrow> bool" where
  "EdTimer_OnTimer e = mLis e"

definition EdTimer_OnEventRead :: "'o EdTimer_scheme \<Rightarrow> int \<Rightarrow> u64 \<Rightarrow> 'o EdTimer_scheme \<times> bool" where
  "EdTimer_OnEventRead e rcnt hits =
     (let e = (if rcnt = 8 then e\<lparr>mHitCount := hits\<rparr> else e) in (e, EdTimer_OnTimer e))"

text \<open>\<^verbatim>\<open>EdMq\<close>: \<open>mqo\<close> is the call of \<^verbatim>\<open>mq_open\<close> (name, flags, mode, attributes), \<open>qattr\<close> what \<^verbatim>\<open>mq_getattr\<close>
  tells of the queue, \<open>ctl\<close> the result of \<^verbatim>\<open>epoll_ctl\<close> for the watched events.\<close>

record mq_attr =
  mq_flags :: int
  mq_maxmsg :: int
  mq_msgsize :: int
  mq_curmsgs :: int

definition O_RDWR :: u32 where "O_RDWR = 2"
definition O_CREAT :: u32 where "O_CREAT = 64"
definition O_EXCL :: u32 where "O_EXCL = 128"
definition O_NONBLOCK :: u32 where "O_NONBLOCK = 2048"
definition S_IWUSR :: u32 where "S_IWUSR = 128"
definition S_IRUSR :: u32 where "S_IRUSR = 256"

record EdMq = EdEvent +
  mMqd :: int
  mQueueName :: string
  mQAttr :: mq_attr
  qLis :: bool

type_synonym mq_open_call = "string \<Rightarrow> u32 \<Rightarrow> u32 \<Rightarrow> mq_attr option \<Rightarrow> int"

definition EdMq_open :: "'o EdMq_scheme \<Rightarrow> 'w evsys_scheme \<Rightarrow> addr \<Rightarrow> mq_open_call \<Rightarrow> mq_attr \<Rightarrow> (u32 \<Rightarrow> int) \<Rightarrow> thread_env \<Rightarrow>
    string \<Rightarrow> u32 \<Rightarrow> u32 \<Rightarrow> mq_attr option \<Rightarrow> fault + (int \<times> 'o EdMq_scheme \<times> 'w evsys_scheme)" where
  "EdMq_open e w a mqo qattr ctl cur name oflag mode attr =
     (let mode = (if mode = 0 \<and> oflag AND O_CREAT \<noteq> 0 then S_IWUSR OR S_IRUSR else mode);
          e = e\<lparr>mMqd := mqo name oflag mode attr\<rparr> in
      if mMqd e < 0 then Inr (mMqd e, e, w)
      else let e = EdEvent_setFd (e\<lparr>mQAttr := qattr, mQueueName := name\<rparr>) (mMqd e) cur;
               eflag = (if oflag AND O_CREAT \<noteq> 0 then EVT_READ else 0)
           in bindr (EdEvent_registerEvent e w a (ctl eflag)) (\<lambda>(e, w). Inr (mMqd e, e, w)))"

definition EdMq_close :: "'o EdMq_scheme \<Rightarrow> 'w evsys_scheme \<Rightarrow> int \<Rightarrow> thread_env \<Rightarrow> fault + ('o EdMq_scheme \<times> 'w evsys_scheme)" where
  "EdMq_close e w ctl cur =
     (if mMqd e > 0
      then bindr (EdEvent_deregisterEvent e w cur ctl) (\<lambda>(e, w). Inr (e\<lparr>mMqd := 0\<rparr>, w))
      else Inr (e, w))"

section \<open>Timers of a task\<close>

definition EdTimer_new :: "addr \<Rightarrow> thread_env \<Rightarrow> EdTimer" where
  "EdTimer_new self cur = EdEvent.extend (EdEvent_new self cur)
     \<lparr>it_interval = \<lparr>tv_sec = 0, tv_nsec = 0\<rparr>, it_value = \<lparr>tv_sec = 0, tv_nsec = 0\<rparr>, mLis = False, armed = None, mHitCount = 0\<rparr>"

definition EdTimer_destroy :: "'o EdTimer_scheme \<Rightarrow> 'w evsys_scheme \<Rightarrow> int \<Rightarrow> thread_env \<Rightarrow> fault + ('o EdTimer_scheme \<times> 'w evsys_scheme)" where
  "EdTimer_destroy e w ctl cur = bindr (EdTimer_kill e w ctl cur) (\<lambda>(e, w). EdEvent_destroy e w cur ctl)"

record TaskTimer = EdTimer +
  timerId :: u32

definition TaskTimer_new :: "u32 \<Rightarrow> addr \<Rightarrow> thread_env \<Rightarrow> TaskTimer" where
  "TaskTimer_new tid self cur = EdTimer.extend (EdTimer_new self cur) \<lparr>timerId = tid\<rparr>"

type_synonym timer_map = "u32 \<rightharpoonup> TaskTimer"

text \<open>\<open>task\<close> is the task the timer is set on, \<open>self\<close> the address of a new timer.\<close>

definition EdTask_setTimer ::
  "timer_map \<Rightarrow> 'w evsys_scheme \<Rightarrow> addr \<Rightarrow> addr \<Rightarrow> addr \<Rightarrow> int \<Rightarrow> int \<Rightarrow> thread_env \<Rightarrow> u32 \<Rightarrow> u32 \<Rightarrow> u32 \<Rightarrow> fault + (timer_map \<times> 'w evsys_scheme)" where
  "EdTask_setTimer m w task self a fd ctl cur tid msec inittime =
     (let pt = (case m tid of Some pt \<Rightarrow> pt | None \<Rightarrow> EdEvent_setUser (TaskTimer_new tid self cur) task) in
      bindr (EdTimer_set pt w a fd ctl cur msec inittime False) (\<lambda>(pt, w). Inr (m(tid \<mapsto> pt), w)))"

definition EdTask_killTimer :: "timer_map \<Rightarrow> 'w evsys_scheme \<Rightarrow> int \<Rightarrow> thread_env \<Rightarrow> u32 \<Rightarrow> fault + (timer_map \<times> 'w evsys_scheme)" where
  "EdTask_killTimer m w ctl cur tid =
     (case m tid of
        None \<Rightarrow> Inr (m, w)
      | Some pt \<Rightarrow> bindr (EdTimer_kill pt w ctl cur) (\<lambda>(pt, w).
                   bindr (EdTimer_destroy pt w ctl cur) (\<lambda>(_, w). Inr (m(tid := None), w))))"

text \<open>\<^verbatim>\<open>cleanupAllTimer\<close>, over the ids in the order the map yields them.\<close>

fun EdTask_cleanupAllTimer :: "timer_map \<Rightarrow> 'w evsys_scheme \<Rightarrow> int \<Rightarrow> thread_env \<Rightarrow> u32 list \<Rightarrow> fault + (timer_map \<times> 'w evsys_scheme)" where
  "EdTask_cleanupAllTimer m w ctl cur [] = Inr (Map.empty, w)"
| "EdTask_cleanupAllTimer m w ctl cur (tid # ids) =
     bindr (EdTask_killTimer m w ctl cur tid) (\<lambda>(m, w). EdTask_cleanupAllTimer m w ctl cur ids)"

section \<open>Registered and unregistered objects\<close>

definition env_ok :: "'w evsys_scheme \<Rightarrow> thread_env \<Rightarrow> bool" where
  "env_ok w cur \<longleftrightarrow> curTask cur \<noteq> NULL \<and> curContext cur \<noteq> NULL \<and> cmode w = 0"

definition ev_off :: "'o EdEvent_scheme \<Rightarrow> bool" where
  "ev_off e \<longleftrightarrow> \<not> mIsReg e \<and> mEvt e = NULL"

definition ev_on :: "'o EdEvent_scheme \<Rightarrow> addr \<Rightarrow> addr \<Rightarrow> bool" where
  "ev_on e t p \<longleftrightarrow> mIsReg e \<and> mEvt e = p \<and> p \<noteq> NULL \<and> mTask e = t \<and> mContext e \<noteq> NULL"

lemma ev_on_off_updates [simp]:
  "ev_off (e\<lparr>mFd := x\<rparr>) = ev_off e" "ev_on (e\<lparr>mFd := x\<rparr>) t p = ev_on e t p"
  "ev_off (EdEvent_setFd e x cur) = ev_off e"
  by (simp_all add: ev_off_def ev_on_def EdEvent_setFd_def)

lemma setFd_simps [simp]:
  "mFd (EdEvent_setFd e fd cur) = fd" "mContext (EdEvent_setFd e fd cur) = curContext cur"
  "mTask (EdEvent_setFd e fd cur) = curTask cur"
  "EdEvent.more (EdEvent_setFd e fd cur) = EdEvent.more e"
  by (simp_all add: EdEvent_setFd_def)

lemma setFd_registerEvent_ok:
  assumes off: "ev_off e" and r: "ev_rep w es ds" and env: "env_ok w cur"
    and a: "ehdrs w a = None" "a \<noteq> NULL" and fd: "0 < fd"
  obtains e' w' where "EdEvent_registerEvent (EdEvent_setFd e fd cur) w a 0 = Inr (e', w')"
    "e' = (EdEvent_setFd e fd cur)\<lparr>mEvt := a, mIsReg := True\<rparr>" "ev_on e' (curTask cur) a" "mFd e' = fd"
    "ev_rep w' (es @ [a]) ds" "evts w' = (evts w)(a \<mapsto> \<lparr>evfd = fd, evuser = eself e, isReg = True, ecb = EsCb\<rparr>)" "cmode w' = cmode w"
proof -
  let ?e = "EdEvent_setFd e fd cur"
  have fd0: "fd \<noteq> 0" using fd by simp
  show thesis
  proof (rule regEdEvent_ok [OF r a fd0, of EsCb "eself e"])
    fix w' assume w': "EdTask_regEdEvent w a 0 fd EsCb (eself e) = Inr (a, w')" "ev_rep w' (es @ [a]) ds"
      "evts w' = (evts w)(a \<mapsto> \<lparr>evfd = fd, evuser = eself e, isReg = True, ecb = EsCb\<rparr>)" "cmode w' = cmode w"
    have "EdEvent_registerEvent ?e w a 0 = Inr (?e\<lparr>mEvt := a, mIsReg := True\<rparr>, w')"
      using off env w'(1) by (simp add: EdEvent_registerEvent_def ev_off_def env_ok_def EdEvent_setFd_def)
    moreover have "ev_on (?e\<lparr>mEvt := a, mIsReg := True\<rparr>) (curTask cur) a" using env a(2) by (simp add: ev_on_def env_ok_def)
    ultimately show thesis using w'(2-4) by (intro that [of "?e\<lparr>mEvt := a, mIsReg := True\<rparr>" w']) simp_all
  qed
qed

lemma deregisterEvent_ok:
  assumes on: "ev_on e (curTask cur) p" and r: "ev_rep w es ds" and env: "env_ok w cur" and p: "p \<in> set es"
  obtains w' where "EdEvent_deregisterEvent e w cur 0 = Inr (e\<lparr>mEvt := NULL, mIsReg := False, mTask := NULL\<rparr>, w')"
    "ev_rep w' (remove1 p es) (ds @ [p])" "cmode w' = cmode w" "\<exists>e. evts w p = Some e \<and> evts w' = (evts w)(p \<mapsto> e\<lparr>isReg := False\<rparr>)"
proof (rule deregEdEvent_ok [OF r p])
  fix w' assume w': "EdTask_deregEdEvent w p 0 = Inr w'" "ev_rep w' (remove1 p es) (ds @ [p])" "cmode w' = cmode w"
    "\<exists>e. evts w p = Some e \<and> evts w' = (evts w)(p \<mapsto> e\<lparr>isReg := False\<rparr>)"
  have "EdEvent_deregisterEvent e w cur 0 = Inr (e\<lparr>mEvt := NULL, mIsReg := False, mTask := NULL\<rparr>, w')"
    using on env w'(1) by (simp add: EdEvent_deregisterEvent_def ev_on_def env_ok_def)
  then show thesis using that w'(2-4) by blast
qed

text \<open>Deregistering twice fails: the first call clears the task of the object.\<close>

lemma deregisterEvent_twice:
  assumes "EdEvent_deregisterEvent e w cur ctl = Inr (e', w')" "mIsReg e" "curTask cur \<noteq> NULL"
  shows "EdEvent_deregisterEvent e' w' cur ctl = Inl Assert_failed"
proof -
  have "mTask e' = NULL"
    using assms by (auto simp: EdEvent_deregisterEvent_def bindr_def split: if_splits sum.splits)
  then show ?thesis using assms(3) by (simp add: EdEvent_deregisterEvent_def)
qed

section \<open>The life cycle of a descriptor object\<close>

text \<open>A life of an object: opened on the addresses and descriptors of a list, one after the other,
  and closed twice each time.\<close>

fun fd_life :: "('e \<Rightarrow> 'w evsys_scheme \<Rightarrow> addr \<Rightarrow> int \<Rightarrow> thread_env \<Rightarrow> fault + ('e \<times> 'w evsys_scheme)) \<Rightarrow>
    ('e \<Rightarrow> 'w evsys_scheme \<Rightarrow> thread_env \<Rightarrow> fault + ('e \<times> 'w evsys_scheme)) \<Rightarrow> 'e \<Rightarrow> 'w evsys_scheme \<Rightarrow> thread_env \<Rightarrow> (addr \<times> int) list \<Rightarrow> fault + ('e \<times> 'w evsys_scheme)" where
  "fd_life opn cls e w cur [] = Inr (e, w)"
| "fd_life opn cls e w cur ((a, fd) # as) =
     bindr (opn e w a fd cur) (\<lambda>(e, w). bindr (cls e w cur) (\<lambda>(e, w). bindr (cls e w cur) (\<lambda>(e, w). fd_life opn cls e w cur as)))"

text \<open>What the classes with one descriptor promise: opening a closed object registers one event,
  closing an open one deregisters exactly that event, closing a closed one does nothing.\<close>

locale fd_object =
  fixes open_op :: "'e \<Rightarrow> 'w evsys_scheme \<Rightarrow> addr \<Rightarrow> int \<Rightarrow> thread_env \<Rightarrow> fault + ('e \<times> 'w evsys_scheme)"
    and close_op :: "'e \<Rightarrow> 'w evsys_scheme \<Rightarrow> thread_env \<Rightarrow> fault + ('e \<times> 'w evsys_scheme)"
    and closed_obj :: "'e \<Rightarrow> bool"
    and open_obj :: "'e \<Rightarrow> addr \<Rightarrow> addr \<Rightarrow> bool"
  assumes open_law: "closed_obj e \<Longrightarrow> ev_rep w es ds \<Longrightarrow> env_ok w cur \<Longrightarrow> ehdrs w a = None \<Longrightarrow> a \<noteq> NULL \<Longrightarrow> 0 < fd \<Longrightarrow>
      \<exists>e' w'. open_op e w a fd cur = Inr (e', w') \<and> open_obj e' (curTask cur) a \<and> ev_rep w' (es @ [a]) ds \<and>
        map_option evfd (evts w' a) = Some fd \<and> cmode w' = cmode w"
    and close_law: "open_obj e (curTask cur) p \<Longrightarrow> ev_rep w es ds \<Longrightarrow> env_ok w cur \<Longrightarrow> p \<in> set es \<Longrightarrow>
      \<exists>e' w'. close_op e w cur = Inr (e', w') \<and> closed_obj e' \<and> ev_rep w' (remove1 p es) (ds @ [p]) \<and> cmode w' = cmode w"
    and close_closed: "closed_obj e \<Longrightarrow> close_op e w cur = Inr (e, w)"
begin

lemma one_cycle:
  assumes "closed_obj e" "ev_rep w es ds" "env_ok w cur" "ehdrs w a = None" "a \<noteq> NULL" "0 < fd"
  shows "\<exists>e1 w1 e2 w2. open_op e w a fd cur = Inr (e1, w1) \<and> map_option evfd (evts w1 a) = Some fd \<and> ev_rep w1 (es @ [a]) ds \<and>
     close_op e1 w1 cur = Inr (e2, w2) \<and> close_op e2 w2 cur = Inr (e2, w2) \<and> closed_obj e2 \<and>
     ev_rep w2 es (ds @ [a]) \<and> env_ok w2 cur"
proof -
  obtain e1 w1 where 1: "open_op e w a fd cur = Inr (e1, w1)" "open_obj e1 (curTask cur) a" "ev_rep w1 (es @ [a]) ds"
    "map_option evfd (evts w1 a) = Some fd" "cmode w1 = cmode w" using open_law [OF assms] by blast
  have env: "env_ok w1 cur" using assms(3) 1(5) by (simp add: env_ok_def)
  have "a \<in> set (es @ [a])" by simp
  from close_law [OF 1(2,3) env this] obtain e2 w2 where
    2: "close_op e1 w1 cur = Inr (e2, w2)" "closed_obj e2" "ev_rep w2 (remove1 a (es @ [a])) (ds @ [a])" "cmode w2 = cmode w1" by blast
  have "a \<notin> set es" using assms(2,4) by (auto simp: ev_rep_def)
  then have "remove1 a (es @ [a]) = es" by (simp add: remove1_append)
  moreover have "env_ok w2 cur" using env 2(4) by (simp add: env_ok_def)
  ultimately show ?thesis using 1 2 close_closed [OF 2(2), of w2 cur] by metis
qed

lemma life_safe:
  "closed_obj e \<Longrightarrow> ev_rep w es ds \<Longrightarrow> env_ok w cur \<Longrightarrow> distinct (map fst as) \<Longrightarrow>
     \<forall>(a, fd) \<in> set as. a \<notin> set (es @ ds) \<and> a \<noteq> NULL \<and> 0 < fd \<Longrightarrow>
     \<exists>e' w'. fd_life open_op close_op e w cur as = Inr (e', w') \<and> closed_obj e' \<and> ev_rep w' es (ds @ map fst as)"
proof (induction as arbitrary: e w ds)
  case Nil
  then show ?case by auto
next
  case (Cons x as)
  obtain a fd where x: "x = (a, fd)" by (cases x)
  have a: "ehdrs w a = None" "a \<noteq> NULL" "0 < fd"
    using Cons.prems(2,5) x by (auto simp: ev_rep_def domIff [symmetric])
  obtain e1 w1 e2 w2 where 1: "open_op e w a fd cur = Inr (e1, w1)" "close_op e1 w1 cur = Inr (e2, w2)"
    "close_op e2 w2 cur = Inr (e2, w2)" "closed_obj e2" "ev_rep w2 es (ds @ [a])" "env_ok w2 cur"
    using one_cycle [OF Cons.prems(1-3) a] by blast
  have "\<forall>(b, fd) \<in> set as. b \<notin> set (es @ ds @ [a]) \<and> b \<noteq> NULL \<and> 0 < fd" using Cons.prems(4,5) x by force
  from Cons.IH [OF 1(4-6) _ this] Cons.prems(4) x 1(1-3) show ?case by auto
qed

end

text \<open>The classes keep the contract. An \<^verbatim>\<open>EdEventFd\<close>, an \<^verbatim>\<open>EdSignalFd\<close> and an \<^verbatim>\<open>EdTimer\<close> are closed
  when \<^verbatim>\<open>mFd\<close> is negative, an \<^verbatim>\<open>EdPipe\<close> when \<^verbatim>\<open>mRecvFd\<close> is -1, an \<^verbatim>\<open>EdMq\<close> when \<^verbatim>\<open>mMqd\<close> is not positive.\<close>

definition fd_closed :: "'o EdEvent_scheme \<Rightarrow> bool" where
  "fd_closed e \<longleftrightarrow> ev_off e \<and> mFd e < 0"

definition fd_open :: "'o EdEvent_scheme \<Rightarrow> addr \<Rightarrow> addr \<Rightarrow> bool" where
  "fd_open e t p \<longleftrightarrow> ev_on e t p \<and> 0 < mFd e"

definition pipe_closed :: "'o EdPipe_scheme \<Rightarrow> bool" where
  "pipe_closed e \<longleftrightarrow> ev_off e \<and> mRecvFd e = - 1"

definition pipe_open :: "'o EdPipe_scheme \<Rightarrow> addr \<Rightarrow> addr \<Rightarrow> bool" where
  "pipe_open e t p \<longleftrightarrow> ev_on e t p \<and> 0 < mRecvFd e"

definition mq_closed :: "'o EdMq_scheme \<Rightarrow> bool" where
  "mq_closed e \<longleftrightarrow> ev_off e \<and> mMqd e \<le> 0"

definition mq_opened :: "'o EdMq_scheme \<Rightarrow> addr \<Rightarrow> addr \<Rightarrow> bool" where
  "mq_opened e t p \<longleftrightarrow> ev_on e t p \<and> 0 < mMqd e"

text \<open>The operations of the classes in the shape of the contract; every system call succeeds.\<close>

definition drop_ret :: "fault + (int \<times> 'e \<times> 'w evsys_scheme) \<Rightarrow> fault + ('e \<times> 'w evsys_scheme)" where
  "drop_ret r = map_sum id snd r"

definition efd_open :: "'o EdEvent_scheme \<Rightarrow> 'w evsys_scheme \<Rightarrow> addr \<Rightarrow> int \<Rightarrow> thread_env \<Rightarrow> fault + ('o EdEvent_scheme \<times> 'w evsys_scheme)" where
  "efd_open e w a fd cur = drop_ret (EdEventFd_open e w a fd 0 cur)"

definition sfd_open :: "'o EdEvent_scheme \<Rightarrow> 'w evsys_scheme \<Rightarrow> addr \<Rightarrow> int \<Rightarrow> thread_env \<Rightarrow> fault + ('o EdEvent_scheme \<times> 'w evsys_scheme)" where
  "sfd_open e w a fd cur = drop_ret (EdSignalFd_setSignal e w a fd 0 cur)"

definition tmr_open :: "u64 \<Rightarrow> u64 \<Rightarrow> 'o EdTimer_scheme \<Rightarrow> 'w evsys_scheme \<Rightarrow> addr \<Rightarrow> int \<Rightarrow> thread_env \<Rightarrow> fault + ('o EdTimer_scheme \<times> 'w evsys_scheme)" where
  "tmr_open us first e w a fd cur = EdTimer_setUsec e w a fd 0 cur us first False"

definition pip_open :: "'o EdPipe_scheme \<Rightarrow> 'w evsys_scheme \<Rightarrow> addr \<Rightarrow> int \<Rightarrow> thread_env \<Rightarrow> fault + ('o EdPipe_scheme \<times> 'w evsys_scheme)" where
  "pip_open e w a fd cur = drop_ret (EdPipe_open e w a False 0 fd (fd + 1) 0 cur)"

definition emq_open :: "'o EdMq_scheme \<Rightarrow> 'w evsys_scheme \<Rightarrow> addr \<Rightarrow> int \<Rightarrow> thread_env \<Rightarrow> fault + ('o EdMq_scheme \<times> 'w evsys_scheme)" where
  "emq_open e w a fd cur = drop_ret (EdMq_open e w a (\<lambda>_ _ _ _. fd) (mQAttr e) (\<lambda>_. 0) cur ''/q'' (O_RDWR OR O_CREAT OR O_NONBLOCK) 0 None)"

lemma ev_on_updates [simp]:
  "ev_on (e\<lparr>it_interval := x, it_value := y, armed := z\<rparr>) t p = ev_on e t p"
  "ev_on (d\<lparr>mRecvFd := i, mSendFd := j\<rparr>) t p = ev_on d t p" "ev_off (d\<lparr>mRecvFd := i, mSendFd := j\<rparr>) = ev_off d"
  "ev_off (e\<lparr>armed := z\<rparr>) = ev_off e" "ev_off (q\<lparr>mMqd := k\<rparr>) = ev_off q" "ev_on (q\<lparr>mMqd := k\<rparr>) t p = ev_on q t p"
  "ev_off (q\<lparr>mQAttr := b, mQueueName := n\<rparr>) = ev_off q"
  by (simp_all add: ev_on_def ev_off_def)

lemma ev_off_dereg [simp]: "ev_off (e\<lparr>mEvt := NULL, mIsReg := False, mTask := NULL\<rparr>)"
  by (simp add: ev_off_def)

interpretation efd: fd_object efd_open "\<lambda>e w cur. EdEventFd_close e w 0 cur" fd_closed fd_open
proof (unfold_locales, goal_cases)
  case (1 e w es ds cur a fd)
  then have off: "ev_off e" by (simp add: fd_closed_def)
  show ?case
    by (rule setFd_registerEvent_ok [OF off 1(2-6)])
      (use 1(6) in \<open>auto simp: efd_open_def EdEventFd_open_def drop_ret_def fd_open_def\<close>)
next
  case (2 e cur p w es ds)
  then have on: "ev_on e (curTask cur) p" "0 < mFd e" by (simp_all add: fd_open_def)
  show ?case
    by (rule deregisterEvent_ok [OF on(1) 2(2-4)]) (use on(2) in \<open>auto simp: EdEventFd_close_def fd_closed_def\<close>)
next
  case (3 e w cur)
  then show ?case by (simp add: EdEventFd_close_def fd_closed_def)
qed

interpretation sfd: fd_object sfd_open "\<lambda>e w cur. EdSignalFd_close e w 0 cur" fd_closed fd_open
proof (unfold_locales, goal_cases)
  case (1 e w es ds cur a fd)
  then have off: "ev_off e" by (simp add: fd_closed_def)
  show ?case
    by (rule setFd_registerEvent_ok [OF off 1(2-6)])
      (use 1(6) in \<open>auto simp: sfd_open_def EdSignalFd_setSignal_def drop_ret_def fd_open_def\<close>)
next
  case (2 e cur p w es ds)
  then have on: "ev_on e (curTask cur) p" "0 < mFd e" by (simp_all add: fd_open_def)
  show ?case
    by (rule deregisterEvent_ok [OF on(1) 2(2-4)]) (use on(2) in \<open>auto simp: EdSignalFd_close_def fd_closed_def\<close>)
next
  case (3 e w cur)
  then show ?case by (simp add: EdSignalFd_close_def fd_closed_def)
qed

interpretation tmr: fd_object "tmr_open us first" "\<lambda>e w cur. EdTimer_kill e w 0 cur" fd_closed fd_open for us first
proof (unfold_locales, goal_cases)
  case (1 e w es ds cur a fd)
  then have off: "ev_off e" "mFd e < 0" by (simp_all add: fd_closed_def)
  show ?case
    by (rule setFd_registerEvent_ok [OF off(1) 1(2-6)])
      (use 1(6) off(2) in \<open>auto simp: tmr_open_def EdTimer_setUsec_def fd_open_def Let_def\<close>)
next
  case (2 e cur p w es ds)
  then have on: "ev_on e (curTask cur) p" "0 < mFd e" by (simp_all add: fd_open_def)
  show ?case
    by (rule deregisterEvent_ok [OF on(1) 2(2-4)]) (use on(2) in \<open>auto simp: EdTimer_kill_def fd_closed_def\<close>)
next
  case (3 e w cur)
  then show ?case by (simp add: EdTimer_kill_def fd_closed_def)
qed

interpretation pip: fd_object pip_open "\<lambda>e w cur. EdPipe_close e w 0 cur" pipe_closed pipe_open
proof (unfold_locales, goal_cases)
  case (1 e w es ds cur a fd)
  define d where "d = (let e = e\<lparr>mRecvFd := fd, mSendFd := fd + 1\<rparr> in if mContext e = NULL then EdEvent_setDefaultContext e cur else e)"
  have d: "mRecvFd d = fd" "ev_off d"
    using 1(1) by (simp_all add: d_def Let_def EdEvent_setDefaultContext_def pipe_closed_def ev_off_def)
  have run: "pip_open e w a fd cur = drop_ret (bindr (EdEvent_registerEvent (EdEvent_setFd d fd cur) w a 0) (\<lambda>(e, w). Inr (0, e, w)))"
    using d(1) by (simp add: pip_open_def EdPipe_open_def d_def Let_def)
  show ?case
    by (rule setFd_registerEvent_ok [OF d(2) 1(2-6)])
      (use 1(6) d(1) in \<open>auto simp: run drop_ret_def pipe_open_def EdEvent_setFd_def\<close>)
next
  case (2 e cur p w es ds)
  then have on: "ev_on e (curTask cur) p" "0 < mRecvFd e" by (simp_all add: pipe_open_def)
  show ?case
    by (rule deregisterEvent_ok [OF on(1) 2(2-4)]) (use on(2) in \<open>auto simp: EdPipe_close_def pipe_closed_def\<close>)
next
  case (3 e w cur)
  then show ?case by (simp add: EdPipe_close_def pipe_closed_def)
qed

interpretation emq: fd_object emq_open "\<lambda>e w cur. EdMq_close e w 0 cur" mq_closed mq_opened
proof (unfold_locales, goal_cases)
  case (1 e w es ds cur a fd)
  then have off: "ev_off (e\<lparr>mMqd := fd, mQueueName := ''/q''\<rparr>)" by (simp add: mq_closed_def ev_off_def)
  show ?case
    by (rule setFd_registerEvent_ok [OF off 1(2-6)])
      (use 1(6) in \<open>auto simp: emq_open_def EdMq_open_def drop_ret_def mq_opened_def EdEvent_setFd_def\<close>)
next
  case (2 e cur p w es ds)
  then have on: "ev_on e (curTask cur) p" "0 < mMqd e" by (simp_all add: mq_opened_def)
  show ?case
    by (rule deregisterEvent_ok [OF on(1) 2(2-4)]) (use on(2) in \<open>auto simp: EdMq_close_def mq_closed_def\<close>)
next
  case (3 e w cur)
  then show ?case by (simp add: EdMq_close_def mq_closed_def)
qed

section \<open>Refused registrations, reopened queues\<close>

text \<open>When epoll refuses the descriptor, the object still counts as registered; from then on
  \<^verbatim>\<open>changeEvent\<close> and \<^verbatim>\<open>registerEvent\<close> do nothing and report nothing.\<close>

lemma refused_registration_sticks:
  assumes "ev_off e" "env_ok w cur" "ehdrs w a = None" "evts w a = None" "ctl \<noteq> 0"
  obtains e' w' where "EdEvent_registerEvent (EdEvent_setFd e fd cur) w a ctl = Inr (e', w')" "mIsReg e'" "mEvt e' = NULL"
    "\<And>w'' b c. cmode w'' = 0 \<Longrightarrow> EdEvent_changeEvent e' w'' b c = Inr (e', w'') \<and> EdEvent_registerEvent e' w'' b c = Inr (e', w'')"
proof -
  let ?e = "(EdEvent_setFd e fd cur)\<lparr>mEvt := NULL, mIsReg := True\<rparr>"
  have "EdEvent_registerEvent (EdEvent_setFd e fd cur) w a ctl = Inr (?e, w\<lparr>evt_count := evt_count w + 1\<rparr>)"
    using assms regEdEvent_refused [OF assms(3-5)]
    by (simp add: EdEvent_registerEvent_def ev_off_def env_ok_def EdEvent_setFd_def)
  moreover have "cmode w'' = 0 \<Longrightarrow> EdEvent_changeEvent ?e w'' b c = Inr (?e, w'') \<and> EdEvent_registerEvent ?e w'' b c = Inr (?e, w'')" for w'' :: "'w evsys_scheme" and b c
    using assms(2) by (simp add: EdEvent_changeEvent_def EdEvent_registerEvent_def env_ok_def)
  ultimately show thesis by (intro that [of ?e]) simp_all
qed

text \<open>Opening an open message queue again closes the old descriptor, but its event stays the one that
  is registered, and the new descriptor is registered with nothing.\<close>

lemma mq_reopen_not_registered:
  assumes "mq_opened e t p" "0 < fd"
  shows "\<exists>e'. EdMq_open e w a (\<lambda>_ _ _ _. fd) qattr ctl cur name oflag mode attr = Inr (fd, e', w) \<and> mFd e' = fd \<and> mEvt e' = p"
  using assms by (simp add: EdMq_open_def Let_def EdEvent_registerEvent_def mq_opened_def ev_on_def EdEvent_setFd_def)

section \<open>Timer specifications\<close>

definition spec_usec :: "timespec \<Rightarrow> nat" where
  "spec_usec t = tv_sec t * 1000000 + tv_nsec t div 1000"

lemma spec_usec_inverse: "spec_usec (usec_spec us) = unat us" "tv_nsec (usec_spec us) < 1000000000"
proof -
  show "spec_usec (usec_spec us) = unat us" by (simp add: spec_usec_def usec_spec_def)
  have "unat us mod 1000000 < 1000000" by simp
  then show "tv_nsec (usec_spec us) < 1000000000" unfolding usec_spec_def timespec.simps by linarith
qed

lemma setUsec_arms:
  assumes "fd_closed e" "ev_rep w es ds" "env_ok w cur" "ehdrs w a = None" "a \<noteq> NULL" "0 < fd"
  obtains e' w' where "EdTimer_setUsec e w a fd 0 cur us first lis = Inr (e', w')"
    "armed e' = Some (usec_spec us, usec_spec (if first = 0 then us else first))"
    "it_interval e' = usec_spec us" "it_value e' = usec_spec (if first = 0 then us else first)"
    "EdTimer_isActive e'" "ev_rep w' (es @ [a]) ds"
proof -
  let ?e = "if lis then e\<lparr>mLis := lis\<rparr> else e"
  have off: "ev_off ?e" "mFd ?e < 0" using assms(1) by (auto simp: fd_closed_def ev_off_def)
  show thesis
    by (rule setFd_registerEvent_ok [OF off(1) assms(2-6)])
      (use off(2) assms(6) in \<open>auto intro!: that simp: EdTimer_setUsec_def Let_def EdTimer_isActive_def\<close>)
qed

lemma reset_rearms: "armed (EdTimer_reset e) = Some (it_interval e, it_value e)"
  by (simp add: EdTimer_reset_def EdTimer_resume_def EdTimer_pause_def)

lemma msec_exact: "unat m < 4294968 \<Longrightarrow> unat (ucast (m * 1000 :: u32) :: u64) = unat m * 1000"
  by (simp add: unat_ucast_up unat_word_ariths)

section \<open>Properties\<close>

text \<open>C29. Every class that owns a descriptor (event, signal, timer, pipe, message queue) can be opened
  and closed any number of times: each opening registers one event for the new descriptor, each
  closing deregisters exactly that event, closing again does nothing, no step fails, and in the end
  the registered events are those from before and every event of the life waits to be freed.\<close>

theorem descriptor_lifecycle:
  assumes c: "fd_closed e1" "fd_closed e2" "fd_closed e3" "pipe_closed e4" "mq_closed e5"
    and r: "ev_rep w es ds" and env: "env_ok w cur" and d: "distinct (map fst as)"
    and fresh: "\<forall>(a, fd) \<in> set as. a \<notin> set (es @ ds) \<and> a \<noteq> NULL \<and> 0 < fd"
  shows "(\<exists>e' w'. fd_life efd_open (\<lambda>e w cur. EdEventFd_close e w 0 cur) e1 w cur as = Inr (e', w') \<and> fd_closed e' \<and> ev_rep w' es (ds @ map fst as)) \<and>
    (\<exists>e' w'. fd_life sfd_open (\<lambda>e w cur. EdSignalFd_close e w 0 cur) e2 w cur as = Inr (e', w') \<and> fd_closed e' \<and> ev_rep w' es (ds @ map fst as)) \<and>
    (\<exists>e' w'. fd_life (tmr_open us first) (\<lambda>e w cur. EdTimer_kill e w 0 cur) e3 w cur as = Inr (e', w') \<and> fd_closed e' \<and> ev_rep w' es (ds @ map fst as)) \<and>
    (\<exists>e' w'. fd_life pip_open (\<lambda>e w cur. EdPipe_close e w 0 cur) e4 w cur as = Inr (e', w') \<and> pipe_closed e' \<and> ev_rep w' es (ds @ map fst as)) \<and>
    (\<exists>e' w'. fd_life emq_open (\<lambda>e w cur. EdMq_close e w 0 cur) e5 w cur as = Inr (e', w') \<and> mq_closed e' \<and> ev_rep w' es (ds @ map fst as))"
  using efd.life_safe [OF c(1) r env d fresh] sfd.life_safe [OF c(2) r env d fresh] tmr.life_safe [OF c(3) r env d fresh]
    pip.life_safe [OF c(4) r env d fresh] emq.life_safe [OF c(5) r env d fresh] by blast

definition task_env :: thread_env where
  "task_env = \<lparr>curTask = 5000, curContext = 6000\<rparr>"

lemma task_env_ok: "env_ok no_events task_env"
  by (simp add: env_ok_def task_env_def no_events_def)

lemma EdTimer_new_closed: "fd_closed (EdTimer_new self cur)"
  by (simp add: fd_closed_def ev_off_def EdTimer_new_def EdEvent_new_def EdEvent.extend_def)

theorem descriptor_lifecycle_witness:
  "\<exists>e' w'. fd_life (tmr_open 500 0) (\<lambda>e w cur. EdTimer_kill e w 0 cur) (EdTimer_new 7000 task_env) no_events task_env [(1000, 8), (2000, 9)] = Inr (e', w') \<and>
     fd_closed e' \<and> ev_rep w' [] [1000, 2000]"
proof -
  let ?p = "EdEvent.extend (EdEvent_new 7000 task_env) \<lparr>mRecvFd = - 1, mSendFd = - 1, pLis = False\<rparr>"
  let ?q = "EdEvent.extend (EdEvent_new 7000 task_env) \<lparr>mMqd = - 1, mQueueName = [], mQAttr = \<lparr>mq_flags = 0, mq_maxmsg = 0, mq_msgsize = 0, mq_curmsgs = 0\<rparr>, qLis = False\<rparr>"
  have c: "fd_closed (EdEvent_new 7000 task_env)" "pipe_closed ?p" "mq_closed ?q"
    by (simp_all add: fd_closed_def pipe_closed_def mq_closed_def ev_off_def EdEvent_new_def EdEvent.extend_def)
  have d: "distinct (map fst [(1000 :: addr, 8 :: int), (2000, 9)])" by simp
  have f: "\<forall>(a, fd) \<in> set [(1000 :: addr, 8 :: int), (2000, 9)]. a \<notin> set ([] @ []) \<and> a \<noteq> NULL \<and> 0 < fd" by simp
  show ?thesis
    using descriptor_lifecycle [OF c(1) c(1) EdTimer_new_closed c(2,3) no_events_rep task_env_ok d f, where us = 500 and first = 0]
    by simp
qed

text \<open>C30. Setting a timer programs its descriptor with exactly the requested times: the interval and the
  first expiry, seconds plus nanoseconds, are the given microseconds (the interval serves as first
  expiry when none is given), the nanoseconds are below a second, and pausing and resuming by
  \<^verbatim>\<open>reset\<close> programs the same again. In milliseconds this holds below 4294968, about 71 minutes; above,
  the product wraps and the timer is programmed with less.\<close>

theorem timer_programmed:
  assumes c: "fd_closed e" and r: "ev_rep w es ds" and env: "env_ok w cur" and a: "ehdrs w a = None" "a \<noteq> NULL" and fd: "0 < fd"
    and small: "unat ms < 4294968" and big: "4294968 \<le> unat ms'"
  shows "(\<exists>e1 w1 i v. EdTimer_setUsec e w a fd 0 cur us first lis = Inr (e1, w1) \<and> armed e1 = Some (i, v) \<and>
       spec_usec i = unat us \<and> spec_usec v = (if first = 0 then unat us else unat first) \<and>
       tv_nsec i < 1000000000 \<and> tv_nsec v < 1000000000 \<and> armed (EdTimer_reset e1) = Some (i, v) \<and> ev_rep w1 (es @ [a]) ds) \<and>
     (\<exists>e1 w1 i v. EdTimer_set e w a fd 0 cur ms 0 lis = Inr (e1, w1) \<and> armed e1 = Some (i, v) \<and> spec_usec i = unat ms * 1000) \<and>
     (\<exists>e1 w1 i v. EdTimer_set e w a fd 0 cur ms' 0 lis = Inr (e1, w1) \<and> armed e1 = Some (i, v) \<and> spec_usec i < unat ms' * 1000)"
proof (intro conjI)
  note arms = setUsec_arms [OF c r env a fd]
  show "\<exists>e1 w1 i v. EdTimer_setUsec e w a fd 0 cur us first lis = Inr (e1, w1) \<and> armed e1 = Some (i, v) \<and>
       spec_usec i = unat us \<and> spec_usec v = (if first = 0 then unat us else unat first) \<and>
       tv_nsec i < 1000000000 \<and> tv_nsec v < 1000000000 \<and> armed (EdTimer_reset e1) = Some (i, v) \<and> ev_rep w1 (es @ [a]) ds"
    by (rule arms [of us first lis]) (simp add: spec_usec_inverse reset_rearms)
  show "\<exists>e1 w1 i v. EdTimer_set e w a fd 0 cur ms 0 lis = Inr (e1, w1) \<and> armed e1 = Some (i, v) \<and> spec_usec i = unat ms * 1000"
    by (rule arms [of "ucast (ms * 1000)" 0 lis]) (simp add: EdTimer_set_def spec_usec_inverse msec_exact [OF small])
  have "unat (ms' * 1000) < 2 ^ 32" using unat_less [of "ms' * 1000"] by simp
  then have "unat (ucast (ms' * 1000 :: u32) :: u64) < unat ms' * 1000"
    using big by (simp add: unat_ucast_up)
  then show "\<exists>e1 w1 i v. EdTimer_set e w a fd 0 cur ms' 0 lis = Inr (e1, w1) \<and> armed e1 = Some (i, v) \<and> spec_usec i < unat ms' * 1000"
    by - (rule arms [of "ucast (ms' * 1000)" 0 lis], simp add: EdTimer_set_def spec_usec_inverse)
qed

theorem timer_programmed_witness:
  "\<exists>e1 w1 i v. EdTimer_set (EdTimer_new 7000 task_env) no_events 1000 8 0 task_env 1500 0 False = Inr (e1, w1) \<and> armed e1 = Some (i, v) \<and>
     spec_usec i = 1500000"
proof -
  have h: "ehdrs no_events 1000 = None" "(1000 :: addr) \<noteq> NULL" "0 < (8 :: int)" "unat (1500 :: u32) < 4294968" "4294968 \<le> unat (4294968 :: u32)"
    by (simp_all add: no_events_def)
  have "unat (1500 :: u32) * 1000 = 1500000" by simp
  with timer_programmed [OF EdTimer_new_closed [of 7000 task_env] no_events_rep task_env_ok h, where lis = False] show ?thesis by simp
qed

end
