(* ===== verification/EdLocalEvt.thy ===== *)
theory EdLocalEvt
  imports EdEvtObjs
begin

text \<open>EdLocalEvent.cpp: a queue of events a task posts to itself. \<^verbatim>\<open>mEvtQue\<close> and \<^verbatim>\<open>mDummyEvtQue\<close> are
  lists of pointers into a store of \<^verbatim>\<open>Event\<close> objects, so that the reuse of an object is visible; the
  counter of the event descriptor is part of the state, the results of \<^verbatim>\<open>write\<close> and \<^verbatim>\<open>new\<close> are
  arguments, and the listener is a function on the address of the event and the state.\<close>

section \<open>State and operations\<close>

record Event =
  evt_id :: u16
  p1 :: u32
  p2 :: u32

text \<open>\<open>levt\<close> is the \<^verbatim>\<open>EdEventFd\<close> part, \<open>luser\<close> what the listener keeps.\<close>

record 'l local_event =
  lstore :: "addr \<rightharpoonup> Event"
  mEvtQue :: "addr list"
  mDummyEvtQue :: "addr list"
  mMaxEvent :: nat
  raised :: nat
  has_lis :: bool
  levt :: EdEvent
  luser :: 'l

type_synonym 'l listener = "addr \<Rightarrow> 'l local_event \<Rightarrow> fault + 'l local_event"

definition EdLocalEvent_new :: "addr \<Rightarrow> thread_env \<Rightarrow> 'l \<Rightarrow> 'l local_event" where
  "EdLocalEvent_new self cur l =
     \<lparr>lstore = Map.empty, mEvtQue = [], mDummyEvtQue = [], mMaxEvent = 1000, raised = 0, has_lis = False,
      levt = EdEvent_new self cur, luser = l\<rparr>"

definition EdLocalEvent_open :: "'l local_event \<Rightarrow> evsys \<Rightarrow> addr \<Rightarrow> int \<Rightarrow> int \<Rightarrow> thread_env \<Rightarrow> nat \<Rightarrow> bool \<Rightarrow> fault + (int \<times> 'l local_event \<times> evsys)" where
  "EdLocalEvent_open s w a fd ctl cur maxevt lis =
     (let s = s\<lparr>mMaxEvent := maxevt, has_lis := lis\<rparr> in
      bindr (EdEventFd_open (levt s) w a fd ctl cur) (\<lambda>(r, e, w). Inr (r, s\<lparr>levt := e, raised := 0\<rparr>, w)))"

definition EdLocalEvent_setOnListener :: "'l local_event \<Rightarrow> bool \<Rightarrow> 'l local_event" where
  "EdLocalEvent_setOnListener s lis = s\<lparr>has_lis := lis\<rparr>"

definition EdLocalEvent_raise :: "'l local_event \<Rightarrow> int \<Rightarrow> int \<times> 'l local_event" where
  "EdLocalEvent_raise s wcnt = (EdEventFd_raise wcnt, if wcnt = 8 then s\<lparr>raised := raised s + 1\<rparr> else s)"

text \<open>\<^verbatim>\<open>postEvent\<close>: an object of the list of used ones is taken when there is one, and a new one at \<open>a\<close>
  otherwise.\<close>

definition EdLocalEvent_postEvent :: "'l local_event \<Rightarrow> addr \<Rightarrow> int \<Rightarrow> u16 \<Rightarrow> u32 \<Rightarrow> u32 \<Rightarrow> fault + (int \<times> 'l local_event)" where
  "EdLocalEvent_postEvent s a wcnt evtid q1 q2 =
     (if length (mEvtQue s) \<ge> mMaxEvent s then Inr (- 1, s)
      else let s = (case mDummyEvtQue s of
                      d # ds \<Rightarrow> s\<lparr>mEvtQue := mEvtQue s @ [d], mDummyEvtQue := ds\<rparr>
                    | [] \<Rightarrow> s\<lparr>lstore := (lstore s)(a \<mapsto> \<lparr>evt_id = 0, p1 = 0, p2 = 0\<rparr>), mEvtQue := mEvtQue s @ [a]\<rparr>);
               ptr = last (mEvtQue s)
           in case lstore s ptr of
                None \<Rightarrow> Inl Bad_access
              | Some ev \<Rightarrow>
                  Inr (EdLocalEvent_raise (s\<lparr>lstore := (lstore s)(ptr \<mapsto> ev\<lparr>evt_id := evtid, p1 := q1, p2 := q2\<rparr>)\<rparr>) wcnt))"

text \<open>\<^verbatim>\<open>delete\<close> of every object of a list.\<close>

fun delete_all :: "addr list \<Rightarrow> (addr \<rightharpoonup> Event) \<Rightarrow> fault + (addr \<rightharpoonup> Event)" where
  "delete_all [] m = Inr m"
| "delete_all (a # as) m = (if m a = None then Inl Bad_access else delete_all as (m(a := None)))"

definition EdLocalEvent_close :: "'l local_event \<Rightarrow> evsys \<Rightarrow> int \<Rightarrow> thread_env \<Rightarrow> fault + ('l local_event \<times> evsys)" where
  "EdLocalEvent_close s w ctl cur =
     bindr (delete_all (mDummyEvtQue s) (lstore s)) (\<lambda>m.
     bindr (delete_all (mEvtQue s) m) (\<lambda>m.
     bindr (EdEventFd_close (levt s) w ctl cur) (\<lambda>(e, w).
       Inr (s\<lparr>lstore := m, mDummyEvtQue := [], mEvtQue := [], levt := e\<rparr>, w))))"

text \<open>\<^verbatim>\<open>OnEventFd\<close>: the handled object is put in front of the list of used ones before the listener is
  called with a reference to it.\<close>

fun EdLocalEvent_OnEventFd :: "'l listener \<Rightarrow> nat \<Rightarrow> 'l local_event \<Rightarrow> fault + 'l local_event" where
  "EdLocalEvent_OnEventFd lis 0 s = Inr s"
| "EdLocalEvent_OnEventFd lis (Suc n) s =
     (case mEvtQue s of
        [] \<Rightarrow> EdLocalEvent_OnEventFd lis n s
      | x # xs \<Rightarrow>
          let s = s\<lparr>mEvtQue := xs, mDummyEvtQue := x # mDummyEvtQue s\<rparr>
          in bindr (if has_lis s then lis x s else Inr s) (EdLocalEvent_OnEventFd lis n))"

text \<open>The read event: the descriptor's counter is read and cleared, and converted to \<^verbatim>\<open>int\<close>.\<close>

definition EdLocalEvent_OnEventRead :: "'l listener \<Rightarrow> int \<Rightarrow> 'l local_event \<Rightarrow> fault + 'l local_event" where
  "EdLocalEvent_OnEventRead lis rcnt s =
     (case EdEventFd_OnEventRead rcnt (of_nat (raised s)) of
        None \<Rightarrow> Inr s
      | Some cnt \<Rightarrow> EdLocalEvent_OnEventFd lis (nat cnt) (s\<lparr>raised := 0\<rparr>))"

definition EdLocalEvent_destroy :: "'l local_event \<Rightarrow> fault + unit" where
  "EdLocalEvent_destroy s = (if mEvtQue s \<noteq> [] \<or> mDummyEvtQue s \<noteq> [] then Inl Assert_failed else Inr ())"

section \<open>Invariant and abstraction\<close>

definition lev_ok :: "'l local_event \<Rightarrow> bool" where
  "lev_ok s \<longleftrightarrow> distinct (mEvtQue s @ mDummyEvtQue s) \<and> dom (lstore s) = set (mEvtQue s @ mDummyEvtQue s) \<and>
     length (mEvtQue s) \<le> mMaxEvent s"

definition lev_pending :: "'l local_event \<Rightarrow> Event list" where
  "lev_pending s = map (\<lambda>x. the (lstore s x)) (mEvtQue s)"

lemma lev_post_full: "mMaxEvent s \<le> length (mEvtQue s) \<Longrightarrow> EdLocalEvent_postEvent s a wcnt i q1 q2 = Inr (- 1, s)"
  by (simp add: EdLocalEvent_postEvent_def)

lemma lev_post_ok:
  assumes ok: "lev_ok s" and room: "length (mEvtQue s) < mMaxEvent s" and a: "mDummyEvtQue s \<noteq> [] \<or> lstore s a = None"
  obtains s' where "EdLocalEvent_postEvent s a 8 i q1 q2 = Inr (0, s')" "lev_ok s'"
    "lev_pending s' = lev_pending s @ [\<lparr>evt_id = i, p1 = q1, p2 = q2\<rparr>]" "raised s' = raised s + 1" "luser s' = luser s"
    "mMaxEvent s' = mMaxEvent s" "has_lis s' = has_lis s"
    "mDummyEvtQue s' = tl (mDummyEvtQue s)" "last (mEvtQue s') = (case mDummyEvtQue s of [] \<Rightarrow> a | d # _ \<Rightarrow> d)"
proof (cases "mDummyEvtQue s")
  case Nil
  let ?ev = "\<lparr>evt_id = i, p1 = q1, p2 = q2\<rparr>"
  let ?s = "s\<lparr>mEvtQue := mEvtQue s @ [a], lstore := (lstore s)(a \<mapsto> ?ev), raised := raised s + 1\<rparr>"
  have an: "a \<notin> set (mEvtQue s)" using ok a Nil by (auto simp: lev_ok_def)
  have "EdLocalEvent_postEvent s a 8 i q1 q2 = Inr (0, ?s)"
    using room Nil by (simp add: EdLocalEvent_postEvent_def EdLocalEvent_raise_def EdEventFd_raise_def Let_def)
  moreover have "lev_ok ?s" using ok room an Nil by (auto simp: lev_ok_def)
  moreover have "lev_pending ?s = lev_pending s @ [?ev]" using an by (auto simp: lev_pending_def)
  ultimately show thesis using Nil by (intro that [of ?s]) simp_all
next
  case (Cons d ds)
  let ?ev = "\<lparr>evt_id = i, p1 = q1, p2 = q2\<rparr>"
  have dn: "d \<notin> set (mEvtQue s)" "d \<in> dom (lstore s)" using ok Cons by (auto simp: lev_ok_def)
  then obtain i0 x0 y0 where e0: "lstore s d = Some \<lparr>evt_id = i0, p1 = x0, p2 = y0\<rparr>" by (metis Event.cases domD)
  let ?s = "s\<lparr>mEvtQue := mEvtQue s @ [d], mDummyEvtQue := ds, lstore := (lstore s)(d \<mapsto> ?ev), raised := raised s + 1\<rparr>"
  have "EdLocalEvent_postEvent s a 8 i q1 q2 = Inr (0, ?s)"
    using room Cons e0 by (simp add: EdLocalEvent_postEvent_def EdLocalEvent_raise_def EdEventFd_raise_def Let_def)
  moreover have "lev_ok ?s" using ok room Cons dn by (auto simp: lev_ok_def)
  moreover have "lev_pending ?s = lev_pending s @ [?ev]" using dn(1) by (auto simp: lev_pending_def)
  ultimately show thesis using Cons by (intro that [of ?s]) simp_all
qed

text \<open>A listener that only reads its event.\<close>

definition reader :: "(Event \<Rightarrow> 'l \<Rightarrow> 'l) \<Rightarrow> 'l listener" where
  "reader f x s = (case lstore s x of None \<Rightarrow> Inl Bad_access | Some ev \<Rightarrow> Inr (s\<lparr>luser := f ev (luser s)\<rparr>))"

lemma OnEventFd_reader:
  assumes "lev_ok s" "has_lis s"
  shows "\<exists>s'. EdLocalEvent_OnEventFd (reader f) n s = Inr s' \<and> lev_ok s' \<and> has_lis s' \<and> mMaxEvent s' = mMaxEvent s \<and>
     raised s' = raised s \<and> lev_pending s' = drop n (lev_pending s) \<and> luser s' = fold f (take n (lev_pending s)) (luser s)"
  using assms
proof (induction n arbitrary: s)
  case 0
  then show ?case by simp
next
  case (Suc n)
  show ?case
  proof (cases "mEvtQue s")
    case Nil
    then show ?thesis using Suc.IH [OF Suc.prems] by (simp add: lev_pending_def)
  next
    case (Cons x xs)
    obtain ev where ev: "lstore s x = Some ev" using Suc.prems(1) Cons by (auto simp: lev_ok_def)
    let ?s = "s\<lparr>mEvtQue := xs, mDummyEvtQue := x # mDummyEvtQue s, luser := f ev (luser s)\<rparr>"
    have run: "EdLocalEvent_OnEventFd (reader f) (Suc n) s = EdLocalEvent_OnEventFd (reader f) n ?s"
      using Suc.prems(2) Cons ev by (simp add: reader_def Let_def)
    have "lev_ok ?s" using Suc.prems(1) Cons by (auto simp: lev_ok_def)
    moreover have "lev_pending s = ev # lev_pending ?s" using Cons ev by (simp add: lev_pending_def)
    ultimately show ?thesis using Suc.IH [of ?s] Suc.prems(2) run by simp
  qed
qed

lemma counter_int: "n < 2 ^ 31 \<Longrightarrow> EdEventFd_OnEventRead 8 (of_nat n) = Some (int n)"
proof -
  assume n: "n < 2 ^ 31"
  have "(ucast (of_nat n :: u64) :: u32) = of_nat n"
    by (rule bit_word_eqI) (simp add: bit_simps)
  moreover have "sint (of_nat n :: u32) = int n"
    using n by (simp add: signed_of_nat signed_take_bit_int_eq_self)
  ultimately show ?thesis by (simp add: EdEventFd_OnEventRead_def)
qed

section \<open>Runs\<close>

text \<open>A run of the queue from \<open>s0\<close>: posts that are accepted, whose events are listed, posts that are
  refused, and read events. A new object is at an address that is not in use.\<close>

inductive lev_run :: "(Event \<Rightarrow> 'l \<Rightarrow> 'l) \<Rightarrow> 'l local_event \<Rightarrow> Event list \<Rightarrow> 'l local_event \<Rightarrow> bool" for f s0 where
  start: "lev_run f s0 [] s0"
| post: "lev_run f s0 evs s \<Longrightarrow> mDummyEvtQue s \<noteq> [] \<or> lstore s a = None \<Longrightarrow>
    EdLocalEvent_postEvent s a 8 i q1 q2 = Inr (0, s') \<Longrightarrow> lev_run f s0 (evs @ [\<lparr>evt_id = i, p1 = q1, p2 = q2\<rparr>]) s'"
| full: "lev_run f s0 evs s \<Longrightarrow> EdLocalEvent_postEvent s a 8 i q1 q2 = Inr (- 1, s') \<Longrightarrow> lev_run f s0 evs s'"
| read: "lev_run f s0 evs s \<Longrightarrow> EdLocalEvent_OnEventRead (reader f) 8 s = Inr s' \<Longrightarrow> lev_run f s0 evs s'"

definition lev_inv :: "(Event \<Rightarrow> 'l \<Rightarrow> 'l) \<Rightarrow> 'l local_event \<Rightarrow> Event list \<Rightarrow> 'l local_event \<Rightarrow> bool" where
  "lev_inv f s0 evs s \<longleftrightarrow> lev_ok s \<and> has_lis s \<and> mMaxEvent s = mMaxEvent s0 \<and> raised s = length (lev_pending s) \<and>
     (\<exists>hs. evs = hs @ lev_pending s \<and> luser s = fold f hs (luser s0))"

lemma post_result:
  assumes "EdLocalEvent_postEvent s a 8 i q1 q2 = Inr (r, s')" "r \<noteq> - 1"
  shows "length (mEvtQue s) < mMaxEvent s"
  using assms by (auto simp: EdLocalEvent_postEvent_def split: if_splits)

lemma OnEventRead_reader:
  assumes "lev_inv f s0 evs s" "mMaxEvent s0 < 2 ^ 31"
  obtains s' where "EdLocalEvent_OnEventRead (reader f) 8 s = Inr s'" "lev_inv f s0 evs s'" "lev_pending s' = []"
    "luser s' = fold f evs (luser s0)"
proof -
  obtain hs where s: "lev_ok s" "has_lis s" "mMaxEvent s = mMaxEvent s0" "raised s = length (lev_pending s)"
    "evs = hs @ lev_pending s" "luser s = fold f hs (luser s0)" using assms(1) by (auto simp: lev_inv_def)
  let ?s = "s\<lparr>raised := 0\<rparr>"
  have "raised s < 2 ^ 31" using s(1,3,4) assms(2) by (simp add: lev_ok_def lev_pending_def)
  then have run: "EdLocalEvent_OnEventRead (reader f) 8 s = EdLocalEvent_OnEventFd (reader f) (raised s) ?s"
    using counter_int [of "raised s"] by (simp add: EdLocalEvent_OnEventRead_def)
  have ok: "lev_ok ?s" "has_lis ?s" "lev_pending ?s = lev_pending s" using s(1,2) by (simp_all add: lev_ok_def lev_pending_def)
  obtain s' where s': "EdLocalEvent_OnEventFd (reader f) (raised s) ?s = Inr s'" "lev_ok s'" "has_lis s'"
    "mMaxEvent s' = mMaxEvent s" "raised s' = 0" "lev_pending s' = []" "luser s' = fold f (lev_pending s) (luser s)"
    using OnEventFd_reader [OF ok(1,2), of f "raised s"] ok(3) s(4) by auto
  have "luser s' = fold f evs (luser s0)" using s'(7) s(5,6) by simp
  moreover have "lev_inv f s0 evs s'" using s' s(3) calculation by (auto simp: lev_inv_def)
  ultimately show thesis using that s'(1,6) run by simp
qed

lemma lev_run_inv:
  assumes "lev_run f s0 evs s" "lev_inv f s0 [] s0" "mMaxEvent s0 < 2 ^ 31"
  shows "lev_inv f s0 evs s"
  using assms
proof (induction rule: lev_run.induct)
  case (post evs s a i q1 q2 s')
  have inv: "lev_inv f s0 evs s" using post by simp
  have room: "length (mEvtQue s) < mMaxEvent s" using post_result [OF post.hyps(3)] by simp
  have ok: "lev_ok s" using inv by (simp add: lev_inv_def)
  show ?case
    by (rule lev_post_ok [OF ok room post.hyps(2), of i q1 q2]) (use post.hyps(3) inv in \<open>auto simp: lev_inv_def\<close>)
next
  case (full evs s a i q1 q2 s')
  have inv: "lev_inv f s0 evs s" using full by simp
  show ?case
  proof (cases "length (mEvtQue s) < mMaxEvent s")
    case True
    then show ?thesis using full.hyps(2) inv
      by (auto simp: EdLocalEvent_postEvent_def EdLocalEvent_raise_def EdEventFd_raise_def Let_def split: option.splits list.splits)
  next
    case False
    then show ?thesis using full.hyps(2) inv lev_post_full [of s a 8 i q1 q2] by simp
  qed
next
  case (read evs s s')
  then have inv: "lev_inv f s0 evs s" by simp
  show ?case by (rule OnEventRead_reader [OF inv read.prems(2)]) (use read.hyps(2) in auto)
qed auto

lemma delete_all_ok: "distinct xs \<Longrightarrow> set xs \<subseteq> dom m \<Longrightarrow> delete_all xs m = Inr (m |` (- set xs))"
proof (induction xs arbitrary: m)
  case Nil
  then show ?case by (simp add: restrict_map_def)
next
  case (Cons x xs)
  have sub: "distinct xs" "set xs \<subseteq> dom (m(x := None))" and x: "m x \<noteq> None" using Cons.prems by auto
  have "m(x := None) |` (- set xs) = m |` (- set (x # xs))" by (auto simp: restrict_map_def fun_eq_iff)
  then show ?case using Cons.IH [OF sub] x by (simp only: delete_all.simps if_False)
qed

text \<open>Closing frees every object, whatever is pending.\<close>

lemma close_frees:
  assumes ok: "lev_ok s" and e: "EdEventFd_close (levt s) w ctl cur = Inr (e, w')"
  shows "\<exists>s'. EdLocalEvent_close s w ctl cur = Inr (s', w') \<and> lstore s' = Map.empty \<and> EdLocalEvent_destroy s' = Inr ()"
proof -
  let ?m = "lstore s |` (- set (mDummyEvtQue s))"
  have 1: "delete_all (mDummyEvtQue s) (lstore s) = Inr ?m" using ok by (intro delete_all_ok) (auto simp: lev_ok_def)
  have 2: "delete_all (mEvtQue s) ?m = Inr (?m |` (- set (mEvtQue s)))" using ok by (intro delete_all_ok) (auto simp: lev_ok_def)
  have "dom (?m |` (- set (mEvtQue s))) = {}" using ok by (auto simp: lev_ok_def)
  then have "?m |` (- set (mEvtQue s)) = Map.empty" by (simp only: dom_eq_empty_conv)
  with 1 2 e show ?thesis by (simp add: EdLocalEvent_close_def EdLocalEvent_destroy_def)
qed

section \<open>Properties\<close>


definition lev0 :: "u16 list local_event" where
  "lev0 = (EdLocalEvent_new 7000 task_env [])\<lparr>mMaxEvent := 4, has_lis := True\<rparr>"

lemma lev0_inv: "lev_inv f lev0 [] lev0"
  by (simp add: lev_inv_def lev_ok_def lev0_def EdLocalEvent_new_def lev_pending_def)


text \<open>A listener that posts an event while it handles one reads the new event in place of its own
  from then on: the object being handled is the first one reused, so the post overwrites the values
  behind the reference that the listener was given.\<close>

theorem local_event_overwritten:
  assumes ok: "lev_ok s" and q: "mEvtQue s = x # xs" and room: "length xs < mMaxEvent s"
  shows "\<exists>s1 s2. s1 = s\<lparr>mEvtQue := xs, mDummyEvtQue := x # mDummyEvtQue s\<rparr> \<and> lstore s1 x = lstore s x \<and>
     EdLocalEvent_postEvent s1 a 8 i q1 q2 = Inr (0, s2) \<and> lstore s2 x = Some \<lparr>evt_id = i, p1 = q1, p2 = q2\<rparr>"
proof -
  let ?s = "s\<lparr>mEvtQue := xs, mDummyEvtQue := x # mDummyEvtQue s\<rparr>"
  have "lstore ?s x \<noteq> None" using ok q by (auto simp: lev_ok_def)
  then show ?thesis using room
    by (auto simp: EdLocalEvent_postEvent_def EdLocalEvent_raise_def EdEventFd_raise_def Let_def split: option.splits)
qed

theorem local_event_overwritten_witness:
  "\<exists>s s1 s2. EdLocalEvent_postEvent lev0 1000 8 1 10 11 = Inr (0, s) \<and> s1 = s\<lparr>mEvtQue := [], mDummyEvtQue := [1000]\<rparr> \<and>
     EdLocalEvent_postEvent s1 2000 8 2 20 21 = Inr (0, s2) \<and> lstore s2 1000 = Some \<lparr>evt_id = 2, p1 = 20, p2 = 21\<rparr>"
proof -
  let ?s1 = "lev0\<lparr>mEvtQue := [1000], lstore := [1000 \<mapsto> \<lparr>evt_id = 1, p1 = 10, p2 = 11\<rparr>], raised := 1\<rparr>"
  have 1: "EdLocalEvent_postEvent lev0 1000 8 1 10 11 = Inr (0, ?s1)"
    by (simp add: EdLocalEvent_postEvent_def lev0_def EdLocalEvent_new_def EdLocalEvent_raise_def EdEventFd_raise_def)
  have h: "lev_ok ?s1" "mEvtQue ?s1 = 1000 # []" "length ([] :: addr list) < mMaxEvent ?s1"
    by (simp_all add: lev_ok_def lev0_def EdLocalEvent_new_def)
  have "mDummyEvtQue ?s1 = []" by (simp add: lev0_def EdLocalEvent_new_def)
  with local_event_overwritten [OF h, of 2000 2 20 21] 1 show ?thesis by auto
qed

end
