(* ===== verification/EdTimers.thy ===== *)
theory EdTimers
  imports EdEvtObjs
begin

text \<open>EdTimerPool.cpp: many timers on one \<^verbatim>\<open>EdTimer\<close>. Time points of \<^verbatim>\<open>steady_clock\<close> are signed 64-bit
  nanoseconds, the readings of the clock are arguments, and so is the order in which the hash map
  yields its entries. \<open>main_us\<close> is the value last given to \<^verbatim>\<open>setUsec\<close> of the main timer. A map entry has
  an identity, since the list of due timers points to entries.\<close>

section \<open>State and operations\<close>

record TimerInfo =
  thandle :: u32
  fireTp :: int
  period :: u64
  tlis :: nat
  tnode :: nat

record tpool =
  timerMap :: "u32 \<rightharpoonup> TimerInfo"
  nearTp :: int
  handleSeed :: u32
  fireList :: "(int \<times> u32 \<times> nat) list"
  main_us :: "u64 option"
  next_node :: nat

definition tp_max :: int where
  "tp_max = 2 ^ 63 - 1"

text \<open>\<^verbatim>\<open>tp + microseconds(us)\<close>: the conversion to nanoseconds and the sum are signed.\<close>

definition tp_add :: "int \<Rightarrow> u64 \<Rightarrow> fault + int" where
  "tp_add tp us =
     (let d = sint us * 1000 in
      if \<bar>d\<bar> \<le> tp_max \<and> \<bar>tp + d\<bar> \<le> tp_max then Inr (tp + d) else Inl Int_overflow)"

text \<open>\<^verbatim>\<open>duration_cast<microseconds>(a - b).count()\<close>.\<close>

definition tp_diff :: "int \<Rightarrow> int \<Rightarrow> int" where
  "tp_diff a b = (a - b) sdiv 1000"

definition EdTimerPool_open :: "tpool \<Rightarrow> tpool" where
  "EdTimerPool_open p = p\<lparr>nearTp := tp_max\<rparr>"

definition EdTimerPool_close :: "tpool \<Rightarrow> tpool" where
  "EdTimerPool_close p = p\<lparr>main_us := None, timerMap := Map.empty\<rparr>"

definition EdTimerPool_setTimerUs :: "tpool \<Rightarrow> int \<Rightarrow> u32 \<Rightarrow> u64 \<Rightarrow> u64 \<Rightarrow> nat \<Rightarrow> fault + (u32 \<times> tpool)" where
  "EdTimerPool_setTimerUs p ntp handle firstus periodus lis =
     (let seed = (if handle = 0 then (if handleSeed p + 1 = 0 then handleSeed p + 2 else handleSeed p + 1) else handleSeed p);
          handle = (if handle = 0 then seed else handle);
          node = (case timerMap p handle of Some ti \<Rightarrow> tnode ti | None \<Rightarrow> next_node p)
      in bindr (tp_add ntp firstus) (\<lambda>fire.
         let p = p\<lparr>handleSeed := seed, next_node := next_node p + 1,
                   timerMap := (timerMap p)(handle \<mapsto> \<lparr>thandle = handle, fireTp = fire, period = periodus, tlis = lis, tnode = node\<rparr>)\<rparr>;
             p = (if fire < nearTp p then p\<lparr>nearTp := fire, main_us := Some (word_of_int (tp_diff fire ntp))\<rparr> else p)
         in Inr (handle, p)))"

definition EdTimerPool_setTimer :: "tpool \<Rightarrow> int \<Rightarrow> u32 \<Rightarrow> u64 \<Rightarrow> u64 \<Rightarrow> nat \<Rightarrow> fault + (u32 \<times> tpool)" where
  "EdTimerPool_setTimer p ntp handle firstms periodms lis = EdTimerPool_setTimerUs p ntp handle (firstms * 1000) (periodms * 1000) lis"

definition EdTimerPool_killTimer :: "tpool \<Rightarrow> u32 \<Rightarrow> tpool" where
  "EdTimerPool_killTimer p tid = p\<lparr>timerMap := (timerMap p)(tid := None)\<rparr>"

text \<open>The first loop of \<^verbatim>\<open>scheduleTimer\<close>: due entries go to the list with a count converted to \<^verbatim>\<open>int\<close>, and
  their next time is one period later.\<close>

definition fire_count :: "int \<Rightarrow> u64 \<Rightarrow> int" where
  "fire_count us per = sint (ucast (word_of_int us div per + word_of_int us mod per) :: u32)"

fun pool_scan :: "int \<Rightarrow> u32 list \<Rightarrow> tpool \<Rightarrow> fault + tpool" where
  "pool_scan ntp [] p = Inr p"
| "pool_scan ntp (h # hs) p =
     (case timerMap p h of
        None \<Rightarrow> Inl Bad_access
      | Some tm \<Rightarrow>
          let us = tp_diff ntp (fireTp tm) in
          bindr (if us \<ge> 0
                 then if period tm = 0 then Inl Div_by_zero
                      else bindr (tp_add (fireTp tm) (period tm)) (\<lambda>fire.
                           Inr (tm\<lparr>fireTp := fire\<rparr>, [(fire_count us (period tm), h, tnode tm)]))
                 else Inr (tm, [])) (\<lambda>(tm, due).
          let p = p\<lparr>timerMap := (timerMap p)(h \<mapsto> tm), fireList := fireList p @ due\<rparr>;
              p = (if fireTp tm < nearTp p then p\<lparr>nearTp := fireTp tm\<rparr> else p)
          in pool_scan ntp hs p))"

text \<open>The second loop calls the listeners through the pointers of the list.\<close>

type_synonym pool_lis = "nat \<Rightarrow> int \<Rightarrow> tpool \<Rightarrow> fault + tpool"

fun pool_fire :: "pool_lis \<Rightarrow> (int \<times> u32 \<times> nat) list \<Rightarrow> tpool \<Rightarrow> fault + tpool" where
  "pool_fire call [] p = Inr p"
| "pool_fire call ((cnt, h, n) # due) p =
     (case timerMap p h of
        None \<Rightarrow> Inl Bad_access
      | Some tm \<Rightarrow> if tnode tm = n then bindr (call (tlis tm) cnt p) (pool_fire call due) else Inl Bad_access)"

definition EdTimerPool_scheduleTimer :: "pool_lis \<Rightarrow> u32 list \<Rightarrow> int \<Rightarrow> int \<Rightarrow> tpool \<Rightarrow> fault + tpool" where
  "EdTimerPool_scheduleTimer call order ntp ntp2 p =
     (if timerMap p = Map.empty then Inr p
      else bindr (pool_scan ntp order (p\<lparr>nearTp := tp_max, fireList := []\<rparr>)) (\<lambda>p.
           bindr (pool_fire call (fireList p) p) (\<lambda>p.
           let us = tp_diff (nearTp p) ntp2; us = (if us < 0 then 0 else us)
           in Inr (p\<lparr>main_us := Some (word_of_int us)\<rparr>))))"

section \<open>Invariant\<close>

text \<open>The near time is not after any fire time, and fire times are time points.\<close>

definition pool_near :: "tpool \<Rightarrow> bool" where
  "pool_near p \<longleftrightarrow> (\<forall>h tm. timerMap p h = Some tm \<longrightarrow> nearTp p \<le> fireTp tm \<and> \<bar>fireTp tm\<bar> \<le> tp_max \<and> thandle tm = h)"

definition pool_keeps :: "tpool \<Rightarrow> tpool \<Rightarrow> bool" where
  "pool_keeps p p' \<longleftrightarrow> (\<forall>h tm. timerMap p h = Some tm \<longrightarrow> (\<exists>tm'. timerMap p' h = Some tm' \<and> tnode tm' = tnode tm))"

lemma pool_keeps_refl: "pool_keeps p p"
  by (simp add: pool_keeps_def)

lemma pool_keeps_trans: "pool_keeps p q \<Longrightarrow> pool_keeps q r \<Longrightarrow> pool_keeps p r"
  unfolding pool_keeps_def by metis

lemma open_near: "timerMap p = Map.empty \<Longrightarrow> pool_near (EdTimerPool_open p)"
  by (simp add: pool_near_def EdTimerPool_open_def)

lemma kill_near: "pool_near p \<Longrightarrow> pool_near (EdTimerPool_killTimer p tid)"
  by (simp add: pool_near_def EdTimerPool_killTimer_def)

lemma setTimerUs_near:
  assumes "pool_near p" "EdTimerPool_setTimerUs p ntp handle firstus per lis = Inr (h, p')"
  shows "pool_near p' \<and> pool_keeps p p' \<and> h \<noteq> 0 \<and> (\<exists>tm. timerMap p' h = Some tm \<and> period tm = per \<and> tlis tm = lis)"
proof -
  define seed where "seed = (if handle = 0 then (if handleSeed p + 1 = 0 then handleSeed p + 2 else handleSeed p + 1) else handleSeed p)"
  define hd where "hd = (if handle = 0 then seed else handle)"
  have nz: "hd \<noteq> 0"
  proof (cases "handle = 0")
    case True
    have "handleSeed p + 2 = 1" if "handleSeed p + 1 = 0"
      using arg_cong [OF that, of "\<lambda>x. x + 1"] by (simp only: add.assoc one_add_one add_0)
    then show ?thesis using True by (cases "handleSeed p + 1 = 0") (simp_all only: hd_def seed_def if_True if_False one_neq_zero simp_thms)
  qed (simp add: hd_def)
  obtain fire where f: "tp_add ntp firstus = Inr fire" "\<bar>fire\<bar> \<le> tp_max"
    using assms(2) by (auto simp: EdTimerPool_setTimerUs_def tp_add_def Let_def split: if_splits)
  let ?node = "case timerMap p hd of Some ti \<Rightarrow> tnode ti | None \<Rightarrow> next_node p"
  let ?tm = "\<lparr>thandle = hd, fireTp = fire, period = per, tlis = lis, tnode = ?node\<rparr>"
  have r: "h = hd" "timerMap p' = (timerMap p)(hd \<mapsto> ?tm)" "nearTp p' = (if fire < nearTp p then fire else nearTp p)"
    using assms(2) f(1) by (auto simp: EdTimerPool_setTimerUs_def Let_def seed_def [symmetric] hd_def [symmetric] split: if_splits)
  have "nearTp p' \<le> nearTp p" "nearTp p' \<le> fire" using r(3) by auto
  then have "pool_near p'" using assms(1) f(2) r(2) unfolding pool_near_def by (auto intro: order.trans)
  moreover have "pool_keeps p p'" using r(2) by (auto simp: pool_keeps_def)
  ultimately show ?thesis using nz r(1,2) by simp
qed

section \<open>Scanning\<close>

text \<open>What the scan needs of an entry: a period, and a next time that is a time point.\<close>

definition scan_ok :: "TimerInfo \<Rightarrow> bool" where
  "scan_ok tm \<longleftrightarrow> 0 < sint (period tm) \<and> fireTp tm + sint (period tm) * 1000 \<le> tp_max \<and> - tp_max \<le> fireTp tm \<and> sint (period tm) * 1000 \<le> tp_max"

definition due :: "int \<Rightarrow> TimerInfo \<Rightarrow> bool" where
  "due ntp tm \<longleftrightarrow> 0 \<le> tp_diff ntp (fireTp tm)"

definition advanced :: "int \<Rightarrow> TimerInfo \<Rightarrow> TimerInfo" where
  "advanced ntp tm = (if due ntp tm then tm\<lparr>fireTp := fireTp tm + sint (period tm) * 1000\<rparr> else tm)"

definition due_entry :: "int \<Rightarrow> TimerInfo \<Rightarrow> u32 \<Rightarrow> int \<times> u32 \<times> nat" where
  "due_entry ntp tm h = (fire_count (tp_diff ntp (fireTp tm)) (period tm), h, tnode tm)"

lemma tp_add_scan: "scan_ok tm \<Longrightarrow> tp_add (fireTp tm) (period tm) = Inr (fireTp tm + sint (period tm) * 1000)"
  by (auto simp: tp_add_def scan_ok_def Let_def tp_max_def)

lemma scan_step:
  assumes "timerMap p h = Some tm" "scan_ok tm"
  shows "pool_scan ntp (h # hs) p =
    pool_scan ntp hs (p\<lparr>timerMap := (timerMap p)(h \<mapsto> advanced ntp tm),
      fireList := fireList p @ (if due ntp tm then [due_entry ntp tm h] else []),
      nearTp := min (nearTp p) (fireTp (advanced ntp tm))\<rparr>)"
proof -
  have "period tm \<noteq> 0" using assms(2) by (auto simp: scan_ok_def)
  moreover have "p\<lparr>timerMap := m, fireList := l\<rparr> = p\<lparr>timerMap := m, fireList := l, nearTp := nearTp p\<rparr>" for m l by simp
  ultimately show ?thesis using assms tp_add_scan [OF assms(2)]
    by (auto simp: advanced_def due_def due_entry_def Let_def min_def)
qed

lemma scan_ok_all:
  assumes "distinct hs" "\<forall>h \<in> set hs. \<exists>tm. timerMap p h = Some tm \<and> scan_ok tm"
  shows "\<exists>p'. pool_scan ntp hs p = Inr p' \<and>
     timerMap p' = (\<lambda>h. if h \<in> set hs then map_option (advanced ntp) (timerMap p h) else timerMap p h) \<and>
     nearTp p' = foldl (\<lambda>n h. min n (fireTp (advanced ntp (the (timerMap p h))))) (nearTp p) hs \<and>
     fireList p' = fireList p @ map (\<lambda>h. due_entry ntp (the (timerMap p h)) h) (filter (\<lambda>h. due ntp (the (timerMap p h))) hs)"
  using assms
proof (induction hs arbitrary: p)
  case Nil
  then show ?case by simp
next
  case (Cons h hs)
  obtain tm where tm: "timerMap p h = Some tm" "scan_ok tm" using Cons.prems(2) by auto
  let ?p = "p\<lparr>timerMap := (timerMap p)(h \<mapsto> advanced ntp tm),
      fireList := fireList p @ (if due ntp tm then [due_entry ntp tm h] else []),
      nearTp := min (nearTp p) (fireTp (advanced ntp tm))\<rparr>"
  have nh: "h \<notin> set hs" "distinct hs" using Cons.prems(1) by auto
  have same: "x \<in> set hs \<Longrightarrow> timerMap ?p x = timerMap p x" for x using nh(1) by auto
  have ok: "\<forall>x \<in> set hs. \<exists>tm. timerMap ?p x = Some tm \<and> scan_ok tm" using Cons.prems(2) same by auto
  have f: "foldl (\<lambda>n x. min n (fireTp (advanced ntp (the (timerMap ?p x))))) n hs =
      foldl (\<lambda>n x. min n (fireTp (advanced ntp (the (timerMap p x))))) n hs" for n
    using same by (intro foldl_cong) auto
  have g: "filter (\<lambda>x. due ntp (the (timerMap ?p x))) hs = filter (\<lambda>x. due ntp (the (timerMap p x))) hs"
    using same by (intro filter_cong) auto
  from Cons.IH [OF nh(2) ok] obtain p' where p': "pool_scan ntp hs ?p = Inr p'"
    "timerMap p' = (\<lambda>x. if x \<in> set hs then map_option (advanced ntp) (timerMap ?p x) else timerMap ?p x)"
    "nearTp p' = foldl (\<lambda>n x. min n (fireTp (advanced ntp (the (timerMap ?p x))))) (nearTp ?p) hs"
    "fireList p' = fireList ?p @ map (\<lambda>x. due_entry ntp (the (timerMap ?p x)) x) (filter (\<lambda>x. due ntp (the (timerMap ?p x))) hs)" by blast
  have run: "pool_scan ntp (h # hs) p = Inr p'" unfolding scan_step [OF tm] by (rule p'(1))
  moreover have "timerMap p' = (\<lambda>x. if x \<in> set (h # hs) then map_option (advanced ntp) (timerMap p x) else timerMap p x)"
    using p'(2) nh(1) tm(1) by (auto simp: fun_eq_iff)
  moreover have "nearTp p' = foldl (\<lambda>n x. min n (fireTp (advanced ntp (the (timerMap p x))))) (nearTp p) (h # hs)"
    using p'(3) f tm(1) by simp
  moreover have "fireList p' = fireList p @ map (\<lambda>x. due_entry ntp (the (timerMap p x)) x) (filter (\<lambda>x. due ntp (the (timerMap p x))) (h # hs))"
    unfolding p'(4) g using tm(1) nh(1) by auto
  ultimately show ?case by blast
qed

lemma foldl_min: "foldl (\<lambda>n h. min n (g h)) n hs = Min (insert n (g ` set hs))" for n :: int
proof (induction hs arbitrary: n)
  case (Cons h hs)
  have "Min (insert (min n (g h)) (g ` set hs)) = Min (insert n (insert (g h) (g ` set hs)))"
    by (cases "set hs = {}") (simp_all add: min.assoc)
  then show ?case using Cons by simp
qed simp

lemma scan_near:
  assumes ne: "timerMap p \<noteq> Map.empty" and d: "distinct order" "set order = dom (timerMap p)"
    and ok: "\<forall>tm \<in> ran (timerMap p). scan_ok tm" and near: "pool_near p"
  obtains p1 where "pool_scan ntp order (p\<lparr>nearTp := tp_max, fireList := []\<rparr>) = Inr p1"
    "timerMap p1 = map_option (advanced ntp) \<circ> timerMap p"
    "fireList p1 = map (\<lambda>h. due_entry ntp (the (timerMap p h)) h) (filter (\<lambda>h. due ntp (the (timerMap p h))) order)"
    "pool_near p1" "\<exists>tm \<in> ran (timerMap p1). nearTp p1 = fireTp tm"
proof -
  let ?p = "p\<lparr>nearTp := tp_max, fireList := []\<rparr>"
  let ?g = "\<lambda>h. fireTp (advanced ntp (the (timerMap p h)))"
  have all: "\<forall>h \<in> set order. \<exists>tm. timerMap ?p h = Some tm \<and> scan_ok tm" using ok d(2) by (auto simp: ran_def)
  obtain p1 where r: "pool_scan ntp order ?p = Inr p1"
    "timerMap p1 = (\<lambda>h. if h \<in> set order then map_option (advanced ntp) (timerMap ?p h) else timerMap ?p h)"
    "nearTp p1 = foldl (\<lambda>n h. min n (fireTp (advanced ntp (the (timerMap ?p h))))) (nearTp ?p) order"
    "fireList p1 = fireList ?p @ map (\<lambda>h. due_entry ntp (the (timerMap ?p h)) h) (filter (\<lambda>h. due ntp (the (timerMap ?p h))) order)"
    using scan_ok_all [OF d(1) all, of ntp] by blast
  have q: "timerMap ?p = timerMap p" "nearTp ?p = tp_max" "fireList ?p = []" by simp_all
  have p1: "pool_scan ntp order ?p = Inr p1"
    "timerMap p1 = (\<lambda>h. if h \<in> set order then map_option (advanced ntp) (timerMap p h) else timerMap p h)"
    "nearTp p1 = Min (insert tp_max (?g ` set order))"
    "fireList p1 = map (\<lambda>h. due_entry ntp (the (timerMap p h)) h) (filter (\<lambda>h. due ntp (the (timerMap p h))) order)"
    using r [unfolded q] foldl_min [of ?g tp_max order] by simp_all
  have m: "timerMap p1 = map_option (advanced ntp) \<circ> timerMap p"
    using p1(2) d(2) by (auto simp: fun_eq_iff domIff)
  have adv: "\<bar>fireTp (advanced ntp tm)\<bar> \<le> tp_max" "thandle (advanced ntp tm) = thandle tm" if "tm \<in> ran (timerMap p)" for tm
  proof -
    have "\<exists>h. timerMap p h = Some tm" using that by (simp add: ran_def)
    then have "scan_ok tm" "\<bar>fireTp tm\<bar> \<le> tp_max" using ok near that by (auto simp: pool_near_def)
    then show "\<bar>fireTp (advanced ntp tm)\<bar> \<le> tp_max" "thandle (advanced ntp tm) = thandle tm"
      by (auto simp: advanced_def scan_ok_def)
  qed
  have le: "nearTp p1 \<le> ?g h" if "h \<in> dom (timerMap p)" for h using that d(2) p1(3) by simp
  obtain h0 where h0: "h0 \<in> dom (timerMap p)" using ne by fastforce
  have mem: "nearTp p1 \<in> insert tp_max (?g ` set order)" unfolding p1(3) by (rule Min_in) auto
  have "the (timerMap p h0) \<in> ran (timerMap p)" using h0 by (auto simp: ran_def)
  then have "?g h0 \<le> tp_max" using adv(1) by fastforce
  then have "nearTp p1 = tp_max \<Longrightarrow> nearTp p1 = ?g h0" using le [OF h0] by linarith
  with mem h0 d(2) have "\<exists>h \<in> dom (timerMap p). nearTp p1 = ?g h" by blast
  then have "\<exists>tm \<in> ran (timerMap p1). nearTp p1 = fireTp tm" using m by (fastforce simp: ran_def)
  moreover have "pool_near p1"
    unfolding pool_near_def
  proof (intro allI impI)
    fix h tm assume "timerMap p1 h = Some tm"
    then obtain tm0 where t: "timerMap p h = Some tm0" "tm = advanced ntp tm0" using m by auto
    then have "tm0 \<in> ran (timerMap p)" "thandle tm0 = h" using near by (auto simp: ran_def pool_near_def)
    with adv [of tm0] le [of h] t show "nearTp p1 \<le> fireTp tm \<and> \<bar>fireTp tm\<bar> \<le> tp_max \<and> thandle tm = h" by auto
  qed
  ultimately show thesis using that p1(1,4) m by blast
qed

section \<open>Listeners\<close>

text \<open>What \<^verbatim>\<open>scheduleTimer\<close> relies on of a listener: it returns, keeps the near time right, and erases no
  entry. It may set timers, its own too.\<close>

locale pool_listener =
  fixes call :: pool_lis
  assumes call_law: "pool_near p \<Longrightarrow> \<exists>p'. call l cnt p = Inr p' \<and> pool_near p' \<and> pool_keeps p p'"
begin

lemma fire_safe:
  "pool_near p \<Longrightarrow> \<forall>(c, h, n) \<in> set dl. \<exists>tm. timerMap p h = Some tm \<and> tnode tm = n \<Longrightarrow>
     \<exists>p'. pool_fire call dl p = Inr p' \<and> pool_near p' \<and> pool_keeps p p'"
proof (induction dl arbitrary: p)
  case Nil
  then show ?case using pool_keeps_refl by auto
next
  case (Cons x dl)
  obtain c h n where x: "x = (c, h, n)" by (cases x)
  obtain tm where tm: "timerMap p h = Some tm" "tnode tm = n" using Cons.prems(2) x by auto
  obtain p1 where p1: "call (tlis tm) c p = Inr p1" "pool_near p1" "pool_keeps p p1" using call_law [OF Cons.prems(1)] by blast
  have "\<forall>(c, h, n) \<in> set dl. \<exists>tm. timerMap p1 h = Some tm \<and> tnode tm = n"
    using Cons.prems(2) p1(3) unfolding pool_keeps_def by fastforce
  from Cons.IH [OF p1(2) this] obtain p2 where "pool_fire call dl p1 = Inr p2" "pool_near p2" "pool_keeps p1 p2" by blast
  with p1 tm x pool_keeps_trans [OF p1(3)] show ?case by auto
qed

lemma schedule_safe:
  assumes "timerMap p \<noteq> Map.empty" "distinct order" "set order = dom (timerMap p)" "\<forall>tm \<in> ran (timerMap p). scan_ok tm" "pool_near p"
  shows "\<exists>p1 p2. pool_scan ntp order (p\<lparr>nearTp := tp_max, fireList := []\<rparr>) = Inr p1 \<and>
     timerMap p1 = map_option (advanced ntp) \<circ> timerMap p \<and>
     fireList p1 = map (\<lambda>h. due_entry ntp (the (timerMap p h)) h) (filter (\<lambda>h. due ntp (the (timerMap p h))) order) \<and>
     pool_near p1 \<and> (\<exists>tm \<in> ran (timerMap p1). nearTp p1 = fireTp tm) \<and>
     EdTimerPool_scheduleTimer call order ntp ntp2 p = Inr p2 \<and> pool_near p2 \<and> pool_keeps p p2 \<and>
     main_us p2 = Some (word_of_int (max 0 (tp_diff (nearTp p2) ntp2)))"
proof (rule scan_near [OF assms, of ntp])
  fix p1 assume p1: "pool_scan ntp order (p\<lparr>nearTp := tp_max, fireList := []\<rparr>) = Inr p1"
    "timerMap p1 = map_option (advanced ntp) \<circ> timerMap p"
    "fireList p1 = map (\<lambda>h. due_entry ntp (the (timerMap p h)) h) (filter (\<lambda>h. due ntp (the (timerMap p h))) order)"
    "pool_near p1" "\<exists>tm \<in> ran (timerMap p1). nearTp p1 = fireTp tm"
  have node: "tnode (advanced ntp tm) = tnode tm" for tm by (simp add: advanced_def)
  have "\<forall>(c, h, n) \<in> set (fireList p1). \<exists>tm. timerMap p1 h = Some tm \<and> tnode tm = n"
    using p1(2,3) assms(3) node by (auto simp: due_entry_def)
  from fire_safe [OF p1(4) this] obtain p2 where p2: "pool_fire call (fireList p1) p1 = Inr p2" "pool_near p2" "pool_keeps p1 p2" by blast
  let ?p2 = "p2\<lparr>main_us := Some (word_of_int (max 0 (tp_diff (nearTp p2) ntp2)))\<rparr>"
  have "EdTimerPool_scheduleTimer call order ntp ntp2 p = Inr ?p2"
    using assms(1) p1(1) p2(1) by (simp add: EdTimerPool_scheduleTimer_def Let_def max_def)
  moreover have "pool_keeps p p1" using p1(2) node by (auto simp: pool_keeps_def)
  then have "pool_keeps p ?p2" using pool_keeps_trans [OF _ p2(3)] by (auto simp: pool_keeps_def)
  moreover have "pool_near ?p2" using p2(2) by (simp add: pool_near_def)
  ultimately show ?thesis using p1 by auto
qed

end

text \<open>A listener that sets a timer, and one that does nothing to the pool.\<close>

definition rearm :: "int \<Rightarrow> u32 \<Rightarrow> u64 \<Rightarrow> u64 \<Rightarrow> pool_lis" where
  "rearm ntp h first per l cnt p =
     (case EdTimerPool_setTimerUs p ntp h first per l of Inl e \<Rightarrow> Inr p | Inr (_, p) \<Rightarrow> Inr p)"

interpretation rearming: pool_listener "rearm ntp h first per" for ntp h first per
proof
  fix p l cnt assume "pool_near p"
  then show "\<exists>p'. rearm ntp h first per l cnt p = Inr p' \<and> pool_near p' \<and> pool_keeps p p'"
    using setTimerUs_near [of p ntp h first per l] pool_keeps_refl [of p]
    by (cases "EdTimerPool_setTimerUs p ntp h first per l") (auto simp: rearm_def)
qed

interpretation idle: pool_listener "\<lambda>l cnt p. Inr p"
  by unfold_locales (use pool_keeps_refl in auto)

text \<open>A listener that kills another due timer leaves a dangling pointer in the list.\<close>

lemma kill_in_listener:
  assumes "timerMap p h1 = Some t1" "h1 \<noteq> h2"
  shows "pool_fire (\<lambda>l cnt p. Inr (EdTimerPool_killTimer p h2)) [(c1, h1, tnode t1), (c2, h2, n2)] p = Inl Bad_access"
  using assms by (simp add: EdTimerPool_killTimer_def)

section \<open>Properties\<close>


definition pool1 :: tpool where
  "pool1 = \<lparr>timerMap = [7 \<mapsto> \<lparr>thandle = 7, fireTp = 2000000, period = 1000, tlis = 1, tnode = 0\<rparr>], nearTp = 2000000,
     handleSeed = 0, fireList = [], main_us = Some 2000, next_node = 1\<rparr>"


text \<open>A pool can stop for good: a timer set to fire at once in a pool whose near time is later
  programs the main timer with 0, and so does a run of \<^verbatim>\<open>scheduleTimer\<close> that ends less than a
  microsecond before the next fire time, or after it; programming a timer with 0 disarms it, exactly
  as \<^verbatim>\<open>pause\<close> does.\<close>

theorem timer_pool_stalls:
  assumes near: "ntp < nearTp p" "\<bar>ntp\<bar> \<le> tp_max" and late: "nearTp p2 < ntp2 + 1000"
    and scan: "timerMap q \<noteq> Map.empty" "pool_scan ntp order (q\<lparr>nearTp := tp_max, fireList := []\<rparr>) = Inr p1" "pool_fire call (fireList p1) p1 = Inr p2"
    and e: "0 \<le> mFd e"
  shows "(\<exists>h p'. EdTimerPool_setTimerUs p ntp handle 0 per lis = Inr (h, p') \<and> main_us p' = Some 0) \<and>
     (\<exists>p'. EdTimerPool_scheduleTimer call order ntp ntp2 q = Inr p' \<and> main_us p' = Some 0) \<and>
     (\<exists>e'. EdTimer_setUsec e w a fd ctl cur 0 0 False = Inr (e', w) \<and> armed e' = armed (EdTimer_pause e))"
proof (intro conjI)
  show "\<exists>h p'. EdTimerPool_setTimerUs p ntp handle 0 per lis = Inr (h, p') \<and> main_us p' = Some 0"
    using near by (simp add: EdTimerPool_setTimerUs_def tp_add_def tp_max_def tp_diff_def Let_def)
  have "tp_diff (nearTp p2) ntp2 \<le> 0"
    using late by (auto simp: tp_diff_def signed_divide_int_def sgn_if)
  then show "\<exists>p'. EdTimerPool_scheduleTimer call order ntp ntp2 q = Inr p' \<and> main_us p' = Some 0"
    using scan by (simp add: EdTimerPool_scheduleTimer_def Let_def)
  show "\<exists>e'. EdTimer_setUsec e w a fd ctl cur 0 0 False = Inr (e', w) \<and> armed e' = armed (EdTimer_pause e)"
    using e by (simp add: EdTimer_setUsec_def EdTimer_pause_def usec_spec_def Let_def)
qed

theorem timer_pool_stalls_witness:
  "\<exists>p'. EdTimerPool_scheduleTimer (\<lambda>l cnt p. Inr p) [7] 3500000 3500000 pool1 = Inr p' \<and> main_us p' = Some 0"
proof -
  let ?e = "(EdTimer_new 7000 task_env)\<lparr>mFd := 8\<rparr>"
  let ?q = "pool1\<lparr>nearTp := tp_max, fireList := []\<rparr>"
  obtain p1 where p1: "pool_scan 3500000 [7] ?q = Inr p1" "nearTp p1 = 3000000" "\<exists>c tm. fireList p1 = [(c, 7, tnode tm)] \<and> timerMap p1 7 = Some tm"
    by (simp add: pool1_def tp_diff_def tp_add_def tp_max_def signed_divide_int_def)
  have f: "pool_fire (\<lambda>l cnt p. Inr p) (fireList p1) p1 = Inr p1" using p1(3) by auto
  have h: "(3500000 :: int) < nearTp (EdTimerPool_open pool1)" "\<bar>3500000 :: int\<bar> \<le> tp_max" "nearTp p1 < 3500000 + 1000" "timerMap pool1 \<noteq> Map.empty" "0 \<le> mFd ?e"
    using p1(2) by (simp_all add: EdTimerPool_open_def tp_max_def pool1_def)
  from timer_pool_stalls [OF h(1-4) p1(1) f h(5)] show ?thesis by blast
qed

end
