(* ===== verification/EdSockets.thy ===== *)
theory EdSockets
  imports EdEvtObjs
begin

text \<open>EdSocket.cpp: the connection state of a socket, its registration with the event loop and the
  dispatch of its three events. System calls are arguments: the descriptor of \<^verbatim>\<open>socket\<close> or \<^verbatim>\<open>accept\<close>,
  the results of \<^verbatim>\<open>bind\<close>, \<^verbatim>\<open>listen\<close>, \<^verbatim>\<open>connect\<close>, \<^verbatim>\<open>read\<close> and the error of \<^verbatim>\<open>getsockopt\<close>. The virtual methods
  \<^verbatim>\<open>OnRead\<close>, \<^verbatim>\<open>OnWrite\<close>, ... are one function \<open>vm\<close> on the state, so that subclasses can extend it.\<close>

section \<open>State\<close>

definition SOCK_TYPE_TCP :: int where "SOCK_TYPE_TCP = 0"
definition SOCK_TYPE_UDP :: int where "SOCK_TYPE_UDP = 1"
definition SOCK_TYPE_UNIXSTREAM :: int where "SOCK_TYPE_UNIXSTREAM = 2"
definition SOCK_TYPE_UNIXDGRAM :: int where "SOCK_TYPE_UNIXDGRAM = 3"

lemmas sock_types = SOCK_TYPE_TCP_def SOCK_TYPE_UDP_def SOCK_TYPE_UNIXSTREAM_def SOCK_TYPE_UNIXDGRAM_def

datatype status = SOCK_STATUS_DISCONNECTED | SOCK_STATUS_CONNECTING | SOCK_STATUS_CONNECTED | SOCK_STATUS_LISTENING

datatype sock_event = SOCK_EVENT_CONNECTED | SOCK_EVENT_DISCONNECTED | SOCK_EVENT_READ | SOCK_EVENT_WRITE | SOCK_EVENT_INCOMING_ACCEPT

definition EALREADY :: int where "EALREADY = 114"
definition EINPROGRESS :: int where "EINPROGRESS = 115"
definition EBADFD :: int where "EBADFD = 77"
definition EAGAIN :: int where "EAGAIN = 11"

text \<open>\<open>interest\<close> are the flags epoll was last given for the socket's event; a listener is a number.\<close>

record EdSocket = EdEvent +
  mStatus :: status
  mType :: int
  mRaiseDisconnect :: int
  mIsListen :: bool
  mIsBinded :: bool
  slis :: "nat option"
  interest :: u32

text \<open>The socket with its task: the event system and \<^verbatim>\<open>lastSockErrorNo\<close>.\<close>

record sst =
  sk :: EdSocket
  sw :: evsys
  lastSockErrorNo :: int

text \<open>What a call finds outside: the current task, the address of the next \<^verbatim>\<open>edevt_t\<close> and the result of
  \<^verbatim>\<open>epoll_ctl\<close>.\<close>

record env =
  ecur :: thread_env
  eaddr :: addr
  ectl :: int

type_synonym 'a vmethods = "sock_event \<Rightarrow> 'a sst_scheme \<Rightarrow> fault + 'a sst_scheme"

definition EdSocket_clearInternal :: "EdSocket \<Rightarrow> EdSocket" where
  "EdSocket_clearInternal e =
     e\<lparr>mStatus := SOCK_STATUS_DISCONNECTED, mIsListen := False, mRaiseDisconnect := 0, mType := SOCK_TYPE_TCP, mIsBinded := False\<rparr>"

definition EdSocket_new :: "addr \<Rightarrow> thread_env \<Rightarrow> EdSocket" where
  "EdSocket_new self cur = EdSocket_clearInternal (EdEvent.extend (EdEvent_new self cur)
     \<lparr>mStatus = SOCK_STATUS_DISCONNECTED, mType = 0, mRaiseDisconnect = 0, mIsListen = False, mIsBinded = False, slis = None, interest = 0\<rparr>)"

definition set_lis :: "nat option \<Rightarrow> 'a sst_scheme \<Rightarrow> 'a sst_scheme" where
  "set_lis lis s = (if lis \<noteq> None then s\<lparr>sk := (sk s)\<lparr>slis := lis\<rparr>\<rparr> else s)"

definition upd_sk :: "(EdSocket \<Rightarrow> EdSocket) \<Rightarrow> 'a sst_scheme \<Rightarrow> 'a sst_scheme" where
  "upd_sk f s = s\<lparr>sk := f (sk s)\<rparr>"

definition sk_registerEvent :: "env \<Rightarrow> u32 \<Rightarrow> 'a sst_scheme \<Rightarrow> fault + 'a sst_scheme" where
  "sk_registerEvent v flags s =
     bindr (EdEvent_registerEvent (sk s) (sw s) (eaddr v) (ectl v)) (\<lambda>(e, w).
       Inr (s\<lparr>sk := (if mEvt (sk s) = NULL \<and> mEvt e \<noteq> NULL then e\<lparr>interest := flags\<rparr> else e), sw := w\<rparr>))"

definition sk_changeEvent :: "env \<Rightarrow> u32 \<Rightarrow> 'a sst_scheme \<Rightarrow> fault + 'a sst_scheme" where
  "sk_changeEvent v flags s =
     bindr (EdEvent_changeEvent (sk s) (sw s) (eaddr v) (ectl v)) (\<lambda>(e, w).
       Inr (s\<lparr>sk := (if cmode w = 0 \<and> mEvt e \<noteq> NULL \<and> ectl v = 0 then e\<lparr>interest := flags\<rparr> else e), sw := w\<rparr>))"

definition sk_deregisterEvent :: "env \<Rightarrow> 'a sst_scheme \<Rightarrow> fault + 'a sst_scheme" where
  "sk_deregisterEvent v s =
     bindr (EdEvent_deregisterEvent (sk s) (sw s) (ecur v) (ectl v)) (\<lambda>(e, w). Inr (s\<lparr>sk := e, sw := w\<rparr>))"

section \<open>Opening and closing\<close>

definition EdSocket_openSock :: "env \<Rightarrow> int \<Rightarrow> int \<Rightarrow> nat option \<Rightarrow> 'a sst_scheme \<Rightarrow> fault + (int \<times> 'a sst_scheme)" where
  "EdSocket_openSock v type fd lis s =
     (let s = upd_sk (\<lambda>e. e\<lparr>mType := type\<rparr>) (set_lis lis s) in
      if type \<in> {SOCK_TYPE_TCP, SOCK_TYPE_UDP, SOCK_TYPE_UNIXDGRAM, SOCK_TYPE_UNIXSTREAM}
      then Inr (fd, upd_sk (\<lambda>e. EdEvent_setFd (EdEvent_setDefaultContext e (ecur v)) fd (ecur v)) s)
      else Inl Assert_failed)"

definition EdSocket_openChildSock :: "env \<Rightarrow> int \<Rightarrow> nat option \<Rightarrow> 'a sst_scheme \<Rightarrow> fault + 'a sst_scheme" where
  "EdSocket_openChildSock v fd lis s =
     (let s = upd_sk (\<lambda>e. EdEvent_setFd (EdEvent_setDefaultContext e (ecur v)) fd (ecur v)) (set_lis lis s);
          s = upd_sk (\<lambda>e. e\<lparr>mStatus := SOCK_STATUS_CONNECTED, mType := SOCK_TYPE_TCP\<rparr>) s
      in sk_registerEvent v (EVT_READ OR EVT_HANGUP) s)"

text \<open>\<^verbatim>\<open>acceptSock\<close> on the listening socket \<open>s\<close> with the child \<open>c\<close>, \<open>fd\<close> the result of \<^verbatim>\<open>accept\<close>. The listener
  goes to the listening socket and to the child.\<close>

definition EdSocket_acceptSock :: "env \<Rightarrow> int \<Rightarrow> nat option \<Rightarrow> sst \<Rightarrow> EdSocket \<Rightarrow> fault + (int \<times> sst \<times> EdSocket)" where
  "EdSocket_acceptSock v fd lis s c =
     (let s = set_lis lis s in
      if fd < 0 then Inr (fd, s, c)
      else bindr (EdSocket_openChildSock v fd None (s\<lparr>sk := c\<rparr>)) (\<lambda>s'.
           Inr (fd, s'\<lparr>sk := sk s\<rparr>, if lis \<noteq> None then (sk s')\<lparr>slis := lis\<rparr> else sk s')))"

definition EdSocket_close :: "env \<Rightarrow> 'a sst_scheme \<Rightarrow> fault + 'a sst_scheme" where
  "EdSocket_close v s =
     bindr (if mFd (sk s) \<ge> 0
            then let s = (if mTask (sk s) \<noteq> NULL then s\<lparr>lastSockErrorNo := 0\<rparr> else s)
                 in bindr (sk_deregisterEvent v s) (\<lambda>s. Inr (upd_sk (\<lambda>e. e\<lparr>mFd := - 1, mStatus := SOCK_STATUS_DISCONNECTED\<rparr>) s))
            else Inr s) (\<lambda>s. Inr (upd_sk (\<lambda>e. e\<lparr>mIsBinded := False\<rparr>) s))"

definition EdSocket_bindSock :: "env \<Rightarrow> int \<Rightarrow> int \<Rightarrow> 'a sst_scheme \<Rightarrow> fault + (int \<times> 'a sst_scheme)" where
  "EdSocket_bindSock v fd bret s =
     bindr (if mFd (sk s) < 0 then map_sum id snd (EdSocket_openSock v SOCK_TYPE_TCP fd None s) else Inr s) (\<lambda>s.
       if mType (sk s) \<in> {SOCK_TYPE_TCP, SOCK_TYPE_UDP, SOCK_TYPE_UNIXSTREAM, SOCK_TYPE_UNIXDGRAM}
       then if bret = 0
            then bindr (sk_registerEvent v EVT_READ (upd_sk (\<lambda>e. e\<lparr>mIsBinded := True\<rparr>) s)) (\<lambda>s. Inr (bret, s))
            else Inr (bret, s)
       else Inr (- 1, s))"

definition EdSocket_listenSock :: "env \<Rightarrow> int \<Rightarrow> int \<Rightarrow> int \<Rightarrow> nat option \<Rightarrow> 'a sst_scheme \<Rightarrow> fault + (int \<times> 'a sst_scheme)" where
  "EdSocket_listenSock v fd bret lret lis s =
     (let s = upd_sk (\<lambda>e. e\<lparr>mIsListen := True\<rparr>) (set_lis lis s) in
      bindr (if mIsBinded (sk s) then Inr (0, s) else EdSocket_bindSock v fd bret s) (\<lambda>(r, s).
        if r < 0 then Inr (r, s)
        else if mType (sk s) = SOCK_TYPE_TCP \<or> mType (sk s) = SOCK_TYPE_UNIXSTREAM
        then if lret = 0 then bindr (sk_registerEvent v EVT_READ s) (\<lambda>s. Inr (lret, s)) else Inr (lret, s)
        else Inr (- 1, s)))"

text \<open>\<^verbatim>\<open>connect\<close> by address number, \<open>cret\<close> the result of the system call; and by name, where \<open>err\<close> is
  \<^verbatim>\<open>errno\<close>.\<close>

definition EdSocket_connect_ip :: "env \<Rightarrow> int \<Rightarrow> int \<Rightarrow> nat option \<Rightarrow> 'a sst_scheme \<Rightarrow> fault + (int \<times> 'a sst_scheme)" where
  "EdSocket_connect_ip v fd cret lis s =
     (let s = set_lis lis s in
      if mStatus (sk s) = SOCK_STATUS_CONNECTED then Inr (0, s)
      else if mStatus (sk s) \<noteq> SOCK_STATUS_DISCONNECTED then Inr (EALREADY, s)
      else bindr (if mFd (sk s) < 0 then map_sum id snd (EdSocket_openSock v SOCK_TYPE_TCP fd None s) else Inr s) (\<lambda>s.
           if mType (sk s) = SOCK_TYPE_TCP
           then bindr (sk_registerEvent v (EVT_WRITE OR EVT_HANGUP) s) (\<lambda>s.
                Inr (cret, upd_sk (\<lambda>e. e\<lparr>mStatus := SOCK_STATUS_CONNECTING\<rparr>) s))
           else if mType (sk s) = SOCK_TYPE_UDP then Inr (cret, s)
           else Inr (- 1, s)))"

definition EdSocket_connect_name :: "env \<Rightarrow> int \<Rightarrow> int \<Rightarrow> int \<Rightarrow> nat option \<Rightarrow> 'a sst_scheme \<Rightarrow> fault + (int \<times> 'a sst_scheme)" where
  "EdSocket_connect_name v fd cret err lis s =
     (let s = set_lis lis s in
      if mType (sk s) = SOCK_TYPE_TCP \<or> mType (sk s) = SOCK_TYPE_UDP then EdSocket_connect_ip v fd cret None s
      else if mType (sk s) = SOCK_TYPE_UNIXSTREAM \<or> mType (sk s) = SOCK_TYPE_UNIXDGRAM
      then if mStatus (sk s) \<noteq> SOCK_STATUS_DISCONNECTED then Inr (EALREADY, s)
           else if cret \<noteq> 0
           then if err = EINPROGRESS
                then bindr (sk_registerEvent v (EVT_READ OR EVT_HANGUP) (upd_sk (\<lambda>e. e\<lparr>mStatus := SOCK_STATUS_CONNECTING\<rparr>) s)) (\<lambda>s. Inr (cret, s))
                else Inr (cret, upd_sk (\<lambda>e. e\<lparr>mStatus := SOCK_STATUS_DISCONNECTED\<rparr>) s)
           else bindr (sk_registerEvent v (EVT_READ OR EVT_HANGUP) (upd_sk (\<lambda>e. e\<lparr>mStatus := SOCK_STATUS_CONNECTED\<rparr>) s)) (\<lambda>s. Inr (cret, s))
      else Inr (- 1, s))"

text \<open>\<^verbatim>\<open>recv\<close> records the end of the stream in the task.\<close>

definition EdSocket_recv :: "int \<Rightarrow> 'a sst_scheme \<Rightarrow> fault + (int \<times> 'a sst_scheme)" where
  "EdSocket_recv rret s =
     (if rret = 0
      then if mTask (sk s) = NULL then Inl Bad_access else Inr (rret, s\<lparr>lastSockErrorNo := EBADFD\<rparr>)
      else Inr (rret, s))"

definition EdSocket_sendto_unix :: "nat \<Rightarrow> int \<Rightarrow> int" where
  "EdSocket_sendto_unix addrlen sret = (if addrlen > 108 - 2 then - 1 else sret)"

definition EdSocket_postReserveDisconnect :: "EdSocket \<Rightarrow> EdSocket" where
  "EdSocket_postReserveDisconnect e =
     (if mType e = SOCK_TYPE_TCP then e\<lparr>mStatus := SOCK_STATUS_DISCONNECTED, mRaiseDisconnect := 1\<rparr> else e)"

section \<open>Events\<close>

text \<open>The virtual methods of \<^verbatim>\<open>EdSocket\<close> itself: the listener, when there is one.\<close>

definition EdSocket_vm :: "(nat \<Rightarrow> 'a vmethods) \<Rightarrow> 'a vmethods" where
  "EdSocket_vm lis ev s = (case slis (sk s) of None \<Rightarrow> Inr s | Some n \<Rightarrow> lis n ev s)"

definition EdSocket_OnEventRead :: "'a vmethods \<Rightarrow> env \<Rightarrow> 'a sst_scheme \<Rightarrow> fault + 'a sst_scheme" where
  "EdSocket_OnEventRead vm v s =
     (if \<not> mIsListen (sk s)
      then bindr (vm SOCK_EVENT_READ (upd_sk (\<lambda>e. e\<lparr>mRaiseDisconnect := 0\<rparr>) s)) (\<lambda>s.
           if lastSockErrorNo s \<noteq> 0
           then bindr (vm SOCK_EVENT_DISCONNECTED s) (\<lambda>s.
                if lastSockErrorNo s \<noteq> 0 then EdSocket_close v s else Inr s)
           else Inr s)
      else vm SOCK_EVENT_INCOMING_ACCEPT s)"

definition EdSocket_OnEventWrite :: "'a vmethods \<Rightarrow> env \<Rightarrow> int \<Rightarrow> 'a sst_scheme \<Rightarrow> fault + 'a sst_scheme" where
  "EdSocket_OnEventWrite vm v sockerr s =
     (if mStatus (sk s) = SOCK_STATUS_CONNECTING
      then if sockerr \<noteq> 0
           then bindr (EdSocket_close v s) (vm SOCK_EVENT_DISCONNECTED)
           else bindr (sk_changeEvent v (EVT_READ OR EVT_HANGUP) (upd_sk (\<lambda>e. e\<lparr>mStatus := SOCK_STATUS_CONNECTED\<rparr>) s)) (vm SOCK_EVENT_CONNECTED)
      else vm SOCK_EVENT_WRITE s)"

definition EdSocket_OnEventHangup :: "'a vmethods \<Rightarrow> env \<Rightarrow> 'a sst_scheme \<Rightarrow> fault + 'a sst_scheme" where
  "EdSocket_OnEventHangup vm v s = bindr (EdSocket_close v s) (vm SOCK_EVENT_DISCONNECTED)"

section \<open>States of a socket\<close>

text \<open>A socket is live when its descriptor is open and its event \<open>p\<close> registered by the current task, idle
  when it is opened but not registered, and gone when it is closed.\<close>

definition sk_live :: "env \<Rightarrow> addr \<Rightarrow> EdSocket \<Rightarrow> bool" where
  "sk_live v p e \<longleftrightarrow> 0 < mFd e \<and> ev_on e (curTask (ecur v)) p"

definition sk_idle :: "env \<Rightarrow> EdSocket \<Rightarrow> bool" where
  "sk_idle v e \<longleftrightarrow> 0 < mFd e \<and> ev_off e \<and> mTask e = curTask (ecur v)"

definition sk_gone :: "EdSocket \<Rightarrow> bool" where
  "sk_gone e \<longleftrightarrow> mFd e < 0 \<and> ev_off e"

definition sys_ok :: "env \<Rightarrow> 'a sst_scheme \<Rightarrow> addr list \<Rightarrow> addr list \<Rightarrow> bool" where
  "sys_ok v s es ds \<longleftrightarrow> ev_rep (sw s) es ds \<and> env_ok (sw s) (ecur v) \<and> ectl v = 0"

definition sock_live :: "env \<Rightarrow> 'a sst_scheme \<Rightarrow> bool" where
  "sock_live v s \<longleftrightarrow> (\<exists>es ds. sys_ok v s es ds \<and> (\<exists>p \<in> set es. sk_live v p (sk s)))"

definition sock_st :: "env \<Rightarrow> 'a sst_scheme \<Rightarrow> bool" where
  "sock_st v s \<longleftrightarrow> (\<exists>es ds. sys_ok v s es ds \<and> ((\<exists>p \<in> set es. sk_live v p (sk s)) \<or> sk_idle v (sk s) \<or> sk_gone (sk s)))"

lemma upd_sk_simps [simp]:
  "sk (upd_sk f s) = f (sk s)" "sw (upd_sk f s) = sw s" "lastSockErrorNo (upd_sk f s) = lastSockErrorNo s"
  "sst.more (upd_sk f s) = sst.more s"
  by (simp_all add: upd_sk_def)

lemma sys_ok_upd [simp]:
  "sys_ok v (upd_sk f s) es ds = sys_ok v s es ds" "sys_ok v (s\<lparr>lastSockErrorNo := n\<rparr>) es ds = sys_ok v s es ds"
  "sys_ok v (s\<lparr>sk := e\<rparr>) es ds = sys_ok v s es ds"
  by (simp_all add: sys_ok_def)

lemma ev_upd [simp]:
  "ev_off (e\<lparr>mStatus := x\<rparr>) = ev_off e" "ev_off (e\<lparr>mIsBinded := b\<rparr>) = ev_off e" "ev_off (e\<lparr>mType := t\<rparr>) = ev_off e"
  "ev_on (e\<lparr>mStatus := x\<rparr>) c p = ev_on e c p" "ev_on (e\<lparr>mIsBinded := b\<rparr>) c p = ev_on e c p"
  "ev_on (e\<lparr>interest := n\<rparr>) c p = ev_on e c p" "ev_on (e\<lparr>mRaiseDisconnect := k\<rparr>) c p = ev_on e c p"
  "ev_off (e\<lparr>mFd := i, mStatus := x, mIsBinded := b\<rparr>) = ev_off e"
  by (simp_all add: ev_off_def ev_on_def)

lemma sock_stI:
  "sys_ok v s es ds \<Longrightarrow> sk_live v p (sk s) \<Longrightarrow> p \<in> set es \<Longrightarrow> sock_st v s"
  "sys_ok v s es ds \<Longrightarrow> sk_idle v (sk s) \<Longrightarrow> sock_st v s"
  "sys_ok v s es ds \<Longrightarrow> sk_gone (sk s) \<Longrightarrow> sock_st v s"
  by (auto simp: sock_st_def)

lemma sock_live_st: "sock_live v s \<Longrightarrow> sock_st v s"
  by (auto simp: sock_live_def sock_st_def)

lemma sock_liveI: "sys_ok v s es ds \<Longrightarrow> sk_live v p (sk s) \<Longrightarrow> p \<in> set es \<Longrightarrow> sock_live v s"
  by (auto simp: sock_live_def)

text \<open>Closing, in each of the three states.\<close>

lemma close_live:
  assumes sys: "sys_ok v s es ds" and live: "sk_live v p (sk s)" and p: "p \<in> set es"
  obtains s' where "EdSocket_close v s = Inr s'" "sk_gone (sk s')" "mFd (sk s') = - 1" "mStatus (sk s') = SOCK_STATUS_DISCONNECTED"
    "lastSockErrorNo s' = 0" "sys_ok v s' (remove1 p es) (ds @ [p])" "slis (sk s') = slis (sk s)" "mIsListen (sk s') = mIsListen (sk s)"
    "sst.more s' = sst.more s" "\<exists>e. evts (sw s) p = Some e \<and> evts (sw s') = (evts (sw s))(p \<mapsto> e\<lparr>isReg := False\<rparr>)"
proof -
  have h: "ev_rep (sw s) es ds" "env_ok (sw s) (ecur v)" "ectl v = 0" using sys by (simp_all add: sys_ok_def)
  have on: "ev_on (sk s) (curTask (ecur v)) p" "0 < mFd (sk s)" using live by (simp_all add: sk_live_def)
  have t: "mTask (sk s) \<noteq> NULL" using on(1) h(2) by (simp add: ev_on_def env_ok_def)
  show thesis
  proof (rule deregisterEvent_ok [OF on(1) h(1,2) p])
    fix w' assume w': "EdEvent_deregisterEvent (sk s) (sw s) (ecur v) 0 = Inr ((sk s)\<lparr>mEvt := NULL, mIsReg := False, mTask := NULL\<rparr>, w')"
      "ev_rep w' (remove1 p es) (ds @ [p])" "cmode w' = cmode (sw s)" "\<exists>e. evts (sw s) p = Some e \<and> evts w' = (evts (sw s))(p \<mapsto> e\<lparr>isReg := False\<rparr>)"
    let ?e = "(sk s)\<lparr>mEvt := NULL, mIsReg := False, mTask := NULL, mFd := - 1, mStatus := SOCK_STATUS_DISCONNECTED, mIsBinded := False\<rparr>"
    let ?s = "s\<lparr>lastSockErrorNo := 0, sk := ?e, sw := w'\<rparr>"
    have "EdSocket_close v s = Inr ?s"
      using on(2) t w'(1) h(3) by (simp add: EdSocket_close_def sk_deregisterEvent_def upd_sk_def Let_def)
    moreover have "sk_gone ?e" by (simp add: sk_gone_def ev_off_def)
    moreover have "sys_ok v ?s (remove1 p es) (ds @ [p])" using w'(2,3) h by (simp add: sys_ok_def env_ok_def)
    ultimately show thesis using w'(4) by (intro that [of ?s]) simp_all
  qed
qed

lemma close_idle:
  assumes "sys_ok v s es ds" "sk_idle v (sk s)"
  obtains s' where "EdSocket_close v s = Inr s'" "sk_gone (sk s')" "lastSockErrorNo s' = 0" "sys_ok v s' es ds" "sst.more s' = sst.more s" "sw s' = sw s"
proof -
  have t: "mTask (sk s) \<noteq> NULL" "0 < mFd (sk s)" using assms by (simp_all add: sk_idle_def sys_ok_def env_ok_def)
  let ?s = "upd_sk (\<lambda>e. e\<lparr>mFd := - 1, mStatus := SOCK_STATUS_DISCONNECTED, mIsBinded := False\<rparr>) (s\<lparr>lastSockErrorNo := 0\<rparr>)"
  have "EdSocket_close v s = Inr ?s"
    using assms t by (simp add: EdSocket_close_def sk_deregisterEvent_def EdEvent_deregisterEvent_def sk_idle_def ev_off_def upd_sk_def Let_def)
  then show thesis using assms by (intro that [of ?s]) (simp_all add: sk_gone_def sk_idle_def)
qed

lemma close_gone:
  assumes "sys_ok v s es ds" "sk_gone (sk s)"
  shows "EdSocket_close v s = Inr (upd_sk (\<lambda>e. e\<lparr>mIsBinded := False\<rparr>) s)"
  using assms by (simp add: EdSocket_close_def sk_gone_def)

text \<open>Closing keeps who the socket is.\<close>

lemma close_frame:
  "EdSocket_close v s = Inr s' \<Longrightarrow> eself (sk s') = eself (sk s) \<and> slis (sk s') = slis (sk s) \<and> mIsListen (sk s') = mIsListen (sk s) \<and>
     mUser (sk s') = mUser (sk s) \<and> sst.more s' = sst.more s"
  by (auto simp: EdSocket_close_def sk_deregisterEvent_def EdEvent_deregisterEvent_def upd_sk_def bindr_def Let_def
      split: if_splits sum.splits)

lemma close_st: "sock_st v s \<Longrightarrow> \<exists>s'. EdSocket_close v s = Inr s' \<and> sock_st v s' \<and> sk_gone (sk s') \<and> sst.more s' = sst.more s"
proof -
  assume "sock_st v s"
  then obtain es ds where sys: "sys_ok v s es ds" and c: "(\<exists>p \<in> set es. sk_live v p (sk s)) \<or> sk_idle v (sk s) \<or> sk_gone (sk s)"
    by (auto simp: sock_st_def)
  from c consider (live) p where "p \<in> set es" "sk_live v p (sk s)" | (idle) "sk_idle v (sk s)" | (gone) "sk_gone (sk s)" by blast
  then show ?thesis
  proof cases
    case live
    show ?thesis by (rule close_live [OF sys live(2,1)]) (auto simp: sock_st_def)
  next
    case idle
    show ?thesis by (rule close_idle [OF sys idle]) (auto simp: sock_st_def)
  next
    case gone
    let ?s = "upd_sk (\<lambda>e. e\<lparr>mIsBinded := False\<rparr>) s"
    have "sk_gone (sk ?s)" "sys_ok v ?s es ds" "sst.more ?s = sst.more s" using gone sys by (simp_all add: sk_gone_def)
    then show ?thesis using close_gone [OF sys gone] sock_stI(3) by blast
  qed
qed

lemma change_live:
  assumes sys: "sys_ok v s es ds" and live: "sk_live v p (sk s)" and p: "p \<in> set es"
  shows "sk_changeEvent v flags s = Inr (s\<lparr>sk := (sk s)\<lparr>interest := flags\<rparr>\<rparr>)"
proof -
  obtain e where "evts (sw s) p = Some e" using sys p ev_rep_evt [of "sw s" es ds p] by (auto simp: sys_ok_def)
  then show ?thesis using sys live
    by (simp add: sk_changeEvent_def EdEvent_changeEvent_def EdTask_changeEdEvent_def sk_live_def ev_on_def sys_ok_def env_ok_def)
qed

section \<open>Clients\<close>

text \<open>The event handlers of a socket, with everything they rely on: \<open>L\<close> are the states in which an event of
  the socket may arrive, \<open>S\<close> those in which it may be closed and \<open>Q\<close> those a virtual method may leave. After a
  method the handlers touch the socket again only when the task has recorded an error.\<close>

locale sock_handler =
  fixes vm :: "'a vmethods" and v :: env and L S Q :: "'a sst_scheme \<Rightarrow> bool"
  assumes L_S: "L s \<Longrightarrow> S s" and S_Q: "S s \<Longrightarrow> Q s" and Q_S: "Q s \<Longrightarrow> lastSockErrorNo s \<noteq> 0 \<Longrightarrow> S s"
    and close_law: "S s \<Longrightarrow> \<exists>s'. EdSocket_close v s = Inr s' \<and> S s'"
    and mark_law: "L s \<Longrightarrow> L (upd_sk (\<lambda>e. e\<lparr>mRaiseDisconnect := 0\<rparr>) s)"
    and connect_law: "L s \<Longrightarrow> \<exists>s'. sk_changeEvent v (EVT_READ OR EVT_HANGUP) (upd_sk (\<lambda>e. e\<lparr>mStatus := SOCK_STATUS_CONNECTED\<rparr>) s) = Inr s' \<and> L s'"
    and method_law: "L s \<Longrightarrow> \<exists>s'. vm ev s = Inr s' \<and> Q s'"
    and lost_law: "S s \<Longrightarrow> \<exists>s'. vm SOCK_EVENT_DISCONNECTED s = Inr s' \<and> Q s'"
begin

lemma read_ok:
  assumes "L s"
  shows "\<exists>s'. EdSocket_OnEventRead vm v s = Inr s' \<and> Q s'"
proof (cases "mIsListen (sk s)")
  case True
  then show ?thesis using method_law [OF assms] by (simp add: EdSocket_OnEventRead_def)
next
  case False
  obtain s1 where 1: "vm SOCK_EVENT_READ (upd_sk (\<lambda>e. e\<lparr>mRaiseDisconnect := 0\<rparr>) s) = Inr s1" "Q s1"
    using method_law [OF mark_law [OF assms]] by blast
  show ?thesis
  proof (cases "lastSockErrorNo s1 = 0")
    case True
    then show ?thesis using False 1 by (simp add: EdSocket_OnEventRead_def)
  next
    case err: False
    obtain s2 where 2: "vm SOCK_EVENT_DISCONNECTED s1 = Inr s2" "Q s2" using lost_law [OF Q_S [OF 1(2) err]] by blast
    have "lastSockErrorNo s2 \<noteq> 0 \<Longrightarrow> \<exists>s'. EdSocket_close v s2 = Inr s' \<and> Q s'" using close_law [OF Q_S [OF 2(2)]] S_Q by blast
    then show ?thesis using False err 1 2 by (auto simp: EdSocket_OnEventRead_def)
  qed
qed

lemma hangup_ok:
  assumes "S s"
  shows "\<exists>s'. EdSocket_OnEventHangup vm v s = Inr s' \<and> Q s'"
proof -
  obtain s1 where "EdSocket_close v s = Inr s1" "S s1" using close_law [OF assms] by blast
  then show ?thesis using lost_law [of s1] by (auto simp: EdSocket_OnEventHangup_def)
qed

lemma write_ok:
  assumes "L s"
  shows "\<exists>s'. EdSocket_OnEventWrite vm v err s = Inr s' \<and> Q s'"
proof -
  obtain s1 where 1: "EdSocket_close v s = Inr s1" "S s1" using close_law [OF L_S [OF assms]] by blast
  obtain s2 where 2: "sk_changeEvent v (EVT_READ OR EVT_HANGUP) (upd_sk (\<lambda>e. e\<lparr>mStatus := SOCK_STATUS_CONNECTED\<rparr>) s) = Inr s2" "L s2"
    using connect_law [OF assms] by blast
  show ?thesis
    using 1(1) 2(1) lost_law [OF 1(2)] method_law [OF 2(2), of SOCK_EVENT_CONNECTED] method_law [OF assms, of SOCK_EVENT_WRITE]
    by (simp add: EdSocket_OnEventWrite_def)
qed

end

text \<open>What one socket on its own needs of its virtual methods: they return and leave the socket in one of
  its states. They may close it. Only \<^verbatim>\<open>OnDisconnected\<close> is called on a socket that is not live. \<open>J\<close> is the
  invariant of what a subclass adds.\<close>

locale sock_client =
  fixes vm :: "'a vmethods" and v :: env and J :: "'a sst_scheme \<Rightarrow> bool"
  assumes vm_law: "sock_live v s \<Longrightarrow> J s \<Longrightarrow> \<exists>s'. vm ev s = Inr s' \<and> sock_st v s' \<and> J s'"
    and disc_law: "sock_st v s \<Longrightarrow> J s \<Longrightarrow> \<exists>s'. vm SOCK_EVENT_DISCONNECTED s = Inr s' \<and> sock_st v s' \<and> J s'"
    and frame: "sst.more s' = sst.more s \<Longrightarrow> J s \<Longrightarrow> J s'"
begin

lemma close_J: "sock_st v s \<Longrightarrow> J s \<Longrightarrow> \<exists>s'. EdSocket_close v s = Inr s' \<and> sock_st v s' \<and> sk_gone (sk s') \<and> J s'"
  using close_st [of v s] frame by metis

lemma connect_J:
  assumes "sock_live v s" "J s"
  shows "\<exists>s'. sk_changeEvent v (EVT_READ OR EVT_HANGUP) (upd_sk (\<lambda>e. e\<lparr>mStatus := SOCK_STATUS_CONNECTED\<rparr>) s) = Inr s' \<and> sock_live v s' \<and> J s'"
proof -
  obtain es ds p where st: "sys_ok v s es ds" "sk_live v p (sk s)" "p \<in> set es" using assms(1) by (auto simp: sock_live_def)
  let ?s = "upd_sk (\<lambda>e. e\<lparr>mStatus := SOCK_STATUS_CONNECTED\<rparr>) s"
  let ?s1 = "?s\<lparr>sk := (sk ?s)\<lparr>interest := EVT_READ OR EVT_HANGUP\<rparr>\<rparr>"
  have l: "sys_ok v ?s es ds" "sk_live v p (sk ?s)" using st by (simp_all add: sk_live_def)
  have "sk_live v p (sk ?s1)" "sys_ok v ?s1 es ds" "sst.more ?s1 = sst.more s" using l by (simp_all add: sk_live_def)
  then have "sock_live v ?s1" "J ?s1" using st(3) assms(2) by (metis sock_liveI, metis frame)
  then show ?thesis using change_live [OF l st(3)] by blast
qed

end

sublocale sock_client < handler: sock_handler vm v "\<lambda>s. sock_live v s \<and> J s" "\<lambda>s. sock_st v s \<and> J s" "\<lambda>s. sock_st v s \<and> J s"
proof unfold_locales
  fix s assume s: "sock_live v s \<and> J s"
  show "sock_st v s \<and> J s" using s sock_live_st by blast
  have "sock_live v (upd_sk (\<lambda>e. e\<lparr>mRaiseDisconnect := 0\<rparr>) s)" using s by (simp add: sock_live_def sk_live_def)
  moreover have "J (upd_sk (\<lambda>e. e\<lparr>mRaiseDisconnect := 0\<rparr>) s)" using s frame [of _ s] by simp
  ultimately show "sock_live v (upd_sk (\<lambda>e. e\<lparr>mRaiseDisconnect := 0\<rparr>) s) \<and> J (upd_sk (\<lambda>e. e\<lparr>mRaiseDisconnect := 0\<rparr>) s)" ..
qed (use close_J connect_J vm_law disc_law in blast)+

context sock_client
begin

lemma OnEventRead_safe: "sock_live v s \<Longrightarrow> J s \<Longrightarrow> \<exists>s'. EdSocket_OnEventRead vm v s = Inr s' \<and> sock_st v s' \<and> J s'"
  by (rule handler.read_ok) blast

lemma OnEventHangup_safe:
  assumes "sock_st v s" "J s"
  shows "\<exists>s' s1. EdSocket_OnEventHangup vm v s = Inr s' \<and> sock_st v s' \<and> J s' \<and> EdSocket_close v s = Inr s1 \<and> sk_gone (sk s1) \<and> vm SOCK_EVENT_DISCONNECTED s1 = Inr s'"
proof -
  obtain s1 where 1: "EdSocket_close v s = Inr s1" "sock_st v s1" "sk_gone (sk s1)" "J s1" using close_J [OF assms] by blast
  then show ?thesis using disc_law [OF 1(2,4)] by (auto simp: EdSocket_OnEventHangup_def)
qed

lemma OnEventWrite_safe: "sock_live v s \<Longrightarrow> J s \<Longrightarrow> \<exists>s'. EdSocket_OnEventWrite vm v err s = Inr s' \<and> sock_st v s' \<and> J s'"
  by (rule handler.write_ok) blast

end

text \<open>A listener that reads the end of the stream and closes the socket in its \<^verbatim>\<open>OnDisconnected\<close>, or leaves
  that to the library.\<close>

definition eof_listener :: "env \<Rightarrow> bool \<Rightarrow> nat \<Rightarrow> 'a vmethods" where
  "eof_listener v closes n ev s =
     (case ev of SOCK_EVENT_READ \<Rightarrow> if mFd (sk s) < 0 then Inr s else map_sum id snd (EdSocket_recv 0 s)
      | SOCK_EVENT_DISCONNECTED \<Rightarrow> if closes then EdSocket_close v s else Inr s
      | _ \<Rightarrow> Inr s)"

lemma sock_st_err [simp]: "sock_st v (s\<lparr>lastSockErrorNo := n\<rparr>) = sock_st v s"
  by (simp add: sock_st_def sys_ok_def)

lemma st_task: "sock_st v s \<Longrightarrow> \<not> mFd (sk s) < 0 \<Longrightarrow> mTask (sk s) \<noteq> NULL"
  by (auto simp: sock_st_def sk_live_def sk_idle_def sk_gone_def ev_on_def sys_ok_def env_ok_def)

lemma eof_keeps:
  "sock_st v s \<Longrightarrow> \<exists>s'. EdSocket_vm (eof_listener v closes) ev s = Inr s' \<and> sock_st v s'"
  using close_st [of v s] st_task [of v s]
  by (auto simp: EdSocket_vm_def eof_listener_def EdSocket_recv_def split: option.splits sock_event.splits)

interpretation eof: sock_client "EdSocket_vm (eof_listener v closes)" v "\<lambda>_. True" for v closes
  by unfold_locales (use eof_keeps sock_live_st in blast)+

section \<open>Writing\<close>

text \<open>\<^verbatim>\<open>EdSocket::send\<close>. The environment of \<^verbatim>\<open>write\<close> is a list of capacities: how many bytes each call may
  take, negative for an error. The bytes written are collected in \<open>wire\<close>.\<close>

record wsock = sst +
  writes :: "int list"
  wire :: "u8 list"

definition EdSocket_send :: "u8 list \<Rightarrow> 'a wsock_scheme \<Rightarrow> int \<times> 'a wsock_scheme" where
  "EdSocket_send bs s =
     (case writes s of
        [] \<Rightarrow> (- 1, s)
      | r # rs \<Rightarrow> if r < 0 then (- 1, s\<lparr>writes := rs\<rparr>)
                  else let n = min (nat r) (length bs) in (int n, s\<lparr>writes := rs, wire := wire s @ take n bs\<rparr>))"

lemma send_spec:
  obtains n s' where "EdSocket_send bs s = (n, s')" "n \<le> int (length bs)" "wire s' = wire s @ take (nat n) bs"
    "s' = s\<lparr>writes := tl (writes s), wire := wire s'\<rparr>" "writes s = [] \<longrightarrow> n = - 1"
proof (cases "writes s")
  case Nil
  then show thesis by (intro that [of "- 1" s]) (simp_all add: EdSocket_send_def)
next
  case (Cons r rs)
  let ?n = "min (nat r) (length bs)"
  show thesis
  proof (cases "r < 0")
    case True
    then show thesis using Cons by (intro that [of "- 1" "s\<lparr>writes := rs\<rparr>"]) (simp_all add: EdSocket_send_def)
  next
    case False
    then show thesis using Cons
      by (intro that [of "int ?n" "s\<lparr>writes := rs, wire := wire s @ take ?n bs\<rparr>"]) (simp_all add: EdSocket_send_def Let_def)
  qed
qed

section \<open>Connecting and listening\<close>

lemma openSock_ok:
  assumes "type \<in> {SOCK_TYPE_TCP, SOCK_TYPE_UDP, SOCK_TYPE_UNIXDGRAM, SOCK_TYPE_UNIXSTREAM}"
  shows "EdSocket_openSock v type fd None s =
    Inr (fd, s\<lparr>sk := EdEvent_setFd (EdEvent_setDefaultContext ((sk s)\<lparr>mType := type\<rparr>) (ecur v)) fd (ecur v)\<rparr>)"
  using assms by (simp add: EdSocket_openSock_def set_lis_def upd_sk_def)

lemma register_ok:
  assumes sys: "sys_ok v s es ds" and off: "ev_off e" and a: "ehdrs (sw s) (eaddr v) = None" "eaddr v \<noteq> NULL" and fd: "0 < fd"
    and s1: "sk s = EdEvent_setFd e fd (ecur v)"
  obtains w' where "sk_registerEvent v flags s = Inr (s\<lparr>sk := (sk s)\<lparr>mEvt := eaddr v, mIsReg := True, interest := flags\<rparr>, sw := w'\<rparr>)"
    "ev_rep w' (es @ [eaddr v]) ds" "cmode w' = cmode (sw s)"
    "evts w' = (evts (sw s))(eaddr v \<mapsto> \<lparr>evfd = fd, evuser = eself e, isReg = True, ecb = EsCb\<rparr>)"
proof -
  have h: "ev_rep (sw s) es ds" "env_ok (sw s) (ecur v)" "ectl v = 0" using sys by (simp_all add: sys_ok_def)
  show thesis
  proof (rule setFd_registerEvent_ok [OF off h(1,2) a fd])
    fix e' w' assume "EdEvent_registerEvent (EdEvent_setFd e fd (ecur v)) (sw s) (eaddr v) 0 = Inr (e', w')"
      "e' = (EdEvent_setFd e fd (ecur v))\<lparr>mEvt := eaddr v, mIsReg := True\<rparr>" "ev_rep w' (es @ [eaddr v]) ds" "cmode w' = cmode (sw s)"
      "evts w' = (evts (sw s))(eaddr v \<mapsto> \<lparr>evfd = fd, evuser = eself e, isReg = True, ecb = EsCb\<rparr>)"
    then show thesis using off h(3) a(2) s1
      by (intro that [of w']) (simp_all add: sk_registerEvent_def ev_off_def EdEvent_setFd_def)
  qed
qed

text \<open>A child socket on an accepted descriptor. With an invalid descriptor epoll refuses the registration,
  and yet the socket is marked as registered.\<close>

definition child_sock :: "env \<Rightarrow> int \<Rightarrow> EdSocket \<Rightarrow> EdSocket" where
  "child_sock v fd e = EdEvent_setFd ((EdEvent_setDefaultContext e (ecur v))\<lparr>mStatus := SOCK_STATUS_CONNECTED, mType := SOCK_TYPE_TCP\<rparr>) fd (ecur v)"

lemma openChild_step:
  "EdSocket_openChildSock v fd None s = sk_registerEvent v (EVT_READ OR EVT_HANGUP) (s\<lparr>sk := child_sock v fd (sk s)\<rparr>)"
  by (cases "sk s") (simp add: EdSocket_openChildSock_def set_lis_def upd_sk_def child_sock_def EdEvent_setFd_def EdEvent_setDefaultContext_def)

lemma child_sock_simps [simp]:
  "eself (child_sock v fd e) = eself e" "mFd (child_sock v fd e) = fd" "mEvt (child_sock v fd e) = mEvt e" "mIsReg (child_sock v fd e) = mIsReg e"
  "mTask (child_sock v fd e) = curTask (ecur v)" "mContext (child_sock v fd e) = curContext (ecur v)" "mUser (child_sock v fd e) = mUser e"
  "slis (child_sock v fd e) = slis e" "mIsListen (child_sock v fd e) = mIsListen e" "mStatus (child_sock v fd e) = SOCK_STATUS_CONNECTED"
  by (simp_all add: child_sock_def EdEvent_setFd_def EdEvent_setDefaultContext_def)

lemma openChild_ok:
  assumes sys: "sys_ok v s es ds" and off: "ev_off (sk s)" and a: "ehdrs (sw s) (eaddr v) = None" "eaddr v \<noteq> NULL" and fd: "0 < fd"
  obtains w' where "EdSocket_openChildSock v fd None s =
      Inr (s\<lparr>sk := (child_sock v fd (sk s))\<lparr>mEvt := eaddr v, mIsReg := True, interest := EVT_READ OR EVT_HANGUP\<rparr>, sw := w'\<rparr>)"
    "ev_rep w' (es @ [eaddr v]) ds" "cmode w' = cmode (sw s)"
    "evts w' = (evts (sw s))(eaddr v \<mapsto> \<lparr>evfd = fd, evuser = eself (sk s), isReg = True, ecb = EsCb\<rparr>)"
proof -
  let ?e = "(EdEvent_setDefaultContext (sk s) (ecur v))\<lparr>mStatus := SOCK_STATUS_CONNECTED, mType := SOCK_TYPE_TCP\<rparr>"
  let ?s = "s\<lparr>sk := child_sock v fd (sk s)\<rparr>"
  have off: "ev_off ?e" using off by (simp add: ev_off_def EdEvent_setDefaultContext_def)
  have h: "sys_ok v ?s es ds" "ehdrs (sw ?s) (eaddr v) = None" "sk ?s = EdEvent_setFd ?e fd (ecur v)" using sys a(1) by (simp_all add: child_sock_def)
  have self: "eself ?e = eself (sk s)" by (simp add: EdEvent_setDefaultContext_def)
  show thesis
    by (rule register_ok [OF h(1) off h(2) a(2) fd h(3), of "EVT_READ OR EVT_HANGUP"])
      (use that in \<open>simp add: openChild_step self\<close>)
qed

lemma openChild_refused:
  assumes env: "env_ok (sw s) (ecur v)" "ectl v \<noteq> 0" and off: "ev_off (sk s)" and a: "ehdrs (sw s) (eaddr v) = None" "evts (sw s) (eaddr v) = None"
  shows "EdSocket_openChildSock v fd None s =
    Inr (s\<lparr>sk := (child_sock v fd (sk s))\<lparr>mIsReg := True\<rparr>, sw := (sw s)\<lparr>evt_count := evt_count (sw s) + 1\<rparr>\<rparr>)"
proof -
  have "(child_sock v fd (sk s))\<lparr>mEvt := NULL\<rparr> = child_sock v fd (sk s)"
    using off by (cases "sk s") (simp add: child_sock_def EdEvent_setFd_def EdEvent_setDefaultContext_def ev_off_def)
  then show ?thesis
    using env off regEdEvent_refused [OF a env(2)]
    by (simp add: openChild_step sk_registerEvent_def EdEvent_registerEvent_def ev_off_def env_ok_def)
qed

text \<open>From a closed socket to a connecting one.\<close>

lemma connect_ok:
  assumes sys: "sys_ok v s es ds" and gone: "sk_gone (sk s)" "mStatus (sk s) = SOCK_STATUS_DISCONNECTED"
    and a: "ehdrs (sw s) (eaddr v) = None" "eaddr v \<noteq> NULL" and fd: "0 < fd"
  obtains s1 where "EdSocket_connect_ip v fd cret None s = Inr (cret, s1)" "mStatus (sk s1) = SOCK_STATUS_CONNECTING"
    "interest (sk s1) = EVT_WRITE OR EVT_HANGUP" "sk_live v (eaddr v) (sk s1)" "sys_ok v s1 (es @ [eaddr v]) ds"
    "slis (sk s1) = slis (sk s)" "mFd (sk s1) = fd" "mIsListen (sk s1) = mIsListen (sk s)" "eself (sk s1) = eself (sk s)"
    "evts (sw s1) = (evts (sw s))(eaddr v \<mapsto> \<lparr>evfd = fd, evuser = eself (sk s), isReg = True, ecb = EsCb\<rparr>)"
proof -
  let ?e = "EdEvent_setDefaultContext ((sk s)\<lparr>mType := SOCK_TYPE_TCP\<rparr>) (ecur v)"
  let ?s0 = "s\<lparr>sk := EdEvent_setFd ?e fd (ecur v)\<rparr>"
  have off: "ev_off ?e" using gone(1) by (simp add: sk_gone_def ev_off_def EdEvent_setDefaultContext_def)
  have h: "sys_ok v ?s0 es ds" "ehdrs (sw ?s0) (eaddr v) = None" "sk ?s0 = EdEvent_setFd ?e fd (ecur v)" using sys a(1) by simp_all
  show thesis
  proof (rule register_ok [OF h(1) off h(2) a(2) fd h(3), of "EVT_WRITE OR EVT_HANGUP"])
    fix w' assume w': "sk_registerEvent v (EVT_WRITE OR EVT_HANGUP) ?s0 =
        Inr (?s0\<lparr>sk := (sk ?s0)\<lparr>mEvt := eaddr v, mIsReg := True, interest := EVT_WRITE OR EVT_HANGUP\<rparr>, sw := w'\<rparr>)"
      "ev_rep w' (es @ [eaddr v]) ds" "cmode w' = cmode (sw ?s0)"
      "evts w' = (evts (sw ?s0))(eaddr v \<mapsto> \<lparr>evfd = fd, evuser = eself ?e, isReg = True, ecb = EsCb\<rparr>)"
    let ?s1 = "upd_sk (\<lambda>e. e\<lparr>mStatus := SOCK_STATUS_CONNECTING\<rparr>)
        (?s0\<lparr>sk := (sk ?s0)\<lparr>mEvt := eaddr v, mIsReg := True, interest := EVT_WRITE OR EVT_HANGUP\<rparr>, sw := w'\<rparr>)"
    have t: "mType (EdEvent_setFd ?e fd (ecur v)) = SOCK_TYPE_TCP"
      by (simp add: EdEvent_setFd_def EdEvent_setDefaultContext_def)
    have "EdSocket_connect_ip v fd cret None s = Inr (cret, ?s1)"
      using gone w'(1) t openSock_ok [of SOCK_TYPE_TCP v fd s]
      by (simp add: EdSocket_connect_ip_def set_lis_def sk_gone_def)
    moreover have "sk_live v (eaddr v) (sk ?s1)"
      using sys a(2) fd by (simp add: sk_live_def ev_on_def EdEvent_setFd_def sys_ok_def env_ok_def)
    moreover have "sys_ok v ?s1 (es @ [eaddr v]) ds" using w'(2,3) sys by (simp add: sys_ok_def env_ok_def)
    ultimately show thesis using w'(4) by (intro that [of ?s1]) (simp_all add: EdEvent_setFd_def EdEvent_setDefaultContext_def)
  qed
qed

text \<open>Closing a listening socket does not end its listening: used again for a connection, it reports
  incoming connections in place of data.\<close>

lemma listen_survives_close:
  assumes "sys_ok v s es ds" "sk_live v p (sk s)" "p \<in> set es" "mIsListen (sk s)"
  shows "\<exists>s'. EdSocket_close v s = Inr s' \<and> mIsListen (sk s') \<and> EdSocket_OnEventRead vm v s' = vm SOCK_EVENT_INCOMING_ACCEPT s'"
  by (rule close_live [OF assms(1-3)]) (use assms(4) in \<open>auto simp: EdSocket_OnEventRead_def\<close>)

text \<open>Accepting with a listener replaces the listener of the listening socket by the child's.\<close>

lemma accept_replaces_listener:
  assumes "0 \<le> fd" "EdSocket_acceptSock v fd (Some n) s c = Inr (r, s', c')"
  shows "slis (sk s') = Some n \<and> slis c' = Some n"
  using assms by (auto simp: EdSocket_acceptSock_def set_lis_def bindr_def split: sum.splits)

section \<open>Properties\<close>

text \<open>C14. A connection attempt ends in exactly one of two ways: connecting a closed socket registers it for
  writing and hang-up and makes it connecting, and a second attempt meanwhile is refused; the write
  event then either makes it connected, watching for reading and hang-up, and reports that, or, on a
  socket error, closes it and deregisters its event before it reports the disconnection.\<close>

theorem socket_connect:
  assumes sys: "sys_ok v s es ds" and gone: "sk_gone (sk s)" "mStatus (sk s) = SOCK_STATUS_DISCONNECTED"
    and a: "ehdrs (sw s) (eaddr v) = None" "eaddr v \<noteq> NULL" and fd: "0 < fd" and err: "err \<noteq> 0"
  shows "\<exists>s1 s2 s3. EdSocket_connect_ip v fd cret None s = Inr (cret, s1) \<and> mStatus (sk s1) = SOCK_STATUS_CONNECTING \<and>
     interest (sk s1) = EVT_WRITE OR EVT_HANGUP \<and> sys_ok v s1 (es @ [eaddr v]) ds \<and>
     EdSocket_connect_ip v fd cret None s1 = Inr (EALREADY, s1) \<and>
     EdSocket_OnEventWrite vm v 0 s1 = vm SOCK_EVENT_CONNECTED s2 \<and> mStatus (sk s2) = SOCK_STATUS_CONNECTED \<and>
     interest (sk s2) = EVT_READ OR EVT_HANGUP \<and> sk_live v (eaddr v) (sk s2) \<and> sys_ok v s2 (es @ [eaddr v]) ds \<and>
     EdSocket_OnEventWrite vm v err s1 = vm SOCK_EVENT_DISCONNECTED s3 \<and> mStatus (sk s3) = SOCK_STATUS_DISCONNECTED \<and>
     sk_gone (sk s3) \<and> sys_ok v s3 es (ds @ [eaddr v])"
proof (rule connect_ok [OF sys gone a fd, of cret])
  fix s1 assume s1: "EdSocket_connect_ip v fd cret None s = Inr (cret, s1)" "mStatus (sk s1) = SOCK_STATUS_CONNECTING"
    "interest (sk s1) = EVT_WRITE OR EVT_HANGUP" "sk_live v (eaddr v) (sk s1)" "sys_ok v s1 (es @ [eaddr v]) ds"
  have pin: "eaddr v \<in> set (es @ [eaddr v])" by simp
  let ?s = "upd_sk (\<lambda>e. e\<lparr>mStatus := SOCK_STATUS_CONNECTED\<rparr>) s1"
  let ?s2 = "?s\<lparr>sk := (sk ?s)\<lparr>interest := EVT_READ OR EVT_HANGUP\<rparr>\<rparr>"
  have live: "sys_ok v ?s (es @ [eaddr v]) ds" "sk_live v (eaddr v) (sk ?s)" using s1(4,5) by (simp_all add: sk_live_def)
  have 2: "EdSocket_OnEventWrite vm v 0 s1 = vm SOCK_EVENT_CONNECTED ?s2"
    using s1(2) change_live [OF live pin] by (simp add: EdSocket_OnEventWrite_def)
  have 2: "EdSocket_OnEventWrite vm v 0 s1 = vm SOCK_EVENT_CONNECTED ?s2 \<and> mStatus (sk ?s2) = SOCK_STATUS_CONNECTED \<and>
     interest (sk ?s2) = EVT_READ OR EVT_HANGUP \<and> sk_live v (eaddr v) (sk ?s2) \<and> sys_ok v ?s2 (es @ [eaddr v]) ds"
    using 2 live by (simp add: sk_live_def)
  have al: "EdSocket_connect_ip v fd cret None s1 = Inr (EALREADY, s1)" using s1(2) by (simp add: EdSocket_connect_ip_def set_lis_def)
  have "eaddr v \<notin> set es" using sys a(1) by (auto simp: sys_ok_def ev_rep_def)
  then have rm: "remove1 (eaddr v) (es @ [eaddr v]) = es" by (simp add: remove1_append)
  show ?thesis
  proof (rule close_live [OF s1(5,4) pin])
    fix s3 assume s3: "EdSocket_close v s1 = Inr s3" "sk_gone (sk s3)" "mStatus (sk s3) = SOCK_STATUS_DISCONNECTED"
      "sys_ok v s3 (remove1 (eaddr v) (es @ [eaddr v])) (ds @ [eaddr v])"
    have "EdSocket_OnEventWrite vm v err s1 = vm SOCK_EVENT_DISCONNECTED s3"
      using s1(2) err s3(1) by (simp add: EdSocket_OnEventWrite_def)
    with s1 al 2 s3(2-4) rm show ?thesis by metis
  qed
qed

definition senv :: env where
  "senv = \<lparr>ecur = task_env, eaddr = 1000, ectl = 0\<rparr>"

definition sock0 :: sst where
  "sock0 = \<lparr>sk = (EdSocket_new 7000 task_env)\<lparr>slis := Some 1\<rparr>, sw = no_events, lastSockErrorNo = 0\<rparr>"

lemma sock0_ok: "sys_ok senv sock0 [] []" "sk_gone (sk sock0)" "mStatus (sk sock0) = SOCK_STATUS_DISCONNECTED"
  "ehdrs (sw sock0) (eaddr senv) = None" "eaddr senv \<noteq> NULL"
  using no_events_rep task_env_ok
  by (simp_all add: sys_ok_def senv_def sock0_def sk_gone_def ev_off_def EdSocket_new_def EdSocket_clearInternal_def EdEvent_new_def
      EdEvent.extend_def no_events_def)

theorem socket_connect_witness:
  "\<exists>s1 s3. EdSocket_connect_ip senv 9 (- 1) None sock0 = Inr (- 1, s1) \<and>
     EdSocket_OnEventWrite (\<lambda>ev s. Inr s) senv 111 s1 = Inr s3 \<and> sk_gone (sk s3) \<and> sys_ok senv s3 [] [1000]"
proof -
  have "0 < (9 :: int)" "(111 :: int) \<noteq> 0" by simp_all
  from socket_connect [OF sock0_ok this, of "- 1" "\<lambda>ev s. Inr s"] show ?thesis by (auto simp: senv_def)
qed



end
