(* ===== verification/EdChannel.thy ===== *)
theory EdChannel
  imports EdSockets
begin

text \<open>EdSocketChannel.cpp: a socket that sends packets in the background. Chunks are objects in a store,
  buffers are blocks of memory, so that copied and taken buffers and the frees are visible. The
  completion callback is a function on the state.\<close>

section \<open>State and operations\<close>

record ChunkInfo =
  cdata :: addr
  csize :: nat
  cuser :: addr
  curCnt :: nat
  callocated :: bool

record chan = wsock +
  chunks :: "addr \<rightharpoonup> ChunkInfo"
  blocks :: "addr \<rightharpoonup> u8 list"
  mCurChk :: addr
  mChks :: "addr list"
  mFreeChks :: "addr list"
  mMaxChunk :: nat

definition SR_BUFFULL :: int where "SR_BUFFULL = - 98"
definition SR_COMPLETE :: int where "SR_COMPLETE = 0"
definition SR_CONTINUE :: int where "SR_CONTINUE = 1"

lemmas SR_defs = SR_BUFFULL_def SR_COMPLETE_def SR_CONTINUE_def

type_synonym tx_callback = "addr \<Rightarrow> addr \<Rightarrow> chan \<Rightarrow> fault + chan"

definition free_block :: "addr \<Rightarrow> (addr \<rightharpoonup> u8 list) \<Rightarrow> fault + (addr \<rightharpoonup> u8 list)" where
  "free_block p b = (if b p = None then Inl Bad_access else Inr (b(p := None)))"

definition EdSocketChannel_tx :: "chan \<Rightarrow> fault + (int \<times> chan)" where
  "EdSocketChannel_tx s =
     (case chunks s (mCurChk s) of
        None \<Rightarrow> Inl Bad_access
      | Some c \<Rightarrow>
          (case blocks s (cdata c) of
             None \<Rightarrow> Inl Bad_access
           | Some bs \<Rightarrow>
               if length bs < csize c then Inl Bad_access
               else let remain = csize c - curCnt c; (wcnt, s) = EdSocket_send (drop (curCnt c) (take (csize c) bs)) s
               in if wcnt = int remain
                  then let c = c\<lparr>curCnt := curCnt c + remain\<rparr> in
                       if callocated c
                       then bindr (free_block (cdata c) (blocks s)) (\<lambda>b.
                            Inr (SR_COMPLETE, s\<lparr>blocks := b, chunks := (chunks s)(mCurChk s \<mapsto> c\<lparr>cdata := NULL, callocated := False\<rparr>)\<rparr>))
                       else Inr (SR_COMPLETE, s\<lparr>chunks := (chunks s)(mCurChk s \<mapsto> c)\<rparr>)
                  else if wcnt > 0
                  then Inr (SR_CONTINUE, s\<lparr>chunks := (chunks s)(mCurChk s \<mapsto> c\<lparr>curCnt := curCnt c + nat wcnt\<rparr>)\<rparr>)
                  else Inr (SR_CONTINUE, s)))"

text \<open>The loop of \<^verbatim>\<open>OnWrite\<close>, with the local variable \<^verbatim>\<open>chk\<close>; the fuel bounds the number of turns.\<close>

fun chan_loop :: "tx_callback \<Rightarrow> env \<Rightarrow> nat \<Rightarrow> addr \<Rightarrow> chan \<Rightarrow> fault + chan" where
  "chan_loop cb v 0 chk s = Inl Diverges"
| "chan_loop cb v (Suc n) chk s =
     (if chk = NULL then Inr s
      else bindr (EdSocketChannel_tx s) (\<lambda>(ret, s).
        if ret = SR_COMPLETE
        then case chunks s chk of
               None \<Rightarrow> Inl Bad_access
             | Some c \<Rightarrow>
                 bindr (if mFd (sk s) \<ge> 0
                        then let s = s\<lparr>mFreeChks := mFreeChks s @ [chk]\<rparr>;
                                 s = (case mChks s of x # xs \<Rightarrow> s\<lparr>mCurChk := x, mChks := xs\<rparr> | [] \<Rightarrow> s\<lparr>mCurChk := NULL\<rparr>)
                             in if mCurChk s \<noteq> NULL then Inr (mCurChk s, s)
                                else bindr (sk_changeEvent v EVT_READ s) (\<lambda>s. Inr (NULL, s))
                        else Inr (chk, s)) (\<lambda>(chk, s).
                 bindr (cb (cdata c) (cuser c) s) (chan_loop cb v n chk))
        else Inr s))"

definition EdSocketChannel_OnWrite :: "tx_callback \<Rightarrow> env \<Rightarrow> nat \<Rightarrow> chan \<Rightarrow> fault + chan" where
  "EdSocketChannel_OnWrite cb v fuel s = chan_loop cb v fuel (mCurChk s) s"

text \<open>\<^verbatim>\<open>sendPacket\<close>; \<open>nb\<close> is the address of the block that \<^verbatim>\<open>malloc\<close> returns when the buffer is copied.\<close>

definition EdSocketChannel_sendPacket :: "env \<Rightarrow> addr \<Rightarrow> addr \<Rightarrow> nat \<Rightarrow> addr \<Rightarrow> bool \<Rightarrow> chan \<Rightarrow> fault + (int \<times> chan)" where
  "EdSocketChannel_sendPacket v nb buf len user takebuf s =
     (case mFreeChks s of
        [] \<Rightarrow> Inr (SR_BUFFULL, s)
      | chk # fs \<Rightarrow>
          if chunks s chk = None then Inl Bad_access
          else let s = s\<lparr>mFreeChks := fs\<rparr> in
          bindr (if takebuf then Inr (buf, s)
                 else case blocks s buf of
                        None \<Rightarrow> Inl Bad_access
                      | Some bs \<Rightarrow> if length bs < len then Inl Bad_access else Inr (nb, s\<lparr>blocks := (blocks s)(nb \<mapsto> take len bs)\<rparr>)) (\<lambda>(d, s).
          let s = s\<lparr>chunks := (chunks s)(chk \<mapsto> \<lparr>cdata = d, csize = len, cuser = user, curCnt = 0, callocated = \<not> takebuf\<rparr>)\<rparr> in
          if mCurChk s \<noteq> NULL then Inr (SR_CONTINUE, s\<lparr>mChks := mChks s @ [chk]\<rparr>)
          else bindr (EdSocketChannel_tx (s\<lparr>mCurChk := chk\<rparr>)) (\<lambda>(ret, s).
               if ret = SR_COMPLETE then Inr (ret, s\<lparr>mFreeChks := mFreeChks s @ [mCurChk s], mCurChk := NULL\<rparr>)
               else bindr (sk_changeEvent v (EVT_READ OR EVT_WRITE) s) (\<lambda>s. Inr (ret, s)))))"

definition delete_chunk :: "addr \<Rightarrow> chan \<Rightarrow> fault + chan" where
  "delete_chunk x s =
     (case chunks s x of
        None \<Rightarrow> Inl Bad_access
      | Some c \<Rightarrow>
          bindr (if callocated c then free_block (cdata c) (blocks s) else Inr (blocks s)) (\<lambda>b.
          Inr (s\<lparr>blocks := b, chunks := (chunks s)(x := None)\<rparr>)))"

fun delete_chunks :: "addr list \<Rightarrow> chan \<Rightarrow> fault + chan" where
  "delete_chunks [] s = Inr s"
| "delete_chunks (x # xs) s = bindr (delete_chunk x s) (delete_chunks xs)"

definition EdSocketChannel_closeChannel :: "env \<Rightarrow> chan \<Rightarrow> fault + chan" where
  "EdSocketChannel_closeChannel v s =
     bindr (if mCurChk s \<noteq> NULL then delete_chunk (mCurChk s) s else Inr s) (\<lambda>s.
     bindr (delete_chunks (mChks s) s) (\<lambda>s.
     let s = s\<lparr>mCurChk := NULL, mChks := []\<rparr> in
     bindr (delete_chunks (mFreeChks s) s) (\<lambda>s.
     EdSocket_close v (s\<lparr>mFreeChks := []\<rparr>))))"

text \<open>\<^verbatim>\<open>init\<close>, with the addresses of the new chunks.\<close>

fun init_chunks :: "addr list \<Rightarrow> chan \<Rightarrow> chan" where
  "init_chunks [] s = s"
| "init_chunks (a # as) s =
     init_chunks as (s\<lparr>chunks := (chunks s)(a \<mapsto> \<lparr>cdata = NULL, csize = 0, cuser = NULL, curCnt = 0, callocated = False\<rparr>),
       mFreeChks := mFreeChks s @ [a]\<rparr>)"

definition EdSocketChannel_init :: "addr list \<Rightarrow> chan \<Rightarrow> chan" where
  "EdSocketChannel_init as s = (init_chunks as s)\<lparr>mMaxChunk := length as\<rparr>"

definition EdSocketChannel_isFull :: "chan \<Rightarrow> bool" where
  "EdSocketChannel_isFull s = (mFreeChks s = [])"

section \<open>Chunks and their bytes\<close>

definition ck_ok :: "(addr \<rightharpoonup> ChunkInfo) \<Rightarrow> (addr \<rightharpoonup> u8 list) \<Rightarrow> addr \<Rightarrow> bool" where
  "ck_ok C B x \<longleftrightarrow> (\<exists>c bs. C x = Some c \<and> B (cdata c) = Some bs \<and> csize c \<le> length bs \<and> curCnt c \<le> csize c)"

definition ck_sep :: "(addr \<rightharpoonup> ChunkInfo) \<Rightarrow> addr list \<Rightarrow> bool" where
  "ck_sep C xs \<longleftrightarrow> (\<forall>x \<in> set xs. \<forall>y \<in> set xs. x \<noteq> y \<longrightarrow> callocated (the (C x)) \<longrightarrow> cdata (the (C x)) \<noteq> cdata (the (C y)))"

definition ck_bytes :: "(addr \<rightharpoonup> ChunkInfo) \<Rightarrow> (addr \<rightharpoonup> u8 list) \<Rightarrow> addr \<Rightarrow> u8 list" where
  "ck_bytes C B x =
     (case C x of None \<Rightarrow> [] | Some c \<Rightarrow>
       (case B (cdata c) of None \<Rightarrow> [] | Some bs \<Rightarrow> drop (curCnt c) (take (csize c) bs)))"

definition pend :: "chan \<Rightarrow> addr list" where
  "pend s = (if mCurChk s = NULL then [] else [mCurChk s]) @ mChks s"

definition unsent :: "chan \<Rightarrow> u8 list" where
  "unsent s = concat (map (ck_bytes (chunks s) (blocks s)) (pend s))"

definition ch_ok :: "chan \<Rightarrow> bool" where
  "ch_ok s \<longleftrightarrow> distinct (pend s @ mFreeChks s) \<and> NULL \<notin> set (pend s @ mFreeChks s) \<and> dom (chunks s) = set (pend s @ mFreeChks s) \<and>
     length (pend s @ mFreeChks s) = mMaxChunk s \<and> (mCurChk s = NULL \<longrightarrow> mChks s = []) \<and>
     (\<forall>x \<in> set (pend s). ck_ok (chunks s) (blocks s) x) \<and> ck_sep (chunks s) (pend s) \<and>
     (\<forall>x \<in> set (mFreeChks s). \<not> callocated (the (chunks s x)))"

text \<open>Changing the chunk \<open>x\<close>, or freeing its block, does not concern the other pending chunks.\<close>

lemma ck_other [simp]:
  "y \<noteq> x \<Longrightarrow> ck_ok (C(x := c)) B y = ck_ok C B y" "y \<noteq> x \<Longrightarrow> ck_bytes (C(x := c)) B y = ck_bytes C B y"
  by (simp_all add: ck_ok_def ck_bytes_def)

lemma ck_block [simp]:
  "cdata (the (C y)) \<noteq> d \<Longrightarrow> C y \<noteq> None \<Longrightarrow> ck_ok C (B(d := b)) y = ck_ok C B y"
  "cdata (the (C y)) \<noteq> d \<Longrightarrow> C y \<noteq> None \<Longrightarrow> ck_bytes C (B(d := b)) y = ck_bytes C B y"
  by (cases "C y"; simp add: ck_ok_def ck_bytes_def)+

lemma ck_okD: "ck_ok C B x \<Longrightarrow> C x \<noteq> None"
  by (auto simp: ck_ok_def)

lemma concat_cong: "(\<And>x. x \<in> set xs \<Longrightarrow> f x = g x) \<Longrightarrow> concat (map f xs) = concat (map g xs)"
  by (induction xs) auto

text \<open>The state after a call of \<^verbatim>\<open>tx\<close> in terms of the current chunk; \<open>same_lists\<close> is what it leaves alone.\<close>

definition same_lists :: "chan \<Rightarrow> chan \<Rightarrow> bool" where
  "same_lists s s' \<longleftrightarrow> mCurChk s' = mCurChk s \<and> mChks s' = mChks s \<and> mFreeChks s' = mFreeChks s \<and> mMaxChunk s' = mMaxChunk s \<and>
     sk s' = sk s \<and> sw s' = sw s \<and> lastSockErrorNo s' = lastSockErrorNo s \<and> dom (chunks s') = dom (chunks s)"

lemma same_lists_pend: "same_lists s s' \<Longrightarrow> pend s' = pend s"
  by (simp add: same_lists_def pend_def)

definition rest_ok :: "chan \<Rightarrow> chan \<Rightarrow> bool" where
  "rest_ok s s' \<longleftrightarrow> (\<forall>y \<in> set (mChks s). ck_ok (chunks s') (blocks s') y \<and> ck_bytes (chunks s') (blocks s') y = ck_bytes (chunks s) (blocks s) y) \<and>
     ck_sep (chunks s') (mChks s)"

lemma ch_ok_cur:
  assumes "ch_ok s" "mCurChk s \<noteq> NULL"
  obtains c bs where "chunks s (mCurChk s) = Some c" "blocks s (cdata c) = Some bs" "csize c \<le> length bs" "curCnt c \<le> csize c"
    "mCurChk s \<notin> set (mChks s)" "ck_sep (chunks s) (mCurChk s # mChks s)" "\<forall>y \<in> set (mChks s). ck_ok (chunks s) (blocks s) y"
proof -
  have p: "pend s = mCurChk s # mChks s" using assms(2) by (simp add: pend_def)
  have "ck_ok (chunks s) (blocks s) (mCurChk s)" "mCurChk s \<notin> set (mChks s)" "ck_sep (chunks s) (mCurChk s # mChks s)"
    "\<forall>y \<in> set (mChks s). ck_ok (chunks s) (blocks s) y" using assms(1) by (simp_all add: ch_ok_def p)
  then show thesis using that by (auto simp: ck_ok_def)
qed

lemma rest_ok_upd:
  assumes x: "x \<notin> set (mChks s)" and sep: "ck_sep (chunks s) (x # mChks s)" and c: "chunks s x = Some c"
    and ok: "\<forall>y \<in> set (mChks s). ck_ok (chunks s) (blocks s) y"
    and C: "chunks s' = (chunks s)(x := c')" and B: "blocks s' = blocks s \<or> callocated c \<and> blocks s' = (blocks s)(cdata c := b)"
  shows "rest_ok s s'"
proof -
  have ne: "y \<noteq> x" "chunks s y \<noteq> None" "callocated c \<Longrightarrow> cdata (the (chunks s y)) \<noteq> cdata c" if "y \<in> set (mChks s)" for y
    using that x ok ck_okD [of "chunks s" "blocks s" y] sep c by (force simp: ck_sep_def)+
  have "ck_ok (chunks s') (blocks s') y \<and> ck_bytes (chunks s') (blocks s') y = ck_bytes (chunks s) (blocks s) y" if y: "y \<in> set (mChks s)" for y
    using B ne [OF y] ok y by (elim disjE) (simp_all add: C)
  moreover have "ck_sep (chunks s') (mChks s)" using sep ne by (auto simp: ck_sep_def C)
  ultimately show ?thesis by (simp add: rest_ok_def)
qed

lemma tx_spec:
  assumes ok: "ch_ok s" and cur: "mCurChk s \<noteq> NULL"
  obtains (partial) s' where "EdSocketChannel_tx s = Inr (SR_CONTINUE, s')" "ch_ok s'" "wire s' @ unsent s' = wire s @ unsent s"
      "same_lists s s'" "writes s' = tl (writes s)"
  | (complete) s' c' where "EdSocketChannel_tx s = Inr (SR_COMPLETE, s')" "same_lists s s'" "writes s' = tl (writes s)" "writes s \<noteq> []"
      "chunks s' (mCurChk s) = Some c'" "\<not> callocated c'" "wire s' = wire s @ ck_bytes (chunks s) (blocks s) (mCurChk s)" "rest_ok s s'"
      "\<forall>y \<in> set (mFreeChks s). chunks s' y = chunks s y"
proof -
  let ?x = "mCurChk s"
  obtain c bs where c: "chunks s ?x = Some c" "blocks s (cdata c) = Some bs" "csize c \<le> length bs" "curCnt c \<le> csize c"
    "?x \<notin> set (mChks s)" "ck_sep (chunks s) (?x # mChks s)" "\<forall>y \<in> set (mChks s). ck_ok (chunks s) (blocks s) y"
    by (rule ch_ok_cur [OF ok cur])
  define d where "d = drop (curCnt c) (take (csize c) bs)"
  have ld: "length d = csize c - curCnt c" using c(3) by (simp add: d_def)
  have nf: "?x \<notin> set (mFreeChks s)" using ok cur by (auto simp: ch_ok_def pend_def)
  have bx: "ck_bytes (chunks s) (blocks s) ?x = d" using c(1,2) by (simp add: ck_bytes_def d_def)
  have p: "pend s = ?x # mChks s" using cur by (simp add: pend_def)
  obtain n s1 where n: "EdSocket_send d s = (n, s1)" "n \<le> int (length d)" "wire s1 = wire s @ take (nat n) d"
    "s1 = s\<lparr>writes := tl (writes s), wire := wire s1\<rparr>" "writes s = [] \<longrightarrow> n = - 1" by (rule send_spec [of d s])
  have s1: "blocks s1 = blocks s" "chunks s1 = chunks s" "mCurChk s1 = ?x" "mChks s1 = mChks s" "mFreeChks s1 = mFreeChks s"
    "mMaxChunk s1 = mMaxChunk s" "sk s1 = sk s" "sw s1 = sw s" "lastSockErrorNo s1 = lastSockErrorNo s" "writes s1 = tl (writes s)"
    by (subst n(4), simp)+
  note tx = EdSocketChannel_tx_def
  show thesis
  proof (cases "n = int (length d)")
    case True
    let ?c1 = "c\<lparr>curCnt := curCnt c + (csize c - curCnt c)\<rparr>"
    define s2 where "s2 = (if callocated c
      then s1\<lparr>blocks := (blocks s)(cdata c := None), chunks := (chunks s)(?x \<mapsto> ?c1\<lparr>cdata := NULL, callocated := False\<rparr>)\<rparr>
      else s1\<lparr>chunks := (chunks s)(?x \<mapsto> ?c1)\<rparr>)"
    have run: "EdSocketChannel_tx s = Inr (SR_COMPLETE, s2)"
      using c(1-3) n(1) True ld s1 by (simp add: tx d_def [symmetric] s2_def free_block_def)
    have C: "chunks s2 = (chunks s)(?x := Some (if callocated c then ?c1\<lparr>cdata := NULL, callocated := False\<rparr> else ?c1))"
      by (simp add: s2_def)
    have B: "blocks s2 = blocks s \<or> callocated c \<and> blocks s2 = (blocks s)(cdata c := None)" using s1(1) by (simp add: s2_def)
    have same: "same_lists s s2" using s1 c(1) by (auto simp: same_lists_def s2_def)
    have wr: "wire s2 = wire s @ d" "writes s2 = tl (writes s)" using n(3) True s1(10) by (simp_all add: s2_def)
    have ne: "writes s \<noteq> []" using n(5) True by auto
    have rest: "rest_ok s s2" by (rule rest_ok_upd [OF c(5,6,1,7) C B])
    have cx: "chunks s2 ?x = Some (if callocated c then ?c1\<lparr>cdata := NULL, callocated := False\<rparr> else ?c1)" by (simp add: C)
    have fr: "\<forall>y \<in> set (mFreeChks s). chunks s2 y = chunks s y" using nf by (auto simp: C)
    show thesis by (rule complete [OF run same wr(2) ne cx _ _ rest fr]) (use wr(1) bx in simp_all)
  next
    case False
    define s2 where "s2 = (if 0 < n then s1\<lparr>chunks := (chunks s)(?x \<mapsto> c\<lparr>curCnt := curCnt c + nat n\<rparr>)\<rparr> else s1)"
    have run: "EdSocketChannel_tx s = Inr (SR_CONTINUE, s2)"
      using c(1-3) n(1) False ld s1 by (simp add: tx d_def [symmetric] s2_def)
    have C: "chunks s2 = (chunks s)(?x := Some (c\<lparr>curCnt := curCnt c + nat n\<rparr>))"
      using c(1) s1(2) by (auto simp: s2_def fun_eq_iff)
    have B: "blocks s2 = blocks s" using s1(1) by (simp add: s2_def)
    have le: "curCnt c + nat n \<le> csize c" using n(2) ld c(4) by linarith
    have same: "same_lists s s2" using s1 c(1) by (auto simp: same_lists_def s2_def)
    have rest: "rest_ok s s2" using rest_ok_upd [OF c(5,6,1,7) C] B by blast
    have okx: "ck_ok (chunks s2) (blocks s2) ?x" using c(2,3) le by (simp add: ck_ok_def C B)
    have sep: "ck_sep (chunks s2) (pend s2)" using c(1,5,6) by (auto simp: ck_sep_def C same_lists_pend [OF same] p)
    have bytes: "ck_bytes (chunks s2) (blocks s2) ?x = drop (nat n) d" using c(2) by (simp add: ck_bytes_def C B d_def add.commute)
    have u2: "unsent s2 = drop (nat n) d @ concat (map (ck_bytes (chunks s) (blocks s)) (mChks s))"
      using rest bytes by (simp add: unsent_def same_lists_pend [OF same] p rest_ok_def cong: map_cong)
    have u: "unsent s = d @ concat (map (ck_bytes (chunks s) (blocks s)) (mChks s))" by (simp add: unsent_def p bx)
    have "wire s2 = wire s @ take (nat n) d" using n(3) by (simp add: s2_def)
    then have cons: "wire s2 @ unsent s2 = wire s @ unsent s" unfolding u u2 by (metis append.assoc append_take_drop_id)
    have fr: "\<forall>y \<in> set (mFreeChks s). chunks s2 y = chunks s y" using nf by (auto simp: C)
    have "ch_ok s2" using ok okx sep rest fr same same_lists_pend [OF same] by (auto simp: ch_ok_def same_lists_def p rest_ok_def)
    moreover have "writes s2 = tl (writes s)" using s1(10) by (simp add: s2_def)
    ultimately show thesis using partial run cons same by blast
  qed
qed

section \<open>Operations on a live channel\<close>

definition chan_st :: "env \<Rightarrow> chan \<Rightarrow> bool" where
  "chan_st v s \<longleftrightarrow> ch_ok s \<and> (\<exists>es ds. sys_ok v s es ds \<and> (\<exists>p \<in> set es. sk_live v p (sk s)))"

definition stream :: "chan \<Rightarrow> u8 list" where
  "stream s = wire s @ unsent s"

lemma ch_ok_sk [simp]: "ch_ok (s\<lparr>sk := e\<rparr>) = ch_ok s" "unsent (s\<lparr>sk := e\<rparr>) = unsent s" "stream (s\<lparr>sk := e\<rparr>) = stream s" "pend (s\<lparr>sk := e\<rparr>) = pend s"
  by (simp_all add: ch_ok_def pend_def unsent_def stream_def)

lemma chan_st_same: "chan_st v s \<Longrightarrow> sk s' = sk s \<Longrightarrow> sw s' = sw s \<Longrightarrow> ch_ok s' \<Longrightarrow> chan_st v s'"
  by (simp add: chan_st_def sys_ok_def)

lemma change_chan:
  assumes "chan_st v s"
  obtains e where "sk_changeEvent v flags s = Inr (s\<lparr>sk := e\<rparr>)" "chan_st v (s\<lparr>sk := e\<rparr>)" "mFd e = mFd (sk s)"
proof -
  obtain es ds p where st: "sys_ok v s es ds" "sk_live v p (sk s)" "p \<in> set es" "ch_ok s" using assms by (auto simp: chan_st_def)
  have "sk_live v p ((sk s)\<lparr>interest := flags\<rparr>)" using st(2) by (simp add: sk_live_def)
  moreover have "sys_ok v (s\<lparr>sk := (sk s)\<lparr>interest := flags\<rparr>\<rparr>) es ds" using st(1) by simp
  ultimately have "chan_st v (s\<lparr>sk := (sk s)\<lparr>interest := flags\<rparr>\<rparr>)" unfolding chan_st_def using st(3,4) by fastforce
  with change_live [OF st(1-3)] show thesis by (intro that [of "(sk s)\<lparr>interest := flags\<rparr>"]) simp_all
qed

text \<open>After a complete transmission the chunk joins the free ones and the next becomes current.\<close>

definition chan_next :: "addr \<Rightarrow> chan \<Rightarrow> chan" where
  "chan_next chk s = (let s = s\<lparr>mFreeChks := mFreeChks s @ [chk]\<rparr> in
     case mChks s of x # xs \<Rightarrow> s\<lparr>mCurChk := x, mChks := xs\<rparr> | [] \<Rightarrow> s\<lparr>mCurChk := NULL\<rparr>)"

lemma chan_next_pend: "NULL \<notin> set (mChks s) \<Longrightarrow> pend (chan_next chk s) = mChks s"
  by (cases "mChks s") (auto simp: chan_next_def pend_def)

lemma chan_next_simps [simp]:
  "chunks (chan_next chk s) = chunks s" "blocks (chan_next chk s) = blocks s" "wire (chan_next chk s) = wire s"
  "mFreeChks (chan_next chk s) = mFreeChks s @ [chk]" "sk (chan_next chk s) = sk s" "sw (chan_next chk s) = sw s"
  "writes (chan_next chk s) = writes s" "mMaxChunk (chan_next chk s) = mMaxChunk s"
  by (simp_all add: chan_next_def Let_def split: list.split)

lemma chan_next_cur: "mCurChk (chan_next chk s) = NULL \<Longrightarrow> NULL \<notin> set (mChks s) \<Longrightarrow> mChks (chan_next chk s) = []"
  by (auto simp: chan_next_def Let_def split: list.splits)

lemma complete_next:
  assumes ok: "ch_ok s" and cur: "mCurChk s \<noteq> NULL" and same: "same_lists s s'" and rest: "rest_ok s s'"
    and c: "chunks s' (mCurChk s) = Some c'" "\<not> callocated c'" and w: "wire s' = wire s @ ck_bytes (chunks s) (blocks s) (mCurChk s)"
    and fr: "\<forall>y \<in> set (mFreeChks s). chunks s' y = chunks s y"
  shows "ch_ok (chan_next (mCurChk s) s')" "stream (chan_next (mCurChk s) s') = stream s"
proof -
  have p: "pend s = mCurChk s # mChks s" using cur by (simp add: pend_def)
  have nn: "NULL \<notin> set (mChks s')" using ok same by (auto simp: ch_ok_def p same_lists_def)
  have sl: "mChks s' = mChks s" "mFreeChks s' = mFreeChks s" "dom (chunks s') = dom (chunks s)" "mMaxChunk s' = mMaxChunk s"
    using same by (simp_all add: same_lists_def)
  show "ch_ok (chan_next (mCurChk s) s')"
    using ok rest c fr chan_next_cur [OF _ nn] sl by (auto simp: ch_ok_def chan_next_pend [OF nn] p rest_ok_def)
  have "concat (map (ck_bytes (chunks s') (blocks s')) (mChks s)) = concat (map (ck_bytes (chunks s) (blocks s)) (mChks s))"
    using rest by (intro concat_cong) (simp add: rest_ok_def)
  then show "stream (chan_next (mCurChk s) s') = stream s"
    using w sl(1) by (simp add: stream_def unsent_def chan_next_pend [OF nn] p)
qed

lemma enqueue_ok:
  assumes ok: "ch_ok s" and free: "mFreeChks s = chk # fs"
    and C: "chunks s1 = (chunks s)(chk \<mapsto> \<lparr>cdata = d, csize = len, cuser = u, curCnt = 0, callocated = al\<rparr>)"
    and B: "blocks s1 d = Some bs" "len \<le> length bs"
    and l: "pend s1 = pend s @ [chk]" "mFreeChks s1 = fs" "mMaxChunk s1 = mMaxChunk s" "mCurChk s1 = NULL \<longrightarrow> mChks s1 = []"
    and old: "\<And>y. y \<in> set (pend s) \<Longrightarrow> ck_ok (chunks s) (blocks s1) y \<and> ck_bytes (chunks s) (blocks s1) y = ck_bytes (chunks s) (blocks s) y"
    and sep: "\<And>y. y \<in> set (pend s) \<Longrightarrow> callocated (the (chunks s y)) \<or> al \<Longrightarrow> cdata (the (chunks s y)) \<noteq> d"
  shows "ch_ok s1" "unsent s1 = unsent s @ take len bs"
proof -
  have nin: "chk \<notin> set (pend s)" "chk \<notin> set fs" "chk \<in> dom (chunks s)" using ok free by (auto simp: ch_ok_def)
  have okc: "ck_ok (chunks s1) (blocks s1) chk" using B by (simp add: ck_ok_def C)
  have byt: "ck_bytes (chunks s1) (blocks s1) chk = take len bs" using B by (simp add: ck_bytes_def C)
  have oth: "ck_ok (chunks s1) (blocks s1) y" "ck_bytes (chunks s1) (blocks s1) y = ck_bytes (chunks s) (blocks s) y" if "y \<in> set (pend s)" for y
  proof -
    have "y \<noteq> chk" using that nin(1) by auto
    then show "ck_ok (chunks s1) (blocks s1) y" "ck_bytes (chunks s1) (blocks s1) y = ck_bytes (chunks s) (blocks s) y"
      using old [OF that] by (simp_all add: C)
  qed
  have sp: "ck_sep (chunks s1) (pend s1)"
    unfolding ck_sep_def l(1)
  proof (intro ballI impI)
    fix x y assume xy: "x \<in> set (pend s @ [chk])" "y \<in> set (pend s @ [chk])" "x \<noteq> y" "callocated (the (chunks s1 x))"
    have s0: "ck_sep (chunks s) (pend s)" using ok by (simp add: ch_ok_def)
    show "cdata (the (chunks s1 x)) \<noteq> cdata (the (chunks s1 y))"
      using xy s0 sep [of x] sep [of y] nin(1) by (auto simp: C ck_sep_def split: if_splits)
  qed
  show "ch_ok s1"
    using ok free nin okc oth(1) sp l by (auto simp: ch_ok_def C)
  have "concat (map (ck_bytes (chunks s1) (blocks s1)) (pend s)) = concat (map (ck_bytes (chunks s) (blocks s)) (pend s))"
    using oth(2) by (rule concat_cong)
  then show "unsent s1 = unsent s @ take len bs" unfolding unsent_def l(1) map_append concat_append using byt by simp
qed

text \<open>Sending a packet: the bytes are appended to the stream.\<close>

lemma transmit_first:
  assumes st: "chan_st v s" and cur: "mCurChk s \<noteq> NULL" "mChks s = []"
  shows "\<exists>r s'. bindr (EdSocketChannel_tx s) (\<lambda>(ret, s).
      if ret = SR_COMPLETE then Inr (ret, s\<lparr>mFreeChks := mFreeChks s @ [mCurChk s], mCurChk := NULL\<rparr>)
      else bindr (sk_changeEvent v fl s) (\<lambda>s. Inr (ret, s))) = Inr (r, s') \<and>
    (r = SR_COMPLETE \<or> r = SR_CONTINUE) \<and> chan_st v s' \<and> stream s' = stream s \<and> length (writes s') \<le> length (writes s) \<and> mFd (sk s') = mFd (sk s)"
proof -
  have ok: "ch_ok s" using st by (simp add: chan_st_def)
  show ?thesis
  proof (rule tx_spec [OF ok cur(1)])
    fix s1 assume s1: "EdSocketChannel_tx s = Inr (SR_CONTINUE, s1)" "ch_ok s1" "wire s1 @ unsent s1 = wire s @ unsent s"
      "same_lists s s1" "writes s1 = tl (writes s)"
    have st1: "chan_st v s1" using chan_st_same [OF st _ _ s1(2)] s1(4) by (simp add: same_lists_def)
    show ?thesis
      by (rule change_chan [OF st1, of fl]) (use s1 in \<open>simp add: SR_defs stream_def same_lists_def\<close>)
  next
    fix s1 c1 assume s1: "EdSocketChannel_tx s = Inr (SR_COMPLETE, s1)" "same_lists s s1" "writes s1 = tl (writes s)"
      "chunks s1 (mCurChk s) = Some c1" "\<not> callocated c1" "wire s1 = wire s @ ck_bytes (chunks s) (blocks s) (mCurChk s)" "rest_ok s s1"
      "\<forall>y \<in> set (mFreeChks s). chunks s1 y = chunks s y"
    note nx = complete_next [OF ok cur(1) s1(2,7,4,5,6,8)]
    have e: "s1\<lparr>mFreeChks := mFreeChks s1 @ [mCurChk s1], mCurChk := NULL\<rparr> = chan_next (mCurChk s) s1"
      using s1(2) cur(2) by (simp add: chan_next_def same_lists_def)
    have "chan_st v (chan_next (mCurChk s) s1)" using chan_st_same [OF st _ _ nx(1)] s1(2) by (simp add: same_lists_def)
    then show ?thesis using s1(1-3) nx(2) e by (simp add: same_lists_def)
  qed
qed

lemma sendPacket_full: "mFreeChks s = [] \<Longrightarrow> EdSocketChannel_sendPacket v nb buf len user tk s = Inr (SR_BUFFULL, s)"
  by (simp add: EdSocketChannel_sendPacket_def)

text \<open>The buffer to send: it is there, long enough, the block for a copy is new, and a taken buffer is not
  the private copy of a pending chunk.\<close>

definition buf_ok :: "chan \<Rightarrow> addr \<Rightarrow> addr \<Rightarrow> nat \<Rightarrow> bool \<Rightarrow> u8 list \<Rightarrow> bool" where
  "buf_ok s nb buf len tk bs \<longleftrightarrow> blocks s buf = Some bs \<and> len \<le> length bs \<and>
     (if tk then \<forall>y \<in> set (pend s). callocated (the (chunks s y)) \<longrightarrow> cdata (the (chunks s y)) \<noteq> buf else blocks s nb = None)"

lemma sendPacket_ok:
  assumes st: "chan_st v s" and free: "mFreeChks s \<noteq> []" and buf: "buf_ok s nb buf len tk bs"
  shows "\<exists>r s'. EdSocketChannel_sendPacket v nb buf len user tk s = Inr (r, s') \<and> (r = SR_COMPLETE \<or> r = SR_CONTINUE) \<and>
     chan_st v s' \<and> stream s' = stream s @ take len bs \<and> length (writes s') \<le> length (writes s) \<and>
     (mCurChk s \<noteq> NULL \<longrightarrow> mCurChk s' = mCurChk s) \<and> mFd (sk s') = mFd (sk s)"
proof -
  obtain chk fs where f: "mFreeChks s = chk # fs" using free by (cases "mFreeChks s") auto
  have ok: "ch_ok s" using st by (simp add: chan_st_def)
  have chk: "chunks s chk \<noteq> None" "chk \<noteq> NULL" using ok f by (auto simp: ch_ok_def)
  then obtain c0 where c0: "chunks s chk = Some c0" by blast
  define d where "d = (if tk then buf else nb)"
  define B where "B = (if tk then blocks s else (blocks s)(nb \<mapsto> take len bs))"
  define c where "c = \<lparr>cdata = d, csize = len, cuser = user, curCnt = 0, callocated = \<not> tk\<rparr>"
  define s0 where "s0 = s\<lparr>mFreeChks := fs, blocks := B, chunks := (chunks s)(chk \<mapsto> c)\<rparr>"
  define s1 where "s1 = (if mCurChk s \<noteq> NULL then s0\<lparr>mChks := mChks s @ [chk]\<rparr> else s0\<lparr>mCurChk := chk\<rparr>)"
  have empty: "mCurChk s = NULL \<Longrightarrow> mChks s = []" using ok by (simp add: ch_ok_def)
  have C: "chunks s1 = (chunks s)(chk \<mapsto> \<lparr>cdata = d, csize = len, cuser = user, curCnt = 0, callocated = \<not> tk\<rparr>)"
    by (simp add: s1_def s0_def c_def)
  have B1: "blocks s1 = B" by (simp add: s1_def s0_def)
  obtain bs' where bs': "blocks s1 d = Some bs'" "len \<le> length bs'" "take len bs' = take len bs"
    using buf by (cases tk) (auto simp: B1 B_def d_def buf_ok_def)
  have l: "pend s1 = pend s @ [chk]" "mFreeChks s1 = fs" "mMaxChunk s1 = mMaxChunk s" "mCurChk s1 = NULL \<longrightarrow> mChks s1 = []"
    using empty chk(2) by (auto simp: s1_def s0_def pend_def)
  have alive: "cdata (the (chunks s y)) \<noteq> nb \<or> tk" "chunks s y \<noteq> None" "ck_ok (chunks s) (blocks s) y" if "y \<in> set (pend s)" for y
    using ok buf that by (fastforce simp: ch_ok_def ck_ok_def buf_ok_def)+
  have old: "ck_ok (chunks s) (blocks s1) y \<and> ck_bytes (chunks s) (blocks s1) y = ck_bytes (chunks s) (blocks s) y" if "y \<in> set (pend s)" for y
    using alive [OF that] by (cases tk) (simp_all add: B1 B_def)
  have sep: "cdata (the (chunks s y)) \<noteq> d" if "y \<in> set (pend s)" "callocated (the (chunks s y)) \<or> \<not> tk" for y
    using that alive [OF that(1)] buf by (cases tk) (auto simp: d_def buf_ok_def)
  note enq = enqueue_ok [OF ok f C bs'(1,2) l old sep]
  have st1: "chan_st v s1" using chan_st_same [OF st _ _ enq(1)] by (simp add: s1_def s0_def)
  have str: "stream s1 = stream s @ take len bs" using enq(2) bs'(3) by (simp add: stream_def s1_def s0_def)
  have pre: "EdSocketChannel_sendPacket v nb buf len user tk s =
      (if mCurChk s \<noteq> NULL then Inr (SR_CONTINUE, s1)
       else bindr (EdSocketChannel_tx s1) (\<lambda>(ret, s).
               if ret = SR_COMPLETE then Inr (ret, s\<lparr>mFreeChks := mFreeChks s @ [mCurChk s], mCurChk := NULL\<rparr>)
               else bindr (sk_changeEvent v (EVT_READ OR EVT_WRITE) s) (\<lambda>s. Inr (ret, s))))"
    using f c0 buf by (cases tk) (simp_all add: EdSocketChannel_sendPacket_def buf_ok_def s1_def s0_def c_def d_def B_def Let_def)
  show ?thesis
  proof (cases "mCurChk s = NULL")
    case True
    then have "mCurChk s1 \<noteq> NULL" "mChks s1 = []" "writes s1 = writes s" "sk s1 = sk s"
      using chk(2) empty by (simp_all add: s1_def s0_def)
    from transmit_first [OF st1 this(1,2), of "EVT_READ OR EVT_WRITE"] this(3,4) pre str True show ?thesis by simp
  next
    case False
    then show ?thesis using pre st1 str by (simp add: s1_def s0_def)
  qed
qed

section \<open>Callbacks\<close>

text \<open>What \<^verbatim>\<open>OnWrite\<close> relies on of \<^verbatim>\<open>OnTxComplete\<close>: it returns, the channel stays live and keeps its current
  chunk, and the stream is only appended to. It may send packets.\<close>

locale chan_callback =
  fixes cb :: tx_callback and v :: env
  assumes cb_law: "chan_st v s \<Longrightarrow> \<exists>s' ext. cb d u s = Inr s' \<and> chan_st v s' \<and> (mCurChk s \<noteq> NULL \<longrightarrow> mCurChk s' = mCurChk s) \<and>
      length (writes s') \<le> length (writes s) \<and> stream s' = stream s @ ext"
begin

lemma loop_safe:
  "chan_st v s \<Longrightarrow> chk = NULL \<or> chk = mCurChk s \<Longrightarrow> length (writes s) < n \<Longrightarrow>
     \<exists>s' ext. chan_loop cb v n chk s = Inr s' \<and> chan_st v s' \<and> stream s' = stream s @ ext"
proof (induction n arbitrary: chk s)
  case 0
  then show ?case by simp
next
  case (Suc n)
  show ?case
  proof (cases "chk = NULL")
    case True
    then show ?thesis using Suc.prems(1) by auto
  next
    case False
    then have chk: "chk = mCurChk s" "mCurChk s \<noteq> NULL" using Suc.prems(2) by auto
    have ok: "ch_ok s" and fd: "mFd (sk s) \<ge> 0" using Suc.prems(1) by (auto simp: chan_st_def sk_live_def)
    show ?thesis
    proof (rule tx_spec [OF ok chk(2)])
      fix s1 assume s1: "EdSocketChannel_tx s = Inr (SR_CONTINUE, s1)" "ch_ok s1" "wire s1 @ unsent s1 = wire s @ unsent s" "same_lists s s1"
      have "chan_st v s1" using chan_st_same [OF Suc.prems(1) _ _ s1(2)] s1(4) by (simp add: same_lists_def)
      then show ?thesis using s1(1,3) False by (simp add: SR_defs stream_def)
    next
      fix s1 c1 assume s1: "EdSocketChannel_tx s = Inr (SR_COMPLETE, s1)" "same_lists s s1" "writes s1 = tl (writes s)" "writes s \<noteq> []"
        "chunks s1 (mCurChk s) = Some c1" "\<not> callocated c1" "wire s1 = wire s @ ck_bytes (chunks s) (blocks s) (mCurChk s)" "rest_ok s s1"
        "\<forall>y \<in> set (mFreeChks s). chunks s1 y = chunks s y"
      let ?nx = "chan_next (mCurChk s) s1"
      note nx = complete_next [OF ok chk(2) s1(2,8,5,6,7,9)]
      have st: "chan_st v ?nx" using chan_st_same [OF Suc.prems(1) _ _ nx(1)] s1(2) by (simp add: same_lists_def)
      have fd1: "mFd (sk s1) \<ge> 0" using fd s1(2) by (simp add: same_lists_def)
      have less: "length (writes ?nx) < n" using Suc.prems(3) s1(3,4) by (cases "writes s") auto
      have run: "chan_loop cb v (Suc n) chk s =
          bindr (if mCurChk ?nx \<noteq> NULL then Inr (mCurChk ?nx, ?nx) else bindr (sk_changeEvent v EVT_READ ?nx) (\<lambda>s. Inr (NULL, s))) (\<lambda>(chk, s).
            bindr (cb (cdata c1) (cuser c1) s) (chan_loop cb v n chk))"
        using False chk(1) s1(1,5) fd1 by (simp add: chan_next_def Let_def)
      obtain chk' s2 where s2: "(if mCurChk ?nx \<noteq> NULL then Inr (mCurChk ?nx, ?nx) else bindr (sk_changeEvent v EVT_READ ?nx) (\<lambda>s. Inr (NULL, s))) = Inr (chk', s2)"
        "chan_st v s2" "stream s2 = stream ?nx" "writes s2 = writes ?nx" "chk' = NULL \<or> chk' = mCurChk s2 \<and> mCurChk s2 \<noteq> NULL"
      proof (cases "mCurChk ?nx = NULL")
        case True
        show thesis by (rule change_chan [OF st, of EVT_READ]) (use True in \<open>auto intro: that\<close>)
      next
        case nn: False
        show thesis by (rule that [of "mCurChk ?nx" ?nx]) (use nn st in simp_all)
      qed
      obtain s3 ext where s3: "cb (cdata c1) (cuser c1) s2 = Inr s3" "chan_st v s3" "mCurChk s2 \<noteq> NULL \<longrightarrow> mCurChk s3 = mCurChk s2"
        "length (writes s3) \<le> length (writes s2)" "stream s3 = stream s2 @ ext" using cb_law [OF s2(2)] by blast
      have c3: "chk' = NULL \<or> chk' = mCurChk s3" using s2(5) s3(3) by auto
      have l3: "length (writes s3) < n" using s3(4) s2(4) less by simp
      have r3: "chan_loop cb v (Suc n) chk s = chan_loop cb v n chk' s3" unfolding run s2(1) using s3(1) by simp
      have "stream s3 = stream s @ ext" using s3(5) s2(3) nx(2) by simp
      with Suc.IH [OF s3(2) c3 l3] r3 show ?thesis by auto
    qed
  qed
qed

end

text \<open>A callback that does nothing, and one that sends a copy of a buffer whenever it can.\<close>

definition resend :: "env \<Rightarrow> addr \<Rightarrow> addr \<Rightarrow> nat \<Rightarrow> tx_callback" where
  "resend v nb buf len d u s =
     (case blocks s buf of
        Some bs \<Rightarrow> if len \<le> length bs \<and> blocks s nb = None then map_sum id snd (EdSocketChannel_sendPacket v nb buf len u False s) else Inr s
      | None \<Rightarrow> Inr s)"

interpretation silent: chan_callback "\<lambda>d u s. Inr s" v for v
  by unfold_locales (auto intro: exI [of _ "[]"])

interpretation sender: chan_callback "resend v nb buf len" v for v nb buf len
proof
  fix s d u assume st: "chan_st v s"
  show "\<exists>s' ext. resend v nb buf len d u s = Inr s' \<and> chan_st v s' \<and> (mCurChk s \<noteq> NULL \<longrightarrow> mCurChk s' = mCurChk s) \<and>
      length (writes s') \<le> length (writes s) \<and> stream s' = stream s @ ext"
  proof (cases "mFreeChks s \<noteq> [] \<and> (\<exists>bs. buf_ok s nb buf len False bs)")
    case True
    then obtain bs where b: "mFreeChks s \<noteq> []" "buf_ok s nb buf len False bs" by blast
    obtain r s' where "EdSocketChannel_sendPacket v nb buf len u False s = Inr (r, s')" "chan_st v s'" "stream s' = stream s @ take len bs"
      "length (writes s') \<le> length (writes s)" "mCurChk s \<noteq> NULL \<longrightarrow> mCurChk s' = mCurChk s"
      using sendPacket_ok [OF st b, of u] by blast
    then show ?thesis using b(2) by (auto simp: resend_def buf_ok_def)
  next
    case False
    then have "resend v nb buf len d u s = Inr s"
      using sendPacket_full [of s v nb buf len u False] by (auto simp: resend_def buf_ok_def split: option.splits)
    then show ?thesis using st by auto
  qed
qed

section \<open>Closing\<close>

lemma delete_chunks_append: "delete_chunks (xs @ ys) s = bindr (delete_chunks xs s) (delete_chunks ys)"
  by (induction xs arbitrary: s) (simp_all add: bindr_def split: sum.splits)

definition clear_lists :: "chan \<Rightarrow> chan" where
  "clear_lists s = s\<lparr>mCurChk := NULL, mChks := []\<rparr>"

lemma delete_chunks_clear: "delete_chunks xs (clear_lists s) = map_sum id clear_lists (delete_chunks xs s)"
proof (induction xs arbitrary: s)
  case (Cons x xs)
  have "delete_chunk x (clear_lists s) = map_sum id clear_lists (delete_chunk x s)"
    by (auto simp: delete_chunk_def clear_lists_def free_block_def split: option.splits)
  then show ?case using Cons by (cases "delete_chunk x s") simp_all
qed simp

lemma delete_chunks_ok:
  assumes "distinct xs" "\<forall>x \<in> set xs. \<exists>c. C x = Some c \<and> (callocated c \<longrightarrow> B (cdata c) \<noteq> None)"
    "\<forall>x \<in> set xs. \<forall>y \<in> set xs. x \<noteq> y \<longrightarrow> callocated (the (C x)) \<longrightarrow> callocated (the (C y)) \<longrightarrow> cdata (the (C x)) \<noteq> cdata (the (C y))"
    "chunks s = C" "blocks s = B"
  shows "\<exists>B'. delete_chunks xs s = Inr (s\<lparr>blocks := B', chunks := C |` (- set xs)\<rparr>)"
  using assms
proof (induction xs arbitrary: s C B)
  case Nil
  then show ?case by (intro exI [of _ B]) (auto simp: restrict_map_def)
next
  case (Cons x xs)
  obtain c where c: "C x = Some c" "callocated c \<longrightarrow> B (cdata c) \<noteq> None" using Cons.prems(2) by auto
  let ?B = "if callocated c then B(cdata c := None) else B"
  let ?s = "s\<lparr>blocks := ?B, chunks := C(x := None)\<rparr>"
  have run: "delete_chunk x s = Inr ?s" using c Cons.prems(4,5) by (auto simp: delete_chunk_def free_block_def)
  have nin: "x \<notin> set xs" "distinct xs" using Cons.prems(1) by auto
  have b: "\<exists>e. (C(x := None)) y = Some e \<and> (callocated e \<longrightarrow> ?B (cdata e) \<noteq> None)" if y: "y \<in> set xs" for y
  proof -
    have yx: "y \<noteq> x" using y nin(1) by auto
    obtain e where e: "C y = Some e" "callocated e \<longrightarrow> B (cdata e) \<noteq> None" using bspec [OF Cons.prems(2), of y] y by auto
    have "callocated c \<Longrightarrow> callocated e \<Longrightarrow> cdata c \<noteq> cdata e" using Cons.prems(3) y yx c(1) e(1) by force
    then show ?thesis using e yx by auto
  qed
  have sp: "\<forall>y \<in> set xs. \<forall>z \<in> set xs. y \<noteq> z \<longrightarrow> callocated (the ((C(x := None)) y)) \<longrightarrow> callocated (the ((C(x := None)) z)) \<longrightarrow>
      cdata (the ((C(x := None)) y)) \<noteq> cdata (the ((C(x := None)) z))" using Cons.prems(3) nin(1) by auto
  have b1: "\<forall>y \<in> set xs. \<exists>e. (C(x := None)) y = Some e \<and> (callocated e \<longrightarrow> ?B (cdata e) \<noteq> None)" using b by blast
  have r: "chunks ?s = C(x := None)" "blocks ?s = ?B" by simp_all
  obtain B' where "delete_chunks xs ?s = Inr (?s\<lparr>blocks := B', chunks := C(x := None) |` (- set xs)\<rparr>)"
    using Cons.IH [OF nin(2) b1 sp r] by blast
  moreover have "C(x := None) |` (- set xs) = C |` (- set (x # xs))" by (auto simp: restrict_map_def fun_eq_iff)
  ultimately show ?case using run by auto
qed

lemma chan_more:
  "sst.more s = sst.more t \<Longrightarrow> chunks s = chunks t \<and> mCurChk s = mCurChk t \<and> mChks s = mChks t \<and> mFreeChks s = mFreeChks t"
  for s t :: chan
  by (cases s, cases t) simp

lemma closeChannel_ok:
  assumes st: "chan_st v s"
  shows "\<exists>s'. EdSocketChannel_closeChannel v s = Inr s' \<and> chunks s' = Map.empty \<and> pend s' = [] \<and> mFreeChks s' = [] \<and> sk_gone (sk s')"
proof -
  have ok: "ch_ok s" using st by (simp add: chan_st_def)
  let ?xs = "pend s @ mFreeChks s"
  have all: "\<forall>x \<in> set ?xs. \<exists>c. chunks s x = Some c \<and> (callocated c \<longrightarrow> blocks s (cdata c) \<noteq> None)"
  proof
    fix x assume x: "x \<in> set ?xs"
    then have "chunks s x \<noteq> None" using ok unfolding ch_ok_def by (metis domIff)
    then obtain c where c: "chunks s x = Some c" by blast
    have "callocated c \<longrightarrow> blocks s (cdata c) \<noteq> None"
    proof (cases "x \<in> set (pend s)")
      case True
      then have "ck_ok (chunks s) (blocks s) x" using ok by (simp add: ch_ok_def)
      then show ?thesis using c by (auto simp: ck_ok_def)
    next
      case False
      then have "\<not> callocated (the (chunks s x))" using x ok by (simp add: ch_ok_def)
      then show ?thesis using c by simp
    qed
    with c show "\<exists>c. chunks s x = Some c \<and> (callocated c \<longrightarrow> blocks s (cdata c) \<noteq> None)" by blast
  qed
  have sep: "\<forall>x \<in> set ?xs. \<forall>y \<in> set ?xs. x \<noteq> y \<longrightarrow> callocated (the (chunks s x)) \<longrightarrow> callocated (the (chunks s y)) \<longrightarrow>
      cdata (the (chunks s x)) \<noteq> cdata (the (chunks s y))" using ok by (auto simp: ch_ok_def ck_sep_def)
  have dist: "distinct ?xs" "dom (chunks s) = set ?xs" using ok by (simp_all add: ch_ok_def)
  obtain B' where B': "delete_chunks ?xs s = Inr (s\<lparr>blocks := B', chunks := chunks s |` (- set ?xs)\<rparr>)"
    using delete_chunks_ok [OF dist(1) all sep refl refl] by blast
  have "dom (chunks s |` (- set ?xs)) = {}" using dist(2) by auto
  then have none: "chunks s |` (- set ?xs) = Map.empty" by (simp only: dom_eq_empty_conv)
  let ?s = "s\<lparr>blocks := B', chunks := Map.empty\<rparr>"
  from B' none have D: "bindr (delete_chunks (pend s) s) (delete_chunks (mFreeChks s)) = Inr ?s" by (simp add: delete_chunks_append)
  then obtain s1 where s1: "delete_chunks (pend s) s = Inr s1" "delete_chunks (mFreeChks s) s1 = Inr ?s" by (cases "delete_chunks (pend s) s") auto
  have keep: "mChks s1 = mChks s" "mFreeChks s1 = mFreeChks s"
  proof -
    obtain B1 where "delete_chunks (pend s) s = Inr (s\<lparr>blocks := B1, chunks := chunks s |` (- set (pend s))\<rparr>)"
      using delete_chunks_ok [of "pend s" "chunks s" "blocks s" s] dist(1) all sep by auto
    with s1(1) show "mChks s1 = mChks s" "mFreeChks s1 = mFreeChks s" by auto
  qed
  have first: "bindr (if mCurChk s \<noteq> NULL then delete_chunk (mCurChk s) s else Inr s) (\<lambda>s. delete_chunks (mChks s) s) = Inr s1"
    using s1(1) by (auto simp: pend_def delete_chunk_def bindr_def split: if_splits option.splits sum.splits)
  have "delete_chunks (mFreeChks s) (clear_lists s1) = Inr (clear_lists ?s)" using s1(2) by (simp add: delete_chunks_clear)
  then have run: "EdSocketChannel_closeChannel v s = EdSocket_close v ((clear_lists ?s)\<lparr>mFreeChks := []\<rparr>)"
    using first keep by (auto simp: EdSocketChannel_closeChannel_def clear_lists_def Let_def bindr_def split: sum.splits if_splits)
  let ?f = "(clear_lists ?s)\<lparr>mFreeChks := []\<rparr>"
  obtain es ds p where l: "sys_ok v s es ds" "sk_live v p (sk s)" "p \<in> set es" using st by (auto simp: chan_st_def)
  then have l2: "sys_ok v ?f es ds" "sk_live v p (sk ?f)" by (simp_all add: sys_ok_def clear_lists_def)
  show ?thesis
  proof (rule close_live [OF l2 l(3)])
    fix s' assume s': "EdSocket_close v ?f = Inr s'" "sk_gone (sk s')" "sst.more s' = sst.more ?f"
    have "chunks s' = Map.empty" "mCurChk s' = NULL" "mChks s' = []" "mFreeChks s' = []"
      using chan_more [OF s'(3)] by (simp_all add: clear_lists_def)
    then show ?thesis using s'(1,2) run by (auto simp: pend_def)
  qed
qed

text \<open>Closing the channel in a completion callback while another chunk is pending: the loop goes on with the
  deleted chunk.\<close>

lemma close_in_callback:
  assumes ok: "ch_ok s" "mFd (sk s) \<ge> 0" and tx: "EdSocketChannel_tx s = Inr (SR_COMPLETE, s1)" "mFd (sk s1) \<ge> 0" "chunks s1 (mCurChk s) = Some c"
    and more: "mCurChk s \<noteq> NULL" "mChks s1 = y # ys" "y \<noteq> NULL"
    and cl: "EdSocketChannel_closeChannel v (chan_next (mCurChk s) s1) = Inr s2" "chunks s2 = Map.empty"
  shows "EdSocketChannel_OnWrite (\<lambda>d u. EdSocketChannel_closeChannel v) v (Suc (Suc n)) s = Inl Bad_access"
proof -
  have "EdSocketChannel_tx s2 = Inl Bad_access" using cl(2) by (simp add: EdSocketChannel_tx_def)
  then show ?thesis using tx more cl(1) by (simp add: EdSocketChannel_OnWrite_def chan_next_def Let_def)
qed

section \<open>Properties\<close>

text \<open>C15. The bytes on the wire are the accepted packets, in order and without loss, whatever the kernel
  takes at each call: a packet is refused only when every chunk is in use, and then nothing changes;
  an accepted packet, copied or taken, appends exactly its bytes to the stream of written and unsent
  bytes.\<close>

theorem channel_send:
  assumes st: "chan_st v s" and buf: "buf_ok s nb buf len tk bs"
  shows "if EdSocketChannel_isFull s then EdSocketChannel_sendPacket v nb buf len user tk s = Inr (SR_BUFFULL, s)
     else \<exists>r s'. EdSocketChannel_sendPacket v nb buf len user tk s = Inr (r, s') \<and> (r = SR_COMPLETE \<or> r = SR_CONTINUE) \<and>
       chan_st v s' \<and> wire s' @ unsent s' = wire s @ unsent s @ take len bs"
proof (cases "mFreeChks s = []")
  case True
  then show ?thesis using sendPacket_full [OF True] by (simp add: EdSocketChannel_isFull_def)
next
  case False
  then show ?thesis using sendPacket_ok [OF st False buf, of user] by (auto simp: EdSocketChannel_isFull_def stream_def)
qed

definition chan0 :: "env \<Rightarrow> sst \<Rightarrow> chan" where
  "chan0 v t = EdSocketChannel_init [10, 20] (sst.extend t
     \<lparr>writes = [2], wire = [], chunks = Map.empty, blocks = [500 \<mapsto> [1, 2, 3]], mCurChk = NULL, mChks = [], mFreeChks = [], mMaxChunk = 0\<rparr>)"

lemma chan0_ok: "ch_ok (chan0 v t)" "sk (chan0 v t) = sk t" "sw (chan0 v t) = sw t" "stream (chan0 v t) = []"
  "mFreeChks (chan0 v t) = [10, 20]" "blocks (chan0 v t) = [500 \<mapsto> [1, 2, 3]]" "writes (chan0 v t) = [2]"
  by (auto simp: chan0_def EdSocketChannel_init_def ch_ok_def pend_def sst.extend_def ck_sep_def stream_def unsent_def)

text \<open>A connected socket to run a channel on.\<close>

lemma live_sock:
  obtains t :: sst where "sys_ok senv t [1000] []" "sk_live senv 1000 (sk t)"
proof -
  have "0 < (9 :: int)" by simp
  then obtain t :: sst where "sk_live senv (eaddr senv) (sk t)" "sys_ok senv t ([] @ [eaddr senv]) []"
    by (rule connect_ok [OF sock0_ok, where cret = 0])
  then show thesis using that [of t] by (simp add: senv_def)
qed

lemma chan0_st:
  assumes "sys_ok v t [1000] []" "sk_live v 1000 (sk t)"
  shows "chan_st v (chan0 v t)"
  using assms chan0_ok [of v t] by (auto simp: chan_st_def sys_ok_def)

theorem channel_send_witness:
  "\<exists>t r s'. EdSocketChannel_sendPacket senv 600 500 3 NULL False (chan0 senv t) = Inr (r, s') \<and> wire s' @ unsent s' = [1, 2, 3]"
proof -
  obtain t :: sst where t: "sys_ok senv t [1000] []" "sk_live senv 1000 (sk t)" by (rule live_sock)
  have b: "buf_ok (chan0 senv t) 600 500 3 False [1, 2, 3]" by (simp add: buf_ok_def chan0_ok)
  have e: "wire (chan0 senv t) @ unsent (chan0 senv t) = []" using chan0_ok(4) [of senv t] by (simp add: stream_def)
  from channel_send [OF chan0_st [OF t] b, of NULL] e chan0_ok(5) [of senv t] show ?thesis
    by (auto simp: EdSocketChannel_isFull_def)
qed



end
