(* ===== verification/EdSmart.thy ===== *)
theory EdSmart
  imports EdSockets
begin

text \<open>EdSmartSocket.cpp in the build with SSL: a socket with one pending packet, plain or over an SSL
  session. Buffers are blocks of memory. The SSL library is outside: the result of its last call and
  the error code that \<^verbatim>\<open>SSL_get_error\<close> gives for it are arguments, and so is the address of a new
  session; \<^verbatim>\<open>SSL_write\<close> takes bytes as \<^verbatim>\<open>write\<close> does. The listener is a function on the state.\<close>

section \<open>State\<close>

datatype netev = NETEV_DISCONNECTED | NETEV_CONNECTED | NETEV_READABLE | NETEV_WRITABLE

definition SEND_FAIL :: int where "SEND_FAIL = - 1"
definition SEND_OK :: int where "SEND_OK = 0"
definition SEND_PENDING :: int where "SEND_PENDING = 1"
definition SOCKET_NORMAL :: int where "SOCKET_NORMAL = 0"

lemmas smart_consts = SEND_FAIL_def SEND_OK_def SEND_PENDING_def SOCKET_NORMAL_def

text \<open>The error codes of the SSL library the code compares with.\<close>

definition SSL_ERROR_SSL :: int where "SSL_ERROR_SSL = 1"
definition SSL_ERROR_WANT_READ :: int where "SSL_ERROR_WANT_READ = 2"
definition SSL_ERROR_WANT_WRITE :: int where "SSL_ERROR_WANT_WRITE = 3"
definition SSL_ERROR_SYSCALL :: int where "SSL_ERROR_SYSCALL = 5"
definition SSL_ERROR_ZERO_RETURN :: int where "SSL_ERROR_ZERO_RETURN = 6"

lemmas ssl_errors = SSL_ERROR_SSL_def SSL_ERROR_WANT_READ_def SSL_ERROR_WANT_WRITE_def SSL_ERROR_SYSCALL_def SSL_ERROR_ZERO_RETURN_def

record smart = wsock +
  mMode :: int
  mPendingBuf :: addr
  mPendingWriteCnt :: int
  mPendingSize :: int
  mOnLis :: bool
  mem :: "addr \<rightharpoonup> u8 list"
  mSSL :: addr
  mSSLCtx :: addr
  mEdSSLCtx :: addr
  mSessionConencted :: bool
  mIsServer :: bool
  mSSLWantEvent :: u32

type_synonym smart_lis = "netev \<Rightarrow> smart \<Rightarrow> fault + smart"

text \<open>What the SSL library answers: the result of \<^verbatim>\<open>SSL_connect\<close> or \<^verbatim>\<open>SSL_accept\<close>, the error code, the
  address of \<^verbatim>\<open>SSL_new\<close>, the default context.\<close>

record ssl_in =
  sslret :: int
  sslerr :: int
  sslnew :: addr
  sslctx :: addr

definition notify :: "smart_lis \<Rightarrow> netev \<Rightarrow> smart \<Rightarrow> fault + smart" where
  "notify lis ev s = (if mOnLis s then lis ev s else Inr s)"

text \<open>\<^verbatim>\<open>mSock.getTask()->lastSockErrorNo = n\<close>.\<close>

definition task_error :: "int \<Rightarrow> 'a sst_scheme \<Rightarrow> fault + 'a sst_scheme" where
  "task_error n s = (if mTask (sk s) = NULL then Inl Bad_access else Inr (s\<lparr>lastSockErrorNo := n\<rparr>))"

definition smart_free :: "addr \<Rightarrow> smart \<Rightarrow> fault + smart" where
  "smart_free p s = (if mem s p = None then Inl Bad_access else Inr (s\<lparr>mem := (mem s)(p := None)\<rparr>))"

section \<open>Opening and closing\<close>

definition EdSmartSocket_openSSLClientSock :: "env \<Rightarrow> ssl_in \<Rightarrow> int \<Rightarrow> smart \<Rightarrow> fault + (int \<times> smart)" where
  "EdSmartSocket_openSSLClientSock v i fd s =
     bindr (EdSocket_openSock v SOCK_TYPE_TCP fd None s) (\<lambda>(fd, s).
       if fd < 0 then Inr (fd, s)
       else Inr (fd, s\<lparr>mEdSSLCtx := sslctx i, mSSLCtx := sslctx i, mIsServer := False\<rparr>))"

definition EdSmartSocket_openSSLChildSock :: "env \<Rightarrow> ssl_in \<Rightarrow> int \<Rightarrow> smart \<Rightarrow> fault + smart" where
  "EdSmartSocket_openSSLChildSock v i fd s =
     bindr (EdSocket_openChildSock v fd None s) (\<lambda>s.
       Inr (s\<lparr>mIsServer := True, mEdSSLCtx := sslctx i, mSSLCtx := sslctx i, mSSL := sslnew i\<rparr>))"

definition EdSmartSocket_openClient :: "env \<Rightarrow> ssl_in \<Rightarrow> int \<Rightarrow> int \<Rightarrow> bool \<Rightarrow> smart \<Rightarrow> fault + (int \<times> smart)" where
  "EdSmartSocket_openClient v i mode fd lis s =
     (let s = s\<lparr>mOnLis := mOnLis s \<or> lis, mMode := mode\<rparr> in
      if mode = SOCKET_NORMAL then EdSocket_openSock v SOCK_TYPE_TCP fd None s
      else EdSmartSocket_openSSLClientSock v i fd s)"

definition EdSmartSocket_openChild :: "env \<Rightarrow> ssl_in \<Rightarrow> int \<Rightarrow> int \<Rightarrow> bool \<Rightarrow> smart \<Rightarrow> fault + (int \<times> smart)" where
  "EdSmartSocket_openChild v i fd mode lis s =
     (let s = s\<lparr>mOnLis := mOnLis s \<or> lis, mMode := mode\<rparr> in
      bindr (if mode = SOCKET_NORMAL then EdSocket_openChildSock v fd None s
             else EdSmartSocket_openSSLChildSock v i fd s) (\<lambda>s. Inr (0, s)))"

definition EdSmartSocket_close :: "env \<Rightarrow> smart \<Rightarrow> fault + smart" where
  "EdSmartSocket_close v s =
     (let s = (if mSSL s \<noteq> NULL then s\<lparr>mSSL := NULL, mSSLCtx := NULL, mSessionConencted := False\<rparr> else s) in
      bindr (EdSocket_close v s) (\<lambda>s.
        if mPendingBuf s \<noteq> NULL
        then bindr (smart_free (mPendingBuf s) s) (\<lambda>s. Inr (s\<lparr>mPendingBuf := NULL\<rparr>))
        else Inr s))"

definition EdSmartSocket_connect_name :: "env \<Rightarrow> int \<Rightarrow> int \<Rightarrow> int \<Rightarrow> bool \<Rightarrow> smart \<Rightarrow> fault + (int \<times> smart)" where
  "EdSmartSocket_connect_name v fd cret err lis s = EdSocket_connect_name v fd cret err None (s\<lparr>mOnLis := mOnLis s \<or> lis\<rparr>)"

definition EdSmartSocket_connect_ip :: "env \<Rightarrow> int \<Rightarrow> int \<Rightarrow> bool \<Rightarrow> smart \<Rightarrow> fault + (int \<times> smart)" where
  "EdSmartSocket_connect_ip v fd cret lis s = EdSocket_connect_ip v fd cret None (s\<lparr>mOnLis := mOnLis s \<or> lis\<rparr>)"

definition EdSmartSocket_openUnixSocket :: "env \<Rightarrow> int \<Rightarrow> int \<Rightarrow> int \<Rightarrow> bool \<Rightarrow> smart \<Rightarrow> fault + (int \<times> smart)" where
  "EdSmartSocket_openUnixSocket v type fd bret lis s =
     (let s = s\<lparr>mOnLis := mOnLis s \<or> lis\<rparr> in
      if type = SOCK_TYPE_UNIXDGRAM \<or> type = SOCK_TYPE_UNIXSTREAM
      then bindr (EdSocket_openSock v type fd None s) (\<lambda>(fd, s).
           if fd \<ge> 0
           then bindr (EdSocket_bindSock v fd bret s) (\<lambda>(ret, s).
                if ret < 0 then bindr (EdSocket_close v s) (\<lambda>s. Inr (- 1, s)) else Inr (fd, s))
           else Inr (fd, s))
      else Inr (- 1, s))"

section \<open>The SSL session\<close>

definition EdSmartSocket_changeSSLSockEvent :: "env \<Rightarrow> int \<Rightarrow> smart \<Rightarrow> fault + smart" where
  "EdSmartSocket_changeSSLSockEvent v err s =
     (if err = SSL_ERROR_WANT_WRITE then sk_changeEvent v (EVT_WRITE OR EVT_HANGUP) (s\<lparr>mSSLWantEvent := EVT_WRITE\<rparr>)
      else if err = SSL_ERROR_WANT_READ then sk_changeEvent v (EVT_READ OR EVT_HANGUP) (s\<lparr>mSSLWantEvent := EVT_READ\<rparr>)
      else if err = SSL_ERROR_ZERO_RETURN then Inr (s\<lparr>mSSLWantEvent := 0\<rparr>)
      else Inr s)"

definition EdSmartSocket_procSSLErrCloseNeedEnd :: "smart_lis \<Rightarrow> env \<Rightarrow> smart \<Rightarrow> fault + smart" where
  "EdSmartSocket_procSSLErrCloseNeedEnd lis v s =
     bindr (task_error EINPROGRESS s) (\<lambda>s.
     bindr (notify lis NETEV_DISCONNECTED s) (\<lambda>s.
     if lastSockErrorNo s \<noteq> 0 then EdSmartSocket_close v s else Inr s))"

definition EdSmartSocket_procSSLConnect :: "smart_lis \<Rightarrow> env \<Rightarrow> ssl_in \<Rightarrow> smart \<Rightarrow> fault + smart" where
  "EdSmartSocket_procSSLConnect lis v i s =
     (if sslret i = 1
      then bindr (task_error 0 (s\<lparr>mSessionConencted := True\<rparr>)) (notify lis NETEV_CONNECTED)
      else if sslret i = 0 then EdSmartSocket_procSSLErrCloseNeedEnd lis v s
      else if sslerr i = SSL_ERROR_SSL then EdSmartSocket_procSSLErrCloseNeedEnd lis v s
      else bindr (EdSmartSocket_changeSSLSockEvent v (sslerr i) s) (\<lambda>s.
           if sslerr i = SSL_ERROR_ZERO_RETURN \<or> sslerr i = SSL_ERROR_SYSCALL
           then EdSmartSocket_procSSLErrCloseNeedEnd lis v s
           else task_error 0 s))"

definition EdSmartSocket_sslAccept :: "smart_lis \<Rightarrow> env \<Rightarrow> ssl_in \<Rightarrow> smart \<Rightarrow> fault + smart" where
  "EdSmartSocket_sslAccept lis v i s = EdSmartSocket_procSSLConnect lis v i s"

definition EdSmartSocket_startHandshake :: "smart_lis \<Rightarrow> env \<Rightarrow> ssl_in \<Rightarrow> smart \<Rightarrow> fault + smart" where
  "EdSmartSocket_startHandshake lis v i s =
     (if mSSL s = NULL \<and> \<not> mSessionConencted s
      then EdSmartSocket_procSSLConnect lis v i (s\<lparr>mSSL := sslnew i\<rparr>) else Inr s)"

definition EdSmartSocket_procSSLRead :: "smart_lis \<Rightarrow> env \<Rightarrow> ssl_in \<Rightarrow> smart \<Rightarrow> fault + smart" where
  "EdSmartSocket_procSSLRead lis v i s =
     (if \<not> mSessionConencted s then EdSmartSocket_procSSLConnect lis v i s else notify lis NETEV_READABLE s)"

section \<open>Packets\<close>

text \<open>The unwritten part of the pending buffer, as the two write handlers address it; \<open>None\<close> outside the
  buffer.\<close>

definition blk_part :: "int \<Rightarrow> int \<Rightarrow> u8 list option \<Rightarrow> u8 list option" where
  "blk_part cnt sz blk =
     (case blk of
        None \<Rightarrow> None
      | Some bs \<Rightarrow> if 0 \<le> cnt \<and> cnt \<le> sz \<and> sz \<le> int (length bs) then Some (drop (nat cnt) (take (nat sz) bs)) else None)"

definition pending_part :: "smart \<Rightarrow> u8 list option" where
  "pending_part s = blk_part (mPendingWriteCnt s) (mPendingSize s) (mem s (mPendingBuf s))"

text \<open>The end of a pending packet.\<close>

definition pending_done :: "smart_lis \<Rightarrow> env \<Rightarrow> smart \<Rightarrow> fault + smart" where
  "pending_done lis v s =
     bindr (sk_changeEvent v (EVT_READ OR EVT_HANGUP) s) (\<lambda>s.
     bindr (smart_free (mPendingBuf s) (s\<lparr>mPendingSize := 0, mPendingWriteCnt := 0\<rparr>)) (\<lambda>s.
     notify lis NETEV_WRITABLE (s\<lparr>mPendingBuf := NULL\<rparr>)))"

definition EdSmartSocket_procNormalOnWrite :: "smart_lis \<Rightarrow> env \<Rightarrow> smart \<Rightarrow> fault + smart" where
  "EdSmartSocket_procNormalOnWrite lis v s =
     (if mPendingBuf s \<noteq> NULL
      then case pending_part s of
             None \<Rightarrow> Inl Bad_access
           | Some bs \<Rightarrow>
               let (wret, s) = EdSocket_send bs s in
               if wret > 0
               then let s = s\<lparr>mPendingWriteCnt := mPendingWriteCnt s + wret\<rparr> in
                    if mPendingWriteCnt s = mPendingSize s then pending_done lis v s else Inr s
               else Inr s
      else bindr (sk_changeEvent v (EVT_READ OR EVT_HANGUP) s) (notify lis NETEV_WRITABLE))"

definition EdSmartSocket_procSSLOnWrite :: "smart_lis \<Rightarrow> env \<Rightarrow> ssl_in \<Rightarrow> smart \<Rightarrow> fault + smart" where
  "EdSmartSocket_procSSLOnWrite lis v i s =
     (if \<not> mSessionConencted s then EdSmartSocket_procSSLConnect lis v i s
      else if mPendingBuf s \<noteq> NULL
      then case pending_part s of
             None \<Rightarrow> Inl Bad_access
           | Some bs \<Rightarrow>
               let (wret, s) = EdSocket_send bs (s\<lparr>mSSLWantEvent := 0\<rparr>) in
               if wret > 0
               then let s = s\<lparr>mPendingWriteCnt := mPendingWriteCnt s + wret\<rparr> in
                    if mPendingWriteCnt s = mPendingSize s then pending_done lis v s else Inr s
               else EdSmartSocket_changeSSLSockEvent v (sslerr i) s
      else bindr (if mSSLWantEvent s \<noteq> EVT_WRITE then sk_changeEvent v (EVT_READ OR EVT_HANGUP) s else Inr s) (notify lis NETEV_WRITABLE))"

text \<open>\<^verbatim>\<open>sendPacket\<close>: \<open>nb\<close> is the block \<^verbatim>\<open>malloc\<close> returns, null when it fails, \<open>err\<close> is \<^verbatim>\<open>errno\<close> after the write.\<close>

definition smart_pend :: "env \<Rightarrow> addr \<Rightarrow> addr \<Rightarrow> u8 list \<Rightarrow> int \<Rightarrow> bool \<Rightarrow> smart \<Rightarrow> fault + (int \<times> smart)" where
  "smart_pend v nb buf bs wret takebuffer s =
     (if \<not> takebuffer
      then let s = s\<lparr>mPendingSize := int (length bs) - wret, mPendingWriteCnt := 0, mPendingBuf := nb\<rparr> in
           if nb = NULL then Inr (SEND_FAIL, s)
           else bindr (sk_changeEvent v (EVT_READ OR EVT_WRITE OR EVT_HANGUP) (s\<lparr>mem := (mem s)(nb \<mapsto> drop (nat wret) bs)\<rparr>)) (\<lambda>s.
                Inr (SEND_PENDING, s))
      else bindr (sk_changeEvent v (EVT_READ OR EVT_WRITE OR EVT_HANGUP)
                    (s\<lparr>mPendingSize := int (length bs), mPendingBuf := buf, mPendingWriteCnt := int (length bs) - wret\<rparr>)) (\<lambda>s.
           Inr (SEND_PENDING, s)))"

definition EdSmartSocket_sendPacket :: "env \<Rightarrow> ssl_in \<Rightarrow> addr \<Rightarrow> int \<Rightarrow> addr \<Rightarrow> nat \<Rightarrow> bool \<Rightarrow> smart \<Rightarrow> fault + (int \<times> smart)" where
  "EdSmartSocket_sendPacket v i nb err buf len takebuffer s =
     (if mPendingBuf s \<noteq> NULL then Inr (SEND_FAIL, s)
      else case mem s buf of
        None \<Rightarrow> Inl Bad_access
      | Some blk \<Rightarrow>
          if length blk < len then Inl Bad_access
          else let bs = take len blk in
          if mMode s = SOCKET_NORMAL
          then let (wret, s) = EdSocket_send bs s in
               if wret = int len
               then bindr (if takebuffer then smart_free buf s else Inr s) (\<lambda>s. Inr (SEND_OK, s))
               else if wret > 0 then smart_pend v nb buf bs wret takebuffer s
               else if err = EAGAIN then smart_pend v nb buf bs 0 takebuffer s
               else Inr (SEND_FAIL, s)
          else bindr (if takebuffer then Inr (s\<lparr>mPendingBuf := buf\<rparr>)
                      else if nb = NULL then Inl Assert_failed
                      else Inr (s\<lparr>mPendingBuf := nb, mem := (mem s)(nb \<mapsto> bs)\<rparr>)) (\<lambda>s.
               let s = s\<lparr>mPendingWriteCnt := 0, mPendingSize := int len, mSSLWantEvent := 0\<rparr>; (wret, s) = EdSocket_send bs s in
               if wret = int len
               then bindr (smart_free (mPendingBuf s) s) (\<lambda>s. Inr (SEND_OK, s\<lparr>mPendingBuf := NULL, mPendingWriteCnt := 0, mPendingSize := 0\<rparr>))
               else if wret \<le> 0
               then bindr (EdSmartSocket_changeSSLSockEvent v (sslerr i) s) (\<lambda>s. Inr (SEND_PENDING, s))
               else Inr (SEND_PENDING, s)))"

text \<open>\<^verbatim>\<open>recvPacket\<close>, \<open>rret\<close> the result of \<^verbatim>\<open>read\<close> or \<^verbatim>\<open>SSL_read\<close>.\<close>

definition EdSmartSocket_recvPacket :: "env \<Rightarrow> ssl_in \<Rightarrow> int \<Rightarrow> smart \<Rightarrow> fault + (int \<times> smart)" where
  "EdSmartSocket_recvPacket v i rret s =
     (if mMode s = SOCKET_NORMAL then EdSocket_recv rret s
      else let s = s\<lparr>mSSLWantEvent := 0\<rparr> in
        if rret < 0
        then bindr (EdSmartSocket_changeSSLSockEvent v (sslerr i) s) (\<lambda>s.
             bindr (if sslerr i = SSL_ERROR_ZERO_RETURN then task_error EINPROGRESS s else Inr s) (\<lambda>s. Inr (- 1, s)))
        else if rret = 0 then bindr (task_error EINPROGRESS s) (\<lambda>s. Inr (0, s))
        else bindr (task_error 0 s) (\<lambda>s. Inr (rret, s)))"

definition EdSmartSocket_isWritable :: "smart \<Rightarrow> bool" where
  "EdSmartSocket_isWritable s = (mPendingBuf s = NULL)"

definition EdSmartSocket_reserveWrite :: "env \<Rightarrow> smart \<Rightarrow> fault + smart" where
  "EdSmartSocket_reserveWrite v s = sk_changeEvent v (EVT_WRITE OR EVT_HANGUP OR EVT_READ) s"

section \<open>Events of the raw socket\<close>

definition EdSmartSocket_fireRead :: "smart_lis \<Rightarrow> env \<Rightarrow> ssl_in \<Rightarrow> smart \<Rightarrow> fault + smart" where
  "EdSmartSocket_fireRead lis v i s =
     (if mMode s = SOCKET_NORMAL then notify lis NETEV_READABLE s else EdSmartSocket_procSSLRead lis v i s)"

definition EdSmartSocket_fireWrite :: "smart_lis \<Rightarrow> env \<Rightarrow> ssl_in \<Rightarrow> smart \<Rightarrow> fault + smart" where
  "EdSmartSocket_fireWrite lis v i s =
     (if mMode s = SOCKET_NORMAL then EdSmartSocket_procNormalOnWrite lis v s else EdSmartSocket_procSSLOnWrite lis v i s)"

definition EdSmartSocket_fireConnected :: "smart_lis \<Rightarrow> env \<Rightarrow> ssl_in \<Rightarrow> smart \<Rightarrow> fault + smart" where
  "EdSmartSocket_fireConnected lis v i s =
     (if mMode s = SOCKET_NORMAL then notify lis NETEV_CONNECTED s else EdSmartSocket_startHandshake lis v i s)"

definition EdSmartSocket_fireDisconnected :: "smart_lis \<Rightarrow> smart \<Rightarrow> fault + smart" where
  "EdSmartSocket_fireDisconnected lis s =
     (if mMode s = SOCKET_NORMAL \<or> mSessionConencted s then notify lis NETEV_DISCONNECTED s else Inr s)"

definition RawSocket_vm :: "smart_lis \<Rightarrow> env \<Rightarrow> ssl_in \<Rightarrow> sock_event \<Rightarrow> smart \<Rightarrow> fault + smart" where
  "RawSocket_vm lis v i ev s =
     (case ev of
        SOCK_EVENT_READ \<Rightarrow> EdSmartSocket_fireRead lis v i s
      | SOCK_EVENT_WRITE \<Rightarrow> EdSmartSocket_fireWrite lis v i s
      | SOCK_EVENT_CONNECTED \<Rightarrow> EdSmartSocket_fireConnected lis v i s
      | SOCK_EVENT_DISCONNECTED \<Rightarrow> EdSmartSocket_fireDisconnected lis s
      | SOCK_EVENT_INCOMING_ACCEPT \<Rightarrow> Inr s)"

section \<open>Invariant\<close>

definition sm_ok :: "smart \<Rightarrow> bool" where
  "sm_ok s \<longleftrightarrow> mPendingBuf s = NULL \<or> pending_part s \<noteq> None"

definition sm_unsent :: "smart \<Rightarrow> u8 list" where
  "sm_unsent s = (if mPendingBuf s = NULL then [] else the (pending_part s))"

definition sm_st :: "env \<Rightarrow> smart \<Rightarrow> bool" where
  "sm_st v s \<longleftrightarrow> sock_st v s \<and> sm_ok s"

lemma pending_block: "pending_part s \<noteq> None \<Longrightarrow> mem s (mPendingBuf s) \<noteq> None"
  by (cases "mem s (mPendingBuf s)") (simp_all add: pending_part_def blk_part_def)

lemma smart_more:
  "sst.more s = sst.more t \<Longrightarrow> sm_ok s = sm_ok t \<and> mPendingBuf s = mPendingBuf t \<and> mem s = mem t"
  for s t :: smart
  by (cases s, cases t) (simp add: sm_ok_def pending_part_def)

lemma sm_ok_simps [simp]:
  "sm_ok (s\<lparr>sk := e\<rparr>) = sm_ok s" "sm_ok (s\<lparr>lastSockErrorNo := n\<rparr>) = sm_ok s" "sm_ok (s\<lparr>mSSLWantEvent := x\<rparr>) = sm_ok s"
  "sm_ok (s\<lparr>mSSL := p\<rparr>) = sm_ok s" "sm_ok (s\<lparr>mSessionConencted := b\<rparr>) = sm_ok s"
  "sm_ok (s\<lparr>mSSL := p, mSSLCtx := q, mSessionConencted := b\<rparr>) = sm_ok s" "sm_ok (s\<lparr>mPendingBuf := NULL\<rparr>)"
  "sm_ok (s\<lparr>mSSLCtx := q\<rparr>) = sm_ok s"
  by (simp_all add: sm_ok_def pending_part_def)

lemma sock_live_simps [simp]:
  "sock_live v (s\<lparr>mSSLWantEvent := x\<rparr>) = sock_live v s" "sock_live v (s\<lparr>mSSL := p\<rparr>) = sock_live v s"
  "sock_live v (s\<lparr>mSessionConencted := b\<rparr>) = sock_live v s" "sock_live v (s\<lparr>lastSockErrorNo := n\<rparr>) = sock_live v s"
  "sock_live v (s\<lparr>mPendingBuf := p\<rparr>) = sock_live v s" "sock_live v (s\<lparr>mem := m\<rparr>) = sock_live v s"
  "sock_live v (s\<lparr>mPendingSize := i, mPendingWriteCnt := j, mem := m, mPendingBuf := p\<rparr>) = sock_live v s"
  "sock_live v (s\<lparr>mPendingWriteCnt := i\<rparr>) = sock_live v s" "sock_live v (s\<lparr>mPendingSize := i\<rparr>) = sock_live v s"
  "sock_live v (s\<lparr>writes := ws, wire := bs\<rparr>) = sock_live v s" for s :: smart
  by (simp_all add: sock_live_def sys_ok_def)

lemma sock_st_simps [simp]:
  "sock_st v (s\<lparr>mSSL := p, mSSLCtx := q, mSessionConencted := b\<rparr>) = sock_st v s" "sock_st v (s\<lparr>mPendingBuf := p\<rparr>) = sock_st v s"
  "sock_st v (s\<lparr>mem := m\<rparr>) = sock_st v s" "sock_st v (s\<lparr>mem := m, mPendingBuf := p\<rparr>) = sock_st v s" for s :: smart
  by (simp_all add: sock_st_def sys_ok_def)

lemma change_sock_live:
  assumes "sock_live v s"
  obtains e where "sk_changeEvent v flags s = Inr (s\<lparr>sk := e\<rparr>)" "sock_live v (s\<lparr>sk := e\<rparr>)" "interest e = flags" "mTask e = mTask (sk s)"
proof -
  obtain es ds p where st: "sys_ok v s es ds" "sk_live v p (sk s)" "p \<in> set es" using assms by (auto simp: sock_live_def)
  let ?e = "(sk s)\<lparr>interest := flags\<rparr>"
  have "sys_ok v (s\<lparr>sk := ?e\<rparr>) es ds" "sk_live v p (sk (s\<lparr>sk := ?e\<rparr>))" using st by (simp_all add: sk_live_def)
  then have "sock_live v (s\<lparr>sk := ?e\<rparr>)" using st(3) by (rule sock_liveI)
  with change_live [OF st] show thesis by (intro that [of ?e]) simp_all
qed

lemma live_task: "sock_live v s \<Longrightarrow> mTask (sk s) \<noteq> NULL"
  by (auto simp: sock_live_def sk_live_def ev_on_def sys_ok_def env_ok_def)

lemma task_error_live: "sock_live v s \<Longrightarrow> task_error n s = Inr (s\<lparr>lastSockErrorNo := n\<rparr>)"
  using live_task [of v s] by (simp add: task_error_def)

lemma smart_close_st:
  assumes "sm_st v s"
  shows "\<exists>s'. EdSmartSocket_close v s = Inr s' \<and> sm_st v s' \<and> mPendingBuf s' = NULL \<and> sk_gone (sk s')"
proof -
  define t where "t = (if mSSL s \<noteq> NULL then s\<lparr>mSSL := NULL, mSSLCtx := NULL, mSessionConencted := False\<rparr> else s)"
  have t: "sock_st v t" "sm_ok t" using assms by (simp_all add: t_def sm_st_def)
  obtain s1 where s1: "EdSocket_close v t = Inr s1" "sock_st v s1" "sk_gone (sk s1)" "sst.more s1 = sst.more t" using close_st [OF t(1)] by blast
  have ok: "sm_ok s1" using smart_more [OF s1(4)] t(2) by simp
  have run: "EdSmartSocket_close v s = (if mPendingBuf s1 \<noteq> NULL
      then bindr (smart_free (mPendingBuf s1) s1) (\<lambda>s. Inr (s\<lparr>mPendingBuf := NULL\<rparr>)) else Inr s1)"
    using s1(1) by (simp add: EdSmartSocket_close_def t_def Let_def)
  show ?thesis
  proof (cases "mPendingBuf s1 = NULL")
    case True
    then show ?thesis using run s1(2,3) ok by (simp add: sm_st_def)
  next
    case False
    then have "mem s1 (mPendingBuf s1) \<noteq> None" using ok pending_block [of s1] by (auto simp: sm_ok_def)
    then show ?thesis using run False s1(2,3) by (simp add: smart_free_def sm_st_def sm_ok_def)
  qed
qed

section \<open>Listeners\<close>

locale smart_listener =
  fixes lis :: smart_lis and v :: env
  assumes lis_law: "sm_st v s \<Longrightarrow> \<exists>s'. lis ev s = Inr s' \<and> sm_st v s'"
begin

lemma notify_st: "sm_st v s \<Longrightarrow> \<exists>s'. notify lis ev s = Inr s' \<and> sm_st v s'"
  using lis_law by (simp add: notify_def)

lemma live_st: "sock_live v s \<Longrightarrow> sm_ok s \<Longrightarrow> sm_st v s"
  by (simp add: sm_st_def sock_live_st)

lemma changeSSL_live:
  assumes "sock_live v s" "sm_ok s"
  shows "\<exists>s'. EdSmartSocket_changeSSLSockEvent v err s = Inr s' \<and> sock_live v s' \<and> sm_ok s'"
proof -
  have "\<exists>s'. sk_changeEvent v fl (s\<lparr>mSSLWantEvent := x\<rparr>) = Inr s' \<and> sock_live v s' \<and> sm_ok s'" for fl x
    by (rule change_sock_live [of v "s\<lparr>mSSLWantEvent := x\<rparr>" fl]) (use assms in auto)
  then show ?thesis using assms by (simp add: EdSmartSocket_changeSSLSockEvent_def)
qed

lemma errClose_st:
  assumes "sock_live v s" "sm_ok s"
  shows "\<exists>s'. EdSmartSocket_procSSLErrCloseNeedEnd lis v s = Inr s' \<and> sm_st v s'"
proof -
  have "sm_st v (s\<lparr>lastSockErrorNo := EINPROGRESS\<rparr>)" using live_st [OF assms] by (simp add: sm_st_def)
  then obtain s1 where s1: "notify lis NETEV_DISCONNECTED (s\<lparr>lastSockErrorNo := EINPROGRESS\<rparr>) = Inr s1" "sm_st v s1" using notify_st by blast
  then show ?thesis using smart_close_st [OF s1(2)] task_error_live [OF assms(1)]
    by (auto simp: EdSmartSocket_procSSLErrCloseNeedEnd_def)
qed

lemma procSSLConnect_st:
  assumes "sock_live v s" "sm_ok s"
  shows "\<exists>s'. EdSmartSocket_procSSLConnect lis v i s = Inr s' \<and> sm_st v s'"
proof -
  let ?c = "s\<lparr>mSessionConencted := True\<rparr>"
  have t: "task_error 0 ?c = Inr (?c\<lparr>lastSockErrorNo := 0\<rparr>)" using task_error_live [of v ?c] assms(1) by simp
  have "sock_live v (?c\<lparr>lastSockErrorNo := 0\<rparr>)" "sm_ok (?c\<lparr>lastSockErrorNo := 0\<rparr>)" using assms by simp_all
  then have 1: "\<exists>s'. notify lis NETEV_CONNECTED (?c\<lparr>lastSockErrorNo := 0\<rparr>) = Inr s' \<and> sm_st v s'" using notify_st live_st by blast
  obtain s2 where s2: "EdSmartSocket_changeSSLSockEvent v (sslerr i) s = Inr s2" "sock_live v s2" "sm_ok s2" using changeSSL_live [OF assms] by blast
  have 2: "\<exists>s'. task_error 0 s2 = Inr s' \<and> sm_st v s'" using task_error_live [OF s2(2)] s2 live_st by (simp add: sm_st_def)
  show ?thesis using 1 2 t s2(1) errClose_st [OF assms] errClose_st [OF s2(2,3)] by (auto simp: EdSmartSocket_procSSLConnect_def)
qed

lemma pending_done_st:
  assumes "sock_live v s" "mem s (mPendingBuf s) \<noteq> None"
  shows "\<exists>s' e. pending_done lis v s = Inr s' \<and> sm_st v s' \<and>
     pending_done lis v s = notify lis NETEV_WRITABLE (s\<lparr>sk := e, mPendingSize := 0, mPendingWriteCnt := 0, mem := (mem s)(mPendingBuf s := None), mPendingBuf := NULL\<rparr>) \<and>
     interest e = EVT_READ OR EVT_HANGUP"
proof (rule change_sock_live [OF assms(1), of "EVT_READ OR EVT_HANGUP"])
  fix e assume e: "sk_changeEvent v (EVT_READ OR EVT_HANGUP) s = Inr (s\<lparr>sk := e\<rparr>)" "sock_live v (s\<lparr>sk := e\<rparr>)" "interest e = EVT_READ OR EVT_HANGUP"
  let ?s = "s\<lparr>sk := e, mPendingSize := 0, mPendingWriteCnt := 0, mem := (mem s)(mPendingBuf s := None), mPendingBuf := NULL\<rparr>"
  have run: "pending_done lis v s = notify lis NETEV_WRITABLE ?s" using e(1) assms(2) by (auto simp: pending_done_def smart_free_def)
  have "sock_live v ?s" using e(2) by simp
  then have "sm_st v ?s" using live_st by (simp add: sm_ok_def)
  then show ?thesis using run notify_st e(3) by metis
qed

text \<open>Writing a part of the pending packet.\<close>

lemma write_pending:
  assumes live: "sock_live v s" and p: "mPendingBuf s \<noteq> NULL" "pending_part s = Some bs"
  obtains n s1 where "EdSocket_send bs s = (n, s1)" "n \<le> 0 \<Longrightarrow> sock_live v s1 \<and> sm_ok s1 \<and> wire s1 = wire s \<and> sm_unsent s1 = bs"
    "0 < n \<Longrightarrow> mPendingWriteCnt s1 + n \<noteq> mPendingSize s1 \<Longrightarrow>
       (let s2 = s1\<lparr>mPendingWriteCnt := mPendingWriteCnt s1 + n\<rparr> in sock_live v s2 \<and> sm_ok s2 \<and> wire s2 @ sm_unsent s2 = wire s @ bs)"
    "0 < n \<Longrightarrow> mPendingWriteCnt s1 + n = mPendingSize s1 \<Longrightarrow> wire s1 = wire s @ bs"
    "sock_live v (s1\<lparr>mPendingWriteCnt := mPendingWriteCnt s1 + n\<rparr>)" "mem s1 = mem s" "mPendingBuf s1 = mPendingBuf s"
proof -
  obtain blk where blk: "mem s (mPendingBuf s) = Some blk" "0 \<le> mPendingWriteCnt s" "mPendingWriteCnt s \<le> mPendingSize s"
    "mPendingSize s \<le> int (length blk)" "bs = drop (nat (mPendingWriteCnt s)) (take (nat (mPendingSize s)) blk)"
    using p(2) by (auto simp: pending_part_def blk_part_def split: option.splits if_splits)
  have len: "int (length bs) = mPendingSize s - mPendingWriteCnt s" using blk by simp
  obtain n s1 where n: "EdSocket_send bs s = (n, s1)" "n \<le> int (length bs)" "wire s1 = wire s @ take (nat n) bs"
    "s1 = s\<lparr>writes := tl (writes s), wire := wire s1\<rparr>" by (rule send_spec [of bs s])
  have f: "mem s1 = mem s" "mPendingBuf s1 = mPendingBuf s" "mPendingWriteCnt s1 = mPendingWriteCnt s" "mPendingSize s1 = mPendingSize s"
    by (subst n(4), simp)+
  have live1: "sock_live v s1" by (subst n(4)) (use live in simp)
  have same: "pending_part s1 = Some bs" using p(2) f by (simp add: pending_part_def)
  show thesis
  proof (rule that [OF n(1)])
    show "n \<le> 0 \<Longrightarrow> sock_live v s1 \<and> sm_ok s1 \<and> wire s1 = wire s \<and> sm_unsent s1 = bs"
      using live1 same n(3) p(1) f(2) by (simp add: sm_ok_def sm_unsent_def)
    assume pos: "0 < n"
    {
      assume ne: "mPendingWriteCnt s1 + n \<noteq> mPendingSize s1"
      let ?s2 = "s1\<lparr>mPendingWriteCnt := mPendingWriteCnt s1 + n\<rparr>"
      have "pending_part ?s2 = Some (drop (nat (mPendingWriteCnt s + n)) (take (nat (mPendingSize s)) blk))"
        using blk n(2) len pos f by (simp add: pending_part_def blk_part_def)
      moreover have "drop (nat (mPendingWriteCnt s + n)) (take (nat (mPendingSize s)) blk) = drop (nat n) bs"
        using blk(2,5) pos by (simp add: nat_add_distrib add.commute)
      ultimately have "pending_part ?s2 = Some (drop (nat n) bs)" by simp
      then show "let s2 = ?s2 in sock_live v s2 \<and> sm_ok s2 \<and> wire s2 @ sm_unsent s2 = wire s @ bs"
        using live1 n(3) p(1) f(2) by (simp add: Let_def sm_ok_def sm_unsent_def)
    next
      assume "mPendingWriteCnt s1 + n = mPendingSize s1"
      then have "nat n = length bs" using len f by simp
      then show "wire s1 = wire s @ bs" using n(3) by simp
    }
  qed (use live1 f in simp_all)
qed

lemma OnWrite_st:
  assumes live: "sock_live v s" and ok: "sm_ok s"
  shows "\<exists>s'. EdSmartSocket_procNormalOnWrite lis v s = Inr s' \<and> sm_st v s'"
    "\<exists>s'. EdSmartSocket_procSSLOnWrite lis v i s = Inr s' \<and> sm_st v s'"
proof -
  have idle: "\<exists>s'. bindr (sk_changeEvent v fl s) (notify lis NETEV_WRITABLE) = Inr s' \<and> sm_st v s'" for fl
    by (rule change_sock_live [OF live, of fl]) (use ok notify_st live_st in auto)
  have part: "\<exists>s'. (case EdSocket_send bs t of (wret, s) \<Rightarrow>
        if wret > 0 then let s = s\<lparr>mPendingWriteCnt := mPendingWriteCnt s + wret\<rparr> in
             if mPendingWriteCnt s = mPendingSize s then pending_done lis v s else Inr s
        else f s) = Inr s' \<and> sm_st v s'"
    if l: "sock_live v t" and p: "mPendingBuf t \<noteq> NULL" "pending_part t = Some bs"
      and f: "\<And>s. sock_live v s \<Longrightarrow> sm_ok s \<Longrightarrow> \<exists>s'. f s = Inr s' \<and> sm_st v s'" for t bs f
  proof (rule write_pending [OF l p])
    fix n s1 assume n: "EdSocket_send bs t = (n, s1)" "n \<le> 0 \<Longrightarrow> sock_live v s1 \<and> sm_ok s1 \<and> wire s1 = wire t \<and> sm_unsent s1 = bs"
      "0 < n \<Longrightarrow> mPendingWriteCnt s1 + n \<noteq> mPendingSize s1 \<Longrightarrow>
         (let s2 = s1\<lparr>mPendingWriteCnt := mPendingWriteCnt s1 + n\<rparr> in sock_live v s2 \<and> sm_ok s2 \<and> wire s2 @ sm_unsent s2 = wire t @ bs)"
      "sock_live v (s1\<lparr>mPendingWriteCnt := mPendingWriteCnt s1 + n\<rparr>)" "mem s1 = mem t" "mPendingBuf s1 = mPendingBuf t"
    have m: "mem t (mPendingBuf t) \<noteq> None" using p(2) pending_block [of t] by simp
    let ?s2 = "s1\<lparr>mPendingWriteCnt := mPendingWriteCnt s1 + n\<rparr>"
    have d: "\<exists>s'. pending_done lis v ?s2 = Inr s' \<and> sm_st v s'" using pending_done_st [OF n(4)] n(5,6) m by auto
    show ?thesis
    proof (cases "0 < n")
      case True
      show ?thesis
      proof (cases "mPendingWriteCnt s1 + n = mPendingSize s1")
        case eq: True
        then show ?thesis using True n(1) d by simp
      next
        case ne: False
        have "sm_st v ?s2" using n(3) [OF True ne] live_st by (simp add: Let_def)
        then show ?thesis using True ne n(1) by simp
      qed
    next
      case False
      then show ?thesis using n(1,2) f by simp
    qed
  qed
  have st: "sm_st v s" using live ok by (rule live_st)
  have p: "mPendingBuf s \<noteq> NULL \<Longrightarrow> \<exists>bs. pending_part s = Some bs" using ok by (auto simp: sm_ok_def)
  show "\<exists>s'. EdSmartSocket_procNormalOnWrite lis v s = Inr s' \<and> sm_st v s'"
  proof (cases "mPendingBuf s = NULL")
    case True
    then show ?thesis using idle by (simp add: EdSmartSocket_procNormalOnWrite_def)
  next
    case False
    then obtain bs where bs: "pending_part s = Some bs" using p by blast
    show ?thesis using part [OF live False bs, of Inr] live_st False bs
      by (simp add: EdSmartSocket_procNormalOnWrite_def)
  qed
  let ?t = "s\<lparr>mSSLWantEvent := 0\<rparr>"
  have chg: "\<exists>s'. EdSmartSocket_changeSSLSockEvent v (sslerr i) s = Inr s' \<and> sm_st v s'" if "sock_live v s" "sm_ok s" for s
    using changeSSL_live [OF that] live_st by blast
  have wr: "\<exists>s'. notify lis NETEV_WRITABLE s = Inr s' \<and> sm_st v s'" using notify_st [OF st] .
  show "\<exists>s'. EdSmartSocket_procSSLOnWrite lis v i s = Inr s' \<and> sm_st v s'"
  proof (cases "mSessionConencted s \<and> mPendingBuf s \<noteq> NULL")
    case True
    then obtain bs where bs: "pending_part s = Some bs" using p by blast
    then have "sock_live v ?t" "mPendingBuf ?t \<noteq> NULL" "pending_part ?t = Some bs" using live True by (simp_all add: pending_part_def)
    from part [OF this chg] True bs show ?thesis by (simp add: EdSmartSocket_procSSLOnWrite_def)
  next
    case False
    then show ?thesis using procSSLConnect_st [OF live ok, of i] idle wr by (auto simp: EdSmartSocket_procSSLOnWrite_def)
  qed
qed

lemma OnWrite_stream:
  assumes live: "sock_live v s" and ok: "sm_ok s" and p: "mPendingBuf s \<noteq> NULL"
  shows "(\<exists>s1. EdSmartSocket_procNormalOnWrite lis v s = Inr s1 \<and> mPendingBuf s1 = mPendingBuf s \<and> wire s1 @ sm_unsent s1 = wire s @ sm_unsent s) \<or>
     (\<exists>s1. EdSmartSocket_procNormalOnWrite lis v s = notify lis NETEV_WRITABLE s1 \<and> mPendingBuf s1 = NULL \<and> wire s1 = wire s @ sm_unsent s)"
proof -
  obtain bs where bs: "pending_part s = Some bs" using ok p by (auto simp: sm_ok_def)
  have u: "sm_unsent s = bs" using bs p by (simp add: sm_unsent_def)
  have m: "mem s (mPendingBuf s) \<noteq> None" using bs pending_block [of s] by simp
  show ?thesis
  proof (rule write_pending [OF live p bs])
    fix n s1 assume n: "EdSocket_send bs s = (n, s1)" "n \<le> 0 \<Longrightarrow> sock_live v s1 \<and> sm_ok s1 \<and> wire s1 = wire s \<and> sm_unsent s1 = bs"
      "0 < n \<Longrightarrow> mPendingWriteCnt s1 + n \<noteq> mPendingSize s1 \<Longrightarrow>
         (let s2 = s1\<lparr>mPendingWriteCnt := mPendingWriteCnt s1 + n\<rparr> in sock_live v s2 \<and> sm_ok s2 \<and> wire s2 @ sm_unsent s2 = wire s @ bs)"
      "0 < n \<Longrightarrow> mPendingWriteCnt s1 + n = mPendingSize s1 \<Longrightarrow> wire s1 = wire s @ bs"
      "sock_live v (s1\<lparr>mPendingWriteCnt := mPendingWriteCnt s1 + n\<rparr>)" "mem s1 = mem s" "mPendingBuf s1 = mPendingBuf s"
    let ?s2 = "s1\<lparr>mPendingWriteCnt := mPendingWriteCnt s1 + n\<rparr>"
    have run: "EdSmartSocket_procNormalOnWrite lis v s =
        (if 0 < n then if mPendingWriteCnt s1 + n = mPendingSize s1 then pending_done lis v ?s2 else Inr ?s2 else Inr s1)"
      using n(1) bs p by (simp add: EdSmartSocket_procNormalOnWrite_def)
    consider "n \<le> 0" | "0 < n" "mPendingWriteCnt s1 + n \<noteq> mPendingSize s1" | "0 < n" "mPendingWriteCnt s1 + n = mPendingSize s1" by linarith
    then show ?thesis
    proof cases
      case 1
      then show ?thesis using run n(2,7) u by simp
    next
      case 2
      then have "EdSmartSocket_procNormalOnWrite lis v s = Inr ?s2" using run by simp
      then show ?thesis using n(3) [OF 2] n(7) u by (auto simp: Let_def)
    next
      case 3
      then have r: "EdSmartSocket_procNormalOnWrite lis v s = pending_done lis v ?s2" using run by simp
      obtain e where "pending_done lis v ?s2 = notify lis NETEV_WRITABLE
          (?s2\<lparr>sk := e, mPendingSize := 0, mPendingWriteCnt := 0, mem := (mem ?s2)(mPendingBuf ?s2 := None), mPendingBuf := NULL\<rparr>)"
        using pending_done_st [OF n(5)] n(6,7) m by auto
      then show ?thesis using r n(4) [OF 3] u by auto
    qed
  qed
qed

end

text \<open>The raw socket of a smart socket keeps the contract of a socket client, in both modes, for every
  listener that keeps its own.\<close>

lemma raw_client:
  assumes "smart_listener lis v"
  shows "sock_client (RawSocket_vm lis v i) v sm_ok"
proof
  fix s s' :: smart and ev
  show "sst.more s' = sst.more s \<Longrightarrow> sm_ok s \<Longrightarrow> sm_ok s'" using smart_more by blast
  have disc: "\<exists>s'. EdSmartSocket_fireDisconnected lis s = Inr s' \<and> sock_st v s' \<and> sm_ok s'" if "sock_st v s" "sm_ok s"
    using smart_listener.notify_st [OF assms, of s NETEV_DISCONNECTED] that by (simp add: EdSmartSocket_fireDisconnected_def sm_st_def)
  then show "sock_st v s \<Longrightarrow> sm_ok s \<Longrightarrow> \<exists>s'. RawSocket_vm lis v i SOCK_EVENT_DISCONNECTED s = Inr s' \<and> sock_st v s' \<and> sm_ok s'"
    by (simp add: RawSocket_vm_def)
  assume l: "sock_live v s" "sm_ok s"
  then have st: "sm_st v s" by (simp add: sm_st_def sock_live_st)
  have ssl: "sock_live v (s\<lparr>mSSL := sslnew i\<rparr>)" "sm_ok (s\<lparr>mSSL := sslnew i\<rparr>)" using l by simp_all
  note n = smart_listener.notify_st [OF assms st] smart_listener.procSSLConnect_st [OF assms l, of i]
    smart_listener.procSSLConnect_st [OF assms ssl, of i] smart_listener.OnWrite_st [OF assms l]
  show "\<exists>s'. RawSocket_vm lis v i ev s = Inr s' \<and> sock_st v s' \<and> sm_ok s'"
  proof (cases ev)
    case SOCK_EVENT_CONNECTED
    then show ?thesis using n(1) [of NETEV_CONNECTED] n(3) st
      by (simp add: RawSocket_vm_def EdSmartSocket_fireConnected_def EdSmartSocket_startHandshake_def sm_st_def)
  next
    case SOCK_EVENT_DISCONNECTED
    then show ?thesis using disc [OF sock_live_st [OF l(1)] l(2)] by (simp add: RawSocket_vm_def)
  next
    case SOCK_EVENT_READ
    then show ?thesis using n(1) [of NETEV_READABLE] n(2)
      by (simp add: RawSocket_vm_def EdSmartSocket_fireRead_def EdSmartSocket_procSSLRead_def sm_st_def)
  next
    case SOCK_EVENT_WRITE
    then show ?thesis using n(4,5) by (simp add: RawSocket_vm_def EdSmartSocket_fireWrite_def sm_st_def)
  next
    case SOCK_EVENT_INCOMING_ACCEPT
    then show ?thesis using st by (simp add: RawSocket_vm_def sm_st_def)
  qed
qed

text \<open>A listener that closes the socket when the connection is gone.\<close>

definition closing_lis :: "env \<Rightarrow> smart_lis" where
  "closing_lis v ev s = (if ev = NETEV_DISCONNECTED then EdSmartSocket_close v s else Inr s)"

interpretation closing: smart_listener "closing_lis v" v for v
  by unfold_locales (use smart_close_st in \<open>auto simp: closing_lis_def\<close>)

interpretation raw: sock_client "RawSocket_vm (closing_lis v) v i" v sm_ok for v i
  by (rule raw_client) (rule closing.smart_listener_axioms)

section \<open>Sending\<close>

lemma sendPacket_copy:
  assumes live: "sock_live v s" and normal: "mMode s = SOCKET_NORMAL" and idle: "mPendingBuf s = NULL"
    and buf: "mem s buf = Some blk" "len \<le> length blk" and nb: "nb \<noteq> NULL"
  shows "\<exists>r s1. EdSmartSocket_sendPacket v i nb err buf len False s = Inr (r, s1) \<and> sock_live v s1 \<and> sm_ok s1 \<and>
     (r = SEND_OK \<and> mPendingBuf s1 = NULL \<and> wire s1 = wire s @ take len blk \<or>
      r = SEND_PENDING \<and> mPendingBuf s1 = nb \<and> wire s1 @ sm_unsent s1 = wire s @ take len blk \<or>
      r = SEND_FAIL \<and> mPendingBuf s1 = NULL \<and> wire s1 = wire s \<and> err \<noteq> EAGAIN)"
proof -
  define bs where "bs = take len blk"
  have lb: "length bs = len" using buf(2) by (simp add: bs_def)
  obtain n s0 where n: "EdSocket_send bs s = (n, s0)" "n \<le> int (length bs)" "wire s0 = wire s @ take (nat n) bs"
    "s0 = s\<lparr>writes := tl (writes s), wire := wire s0\<rparr>" by (rule send_spec [of bs s])
  have f: "mPendingBuf s0 = NULL" "mem s0 = mem s" by (subst n(4), simp add: idle)+
  have live0: "sock_live v s0" by (subst n(4)) (use live in simp)
  have pend: "\<exists>s1. smart_pend v nb buf bs k False s0 = Inr (SEND_PENDING, s1) \<and> sock_live v s1 \<and> sm_ok s1 \<and> mPendingBuf s1 = nb \<and>
      wire s1 @ sm_unsent s1 = wire s @ bs" if k: "0 \<le> k" "k \<le> int (length bs)" "wire s0 = wire s @ take (nat k) bs" for k
  proof -
    let ?t = "s0\<lparr>mPendingSize := int (length bs) - k, mPendingWriteCnt := 0, mPendingBuf := nb, mem := (mem s0)(nb \<mapsto> drop (nat k) bs)\<rparr>"
    have lt: "sock_live v ?t" using live0 by simp
    have pp: "pending_part ?t = Some (drop (nat k) bs)" using k(1,2) by (simp add: pending_part_def blk_part_def nat_diff_distrib)
    show ?thesis
    proof (rule change_sock_live [OF lt, of "EVT_READ OR EVT_WRITE OR EVT_HANGUP"])
      fix e assume e: "sk_changeEvent v (EVT_READ OR EVT_WRITE OR EVT_HANGUP) ?t = Inr (?t\<lparr>sk := e\<rparr>)" "sock_live v (?t\<lparr>sk := e\<rparr>)"
      have pe: "pending_part (?t\<lparr>sk := e\<rparr>) = Some (drop (nat k) bs)" using pp by (simp add: pending_part_def)
      have "smart_pend v nb buf bs k False s0 = Inr (SEND_PENDING, ?t\<lparr>sk := e\<rparr>)" using e(1) nb by (simp add: smart_pend_def)
      moreover have "wire (?t\<lparr>sk := e\<rparr>) @ sm_unsent (?t\<lparr>sk := e\<rparr>) = wire s @ bs" using pe nb k(3) by (simp add: sm_unsent_def)
      ultimately show ?thesis using e(2) pe by (intro exI [of _ "?t\<lparr>sk := e\<rparr>"]) (simp add: sm_ok_def)
    qed
  qed
  have run: "EdSmartSocket_sendPacket v i nb err buf len False s =
      (if n = int len then Inr (SEND_OK, s0) else if n > 0 then smart_pend v nb buf bs n False s0
       else if err = EAGAIN then smart_pend v nb buf bs 0 False s0 else Inr (SEND_FAIL, s0))"
    using normal idle buf n(1) by (simp add: EdSmartSocket_sendPacket_def bs_def)
  have ok0: "sm_ok s0" using f(1) by (simp add: sm_ok_def)
  show ?thesis
  proof (cases "n = int len \<or> n \<le> 0 \<and> err \<noteq> EAGAIN")
    case True
    then show ?thesis using run live0 ok0 f(1) n(3) lb by (auto simp: bs_def)
  next
    case False
    then have "\<exists>s1. EdSmartSocket_sendPacket v i nb err buf len False s = Inr (SEND_PENDING, s1) \<and> sock_live v s1 \<and> sm_ok s1 \<and> mPendingBuf s1 = nb \<and>
      wire s1 @ sm_unsent s1 = wire s @ bs" using run pend [of n] pend [of 0] n(2,3) by (cases "0 < n") auto
    then show ?thesis by (auto simp: bs_def)
  qed
qed

text \<open>A taken buffer that the kernel does not take at once: the write count is set to the whole size, so no
  byte of it counts as unsent.\<close>

lemma sendPacket_taken:
  assumes live: "sock_live v s" and normal: "mMode s = SOCKET_NORMAL" and idle: "mPendingBuf s = NULL"
    and buf: "mem s buf = Some blk" "length blk = len" "buf \<noteq> NULL" and full: "EdSocket_send (take len blk) s = (- 1, s0)" "0 < len"
  obtains s1 where "EdSmartSocket_sendPacket v i nb EAGAIN buf len True s = Inr (SEND_PENDING, s1)" "sock_live v s1"
    "mPendingBuf s1 = buf" "wire s1 = wire s" "mPendingWriteCnt s1 = mPendingSize s1" "mem s1 buf = Some blk" "mPendingSize s1 = int len"
proof -
  obtain n s' where n: "EdSocket_send (take len blk) s = (n, s')" "wire s' = wire s @ take (nat n) (take len blk)"
    "s' = s\<lparr>writes := tl (writes s), wire := wire s'\<rparr>" by (rule send_spec [of "take len blk" s])
  have s0: "s' = s0" "n = - 1" using n(1) full(1) by simp_all
  have w: "wire s0 = wire s" "s0 = s\<lparr>writes := tl (writes s), wire := wire s0\<rparr>" using n(2,3) s0 by simp_all
  have live0: "sock_live v s0" by (subst w(2)) (use live in simp)
  have mem0: "mem s0 = mem s" by (subst w(2)) simp
  let ?t = "s0\<lparr>mPendingSize := int len, mPendingBuf := buf, mPendingWriteCnt := int len\<rparr>"
  have lt: "sock_live v ?t" using live0 by simp
  show thesis
  proof (rule change_sock_live [OF lt, of "EVT_READ OR EVT_WRITE OR EVT_HANGUP"])
    fix e assume e: "sk_changeEvent v (EVT_READ OR EVT_WRITE OR EVT_HANGUP) ?t = Inr (?t\<lparr>sk := e\<rparr>)" "sock_live v (?t\<lparr>sk := e\<rparr>)"
    have "EdSmartSocket_sendPacket v i nb EAGAIN buf len True s = Inr (SEND_PENDING, ?t\<lparr>sk := e\<rparr>)"
      using normal idle buf full e(1) by (simp add: EdSmartSocket_sendPacket_def smart_pend_def)
    then show thesis using e(2) w(1) mem0 buf(1) by (intro that [of "?t\<lparr>sk := e\<rparr>"]) simp_all
  qed
qed

lemma nothing_unsent_stays:
  assumes "mPendingBuf s \<noteq> NULL" "mem s (mPendingBuf s) = Some blk" "mPendingWriteCnt s = mPendingSize s" "mPendingSize s = int (length blk)"
  shows "\<exists>s1. EdSmartSocket_procNormalOnWrite lis v s = Inr s1 \<and> mPendingBuf s1 = mPendingBuf s \<and> wire s1 = wire s \<and>
     mem s1 = mem s \<and> mPendingWriteCnt s1 = mPendingWriteCnt s \<and> mPendingSize s1 = mPendingSize s"
proof -
  have p: "pending_part s = Some []" using assms by (simp add: pending_part_def blk_part_def)
  obtain n s1 where n: "EdSocket_send [] s = (n, s1)" "n \<le> int (length ([] :: u8 list))" "wire s1 = wire s @ take (nat n) []"
    "s1 = s\<lparr>writes := tl (writes s), wire := wire s1\<rparr>" by (rule send_spec [of "[]" s])
  have f: "mPendingBuf s1 = mPendingBuf s" "mem s1 = mem s" "mPendingWriteCnt s1 = mPendingWriteCnt s" "mPendingSize s1 = mPendingSize s"
    by (subst n(4), simp)+
  have "EdSmartSocket_procNormalOnWrite lis v s = Inr s1"
    using assms(1) p n(1,2) by (simp add: EdSmartSocket_procNormalOnWrite_def)
  then show ?thesis using f n(3) by simp
qed

section \<open>Properties\<close>


definition smart0 :: "sst \<Rightarrow> int list \<Rightarrow> smart" where
  "smart0 t ws = sst.extend t \<lparr>writes = ws, wire = [], mMode = 0, mPendingBuf = NULL, mPendingWriteCnt = 0, mPendingSize = 0, mOnLis = True,
     mem = [500 \<mapsto> [1, 2, 3]], mSSL = NULL, mSSLCtx = NULL, mEdSSLCtx = NULL, mSessionConencted = False, mIsServer = False, mSSLWantEvent = 0\<rparr>"

lemma smart0_live:
  obtains t :: sst where "\<forall>ws. sock_live senv (smart0 t ws) \<and> sm_ok (smart0 t ws)"
proof -
  have "0 < (9 :: int)" by simp
  then obtain t :: sst where "sk_live senv (eaddr senv) (sk t)" "sys_ok senv t ([] @ [eaddr senv]) []"
    by (rule connect_ok [OF sock0_ok, where cret = 0])
  then have "sys_ok senv (smart0 t ws) [eaddr senv] []" "sk_live senv (eaddr senv) (sk (smart0 t ws))" "sm_ok (smart0 t ws)" for ws
    by (simp_all add: sys_ok_def smart0_def sst.extend_def sm_ok_def)
  then have "sock_live senv (smart0 t ws) \<and> sm_ok (smart0 t ws)" for ws
    using sock_liveI [of senv "smart0 t ws" "[eaddr senv]" "[]" "eaddr senv"] by simp
  then show thesis using that [of t] by blast
qed

lemma smart0_simps [simp]: "mMode (smart0 t ws) = SOCKET_NORMAL" "mPendingBuf (smart0 t ws) = NULL" "mem (smart0 t ws) = [500 \<mapsto> [1, 2, 3]]"
  "wire (smart0 t ws) = []" "writes (smart0 t ws) = ws"
  by (simp_all add: smart0_def sst.extend_def SOCKET_NORMAL_def)

definition ssl0 :: ssl_in where
  "ssl0 = \<lparr>sslret = 1, sslerr = 0, sslnew = 800, sslctx = 900\<rparr>"




text \<open>A buffer given away to a smart socket that cannot write at once is never sent: when the kernel
  takes nothing, the whole buffer counts as written, every later write event leaves everything as it
  is, and the socket stays unwritable.\<close>

theorem smart_taken_stuck:
  assumes live: "sock_live v s" and normal: "mMode s = SOCKET_NORMAL" and idle: "mPendingBuf s = NULL"
    and buf: "mem s buf = Some blk" "length blk = len" "buf \<noteq> NULL" and full: "EdSocket_send (take len blk) s = (- 1, s0)" "0 < len"
  shows "\<exists>s1. EdSmartSocket_sendPacket v i nb EAGAIN buf len True s = Inr (SEND_PENDING, s1) \<and> sm_unsent s1 = [] \<and>
     (\<exists>f. (\<forall>k. EdSmartSocket_procNormalOnWrite lis v (f k) = Inr (f (Suc k))) \<and> f 0 = s1 \<and>
          (\<forall>k. \<not> EdSmartSocket_isWritable (f k) \<and> wire (f k) = wire s))"
proof (rule sendPacket_taken [OF live normal idle buf full, of i nb])
  fix s1 assume s1: "EdSmartSocket_sendPacket v i nb EAGAIN buf len True s = Inr (SEND_PENDING, s1)" "mPendingBuf s1 = buf" "wire s1 = wire s"
    "mPendingWriteCnt s1 = mPendingSize s1" "mem s1 buf = Some blk" "mPendingSize s1 = int len"
  define Q where "Q t \<longleftrightarrow> mPendingBuf t = buf \<and> wire t = wire s \<and> mem t buf = Some blk \<and> mPendingWriteCnt t = mPendingSize t \<and> mPendingSize t = int (length blk)" for t :: smart
  have "\<exists>f. (\<forall>k. Q (f k)) \<and> f 0 = s1 \<and> (\<forall>k. EdSmartSocket_procNormalOnWrite lis v (f k) = Inr (f (Suc k)))"
  proof -
    have step: "\<exists>t1. Q t1 \<and> EdSmartSocket_procNormalOnWrite lis v t = Inr t1" if "Q t" for t
      using nothing_unsent_stays [of t blk lis v] that buf(3) by (auto simp: Q_def)
    have "Q s1" using s1 buf(2) by (simp add: Q_def)
    define g where "g t = projr (EdSmartSocket_procNormalOnWrite lis v t)" for t
    have g: "Q (g t) \<and> EdSmartSocket_procNormalOnWrite lis v t = Inr (g t)" if "Q t" for t using step [OF that] by (auto simp: g_def)
    have q: "Q ((g ^^ k) s1)" for k by (induction k) (use \<open>Q s1\<close> g in auto)
    then show ?thesis using g by (intro exI [of _ "\<lambda>k. (g ^^ k) s1"]) auto
  qed
  then obtain f where f: "\<forall>k. Q (f k)" "f 0 = s1" "\<forall>k. EdSmartSocket_procNormalOnWrite lis v (f k) = Inr (f (Suc k))" by blast
  have "sm_unsent s1 = []" using s1 buf(2,3) by (simp add: sm_unsent_def pending_part_def blk_part_def)
  moreover have "\<forall>k. \<not> EdSmartSocket_isWritable (f k) \<and> wire (f k) = wire s" using f(1) buf(3) by (simp add: Q_def EdSmartSocket_isWritable_def)
  ultimately show ?thesis using s1(1) f(2,3) by blast
qed

theorem smart_taken_stuck_witness:
  "\<exists>t s1. EdSmartSocket_sendPacket senv ssl0 600 EAGAIN 500 3 True (smart0 t [- 1]) = Inr (SEND_PENDING, s1) \<and> sm_unsent s1 = []"
proof -
  obtain t :: sst where t0: "\<forall>ws. sock_live senv (smart0 t ws) \<and> sm_ok (smart0 t ws)" by (rule smart0_live)
  then have t: "sock_live senv (smart0 t ws)" "sm_ok (smart0 t ws)" for ws by simp_all
  have h: "mMode (smart0 t [- 1]) = SOCKET_NORMAL" "mPendingBuf (smart0 t [- 1]) = NULL" "mem (smart0 t [- 1]) 500 = Some [1, 2, 3]"
    "length [1 :: u8, 2, 3] = 3" "(500 :: addr) \<noteq> NULL" "EdSocket_send (take 3 [1, 2, 3]) (smart0 t [- 1]) = (- 1, (smart0 t [- 1])\<lparr>writes := []\<rparr>)" "0 < (3 :: nat)"
    by (simp_all add: EdSocket_send_def)
  from smart_taken_stuck [OF t(1) h, of ssl0 600 "closing_lis senv"] show ?thesis by blast
qed

end
