(* ===== verification/EdTaskRun.thy ===== *)
theory EdTaskRun
  imports EdTaskSys EdEvtObjs
begin

text \<open>The whole task (EdTask.cpp): \<^verbatim>\<open>run\<close>, \<^verbatim>\<open>runMain\<close>, \<^verbatim>\<open>terminate\<close>, \<^verbatim>\<open>taskProc\<close> and \<^verbatim>\<open>threadMain\<close>, which put the
  event loop, the message queue, the timers and the reserved objects together. The message event
  of the loop dispatches the message queue; every other event goes to its event object.\<close>

section \<open>State\<close>

text \<open>\<open>objs\<close> are the live \<^verbatim>\<open>EdObject\<close>s with their flag \<^verbatim>\<open>mIsFree\<close>.\<close>

record task = taskq +
  mTimerMap :: timer_map
  mRunMode :: int
  mReserveFreeList :: "addr list"
  objs :: "addr \<rightharpoonup> bool"

text \<open>What the task calls and finds outside: the listeners of messages, the handlers of event objects, the
  handler of \<^verbatim>\<open>EDM_CLOSE\<close>, the destructors of reserved objects, the address of the message event, the
  results of \<^verbatim>\<open>epoll_create\<close> and \<^verbatim>\<open>epoll_ctl\<close>, and the order in which the map of timers is walked.\<close>

record run_env =
  rcall :: "target \<Rightarrow> addr \<Rightarrow> task \<Rightarrow> fault + task"
  rviews :: views
  ruser :: "addr \<Rightarrow> u32 \<Rightarrow> task \<Rightarrow> fault + task"
  rclose :: "task \<Rightarrow> fault + task"
  rdtor :: "addr \<Rightarrow> task \<Rightarrow> fault + task"
  rcur :: thread_env
  rmsgevt :: addr
  rself :: addr
  repfd :: int
  rctl :: int
  rorder :: "timer_map \<Rightarrow> u32 list"

section \<open>Reserved objects\<close>

definition EdTask_reserveFree :: "addr \<Rightarrow> 'a task_scheme \<Rightarrow> fault + 'a task_scheme" where
  "EdTask_reserveFree obj t =
     (case objs t obj of
        None \<Rightarrow> Inl Bad_access
      | Some isFree \<Rightarrow>
          if \<not> isFree then Inr (t\<lparr>objs := (objs t)(obj \<mapsto> True), mReserveFreeList := mReserveFreeList t @ [obj]\<rparr>)
          else Inr t)"

text \<open>The loop of \<^verbatim>\<open>freeReservedObjs\<close>; a destructor may reserve further objects.\<close>

fun EdTask_freeReservedObjs :: "(addr \<Rightarrow> 'a task_scheme \<Rightarrow> fault + 'a task_scheme) \<Rightarrow> nat \<Rightarrow> 'a task_scheme \<Rightarrow> fault + 'a task_scheme" where
  "EdTask_freeReservedObjs dtor 0 t = Inl Diverges"
| "EdTask_freeReservedObjs dtor (Suc n) t =
     (case mReserveFreeList t of
        [] \<Rightarrow> Inr t
      | obj # rest \<Rightarrow>
          if objs t obj = None then Inl Bad_access
          else bindr (dtor obj (t\<lparr>mReserveFreeList := rest\<rparr>)) (\<lambda>t.
               EdTask_freeReservedObjs dtor n (t\<lparr>objs := (objs t)(obj := None)\<rparr>)))"

definition EdTask_callMsgClose :: "run_env \<Rightarrow> nat \<Rightarrow> task \<Rightarrow> fault + task" where
  "EdTask_callMsgClose v fuel t = bindr (rclose v t) (EdTask_freeReservedObjs (rdtor v) fuel)"

section \<open>The task thread\<close>

text \<open>The callback of an event: for the message event \<^verbatim>\<open>msgevent_cb\<close>, whose \<^verbatim>\<open>read\<close> returns 8 bytes when there
  are signals to collect.\<close>

definition task_cb ::
  "(target \<Rightarrow> addr \<Rightarrow> 'a taskq_scheme \<Rightarrow> fault + 'a taskq_scheme) \<Rightarrow> views \<Rightarrow> (addr \<Rightarrow> u32 \<Rightarrow> 'a taskq_scheme \<Rightarrow> fault + 'a taskq_scheme) \<Rightarrow>
   evtcb \<Rightarrow> addr \<Rightarrow> u32 \<Rightarrow> 'a taskq_scheme \<Rightarrow> fault + 'a taskq_scheme" where
  "task_cb call vs user k p flag t =
     (case k of
        MsgCb \<Rightarrow> EdTask_msgevent_cb call vs t (if 0 < signals t then 8 else - 1)
      | EsCb \<Rightarrow> user p flag t)"

text \<open>After the loop: \<^verbatim>\<open>closeMsg\<close>, \<^verbatim>\<open>cleanupAllTimer\<close> and \<^verbatim>\<open>esClose\<close>.\<close>

definition kill_timers :: "run_env \<Rightarrow> task \<Rightarrow> fault + task" where
  "kill_timers v t =
     bindr (EdTask_cleanupAllTimer (mTimerMap t) t (rctl v) (rcur v) (rorder v (mTimerMap t))) (\<lambda>(m, t). Inr (t\<lparr>mTimerMap := m\<rparr>))"

definition task_end :: "run_env \<Rightarrow> nat \<Rightarrow> task \<Rightarrow> fault + task" where
  "task_end v fuel t = bindr (EdTask_closeMsg fuel t) (\<lambda>t. bindr (kill_timers v t) EdTask_esClose)"

text \<open>\<^verbatim>\<open>taskProc\<close> over the batches \<open>bs\<close> of the loop; \<open>None\<close> when the loop still waits.\<close>

definition EdTask_taskProc :: "run_env \<Rightarrow> nat \<Rightarrow> (addr \<times> u32) list list \<Rightarrow> task \<Rightarrow> (fault + task) option" where
  "EdTask_taskProc v fuel bs t =
     (case EdTask_esOpen t (mRunMode t) (repfd v) of
        Inl e \<Rightarrow> Some (Inl e)
      | Inr (_, t) \<Rightarrow>
          (case (if mRunMode t = 0
                 then EdTask_edEventLoop fuel (task_cb (rcall v) (rviews v) (ruser v)) bs (EdTask_callMsgClose v fuel) (rmsgevt v) (rctl v) (rctl v) (mMsgFd t) (rself v) t
                 else Some (Inr t)) of
             None \<Rightarrow> None
           | Some r \<Rightarrow> Some (bindr r (task_end v fuel))))"

text \<open>\<^verbatim>\<open>threadMain\<close>, the same with the timers killed before the closing handler.\<close>

definition thread_end :: "run_env \<Rightarrow> nat \<Rightarrow> addr \<Rightarrow> task \<Rightarrow> fault + task" where
  "thread_end v fuel p t =
     bindr (kill_timers v t) (\<lambda>t.
     bindr (EdTask_deregEdEvent t p (rctl v)) (\<lambda>t.
     bindr (EdTask_callMsgClose v fuel t) (\<lambda>t.
     bindr (EdTask_cleanUpEventResource fuel t) (\<lambda>t.
     if EdObjList_size (mEvtList t) > 0 then Inl Assert_failed else EdTask_esClose t))))"

definition EdTask_threadMain :: "run_env \<Rightarrow> nat \<Rightarrow> (addr \<times> u32) list list \<Rightarrow> task \<Rightarrow> (fault + task) option" where
  "EdTask_threadMain v fuel bs t =
     (case bindr (EdTask_esOpen t (mRunMode t) (repfd v)) (\<lambda>(_, t). EdTask_regEdEvent t (rmsgevt v) (rctl v) (mMsgFd t) MsgCb (rself v)) of
        Inl e \<Rightarrow> Some (Inl e)
      | Inr (p, t) \<Rightarrow>
          (case EdTask_esMain fuel (task_cb (rcall v) (rviews v) (ruser v)) bs t of
             None \<Rightarrow> None
           | Some r \<Rightarrow> Some (bindr r (thread_end v fuel p))))"

section \<open>Starting and ending a task\<close>

text \<open>\<^verbatim>\<open>run\<close>, \<open>fd\<close> the result of \<^verbatim>\<open>eventfd\<close> and \<open>thr\<close> that of \<^verbatim>\<open>pthread_create\<close>: the message \<^verbatim>\<open>EDM_INIT\<close> is sent by the
  thread \<open>sid\<close>. The result is the return value when the call ends, \<open>None\<close> when it goes on to wait.\<close>

definition task_setup :: "int \<Rightarrow> int \<Rightarrow> int \<Rightarrow> task \<Rightarrow> bool \<times> task" where
  "task_setup mode msgqnum fd t =
     (let t = EdTask_initMsg (t\<lparr>mMaxMsqQueSize := msgqnum\<rparr>) fd in
      if mMsgFd t \<le> 0 then (False, t) else (True, t\<lparr>mRunMode := mode\<rparr>))"

definition EdTask_run :: "int \<Rightarrow> u32 \<Rightarrow> u32 \<Rightarrow> int \<Rightarrow> int \<Rightarrow> int \<Rightarrow> addr \<Rightarrow> nat \<Rightarrow> task \<Rightarrow> fault + (int option \<times> task)" where
  "EdTask_run mode p1 p2 msgqnum fd thr a sid t =
     (let (ok, t) = task_setup mode msgqnum fd t in
      if \<not> ok then Inr (Some (- 1), t)
      else if thr \<noteq> 0 then Inr (Some thr, t)
      else EdTask_sendMsg t a sid EDM_INIT p1 p2)"

definition EdTask_runMain :: "run_env \<Rightarrow> nat \<Rightarrow> (addr \<times> u32) list list \<Rightarrow> int \<Rightarrow> u32 \<Rightarrow> u32 \<Rightarrow> int \<Rightarrow> int \<Rightarrow> addr \<Rightarrow> int \<Rightarrow> task \<Rightarrow> (fault + (int \<times> task)) option" where
  "EdTask_runMain v fuel bs mode p1 p2 msgqnum fd a wret t =
     (let (ok, t) = task_setup mode msgqnum fd t in
      if \<not> ok then Some (Inr (- 1, t))
      else case EdTask_postMsg t a wret EDM_INIT p1 p2 of
             Inl e \<Rightarrow> Some (Inl e)
           | Inr (_, t) \<Rightarrow> map_option (map_sum id (\<lambda>t. (0, t))) (EdTask_taskProc v fuel bs t))"

text \<open>\<^verbatim>\<open>terminate\<close> up to the join of the thread.\<close>

definition EdTask_terminate :: "bool \<Rightarrow> addr \<Rightarrow> int \<Rightarrow> task \<Rightarrow> fault + task" where
  "EdTask_terminate joinable a wret t =
     (if cmode t = 0 \<and> joinable then map_sum id snd (EdTask_postMsg t a wret EDM_EXIT 0 0) else Inr t)"

section \<open>Frames\<close>

text \<open>The message queue and the event system are apart: each invariant only reads its own part.\<close>

lemma tq_rep_more: "evsys.more t' = evsys.more t \<Longrightarrow> tq_rep t' es qs fl = tq_rep t es qs fl"
  for t t' :: "'a taskq_scheme"
  by (cases t, cases t') (simp add: tq_rep_def)

lemma taskq_more:
  "evsys.more t' = evsys.more t \<Longrightarrow> signals t' = signals t \<and> msgs t' = msgs t \<and> mMsgFd t' = mMsgFd t \<and> mMaxMsqQueSize t' = mMaxMsqQueSize t \<and>
     notified t' = notified t \<and> results t' = results t \<and> taskq.more t' = taskq.more t"
  for t t' :: "'a taskq_scheme"
  by (cases t, cases t') simp

lemma task_more: "taskq.more t' = taskq.more t \<Longrightarrow> mTimerMap t' = mTimerMap t \<and> mReserveFreeList t' = mReserveFreeList t \<and> objs t' = objs t \<and> mRunMode t' = mRunMode t"
  for t t' :: task
  by (cases t, cases t') simp

lemma ev_rep_truncate: "evsys.truncate t' = evsys.truncate t \<Longrightarrow> ev_rep t' es ds = ev_rep t es ds"
  for t t' :: "'a evsys_scheme"
  by (cases t, cases t') (simp add: ev_rep_def evsys.truncate_def)

lemma ev_rep_taskq [simp]:
  "ev_rep (t\<lparr>hdrs := h, mQuedMsgs := l\<rparr>) es ds = ev_rep t es ds" "ev_rep (t\<lparr>hdrs := h, mEmptyMsgs := l\<rparr>) es ds = ev_rep t es ds"
  "ev_rep (t\<lparr>notified := n\<rparr>) es ds = ev_rep t es ds" "ev_rep (t\<lparr>signals := k\<rparr>) es ds = ev_rep t es ds"
  "ev_rep (t\<lparr>results := r\<rparr>) es ds = ev_rep t es ds" "ev_rep (w\<lparr>ctx_exit := x\<rparr>) es ds = ev_rep w es ds"
  "ev_rep (w\<lparr>opened := x\<rparr>) es ds = ev_rep w es ds"
  by (simp_all add: ev_rep_def)

section \<open>Turns of the loop\<close>

text \<open>The turns of \<^verbatim>\<open>esMain\<close> as a relation: one batch of \<^verbatim>\<open>epoll_wait\<close> at a time, with events of registered
  objects only, and the clean-up after it.\<close>

definition registered :: "'a evsys_scheme \<Rightarrow> addr \<Rightarrow> bool" where
  "registered w p = (case evts w p of None \<Rightarrow> False | Some e \<Rightarrow> isReg e)"

inductive es_turns :: "'a callback \<Rightarrow> 'a evsys_scheme \<Rightarrow> (addr \<times> u32) list list \<Rightarrow> 'a evsys_scheme \<Rightarrow> bool" for cb where
  es_none: "es_turns cb w [] w"
| es_turn: "ctx_exit w = 0 \<Longrightarrow> list_all (registered w \<circ> fst) b \<Longrightarrow> es_batch cb b w = Inr w1 \<Longrightarrow>
    EdTask_cleanUpEventResource n w1 = Inr w2 \<Longrightarrow> es_turns cb w2 bs w' \<Longrightarrow> es_turns cb w (b # bs) w'"

inductive_cases es_turns_ConsE: "es_turns cb w (b # bs) w'"

lemma registered_iff: "ev_rep w es ds \<Longrightarrow> registered w p = (p \<in> set es)"
  using ev_rep_evt [of w es ds p] by (auto simp: registered_def ev_rep_def split: option.splits)

lemma cleanUp_mono: "EdTask_cleanUpEventResource n w = Inr w' \<Longrightarrow> n \<le> m \<Longrightarrow> EdTask_cleanUpEventResource m w = Inr w'"
proof (induction n arbitrary: w m)
  case (Suc n)
  then obtain k where "m = Suc k" "n \<le> k" by (cases m) auto
  then show ?case using Suc.prems(1)
    by (auto simp: Let_def bindr_def split: option.splits if_splits sum.splits dest: Suc.IH)
qed simp

text \<open>A finite run of turns that ends with the exit flag is what \<^verbatim>\<open>esMain\<close> computes, given enough fuel.\<close>

lemma esMain_turns:
  "es_turns cb w bs w' \<Longrightarrow> ctx_exit w' \<noteq> 0 \<Longrightarrow> \<exists>N. \<forall>fuel\<ge>N. EdTask_esMain fuel cb bs w = Some (Inr (w'\<lparr>opened := 0\<rparr>))"
proof (induction rule: es_turns.induct)
  case (es_turn w b w1 n w2 bs w')
  then obtain N where "\<forall>fuel\<ge>N. EdTask_esMain fuel cb bs w2 = Some (Inr (w'\<lparr>opened := 0\<rparr>))" by blast
  then have "\<forall>fuel\<ge>max n N. EdTask_esMain fuel cb (b # bs) w = Some (Inr (w'\<lparr>opened := 0\<rparr>))"
    using es_turn(1,3) cleanUp_mono [OF es_turn(4)] by simp
  then show ?case by blast
qed simp

context evt_callback
begin

lemma turn_possible:
  assumes r: "ev_rep w es ds" "J w" and b: "list_all (registered w \<circ> fst) b"
  obtains w1 w2 es' where "es_batch cb b w = Inr w1" "\<exists>n. EdTask_cleanUpEventResource n w1 = Inr w2" "ev_rep w2 es' []" "J w2"
    "ctx_exit w2 = ctx_exit w1"
proof -
  have "fst ` set b \<subseteq> set (es @ ds)" using b registered_iff [OF r(1)] by (auto simp: list_all_iff)
  from batch_safe [OF r this] obtain w1 es1 ds1 where w1: "es_batch cb b w = Inr w1" "ev_rep w1 es1 ds1" "J w1" by blast
  from cleanUp_ok [OF w1(2), of "Suc (length ds1)"] obtain w2 where
    w2: "EdTask_cleanUpEventResource (Suc (length ds1)) w1 = Inr w2" "ev_rep w2 es1 []" "ctx_exit w2 = ctx_exit w1" by auto
  have "J w2" by (rule J_rest [OF w1(3) cleanUp_cleaned [OF w2(1) w1(2) w2(2)]])
  with w1(1) w2 show thesis using that by blast
qed

lemma turns_keep: "es_turns cb w bs w' \<Longrightarrow> ev_rep w es ds \<Longrightarrow> J w \<Longrightarrow> \<exists>es' ds'. ev_rep w' es' ds' \<and> J w'"
proof (induction arbitrary: es ds rule: es_turns.induct)
  case (es_turn w b w1 n w2 bs w')
  obtain w1' w2' es' where t: "es_batch cb b w = Inr w1'" "\<exists>n. EdTask_cleanUpEventResource n w1' = Inr w2'" "ev_rep w2' es' []" "J w2'"
    by (rule turn_possible [OF es_turn.prems es_turn(2)])
  then obtain m where m: "EdTask_cleanUpEventResource m w1 = Inr w2'" using es_turn(3) by auto
  have "w2' = w2" using cleanUp_mono [OF m, of "max m n"] cleanUp_mono [OF es_turn(4), of "max m n"] by simp
  then show ?case using es_turn.IH t(3,4) by blast
qed blast

end

section \<open>Listeners of a task\<close>

text \<open>The exit flag is set, or the exit message is among the first \<open>n\<close> of the queue.\<close>

definition exits :: "'a taskq_scheme \<Rightarrow> nat \<Rightarrow> addr list \<Rightarrow> bool" where
  "exits t n qs \<longleftrightarrow> ctx_exit t \<noteq> 0 \<or> (\<exists>x\<in>set (take n qs). \<exists>m. msgs t x = Some m \<and> msgid m = EDM_EXIT)"

text \<open>A listener of a whole task also keeps the event system: it registers and deregisters events, it frees
  none, and it does not take back the exit flag; the handlers of event objects keep the message
  queue as well.\<close>

locale task_listener = msg_listener call for call :: "target \<Rightarrow> addr \<Rightarrow> 'a taskq_scheme \<Rightarrow> fault + 'a taskq_scheme" +
  fixes user :: "addr \<Rightarrow> u32 \<Rightarrow> 'a taskq_scheme \<Rightarrow> fault + 'a taskq_scheme"
  assumes call_ev: "tq_rep t ms qs [p] \<Longrightarrow> ev_rep t es ds \<Longrightarrow> call tg p t = Inr t' \<Longrightarrow>
      (\<exists>es' ds'. ev_rep t' es' ds' \<and> set (es @ ds) \<subseteq> set (es' @ ds')) \<and> (ctx_exit t \<noteq> 0 \<longrightarrow> ctx_exit t' \<noteq> 0)"
    and user_law: "tq_rep t ms qs [] \<Longrightarrow> ev_rep t es ds \<Longrightarrow> p \<in> set es \<Longrightarrow>
      \<exists>t' ms' qs' es' ds'. user p flag t = Inr t' \<and> tq_rep t' ms' qs' [] \<and> ev_rep t' es' ds' \<and> set (es @ ds) \<subseteq> set (es' @ ds')"
begin

lemma dispatch_one:
  assumes r: "tq_rep t ms (x # qs) []" "ev_rep t es ds"
  obtains t1 t2 t3 ms' more es' ds' where "pop_qued t = Inr (x, t1)" "x \<noteq> NULL" "dispatch_call call v t1 x = Inr t2" "dispatch_finish t2 x = Inr t3"
    "tq_rep t3 ms' (qs @ more) []" "ev_rep t3 es' ds'" "set (es @ ds) \<subseteq> set (es' @ ds')" "\<forall>y\<in>set qs. msgs t3 y = msgs t y"
    "exits t 1 [x] \<longrightarrow> ctx_exit t3 \<noteq> 0"
proof -
  obtain h l where h: "pop_qued t = Inr (x, t\<lparr>hdrs := h, mQuedMsgs := l\<rparr>)" "tq_rep (t\<lparr>hdrs := h, mQuedMsgs := l\<rparr>) ms qs (x # [])" "x \<noteq> NULL"
    using r(1) by (rule pop_qued_rep)
  define t1 where "t1 = t\<lparr>hdrs := h, mQuedMsgs := l\<rparr>"
  have q1: "tq_rep t1 ms qs [x]" "ev_rep t1 es ds" using h(2) r(2) by (simp_all add: t1_def)
  obtain m where m: "msgs t x = Some m" using dom_msgs [OF r(1), of x] by auto
  have m1: "msgs t1 x = Some m" "msgs t1 = msgs t" "ctx_exit t1 = ctx_exit t" using m by (simp_all add: t1_def)
  obtain t2 ms2 more where t2: "dispatch_call call v t1 x = Inr t2" "tq_rep t2 ms2 (qs @ more) [x]" "\<forall>y\<in>set (x # qs). msgs t2 y = msgs t1 y"
    using call_any [OF q1(1) m1(1), of v] by blast
  have e2: "(\<exists>es' ds'. ev_rep t2 es' ds' \<and> set (es @ ds) \<subseteq> set (es' @ ds')) \<and> (exits t 1 [x] \<longrightarrow> ctx_exit t2 \<noteq> 0)"
  proof (cases "msg_target v m")
    case Exit
    then have "t2 = t1\<lparr>ctx_exit := 1\<rparr>" using t2(1) m1(1) by (simp add: dispatch_call_def)
    then show ?thesis using q1(2) by auto
  next
    case Nobody
    then have "t2 = t1" "msgid m \<noteq> EDM_EXIT" using t2(1) m1(1) by (auto simp: dispatch_call_def msg_target_def)
    then show ?thesis using q1(2) m m1(3) by (auto simp: exits_def)
  next
    case Proc
    then have "call Proc x t1 = Inr t2" "msgid m \<noteq> EDM_EXIT" using t2(1) m1(1) by (auto simp: dispatch_call_def msg_target_def)
    then show ?thesis using call_ev [OF q1] m m1(3) by (auto simp: exits_def)
  next
    case (View k)
    then have "call (View k) x t1 = Inr t2" "msgid m \<noteq> EDM_EXIT" using t2(1) m1(1) by (auto simp: dispatch_call_def msg_target_def)
    then show ?thesis using call_ev [OF q1] m m1(3) by (auto simp: exits_def)
  qed
  then obtain es2 ds2 where r2: "ev_rep t2 es2 ds2" "set (es @ ds) \<subseteq> set (es2 @ ds2)" by blast
  have m2: "msgs t2 x = Some m" using t2(3) m1(1) by simp
  obtain h' l' n' where h': "dispatch_finish t2 x = Inr (t2\<lparr>notified := n', hdrs := h', mEmptyMsgs := l'\<rparr>)"
    "tq_rep (t2\<lparr>notified := n', hdrs := h', mEmptyMsgs := l'\<rparr>) (ms2 @ [x]) (qs @ more) []"
    using t2(2) m2 by (rule finish_rep)
  note h'(1)
  moreover have "ev_rep (t2\<lparr>notified := n', hdrs := h', mEmptyMsgs := l'\<rparr>) es2 ds2" using r2(1) by simp
  moreover have "msgs (t2\<lparr>notified := n', hdrs := h', mEmptyMsgs := l'\<rparr>) = msgs t2" "ctx_exit (t2\<lparr>notified := n', hdrs := h', mEmptyMsgs := l'\<rparr>) = ctx_exit t2"
    by simp_all
  ultimately show thesis using that [OF h(1) [folded t1_def] h(3) t2(1) _ h'(2), of es2 ds2] r2(2) e2 t2(3) m1(2) by simp
qed

text \<open>The dispatch loop never fails, for any count, and it sets the exit flag when it comes across the exit
  message.\<close>

lemma dispatch_task:
  "tq_rep t ms qs [] \<Longrightarrow> ev_rep t es ds \<Longrightarrow>
     \<exists>t' ms' qs' es' ds'. EdTask_dispatchMsgs call v t n = Inr t' \<and> tq_rep t' ms' qs' [] \<and> ev_rep t' es' ds' \<and>
       set (es @ ds) \<subseteq> set (es' @ ds') \<and> (exits t n qs \<longrightarrow> ctx_exit t' \<noteq> 0)"
proof (induction n arbitrary: t ms qs es ds)
  case 0
  then show ?case by (auto simp: exits_def)
next
  case (Suc n)
  show ?case
  proof (cases qs)
    case Nil
    then have "EdTask_dispatchMsgs call v t (Suc n) = Inr t" using pop_qued_none [of t ms "[]"] Suc.prems(1) by simp
    then show ?thesis using Suc.prems Nil by (auto simp: exits_def)
  next
    case (Cons x qs0)
    obtain t1 t2 t3 ms3 more es3 ds3 where d: "pop_qued t = Inr (x, t1)" "x \<noteq> NULL" "dispatch_call call v t1 x = Inr t2" "dispatch_finish t2 x = Inr t3"
      "tq_rep t3 ms3 (qs0 @ more) []" "ev_rep t3 es3 ds3" "set (es @ ds) \<subseteq> set (es3 @ ds3)" "\<forall>y\<in>set qs0. msgs t3 y = msgs t y"
      "exits t 1 [x] \<longrightarrow> ctx_exit t3 \<noteq> 0" using Suc.prems unfolding Cons by (rule dispatch_one)
    obtain t' ms' qs' es' ds' where t': "EdTask_dispatchMsgs call v t3 n = Inr t'" "tq_rep t' ms' qs' []" "ev_rep t' es' ds'"
      "set (es3 @ ds3) \<subseteq> set (es' @ ds')" "exits t3 n (qs0 @ more) \<longrightarrow> ctx_exit t' \<noteq> 0" using Suc.IH [OF d(5,6)] by blast
    have "EdTask_dispatchMsgs call v t (Suc n) = Inr t'" using d(1-4) t'(1) by simp
    moreover have "exits t (Suc n) qs \<longrightarrow> exits t3 n (qs0 @ more)"
    proof
      assume "exits t (Suc n) qs"
      then consider "exits t 1 [x]" | y m where "y \<in> set (take n qs0)" "msgs t y = Some m" "msgid m = EDM_EXIT"
        by (auto simp: exits_def Cons)
      then show "exits t3 n (qs0 @ more)"
      proof cases
        case 2
        then have "msgs t3 y = Some m" "y \<in> set (take n (qs0 @ more))" using d(8) by (auto dest: in_set_takeD)
        then show ?thesis using 2(3) by (auto simp: exits_def)
      qed (use d(9) in \<open>auto simp: exits_def\<close>)
    qed
    ultimately show ?thesis using t'(2-5) d(7) by (intro exI [of _ t'] exI [of _ ms'] exI [of _ qs'] exI [of _ es'] exI [of _ ds']) blast
  qed
qed

lemma msgevent_task:
  assumes "tq_rep t ms qs []" "ev_rep t es ds"
  shows "\<exists>t' ms' qs' es' ds'. EdTask_msgevent_cb call v t rcnt = Inr t' \<and> tq_rep t' ms' qs' [] \<and> ev_rep t' es' ds' \<and>
     set (es @ ds) \<subseteq> set (es' @ ds') \<and> (rcnt = 8 \<and> signals t < 2 ^ 31 \<and> exits t (signals t) qs \<longrightarrow> ctx_exit t' \<noteq> 0)"
proof (cases "rcnt = 8")
  case True
  let ?n = "nat (sint (of_nat (signals t) :: u32))"
  have r: "tq_rep (t\<lparr>signals := 0\<rparr>) ms qs []" "ev_rep (t\<lparr>signals := 0\<rparr>) es ds" using assms by simp_all
  have n: "signals t < 2 ^ 31 \<Longrightarrow> ?n = signals t" by (rule nat_sint_small)
  have "exits (t\<lparr>signals := 0\<rparr>) k qs = exits t k qs" for k by (simp add: exits_def)
  moreover obtain t' ms' qs' es' ds' where t': "EdTask_dispatchMsgs call v (t\<lparr>signals := 0\<rparr>) ?n = Inr t'" "tq_rep t' ms' qs' []" "ev_rep t' es' ds'"
    "set (es @ ds) \<subseteq> set (es' @ ds')" "exits (t\<lparr>signals := 0\<rparr>) ?n qs \<longrightarrow> ctx_exit t' \<noteq> 0" using dispatch_task [OF r, of v ?n] by blast
  ultimately have "signals t < 2 ^ 31 \<and> exits t (signals t) qs \<longrightarrow> ctx_exit t' \<noteq> 0" using n by auto
  moreover have "EdTask_msgevent_cb call v t rcnt = Inr t'" using t'(1) True by (simp add: EdTask_msgevent_cb_def)
  ultimately show ?thesis using t'(2-4) by blast
next
  case False
  then have "EdTask_msgevent_cb call v t rcnt = Inr t" by (simp add: EdTask_msgevent_cb_def)
  then show ?thesis using assms False by auto
qed

end

sublocale task_listener < loop: evt_callback "task_cb call vs user" "\<lambda>t. \<exists>ms qs. tq_rep t ms qs []" for vs
proof
  fix w :: "'a taskq_scheme" and es ds p k flag assume a: "ev_rep w es ds" "\<exists>ms qs. tq_rep w ms qs []" "p \<in> set es"
  then obtain ms qs where q: "tq_rep w ms qs []" by blast
  show "\<exists>w' es' ds'. task_cb call vs user k p flag w = Inr w' \<and> ev_rep w' es' ds' \<and> set (es @ ds) \<subseteq> set (es' @ ds') \<and> (\<exists>ms qs. tq_rep w' ms qs [])"
  proof (cases k)
    case MsgCb
    then have "task_cb call vs user k p flag w = EdTask_msgevent_cb call vs w (if 0 < signals w then 8 else - 1)" by (simp add: task_cb_def)
    then show ?thesis using msgevent_task [OF q a(1), of vs "if 0 < signals w then 8 else - 1"] by metis
  next
    case EsCb
    then have "task_cb call vs user k p flag w = user p flag w" by (simp add: task_cb_def)
    then show ?thesis using user_law [OF q a(1,3), of flag] by metis
  qed
next
  fix w w' :: "'a taskq_scheme" assume "\<exists>ms qs. tq_rep w ms qs []" "cleaned w w'"
  then show "\<exists>ms qs. tq_rep w' ms qs []" using tq_rep_more [of w' w] unfolding cleaned_def by blast
qed

text \<open>Deregistering and cleaning up leave the rest of the task alone.\<close>

lemma post_frame:
  "EdTask_postEdMsg t a wret vh mid pl = Inr (r, t') \<Longrightarrow> evsys.truncate t' = evsys.truncate t \<and> taskq.more t' = taskq.more t"
  by (auto simp: EdTask_postEdMsg_def EdTask_allocMsgObj_def pop_empty_def push_qued_def upd_msg_def raise_signal_def of_opt_def bindr_def
      evsys.truncate_def split: option.splits if_splits sum.splits)

lemma reg_more:
  "EdTask_regEdEvent w a c fd cb u = Inr (p, w') \<Longrightarrow> evsys.more w' = evsys.more w \<and> timer_alloc_cnt w' = timer_alloc_cnt w"
  by (auto simp: EdTask_regEdEvent_def EdTask_allocEvent_def EdTask_freeEvent_def bindr_def upd_evt_def Let_def split: option.splits if_splits sum.splits)

lemma dereg_more:
  "EdTask_deregEdEvent w p c = Inr w' \<Longrightarrow> evsys.more w' = evsys.more w \<and> timer_alloc_cnt w' = timer_alloc_cnt w"
  by (auto simp: EdTask_deregEdEvent_def bindr_def upd_evt_def split: option.splits if_splits sum.splits)

lemma cleanUp_timers: "EdTask_cleanUpEventResource n w = Inr w' \<Longrightarrow> timer_alloc_cnt w' = timer_alloc_cnt w"
proof (induction n arbitrary: w)
  case (Suc n)
  then show ?case
    by (auto simp: Let_def upd_evt_def EdTask_freeEvent_def bindr_def split: option.splits if_splits sum.splits dest!: Suc.IH)
qed simp

text \<open>A listener that answers, with event objects that close themselves in their handler.\<close>

definition close_self :: "addr \<Rightarrow> u32 \<Rightarrow> 'a taskq_scheme \<Rightarrow> fault + 'a taskq_scheme" where
  "close_self p flag t = EdTask_deregEdEvent t p 0"

interpretation replying: task_listener "reply_with code" close_self for code
proof
  fix t t' :: "'b taskq_scheme" and ms qs p es ds tg
  assume a: "tq_rep t ms qs [p]" "ev_rep t es ds" "reply_with code tg p t = Inr t'"
  then obtain r where "t' = t\<lparr>results := r\<rparr>"
    by (auto simp: reply_with_def EdTask_setSendMsgResult_def split: option.splits if_splits intro: that [of "results t"])
  then show "(\<exists>es' ds'. ev_rep t' es' ds' \<and> set (es @ ds) \<subseteq> set (es' @ ds')) \<and> (ctx_exit t \<noteq> 0 \<longrightarrow> ctx_exit t' \<noteq> 0)"
    using a(2) by (intro conjI exI [of _ es] exI [of _ ds]) simp_all
next
  fix t :: "'b taskq_scheme" and ms qs es ds p flag
  assume a: "tq_rep t ms qs []" "ev_rep t es ds" "p \<in> set es"
  obtain t' where t': "EdTask_deregEdEvent t p 0 = Inr t'" "ev_rep t' (remove1 p es) (ds @ [p])" using a(2,3) by (rule deregEdEvent_ok)
  have "tq_rep t' ms qs []" using a(1) tq_rep_more [of t' t] dereg_more [OF t'(1)] by simp
  moreover have "set (es @ ds) \<subseteq> set (remove1 p es @ ds @ [p])" by auto
  ultimately show "\<exists>t' ms' qs' es' ds'. close_self p flag t = Inr t' \<and> tq_rep t' ms' qs' [] \<and> ev_rep t' es' ds' \<and> set (es @ ds) \<subseteq> set (es' @ ds')"
    using t' unfolding close_self_def by blast
qed

section \<open>The end of a task\<close>

text \<open>One turn with a read event of one object.\<close>

lemma es_event_read:
  assumes "evts w p = Some e" "isReg e" "evfd e \<noteq> 0" "p \<noteq> NULL" "cb (ecb e) p EVT_READ w = Inr w1" "evts w1 p \<noteq> None"
  shows "es_event cb (p, EPOLLIN) w = Inr w1"
  using assms by (auto simp: es_event_def es_call_def EPOLLIN_def EPOLLRDHUP_def EPOLLHUP_def EPOLLERR_def EPOLLOUT_def Let_def)

context task_listener
begin

lemma loop_callback: "evt_callback (task_cb call vs user) (\<lambda>t. \<exists>ms qs. tq_rep t ms qs [])"
  by (rule loop.evt_callback_axioms)

lemma exit_turn:
  assumes r: "tq_rep t ms qs []" "ev_rep t es ds" and p: "evts t p = Some e" "isReg e" "ecb e = MsgCb" and on: "ctx_exit t = 0"
    and sg: "0 < signals t" "signals t < 2 ^ 31" "exits t (signals t) qs"
  shows "\<exists>t'. es_turns (task_cb call vs user) t [[(p, EPOLLIN)]] t' \<and> ctx_exit t' \<noteq> 0"
proof -
  have pes: "p \<in> set es" using registered_iff [OF r(2), of p] p by (simp add: registered_def)
  obtain t1 ms1 qs1 es1 ds1 where t1: "EdTask_msgevent_cb call vs t 8 = Inr t1" "tq_rep t1 ms1 qs1 []" "ev_rep t1 es1 ds1"
    "set (es @ ds) \<subseteq> set (es1 @ ds1)" "ctx_exit t1 \<noteq> 0" using msgevent_task [OF r, of vs 8] sg by blast
  have e: "evfd e \<noteq> 0" "p \<noteq> NULL" using ev_rep_evt [OF r(2), of p] pes p ol_rep_not_null r(2) by (auto simp: ev_rep_def)
  have "p \<in> set (es1 @ ds1)" using t1(4) pes by auto
  then have p1: "evts t1 p \<noteq> None" using ev_rep_evt [OF t1(3)] by blast
  have "task_cb call vs user (ecb e) p EVT_READ t = Inr t1" using t1(1) sg(1) p(3) by (simp add: task_cb_def)
  from es_event_read [where cb = "task_cb call vs user", OF p(1,2) e this p1]
  have b: "es_batch (task_cb call vs user) [(p, EPOLLIN)] t = Inr t1" by simp
  from cleanUp_ok [OF t1(3), of "Suc (length ds1)"] obtain t2 where
    t2: "EdTask_cleanUpEventResource (Suc (length ds1)) t1 = Inr t2" "ctx_exit t2 = ctx_exit t1" by auto
  have "list_all (registered t \<circ> fst) [(p, EPOLLIN)]" using p by (simp add: registered_def)
  from es_turn [OF on this b t2(1) es_none] t2(2) t1(5) show ?thesis by auto
qed

end

lemma cleanup_no_timers: "EdTask_cleanupAllTimer Map.empty w c cur ids = Inr (Map.empty, w)"
  by (induction ids) (simp_all add: EdTask_killTimer_def)

text \<open>The end of \<^verbatim>\<open>edEventLoop\<close>: the message event goes, and what is still registered then decides.\<close>

lemma edEventLoop_end:
  assumes reg: "EdTask_regEdEvent t0 a 0 msgfd MsgCb self = Inr (a, t1)" and run: "es_turns cb t1 bs t2" "ctx_exit t2 \<noteq> 0"
    and close: "\<forall>n\<ge>N0. cl n (t2\<lparr>opened := 0\<rparr>) = Inr t3" and r: "ev_rep t3 es ds" "a \<in> set es" and sz: "length es < 2 ^ 31"
  obtains N t5 where "\<forall>n\<ge>N. EdTask_edEventLoop n cb bs (cl n) a 0 0 msgfd self t0 = Some (if es = [a] then Inr t5 else Inl Assert_failed)"
    "ev_rep t5 (remove1 a es) []" "evsys.more t5 = evsys.more t3" "timer_alloc_cnt t5 = timer_alloc_cnt t3"
proof -
  obtain N1 where m: "\<forall>n\<ge>N1. EdTask_esMain n cb bs t1 = Some (Inr (t2\<lparr>opened := 0\<rparr>))" using esMain_turns [OF run] by blast
  obtain t4 where t4: "EdTask_deregEdEvent t3 a 0 = Inr t4" "ev_rep t4 (remove1 a es) (ds @ [a])" using r by (rule deregEdEvent_ok)
  from cleanUp_ok [OF t4(2), of "Suc (length (ds @ [a]))"] obtain t5 where
    t5: "EdTask_cleanUpEventResource (Suc (length (ds @ [a]))) t4 = Inr t5" "ev_rep t5 (remove1 a es) []" by blast
  have "length (remove1 a es) \<le> length es" by (simp add: length_remove1)
  then have "length (remove1 a es) < 2 ^ 31" using sz by (rule le_less_trans)
  then have "EdObjList_size (mEvtList t5) = int (length (remove1 a es))" using t5(2) ol_rep_size by (auto simp: ev_rep_def)
  moreover have "remove1 a es = [] \<longleftrightarrow> es = [a]" using r(2) by (cases es) auto
  ultimately have s: "EdObjList_size (mEvtList t5) > 0 \<longleftrightarrow> es \<noteq> [a]" by simp
  define N where "N = max N0 (max N1 (Suc (length (ds @ [a]))))"
  have "\<forall>n\<ge>N. EdTask_edEventLoop n cb bs (cl n) a 0 0 msgfd self t0 = Some (if es = [a] then Inr t5 else Inl Assert_failed)"
    using reg m close t4(1) cleanUp_mono [OF t5(1)] s by (simp add: EdTask_edEventLoop_def N_def)
  then show thesis using that t5(2) dereg_more [OF t4(1)] cleanUp_more [OF t5(1)] cleanUp_timers [OF t5(1)] by simp
qed

section \<open>Reserved objects are deleted once\<close>

text \<open>The objects marked as free are those on the list and those being deleted, \<open>xs\<close>.\<close>

definition rsv_rep :: "'a task_scheme \<Rightarrow> addr list \<Rightarrow> bool" where
  "rsv_rep t xs \<longleftrightarrow> distinct (mReserveFreeList t @ xs) \<and> set (mReserveFreeList t @ xs) = {x. objs t x = Some True}"

text \<open>What the loop relies on of a destructor: it returns, it may reserve objects, it creates none and takes no
  reservation back.\<close>

locale obj_dtor =
  fixes dtor :: "addr \<Rightarrow> 'a task_scheme \<Rightarrow> fault + 'a task_scheme"
  assumes dtor_law: "rsv_rep t [x] \<Longrightarrow> \<exists>t'. dtor x t = Inr t' \<and> rsv_rep t' [x] \<and> dom (objs t') \<subseteq> dom (objs t) \<and>
    (\<forall>y. objs t y = Some True \<longrightarrow> objs t' y = Some True)"
begin

lemma free_all:
  "rsv_rep t [] \<Longrightarrow> finite (dom (objs t)) \<Longrightarrow> card (dom (objs t)) < n \<Longrightarrow>
     \<exists>t'. EdTask_freeReservedObjs dtor n t = Inr t' \<and> mReserveFreeList t' = [] \<and> dom (objs t') \<subseteq> dom (objs t) \<and>
       (\<forall>y. objs t y = Some True \<longrightarrow> objs t' y = None) \<and> (\<forall>y. objs t' y \<noteq> Some True)"
proof (induction n arbitrary: t)
  case (Suc n)
  show ?case
  proof (cases "mReserveFreeList t")
    case Nil
    then have "{x. objs t x = Some True} = {}" using Suc.prems(1) by (simp add: rsv_rep_def)
    then show ?thesis using Nil by auto
  next
    case (Cons x rest)
    have x: "objs t x = Some True" "rsv_rep (t\<lparr>mReserveFreeList := rest\<rparr>) [x]" using Suc.prems(1) Cons by (auto simp: rsv_rep_def)
    obtain t1 where t1: "dtor x (t\<lparr>mReserveFreeList := rest\<rparr>) = Inr t1" "rsv_rep t1 [x]" "dom (objs t1) \<subseteq> dom (objs t)"
      "\<forall>y. objs t y = Some True \<longrightarrow> objs t1 y = Some True" using dtor_law [OF x(2)] by auto
    let ?t = "t1\<lparr>objs := (objs t1)(x := None)\<rparr>"
    have r: "rsv_rep ?t []" using t1(2) by (auto simp: rsv_rep_def)
    have d: "dom (objs ?t) = dom (objs t1) - {x}" "x \<in> dom (objs t)" "finite (dom (objs ?t))" "dom (objs ?t) \<subset> dom (objs t)"
      using t1(3) x(1) finite_subset [OF t1(3) Suc.prems(2)] by auto
    have "card (dom (objs ?t)) < n" using psubset_card_mono [OF Suc.prems(2) d(4)] Suc.prems(3) by simp
    from Suc.IH [OF r d(3) this] obtain t' where t': "EdTask_freeReservedObjs dtor n ?t = Inr t'" "mReserveFreeList t' = []"
      "dom (objs t') \<subseteq> dom (objs ?t)" "\<forall>y. objs ?t y = Some True \<longrightarrow> objs t' y = None" "\<forall>y. objs t' y \<noteq> Some True" by blast
    have "EdTask_freeReservedObjs dtor (Suc n) t = Inr t'" using Cons x(1) t1(1) t'(1) by simp
    moreover have "objs t' y = None" if y: "objs t y = Some True" for y
    proof (cases "y = x")
      case True
      then have "y \<notin> dom (objs t')" using t'(3) by auto
      then show ?thesis by auto
    next
      case False
      then show ?thesis using t1(4) t'(4) y by simp
    qed
    moreover have "dom (objs t') \<subseteq> dom (objs t)" using t'(3) d(4) by blast
    ultimately show ?thesis using t'(2,5) by blast
  qed
qed simp

end

lemma reserveFree_keeps:
  assumes "rsv_rep t xs" "objs t c \<noteq> None"
  obtains t' where "EdTask_reserveFree c t = Inr t'" "rsv_rep t' xs" "objs t' = (objs t)(c \<mapsto> True)"
proof (cases "objs t c = Some True")
  case True
  then have "EdTask_reserveFree c t = Inr t" "(objs t)(c \<mapsto> True) = objs t" by (simp_all add: EdTask_reserveFree_def fun_upd_idem)
  then show thesis using assms(1) by (intro that [of t]) simp_all
next
  case False
  then have o: "objs t c = Some False" using assms(2) by auto
  let ?t = "t\<lparr>objs := (objs t)(c \<mapsto> True), mReserveFreeList := mReserveFreeList t @ [c]\<rparr>"
  have "EdTask_reserveFree c t = Inr ?t" using o by (simp add: EdTask_reserveFree_def)
  moreover have "{x. objs ?t x = Some True} = insert c {x. objs t x = Some True}" "c \<notin> {x. objs t x = Some True}" using o by auto
  then have "rsv_rep ?t xs" using assms(1) unfolding rsv_rep_def by auto
  ultimately show thesis by (intro that [of ?t]) simp_all
qed

text \<open>The trivial destructor, and one that reserves a child object, as the destructor of an object that owns
  sockets does.\<close>

definition reserve_child :: "(addr \<rightharpoonup> addr) \<Rightarrow> addr \<Rightarrow> 'a task_scheme \<Rightarrow> fault + 'a task_scheme" where
  "reserve_child child x t = (case child x of None \<Rightarrow> Inr t | Some c \<Rightarrow> if objs t c = None then Inr t else EdTask_reserveFree c t)"

interpretation owner: obj_dtor "reserve_child child" for child
proof
  fix t x assume r: "rsv_rep t [x]"
  show "\<exists>t'. reserve_child child x t = Inr t' \<and> rsv_rep t' [x] \<and> dom (objs t') \<subseteq> dom (objs t) \<and> (\<forall>y. objs t y = Some True \<longrightarrow> objs t' y = Some True)"
  proof (cases "\<exists>c. child x = Some c \<and> objs t c \<noteq> None")
    case True
    then obtain c where c: "child x = Some c" "objs t c \<noteq> None" by blast
    obtain t' where t': "EdTask_reserveFree c t = Inr t'" "rsv_rep t' [x]" "objs t' = (objs t)(c \<mapsto> True)" using r c(2) by (rule reserveFree_keeps)
    have "reserve_child child x t = Inr t'" using c t'(1) by (auto simp: reserve_child_def)
    then show ?thesis using t'(2,3) c(2) by (intro exI [of _ t']) auto
  next
    case False
    then have "reserve_child child x t = Inr t" by (auto simp: reserve_child_def split: option.splits)
    then show ?thesis using r by auto
  qed
qed

section \<open>Properties\<close>

text \<open>C7. A task never gets stuck in its loop: whatever turns it has run, with whatever listeners that keep the
  task in order, every further batch of events of registered objects is handled without a fault, the
  message event included, and the lists of events and messages stay intact. The turn in which the
  exit message is among the announced ones sets the exit flag and so is the last.\<close>

theorem task_turns:
  assumes l: "task_listener call user" and r: "tq_rep t ms qs []" "ev_rep t es ds" and run: "es_turns (task_cb call vs user) t bs t'"
  shows "\<exists>es' ds' ms' qs'. ev_rep t' es' ds' \<and> tq_rep t' ms' qs' [] \<and>
     (\<forall>b. ctx_exit t' = 0 \<longrightarrow> list_all (registered t' \<circ> fst) b \<longrightarrow> (\<exists>t2. es_turns (task_cb call vs user) t' [b] t2)) \<and>
     (\<forall>p e ms2 qs2. tq_rep t' ms2 qs2 [] \<longrightarrow> ctx_exit t' = 0 \<longrightarrow> evts t' p = Some e \<longrightarrow> isReg e \<longrightarrow> ecb e = MsgCb \<longrightarrow>
        0 < signals t' \<longrightarrow> signals t' < 2 ^ 31 \<longrightarrow> exits t' (signals t') qs2 \<longrightarrow>
        (\<exists>t2. es_turns (task_cb call vs user) t' [[(p, EPOLLIN)]] t2 \<and> ctx_exit t2 \<noteq> 0))"
proof -
  note c = task_listener.loop_callback [OF l, of vs]
  obtain es' ds' ms' qs' where r': "ev_rep t' es' ds'" "tq_rep t' ms' qs' []"
    using evt_callback.turns_keep [OF c run r(2)] r(1) by blast
  have "\<exists>t2. es_turns (task_cb call vs user) t' [b] t2" if x: "ctx_exit t' = 0" and b: "list_all (registered t' \<circ> fst) b" for b
  proof -
    have J: "\<exists>ms qs. tq_rep t' ms qs []" using r'(2) by blast
    show ?thesis by (rule evt_callback.turn_possible [OF c r'(1) J b]) (use es_turn [OF x b _ _ es_none] in blast)
  qed
  moreover note task_listener.exit_turn [OF l _ r'(1), of _ _ _ _ vs]
  ultimately show ?thesis using r' by blast
qed

text \<open>A task with one message, the exit message, and its message event registered.\<close>

definition idle_task :: "taskq \<Rightarrow> task" where
  "idle_task q = taskq.extend q \<lparr>mTimerMap = Map.empty, mRunMode = 0, mReserveFreeList = [], objs = Map.empty\<rparr>"

definition env0 :: run_env where
  "env0 = \<lparr>rcall = reply_with 0, rviews = \<lparr>gViewMap = Map.empty, seed_handle = 0\<rparr>, ruser = close_self, rclose = Inr, rdtor = \<lambda>_. Inr,
     rcur = task_env, rmsgevt = 2000, rself = 5000, repfd = 3, rctl = 0, rorder = \<lambda>_. []\<rparr>"

lemma exit_posted:
  obtains t x m where "EdTask_terminate True 1000 8 (idle_task (EdTask_start 100 200 300 400 1 5)) = Inr t" "tq_rep t [] [x] []"
    "msgs t x = Some m" "msgid m = EDM_EXIT" "signals t = 1" "ev_rep t [] []" "mMsgFd t = 5" "mMaxMsqQueSize t = 1"
    "mRunMode t = 0" "mTimerMap t = Map.empty" "mReserveFreeList t = []" "cmode t = 0" "ctx_exit t = 0"
proof -
  let ?t = "idle_task (EdTask_start 100 200 300 400 1 5)"
  have r: "tq_rep ?t [] [] []" "tq_bound ?t (length ([] :: addr list))" "hdrs ?t 1000 = None" "(1000 :: addr) \<noteq> NULL" "can_alloc ?t [] []" "0 \<le> mMsgFd ?t"
    by (simp_all add: idle_task_def start_defs taskq.extend_def tq_rep_def ol_rep_new tq_bound_def can_alloc_def)
  have e: "ev_rep ?t [] []" by (simp add: ev_rep_def idle_task_def start_defs taskq.extend_def ol_rep_new)
  obtain x m t where t: "EdTask_postEdMsg ?t 1000 8 0 EDM_EXIT (Data (params 0 0)) = Inr (if (8 :: int) = 8 then 0 else - 2, t)"
    "tq_rep t (tl []) ([] @ [x]) []" "msgs t x = Some m" "carries m (EDM_EXIT, 0, Data (params 0 0))" "same_env (raise_signal ?t 8) t"
    by (rule post_ok [OF r, of 8 0 EDM_EXIT "Data (params 0 0)"])
  have f: "evsys.truncate t = evsys.truncate ?t" "taskq.more t = taskq.more ?t" using post_frame [OF t(1)] by simp_all
  have "ev_rep t [] []" "cmode t = cmode ?t" "ctx_exit t = ctx_exit ?t" using e ev_rep_truncate [OF f(1)] f(1) by (simp_all add: evsys.truncate_def)
  moreover have "mRunMode t = mRunMode ?t" "mTimerMap t = mTimerMap ?t" "mReserveFreeList t = mReserveFreeList ?t"
    using task_more [OF f(2)] by simp_all
  moreover have "EdTask_terminate True 1000 8 ?t = Inr t" using t(1)
    by (simp add: EdTask_terminate_def EdTask_postMsg_def idle_task_def start_defs taskq.extend_def)
  ultimately show thesis using t(2-5) that [of t x m]
    by (simp add: carries_def same_env_def raise_signal_def idle_task_def start_defs taskq.extend_def)
qed

theorem task_turns_witness:
  "\<exists>t t1 t2. EdTask_terminate True 1000 8 (idle_task (EdTask_start 100 200 300 400 1 5)) = Inr t \<and>
     EdTask_regEdEvent t 2000 0 5 MsgCb 5000 = Inr (2000, t1) \<and>
     es_turns (task_cb (rcall env0) (rviews env0) (ruser env0)) t1 [[(2000, EPOLLIN)]] t2 \<and> ctx_exit t2 \<noteq> 0"
proof -
  obtain t x m where t: "EdTask_terminate True 1000 8 (idle_task (EdTask_start 100 200 300 400 1 5)) = Inr t" "tq_rep t [] [x] []"
    "msgs t x = Some m" "msgid m = EDM_EXIT" "signals t = 1" "ev_rep t [] []" "ctx_exit t = 0" by (rule exit_posted)
  have "ehdrs t 2000 = None" "(2000 :: addr) \<noteq> NULL" "(5 :: int) \<noteq> 0" using t(6) by (auto simp: ev_rep_def)
  then obtain t1 where t1: "EdTask_regEdEvent t 2000 0 5 MsgCb 5000 = Inr (2000, t1)" "ev_rep t1 ([] @ [2000]) []"
    "evts t1 = (evts t)(2000 \<mapsto> \<lparr>evfd = 5, evuser = 5000, isReg = True, ecb = MsgCb\<rparr>)" "ctx_exit t1 = ctx_exit t"
    by (rule regEdEvent_ok [OF t(6)])
  have m1: "evsys.more t1 = evsys.more t" using reg_more [OF t1(1)] by simp
  have q1: "tq_rep t1 [] [x] []" using tq_rep_more [OF m1] t(2) by simp
  have "exits t1 (signals t1) [x]" "signals t1 = 1" using taskq_more [OF m1] t(3-5) by (auto simp: exits_def)
  then have "\<exists>t2. es_turns (task_cb (reply_with 0) (rviews env0) close_self) t1 [[(2000, EPOLLIN)]] t2 \<and> ctx_exit t2 \<noteq> 0"
    using task_turns [OF replying.task_listener_axioms q1 t1(2) es_none, of 0 "rviews env0"] q1 t1(3,4) t(7) by auto
  then show ?thesis using t(1) t1(1) by (auto simp: env0_def)
qed

text \<open>C9. How \<^verbatim>\<open>taskProc\<close> ends once the loop has the exit flag: when the closing handler leaves no event but the
  message event and no timer, it returns; then no event object and no message is left allocated, the
  descriptor of the messages is closed and every sender whose message was still queued is answered
  with -1000. When any other event is still registered then, that of an active task timer too,
  an assertion fails: the timers are cleaned up only afterwards.\<close>

theorem task_exit:
  assumes start: "mRunMode t = 0" "EdTask_esOpen t 0 (repfd v) = Inr (fd, t0)" "rctl v = 0"
      "EdTask_regEdEvent t0 (rmsgevt v) 0 (mMsgFd t0) MsgCb (rself v) = Inr (rmsgevt v, t1)"
    and run: "es_turns (task_cb (rcall v) (rviews v) (ruser v)) t1 bs t2" "ctx_exit t2 \<noteq> 0"
    and close: "\<forall>n\<ge>N0. EdTask_callMsgClose v n (t2\<lparr>opened := 0\<rparr>) = Inr t3" "ev_rep t3 es ds" "rmsgevt v \<in> set es" "length es < 2 ^ 31"
    and msg: "tq_rep t3 ms qs []" "tq_bound t3 (length ms + length qs)" and tm: "timer_alloc_cnt t3 = 0"
  shows "\<exists>N. \<forall>fuel\<ge>N.
     (es \<noteq> [rmsgevt v] \<longrightarrow> EdTask_taskProc v fuel bs t = Some (Inl Assert_failed)) \<and>
     (es = [rmsgevt v] \<and> mTimerMap t3 = Map.empty \<longrightarrow>
        (\<exists>t'. EdTask_taskProc v fuel bs t = Some (Inr t') \<and> evts t' = Map.empty \<and> evt_alloc_cnt t' = 0 \<and> msgs t' = Map.empty \<and>
           mMsgFd t' < 0 \<and> opened t' = 0 \<and>
           (\<forall>x\<in>set qs. \<forall>m. msgs t3 x = Some m \<and> sync m \<noteq> 0 \<longrightarrow> EdTask_sendEdMsg_result t' (psend_result m) = Some (- 1000))))"
proof -
  have rm: "mRunMode t0 = 0" using start(1,2) by (auto simp: EdTask_esOpen_def Let_def split: if_splits)
  obtain N t5 where L: "\<forall>n\<ge>N. EdTask_edEventLoop n (task_cb (rcall v) (rviews v) (ruser v)) bs (EdTask_callMsgClose v n) (rmsgevt v) 0 0 (mMsgFd t0) (rself v) t0 =
      Some (if es = [rmsgevt v] then Inr t5 else Inl Assert_failed)"
    and t5: "ev_rep t5 (remove1 (rmsgevt v) es) []" "evsys.more t5 = evsys.more t3" "timer_alloc_cnt t5 = timer_alloc_cnt t3"
    by (rule edEventLoop_end [where cl = "EdTask_callMsgClose v", OF start(4) run close])
  have P: "EdTask_taskProc v n bs t = Some (if es = [rmsgevt v] then task_end v n t5 else Inl Assert_failed)" if "N \<le> n" for n
    using start(1-3) rm L that by (simp add: EdTask_taskProc_def)
  have q5: "tq_rep t5 ms qs []" "tq_bound t5 (length ms + length qs)" "msgs t5 = msgs t3" "mTimerMap t5 = mTimerMap t3"
    using tq_rep_more [OF t5(2)] taskq_more [OF t5(2)] task_more [of t5 t3] msg by (simp_all add: tq_bound_def)
  have E: "\<exists>t'. task_end v n t5 = Inr t' \<and> evts t' = Map.empty \<and> evt_alloc_cnt t' = 0 \<and> msgs t' = Map.empty \<and> mMsgFd t' < 0 \<and> opened t' = 0 \<and>
      (\<forall>x\<in>set qs. \<forall>m. msgs t3 x = Some m \<and> sync m \<noteq> 0 \<longrightarrow> EdTask_sendEdMsg_result t' (psend_result m) = Some (- 1000))"
    if es: "es = [rmsgevt v]" and m: "mTimerMap t3 = Map.empty" and n: "length ms + length qs < n" for n
  proof -
    obtain t6 where t6: "EdTask_closeMsg n t5 = Inr t6" "mMsgFd t6 < 0" "tq_rep t6 [] [] []"
      "\<forall>x\<in>set qs. \<forall>m. msgs t5 x = Some m \<and> sync m \<noteq> 0 \<longrightarrow> EdTask_sendEdMsg_result t6 (psend_result m) = Some (- 1000)"
      by (rule closeMsg_ok [OF q5(1,2) n])
    note f = closeMsg_frame [OF t6(1)]
    have f6: "ev_rep t6 [] []" "mTimerMap t6 = Map.empty" "timer_alloc_cnt t6 = 0"
      using ev_rep_truncate [of t6 t5] task_more [of t6 t5] f t5 es m q5(4) tm by (simp_all add: evsys.truncate_def)
    let ?t = "(if cmode t6 = 0 then t6\<lparr>mTimerMap := Map.empty, epfd := - 1\<rparr> else t6\<lparr>mTimerMap := Map.empty\<rparr>)\<lparr>opened := 0\<rparr>"
    have "task_end v n t5 = Inr ?t" using t6(1) f6(2,3)
      by (simp add: task_end_def kill_timers_def cleanup_no_timers EdTask_esClose_def Let_def)
    moreover have "evts ?t = Map.empty" "evt_alloc_cnt ?t = 0" "msgs ?t = Map.empty" "mMsgFd ?t < 0" "opened ?t = 0"
      "EdTask_sendEdMsg_result ?t = EdTask_sendEdMsg_result t6"
      using f6(1) t6(2,3) by (auto simp: ev_rep_def tq_rep_def EdTask_sendEdMsg_result_def fun_eq_iff)
    ultimately show ?thesis using t6(4) q5(3) by metis
  qed
  show ?thesis
    by (intro exI [of _ "max N (Suc (length ms + length qs))"] allI impI conjI) (use P E in auto)
qed

lemma exit_message:
  assumes r: "tq_rep t ms [x] []" and m: "msgs t x = Some m" "msgid m = EDM_EXIT" and sg: "signals t = 1"
  obtains t' where "EdTask_msgevent_cb call v t 8 = Inr t'" "tq_rep t' (ms @ [x]) [] []" "\<And>es ds. ev_rep t es ds \<Longrightarrow> ev_rep t' es ds" "ctx_exit t' = 1"
    "taskq.more t' = taskq.more t" "mMaxMsqQueSize t' = mMaxMsqQueSize t" "timer_alloc_cnt t' = timer_alloc_cnt t" "evts t' = evts t"
proof -
  have r0: "tq_rep (t\<lparr>signals := 0\<rparr>) ms [x] []" using r by simp
  obtain h l where h: "pop_qued (t\<lparr>signals := 0\<rparr>) = Inr (x, t\<lparr>signals := 0, hdrs := h, mQuedMsgs := l\<rparr>)"
    "tq_rep (t\<lparr>signals := 0, hdrs := h, mQuedMsgs := l\<rparr>) ms [] (x # [])" "x \<noteq> NULL" using r0 by (rule pop_qued_rep)
  define t1 where "t1 = t\<lparr>signals := 0, hdrs := h, mQuedMsgs := l\<rparr>"
  define t2 where "t2 = (if sync m \<noteq> 0 then t1\<lparr>ctx_exit := 1, notified := insert (psend_result m) (notified t1)\<rparr> else t1\<lparr>ctx_exit := 1\<rparr>)"
  have "tq_rep t2 ms [] (x # [])" using h(2) by (simp add: t2_def t1_def [symmetric])
  then obtain h' l' where h': "push_empty t2 x = Inr (t2\<lparr>hdrs := h', mEmptyMsgs := l'\<rparr>)" "tq_rep (t2\<lparr>hdrs := h', mEmptyMsgs := l'\<rparr>) (ms @ [x]) [] []"
    by (rule push_empty_rep)
  have m1: "msgs t1 x = Some m" using m(1) by (simp add: t1_def)
  have "dispatch_call call v t1 x = Inr (t1\<lparr>ctx_exit := 1\<rparr>)" using m1 m(2) by (simp add: dispatch_call_def msg_target_def)
  moreover have "dispatch_finish (t1\<lparr>ctx_exit := 1\<rparr>) x = Inr (t2\<lparr>hdrs := h', mEmptyMsgs := l'\<rparr>)" using m1 h'(1) by (cases "sync m = 0") (simp_all add: dispatch_finish_def t2_def)
  ultimately have "EdTask_msgevent_cb call v t 8 = Inr (t2\<lparr>hdrs := h', mEmptyMsgs := l'\<rparr>)"
    using h(1,3) sg by (simp add: EdTask_msgevent_cb_def t1_def [symmetric])
  then show thesis using h'(2) by (rule that) (simp_all add: t2_def t1_def)
qed

theorem task_exit_witness:
  "\<exists>t N. EdTask_terminate True 1000 8 (idle_task (EdTask_start 100 200 300 400 1 5)) = Inr t \<and>
     (\<forall>fuel\<ge>N. \<exists>t'. EdTask_taskProc env0 fuel [[(2000, EPOLLIN)]] t = Some (Inr t') \<and> evts t' = Map.empty \<and> msgs t' = Map.empty)"
proof -
  obtain t x m where t: "EdTask_terminate True 1000 8 (idle_task (EdTask_start 100 200 300 400 1 5)) = Inr t" "tq_rep t [] [x] []"
    "msgs t x = Some m" "msgid m = EDM_EXIT" "signals t = 1" "ev_rep t [] []" "mMsgFd t = 5" "mMaxMsqQueSize t = 1"
    "mRunMode t = 0" "mTimerMap t = Map.empty" "mReserveFreeList t = []" by (rule exit_posted)
  define t0 where "t0 = t\<lparr>epfd := 3, cmode := 0, ctx_exit := 0, opened := 1, evt_count := 0, evt_alloc_cnt := 0, timer_alloc_cnt := 0\<rparr>"
  have o: "EdTask_esOpen t 0 (repfd env0) = Inr (3, t0)" by (simp add: EdTask_esOpen_def t0_def env0_def)
  have r0: "ev_rep t0 [] []" "tq_rep t0 [] [x] []" using t(2,6) by (auto simp: t0_def ev_rep_def tq_rep_def)
  have "ehdrs t0 2000 = None" "(2000 :: addr) \<noteq> NULL" "mMsgFd t0 \<noteq> 0" using r0(1) t(7) by (auto simp: ev_rep_def t0_def)
  then obtain t1 where t1: "EdTask_regEdEvent t0 2000 0 (mMsgFd t0) MsgCb 5000 = Inr (2000, t1)" "ev_rep t1 ([] @ [2000]) []"
    "evts t1 = (evts t0)(2000 \<mapsto> \<lparr>evfd = mMsgFd t0, evuser = 5000, isReg = True, ecb = MsgCb\<rparr>)" "ctx_exit t1 = ctx_exit t0"
    by (rule regEdEvent_ok [OF r0(1)])
  note f1 = reg_more [OF t1(1)] taskq_more [of t1 t0] task_more [of t1 t0] tq_rep_more [of t1 t0]
  have q1: "tq_rep t1 [] [x] []" "msgs t1 x = Some m" "signals t1 = 1" using f1 r0(2) t(3,5) by (simp_all add: t0_def)
  obtain t2 where t2: "EdTask_msgevent_cb (rcall env0) (rviews env0) t1 8 = Inr t2" "tq_rep t2 ([] @ [x]) [] []" "\<And>es ds. ev_rep t1 es ds \<Longrightarrow> ev_rep t2 es ds"
    "ctx_exit t2 = 1" "taskq.more t2 = taskq.more t1" "mMaxMsqQueSize t2 = mMaxMsqQueSize t1" "timer_alloc_cnt t2 = timer_alloc_cnt t1" "evts t2 = evts t1"
    using exit_message [OF q1(1,2) t(4) q1(3), of "rcall env0" "rviews env0"] by blast
  let ?cb = "task_cb (rcall env0) (rviews env0) (ruser env0)"
  have "?cb MsgCb 2000 EVT_READ t1 = Inr t2" using t2(1) q1(3) by (simp add: task_cb_def)
  then have "es_event ?cb (2000, EPOLLIN) t1 = Inr t2" using t1(3) t(7) t2(8) by (intro es_event_read) (auto simp: t0_def)
  then have b: "es_batch ?cb [(2000, EPOLLIN)] t1 = Inr t2" by simp
  obtain t3 where t3: "EdTask_cleanUpEventResource 1 t2 = Inr t3" "ev_rep t3 [2000] []" "ctx_exit t3 = ctx_exit t2"
    using cleanUp_ok [OF t2(3) [OF t1(2)], of 1] by auto
  have on: "ctx_exit t1 = 0" "list_all (registered t1 \<circ> fst) [(2000, EPOLLIN)]" using t1(3,4) by (simp_all add: t0_def registered_def)
  note run = es_turn [OF on b t3(1) es_none]
  have f3: "mReserveFreeList t3 = []" "mTimerMap t3 = Map.empty" "tq_rep t3 [x] [] []" "mMaxMsqQueSize t3 = 1" "timer_alloc_cnt t3 = 0"
    using cleanUp_more [OF t3(1)] cleanUp_timers [OF t3(1)] taskq_more [of t3 t2] task_more [of t3 t2] tq_rep_more [of t3 t2] t2(2,5-7) f1 task_more [of t2 t1] t(8,10,11)
    by (simp_all add: t0_def)
  have cl: "\<forall>n\<ge>1. EdTask_callMsgClose env0 n (t3\<lparr>opened := 0\<rparr>) = Inr (t3\<lparr>opened := 0\<rparr>)"
  proof (intro allI impI)
    fix n :: nat assume "1 \<le> n"
    then obtain k where "n = Suc k" by (cases n) auto
    then show "EdTask_callMsgClose env0 n (t3\<lparr>opened := 0\<rparr>) = Inr (t3\<lparr>opened := 0\<rparr>)" using f3(1) by (simp add: EdTask_callMsgClose_def env0_def)
  qed
  have h: "rctl env0 = 0" "EdTask_regEdEvent t0 (rmsgevt env0) 0 (mMsgFd t0) MsgCb (rself env0) = Inr (rmsgevt env0, t1)" "ctx_exit t3 \<noteq> 0"
    "ev_rep (t3\<lparr>opened := 0\<rparr>) [2000] []" "rmsgevt env0 \<in> set [2000]" "length [2000 :: addr] < 2 ^ 31" "tq_rep (t3\<lparr>opened := 0\<rparr>) [x] [] []"
    "tq_bound (t3\<lparr>opened := 0\<rparr>) (length [x] + length ([] :: addr list))" "timer_alloc_cnt (t3\<lparr>opened := 0\<rparr>) = 0"
    using t1(1) t3(2,3) t2(4) f3 by (simp_all add: env0_def tq_bound_def) (simp add: tq_rep_def)
  have e: "rmsgevt env0 = 2000" "mTimerMap (t3\<lparr>opened := 0\<rparr>) = Map.empty" using f3(2) by (simp_all add: env0_def)
  from task_exit [OF t(9) o h(1,2) run h(3) cl h(4-9)] obtain N where
    "\<forall>fuel\<ge>N. \<exists>t'. EdTask_taskProc env0 fuel [[(2000, EPOLLIN)]] t = Some (Inr t') \<and> evts t' = Map.empty \<and> msgs t' = Map.empty"
    using e by metis
  with t(1) show ?thesis by blast
qed

text \<open>C34. Deleting the reserved objects ends and deletes each of them once, also when their destructors reserve
  further objects: with at least as many turns as there are objects, the loop returns with an empty
  list, every object that was reserved is gone, no object is left reserved, and no deleted object is
  used. Reserving an object twice reserves it once.\<close>

theorem reserved_objects_freed:
  assumes d: "obj_dtor dtor" and r: "rsv_rep t []" and f: "finite (dom (objs t))" and n: "card (dom (objs t)) < n" and c: "objs t c \<noteq> None"
  shows "\<exists>t1 t2. EdTask_reserveFree c t = Inr t1 \<and> EdTask_reserveFree c t1 = Inr t1 \<and>
     EdTask_freeReservedObjs dtor n t1 = Inr t2 \<and> mReserveFreeList t2 = [] \<and> objs t2 c = None \<and>
     (\<forall>y. objs t y = Some True \<longrightarrow> objs t2 y = None) \<and> (\<forall>y. objs t2 y \<noteq> Some True)"
proof -
  obtain t1 where t1: "EdTask_reserveFree c t = Inr t1" "rsv_rep t1 []" "objs t1 = (objs t)(c \<mapsto> True)" using r c by (rule reserveFree_keeps)
  have "dom (objs t1) = dom (objs t)" using t1(3) c by auto
  then obtain t2 where "EdTask_freeReservedObjs dtor n t1 = Inr t2" "mReserveFreeList t2 = []" "\<forall>y. objs t1 y = Some True \<longrightarrow> objs t2 y = None"
    "\<forall>y. objs t2 y \<noteq> Some True" using obj_dtor.free_all [OF d t1(2), of n] f n by auto
  moreover have "EdTask_reserveFree c t1 = Inr t1" using t1(3) by (simp add: EdTask_reserveFree_def)
  ultimately show ?thesis using t1(1,3) by auto
qed

theorem reserved_objects_freed_witness:
  "\<exists>t1 t2. EdTask_reserveFree 10 ((idle_task (EdTask_start 100 200 300 400 1 5))\<lparr>objs := [10 \<mapsto> False, 20 \<mapsto> False]\<rparr>) = Inr t1 \<and>
     EdTask_freeReservedObjs (reserve_child [10 \<mapsto> 20]) 3 t1 = Inr t2 \<and> mReserveFreeList t2 = [] \<and> objs t2 10 = None"
proof -
  let ?t = "(idle_task (EdTask_start 100 200 300 400 1 5))\<lparr>objs := [10 \<mapsto> False, 20 \<mapsto> False]\<rparr>"
  have "rsv_rep ?t []" "finite (dom (objs ?t))" "card (dom (objs ?t)) < 3" "objs ?t 10 \<noteq> None"
    by (auto simp: rsv_rep_def idle_task_def start_defs taskq.extend_def)
  from reserved_objects_freed [OF owner.obj_dtor_axioms this, of "[10 \<mapsto> 20]"] show ?thesis by blast
qed

end
