(* ===== verification/EdMsgQue.thy ===== *)
theory EdMsgQue
  imports EdTaskMsg
begin

text \<open>EdTaskMsgQue.cpp: a queue of its own for a listener. It is a handle into the global map of listeners;
  its messages go through the queue of the task that opened it.\<close>

section \<open>State and operations\<close>

record EdTaskMsgQue =
  mHandle :: u32
  mqTask :: addr

definition EdTaskMsgQue_new :: EdTaskMsgQue where
  "EdTaskMsgQue_new = \<lparr>mHandle = 0, mqTask = NULL\<rparr>"

text \<open>\<^verbatim>\<open>open\<close> in the task \<open>cur\<close>, null outside of every task.\<close>

definition EdTaskMsgQue_open :: "EdTaskMsgQue \<Rightarrow> addr \<Rightarrow> nat \<Rightarrow> views \<Rightarrow> u32 \<times> EdTaskMsgQue \<times> views" where
  "EdTaskMsgQue_open q cur lis v =
     (let q = q\<lparr>mqTask := cur\<rparr> in
      if mqTask q \<noteq> NULL then let (h, v) = createTaskMsgQue v lis in (h, q\<lparr>mHandle := h\<rparr>, v)
      else (0, q, v))"

definition EdTaskMsgQue_close :: "EdTaskMsgQue \<Rightarrow> views \<Rightarrow> EdTaskMsgQue \<times> views" where
  "EdTaskMsgQue_close q v = (if mHandle q \<noteq> 0 then (q\<lparr>mHandle := 0\<rparr>, destroyTaskMsgQue v (mHandle q)) else (q, v))"

text \<open>The posting calls, on the task \<open>t\<close> the queue was opened in.\<close>

definition EdTaskMsgQue_postMsg :: "EdTaskMsgQue \<Rightarrow> 'a taskq_scheme \<Rightarrow> addr \<Rightarrow> int \<Rightarrow> u16 \<Rightarrow> u32 \<Rightarrow> u32 \<Rightarrow> fault + (int \<times> 'a taskq_scheme)" where
  "EdTaskMsgQue_postMsg q t a wret mid p1 p2 =
     (if mHandle q = 0 then Inl Assert_failed else EdTask_postTaskMsgQue t a wret (mHandle q) mid p1 p2)"

definition EdTaskMsgQue_sendMsg :: "EdTaskMsgQue \<Rightarrow> 'a taskq_scheme \<Rightarrow> addr \<Rightarrow> nat \<Rightarrow> u16 \<Rightarrow> u32 \<Rightarrow> u32 \<Rightarrow> fault + (int option \<times> 'a taskq_scheme)" where
  "EdTaskMsgQue_sendMsg q t a sid mid p1 p2 =
     (if mHandle q = 0 then Inl Assert_failed else EdTask_sendTaskMsgQue t a sid (mHandle q) mid p1 p2)"

definition EdTaskMsgQue_postObj :: "EdTaskMsgQue \<Rightarrow> 'a taskq_scheme \<Rightarrow> addr \<Rightarrow> int \<Rightarrow> u16 \<Rightarrow> addr \<Rightarrow> fault + (int \<times> 'a taskq_scheme)" where
  "EdTaskMsgQue_postObj q t a wret mid obj =
     (if mHandle q = 0 then Inl Assert_failed else EdTask_postTaskMsgObj t a wret (mHandle q) mid obj)"

definition EdTaskMsgQue_sendObj :: "EdTaskMsgQue \<Rightarrow> 'a taskq_scheme \<Rightarrow> addr \<Rightarrow> nat \<Rightarrow> u16 \<Rightarrow> addr \<Rightarrow> fault + (int option \<times> 'a taskq_scheme)" where
  "EdTaskMsgQue_sendObj q t a sid mid obj =
     (if mHandle q = 0 then Inl Assert_failed else EdTask_sendTaskMsgObj t a sid (mHandle q) mid obj)"

section \<open>Handles\<close>

text \<open>After \<open>n\<close> queues were opened the handles in use are among 1 to \<open>n\<close>.\<close>

definition views_ok :: "views \<Rightarrow> nat \<Rightarrow> bool" where
  "views_ok v n \<longleftrightarrow> n < 2 ^ 32 \<and> unat (seed_handle v) = n \<and> (\<forall>h. gViewMap v h \<noteq> None \<longrightarrow> 1 \<le> unat h \<and> unat h \<le> n)"

lemma create_fresh:
  assumes v: "views_ok v n" and n: "n < 2 ^ 32 - 1"
  obtains h where "createTaskMsgQue v lis = (h, v\<lparr>seed_handle := h, gViewMap := (gViewMap v)(h \<mapsto> lis)\<rparr>)" "unat h = Suc n" "h \<noteq> 0"
    "gViewMap v h = None" "views_ok (v\<lparr>seed_handle := h, gViewMap := (gViewMap v)(h \<mapsto> lis)\<rparr>) (Suc n)"
proof -
  let ?h = "seed_handle v + 1"
  have u: "unat ?h = Suc n" using v n by (simp add: views_ok_def unat_word_ariths(1))
  then have nz: "?h \<noteq> 0" by (metis Zero_not_Suc unat_0)
  have none: "gViewMap v ?h = None" using v u by (auto simp: views_ok_def)
  have "views_ok (v\<lparr>seed_handle := ?h, gViewMap := (gViewMap v)(?h \<mapsto> lis)\<rparr>) (Suc n)"
    using v u n by (auto simp: views_ok_def intro: le_SucI)
  with u nz none show thesis by (intro that [of ?h]) (simp_all add: createTaskMsgQue_def Let_def)
qed

lemma destroy_keeps: "views_ok v n \<Longrightarrow> views_ok (destroyTaskMsgQue v h) n"
  by (auto simp: views_ok_def destroyTaskMsgQue_def)

text \<open>When the counter has run through, a new queue replaces the listener of the first one, open or not.\<close>

lemma handle_wraps: "seed_handle v = - 1 \<Longrightarrow> createTaskMsgQue v lis = (1, v\<lparr>seed_handle := 1, gViewMap := (gViewMap v)(1 \<mapsto> lis)\<rparr>)"
  by (simp add: createTaskMsgQue_def)

section \<open>Properties\<close>

text \<open>C36. A message posted to a task message queue reaches the listener the queue was opened with, whatever
  queues are open beside it; when the queue is closed before the message is dispatched it goes to
  nobody, and posting to the closed queue fails an assertion. Opening and closing leaves the other
  queues as they were, and up to the 4294967295th queue no two share a handle.\<close>

theorem msgque_routes:
  assumes r: "tq_rep t es qs fl" "tq_bound t (length qs)" "hdrs t a = None" "a \<noteq> NULL" "can_alloc t es qs" "0 \<le> mMsgFd t"
    and v: "views_ok v n" "n < 2 ^ 32 - 1" and c: "cur \<noteq> NULL" and mid: "mid \<noteq> EDM_EXIT"
  shows "\<exists>h q v1 t1 p m q2 v2. EdTaskMsgQue_open q0 cur lis v = (h, q, v1) \<and> h \<noteq> 0 \<and> gViewMap v h = None \<and> views_ok v1 (Suc n) \<and>
     EdTaskMsgQue_postMsg q t a 8 mid p1 p2 = Inr (0, t1) \<and> tq_rep t1 (tl es) (qs @ [p]) fl \<and> msgs t1 p = Some m \<and>
     mdata m = params p1 p2 \<and> msg_target v1 m = View lis \<and> (\<forall>h'. h' \<noteq> h \<longrightarrow> gViewMap v1 h' = gViewMap v h') \<and>
     EdTaskMsgQue_close q v1 = (q2, v2) \<and> msg_target v2 m = Nobody \<and> gViewMap v2 = gViewMap v \<and>
     EdTaskMsgQue_postMsg q2 t1 a 8 mid p1 p2 = Inl Assert_failed"
proof -
  obtain h where h: "createTaskMsgQue v lis = (h, v\<lparr>seed_handle := h, gViewMap := (gViewMap v)(h \<mapsto> lis)\<rparr>)" "h \<noteq> 0"
    "gViewMap v h = None" "views_ok (v\<lparr>seed_handle := h, gViewMap := (gViewMap v)(h \<mapsto> lis)\<rparr>) (Suc n)" using create_fresh [OF v] by metis
  let ?v = "v\<lparr>seed_handle := h, gViewMap := (gViewMap v)(h \<mapsto> lis)\<rparr>" and ?q = "q0\<lparr>mqTask := cur, mHandle := h\<rparr>"
  obtain p m t1 where t1: "EdTask_postEdMsg t a 8 h mid (Data (params p1 p2)) = Inr (if (8 :: int) = 8 then 0 else - 2, t1)"
    "tq_rep t1 (tl es) (qs @ [p]) fl" "msgs t1 p = Some m" "carries m (mid, h, Data (params p1 p2))" by (rule post_ok [OF r])
  have m: "msgid m = mid" "taskque_handle m = h" "mdata m = params p1 p2" using t1(4) by (simp_all add: carries_def)
  have "EdTaskMsgQue_open q0 cur lis v = (h, ?q, ?v)" using c h(1) by (simp add: EdTaskMsgQue_open_def)
  moreover have "EdTaskMsgQue_postMsg ?q t a 8 mid p1 p2 = Inr (0, t1)"
    using t1(1) h(2) by (simp add: EdTaskMsgQue_postMsg_def EdTask_postTaskMsgQue_def)
  moreover have "msg_target ?v m = View lis" "msg_target (destroyTaskMsgQue ?v h) m = Nobody"
    using m(1,2) h(2) mid by (simp_all add: msg_target_def destroyTaskMsgQue_def)
  moreover have "EdTaskMsgQue_close ?q ?v = (?q\<lparr>mHandle := 0\<rparr>, destroyTaskMsgQue ?v h)" using h(2) by (simp add: EdTaskMsgQue_close_def)
  moreover have "gViewMap (destroyTaskMsgQue ?v h) = gViewMap v" using h(3) by (auto simp: destroyTaskMsgQue_def)
  moreover have "EdTaskMsgQue_postMsg (?q\<lparr>mHandle := 0\<rparr>) t1 a 8 mid p1 p2 = Inl Assert_failed" by (simp add: EdTaskMsgQue_postMsg_def)
  ultimately show ?thesis using h(2-4) t1(2,3) m(3)
    by (intro exI [of _ h] exI [of _ ?q] exI [of _ ?v] exI [of _ t1] exI [of _ p] exI [of _ m] exI [of _ "?q\<lparr>mHandle := 0\<rparr>"]
        exI [of _ "destroyTaskMsgQue ?v h"]) simp
qed

theorem msgque_routes_witness:
  "\<exists>h q v1 t1 p m. EdTaskMsgQue_open EdTaskMsgQue_new 7000 3 \<lparr>gViewMap = Map.empty, seed_handle = 0\<rparr> = (h, q, v1) \<and>
     EdTaskMsgQue_postMsg q (EdTask_start 100 200 300 400 1 5) 1000 8 1001 4 5 = Inr (0, t1) \<and> msgs t1 p = Some m \<and> msg_target v1 m = View 3"
proof -
  let ?t = "EdTask_start 100 200 300 400 1 5" and ?v = "\<lparr>gViewMap = Map.empty, seed_handle = 0\<rparr> :: views"
  have t: "tq_rep ?t [] [] []" "tq_bound ?t (length ([] :: addr list))" "hdrs ?t 1000 = None" "(1000 :: addr) \<noteq> NULL" "can_alloc ?t [] []" "0 \<le> mMsgFd ?t"
    using tq_rep_init [of 100 200 300 400 1 5] by (simp_all add: start_defs tq_bound_def can_alloc_def)
  have v: "views_ok ?v 0" "(0 :: nat) < 2 ^ 32 - 1" "(7000 :: addr) \<noteq> NULL" "(1001 :: u16) \<noteq> EDM_EXIT" by (simp_all add: views_ok_def EDM_EXIT_def)
  from msgque_routes [OF t v, of EdTaskMsgQue_new 3 4 5] show ?thesis by blast
qed

end
