(* ===== verification/EdFiles.thy ===== *)
theory EdFiles
  imports EdEvtObjs
begin

text \<open>EdFile.cpp, EdTime.cpp and EdBuffredFileReader.cpp. A buffered reader loads blocks of a file ahead: each
  block is an \<^verbatim>\<open>EdBufferInfo\<close> object in an \<^verbatim>\<open>EdObjList\<close> with a buffer of its own; an event descriptor drives
  the loading. The results of \<^verbatim>\<open>open\<close> and \<^verbatim>\<open>read\<close> and the addresses of \<^verbatim>\<open>new\<close> and \<^verbatim>\<open>malloc\<close> are arguments.\<close>

section \<open>Files\<close>

definition O_CREAT :: u32 where "O_CREAT = 0x40"

text \<open>\<^verbatim>\<open>S_IRUSR\<close>, \<^verbatim>\<open>S_IWUSR\<close>, \<^verbatim>\<open>S_IRGRP\<close>, \<^verbatim>\<open>S_IWGRP\<close> and \<^verbatim>\<open>S_IROTH\<close> together.\<close>

definition default_mode :: u32 where
  "default_mode = 0x80 OR 0x100 OR 0x20 OR 0x10 OR 0x04"

text \<open>A file with the open descriptors of the process; \<open>fd\<close> is the result of \<^verbatim>\<open>open\<close>. The second component is the
  mode the system call gets.\<close>

record EdFile =
  fileFd :: int
  fds :: "int set"

definition EdFile_new :: "int set \<Rightarrow> EdFile" where
  "EdFile_new K = \<lparr>fileFd = - 1, fds = K\<rparr>"

definition EdFile_openFile :: "EdFile \<Rightarrow> u32 \<Rightarrow> u32 \<Rightarrow> int \<Rightarrow> int \<times> u32 \<times> EdFile" where
  "EdFile_openFile f flags mode fd =
     (let mode = (if mode = 0 then if flags AND O_CREAT \<noteq> 0 then default_mode else mode else mode)
      in (fd, mode, f\<lparr>fileFd := fd, fds := if fd \<ge> 0 then insert fd (fds f) else fds f\<rparr>))"

definition EdFile_new_path :: "int set \<Rightarrow> u32 \<Rightarrow> u32 \<Rightarrow> int \<Rightarrow> EdFile" where
  "EdFile_new_path K flags mode fd = snd (snd (EdFile_openFile (EdFile_new K) flags mode fd))"

definition EdFile_closeFile :: "EdFile \<Rightarrow> EdFile" where
  "EdFile_closeFile f = (if fileFd f \<ge> 0 then f\<lparr>fds := fds f - {fileFd f}, fileFd := - 1\<rparr> else f)"

definition EdFile_destroy :: "EdFile \<Rightarrow> EdFile" where
  "EdFile_destroy f = (if fileFd f \<ge> 0 then f\<lparr>fds := fds f - {fileFd f}\<rparr> else f)"

text \<open>The arguments of \<^verbatim>\<open>lseek\<close>, offset and origin, in the two forms of \<^verbatim>\<open>seek\<close>; \<^verbatim>\<open>SEEK_SET\<close> is 0.\<close>

definition EdFile_seek :: "u64 \<Rightarrow> u64 \<times> u64" where
  "EdFile_seek offset = (offset, 0)"

definition EdFile_seek_ref :: "u64 \<Rightarrow> u64 \<Rightarrow> u64 \<times> u64" where
  "EdFile_seek_ref offset ref = (ref, offset)"

text \<open>\<^verbatim>\<open>getSize\<close>, \<open>ret\<close> and \<open>st_size\<close> what \<^verbatim>\<open>stat\<close> gives.\<close>

definition EdFile_getSize :: "int \<Rightarrow> int \<Rightarrow> int" where
  "EdFile_getSize ret st_size = (if ret = 0 then st_size else - 1)"

text \<open>\<^verbatim>\<open>writeStrFormat\<close>: \<open>s\<close> is the formatted text, \<open>junk\<close> what the local buffer of 1024 bytes held before. The bytes
  given to \<^verbatim>\<open>write\<close> are counted by the result of \<^verbatim>\<open>vsnprintf\<close>, the length of the whole text.\<close>

definition EdFile_writeStrFormat :: "u8 list \<Rightarrow> u8 list \<Rightarrow> fault + u8 list" where
  "EdFile_writeStrFormat junk s =
     (let n = min (length s) 1022; buf = take n s @ [0] @ drop (Suc n) junk
      in if length s \<le> length buf then Inr (take (length s) buf) else Inl Bad_access)"

text \<open>\<^verbatim>\<open>find_last_of\<close> and \<^verbatim>\<open>splitFileName\<close>.\<close>

fun last_dot :: "string \<Rightarrow> nat option" where
  "last_dot [] = None"
| "last_dot (c # cs) =
     (case last_dot cs of Some i \<Rightarrow> Some (Suc i) | None \<Rightarrow> if c = CHR ''.'' then Some 0 else None)"

definition EdFile_splitFileName :: "string \<Rightarrow> string \<times> string" where
  "EdFile_splitFileName fname =
     (case last_dot fname of Some idx \<Rightarrow> (take idx fname, drop (idx + 1) fname) | None \<Rightarrow> (fname, []))"

text \<open>\<^verbatim>\<open>EdTime\<close>, with the reading of the clock.\<close>

definition EdTime_msecTime :: "int \<Rightarrow> int \<Rightarrow> u32" where
  "EdTime_msecTime sec nsec = word_of_int (sec * 1000 + nsec div 1000000)"

definition EdTime_usecTime :: "int \<Rightarrow> int \<Rightarrow> u64" where
  "EdTime_usecTime sec nsec = word_of_int (sec * 1000000 + nsec div 1000)"

lemma last_dot_None: "last_dot s = None \<longleftrightarrow> CHR ''.'' \<notin> set s"
  by (induction s) (auto split: option.splits)

lemma last_dot_Some: "CHR ''.'' \<notin> set e \<Longrightarrow> last_dot (n @ CHR ''.'' # e) = Some (length n)"
  by (induction n) (simp_all add: last_dot_None [THEN iffD2])

text \<open>Opening a second file before the first is closed loses its descriptor.\<close>

lemma openFile_leaks:
  assumes "0 \<le> fd1" "0 \<le> fd2" "fd1 \<noteq> fd2" "fd1 \<notin> K"
  shows "fds (EdFile_closeFile (snd (snd (EdFile_openFile (snd (snd (EdFile_openFile (EdFile_new K) 0 0 fd1))) 0 0 fd2)))) = insert fd1 (K - {fd2})"
  using assms by (auto simp: EdFile_openFile_def EdFile_closeFile_def EdFile_new_def)

text \<open>The destructor closes what the opening constructor opened.\<close>

lemma constructor_destructor: "fd \<notin> K \<Longrightarrow> fds (EdFile_destroy (EdFile_new_path K flags mode fd)) = K"
  by (auto simp: EdFile_new_path_def EdFile_destroy_def EdFile_openFile_def EdFile_new_def)

text \<open>A formatted text of up to 1022 bytes is written as it is; a text longer than the buffer is read beyond
  its end.\<close>

lemma writeStrFormat_bound:
  "length junk = 1024 \<Longrightarrow> length s \<le> 1022 \<Longrightarrow> EdFile_writeStrFormat junk s = Inr s"
  "length junk = 1024 \<Longrightarrow> 1024 < length s \<Longrightarrow> EdFile_writeStrFormat junk s = Inl Bad_access"
  by (simp_all add: EdFile_writeStrFormat_def Let_def)

text \<open>The difference of two millisecond times is the elapsed time, also across the wrap after 49 days.\<close>

lemma msecTime_elapsed:
  "EdTime_msecTime s2 n2 - EdTime_msecTime s1 n1 = word_of_int ((s2 * 1000 + n2 div 1000000) - (s1 * 1000 + n1 div 1000000))"
  by (simp add: EdTime_msecTime_def)

section \<open>The buffered reader\<close>

record EdBufferInfo =
  ibuf :: addr
  isize :: int
  takeBuffer :: bool

text \<open>\<open>frest\<close> is the part of the file not read yet, \<open>jobs\<close> the value of the event descriptor, \<open>ihdrs\<close> and \<open>infos\<close> the
  buffer objects, \<open>bufs\<close> the buffers.\<close>

record freader =
  mFile :: EdFile
  frest :: "u8 list"
  mBlockSize :: int
  mQSize :: int
  mJobEvent :: EdEvent
  jobs :: nat
  ihdrs :: hdr_heap
  infos :: "addr \<rightharpoonup> EdBufferInfo"
  mBufList :: list_obj
  bufs :: "addr \<rightharpoonup> u8 list"
  mIsScheduled :: bool
  mEof :: bool

definition EdBuffredFileReader_open ::
  "freader \<Rightarrow> 'w evsys_scheme \<Rightarrow> int \<Rightarrow> int \<Rightarrow> int \<Rightarrow> addr \<Rightarrow> int \<Rightarrow> int \<Rightarrow> thread_env \<Rightarrow> fault + (int \<times> freader \<times> 'w evsys_scheme)" where
  "EdBuffredFileReader_open r w fd block_unit qsize a efd ctl cur =
     (let (ret, _, f) = EdFile_openFile (mFile r) 0 0 fd; r = r\<lparr>mFile := f\<rparr> in
      if ret < 0 then Inr (- 1, r, w)
      else let r = r\<lparr>mBlockSize := block_unit * 4 * 1024, mQSize := qsize\<rparr> in
           bindr (EdEventFd_open (mJobEvent r) w a efd ctl cur) (\<lambda>(_, e, w). Inr (0, r\<lparr>mJobEvent := e\<rparr>, w)))"

text \<open>\<^verbatim>\<open>loadData\<close>: the object at \<open>a\<close>, the buffer at \<open>b\<close>, and \<open>rcnt\<close> the result of \<^verbatim>\<open>read\<close>.\<close>

definition EdBuffredFileReader_loadData :: "addr \<Rightarrow> addr \<Rightarrow> int \<Rightarrow> freader \<Rightarrow> fault + (int \<times> freader)" where
  "EdBuffredFileReader_loadData a b rcnt r =
     (let n = nat rcnt; h = EdObjList_allocObj (ihdrs r) a in
      if rcnt > 0
      then case EdObjList_push_back h (mBufList r) a of
             None \<Rightarrow> Inl Bad_access
           | Some (h, l) \<Rightarrow>
               Inr (rcnt, r\<lparr>ihdrs := h, mBufList := l, infos := (infos r)(a \<mapsto> \<lparr>ibuf = b, isize = rcnt, takeBuffer = False\<rparr>),
                            bufs := (bufs r)(b \<mapsto> take n (frest r) @ replicate (nat (mBlockSize r) - n) 0), frest := drop n (frest r)\<rparr>)
      else case EdObjList_freeObj h a of
             None \<Rightarrow> Inl Bad_access
           | Some h \<Rightarrow> Inr (0, r\<lparr>ihdrs := h, infos := (infos r)(a := None), bufs := (bufs r)(b := None), mEof := True\<rparr>))"

definition raise_job :: "freader \<Rightarrow> freader" where
  "raise_job r = r\<lparr>jobs := jobs r + 1\<rparr>"

text \<open>The listener of the event descriptor, and the event that calls it.\<close>

definition load_job :: "addr \<Rightarrow> addr \<Rightarrow> int \<Rightarrow> freader \<Rightarrow> fault + freader" where
  "load_job a b rcnt r =
     bindr (EdBuffredFileReader_loadData a b rcnt (r\<lparr>mIsScheduled := False\<rparr>)) (\<lambda>(ret, r).
     Inr (if EdObjList_size (mBufList r) < mQSize r \<and> ret > 0 then (raise_job r)\<lparr>mIsScheduled := True\<rparr> else r))"

definition reader_event :: "addr \<Rightarrow> addr \<Rightarrow> int \<Rightarrow> freader \<Rightarrow> fault + freader" where
  "reader_event a b rcnt r = (if jobs r > 0 then load_job a b rcnt (r\<lparr>jobs := 0\<rparr>) else Inr r)"

definition EdBuffredFileReader_getData :: "addr \<Rightarrow> addr \<Rightarrow> int \<Rightarrow> freader \<Rightarrow> fault + (EdBufferInfo \<times> freader)" where
  "EdBuffredFileReader_getData a b rcnt r =
     bindr (if EdObjList_size (mBufList r) = 0 then map_sum id snd (EdBuffredFileReader_loadData a b rcnt r) else Inr r) (\<lambda>r.
     case EdObjList_pop_front (ihdrs r) (mBufList r) of
       None \<Rightarrow> Inl Bad_access
     | Some (p, h, l) \<Rightarrow>
         let r = r\<lparr>ihdrs := h, mBufList := l\<rparr> in
         bindr (if p \<noteq> NULL
                then case (infos r p, EdObjList_freeObj (ihdrs r) p) of
                       (Some i, Some h) \<Rightarrow> Inr (i\<lparr>takeBuffer := True\<rparr>, r\<lparr>ihdrs := h, infos := (infos r)(p := None)\<rparr>)
                     | _ \<Rightarrow> Inl Bad_access
                else Inr (\<lparr>ibuf = NULL, isize = 0, takeBuffer = False\<rparr>, r)) (\<lambda>(i, r).
         Inr (i, if EdObjList_size (mBufList r) \<le> mQSize r \<and> \<not> mEof r then raise_job r else r)))"

text \<open>\<^verbatim>\<open>close\<close> frees the buffers; the objects of the list are popped and not freed.\<close>

fun close_bufs :: "nat \<Rightarrow> freader \<Rightarrow> fault + freader" where
  "close_bufs 0 r = Inl Diverges"
| "close_bufs (Suc n) r =
     (case EdObjList_pop_front (ihdrs r) (mBufList r) of
        None \<Rightarrow> Inl Bad_access
      | Some (p, h, l) \<Rightarrow>
          let r = r\<lparr>ihdrs := h, mBufList := l\<rparr> in
          if p \<noteq> NULL
          then case infos r p of
                 None \<Rightarrow> Inl Bad_access
               | Some i \<Rightarrow> if bufs r (ibuf i) = None then Inl Bad_access else close_bufs n (r\<lparr>bufs := (bufs r)(ibuf i := None)\<rparr>)
          else Inr r)"

definition EdBuffredFileReader_close :: "nat \<Rightarrow> freader \<Rightarrow> 'w evsys_scheme \<Rightarrow> int \<Rightarrow> thread_env \<Rightarrow> fault + (freader \<times> 'w evsys_scheme)" where
  "EdBuffredFileReader_close fuel r w ctl cur =
     bindr (EdEventFd_close (mJobEvent r) w ctl cur) (\<lambda>(e, w).
     bindr (close_bufs fuel (r\<lparr>mJobEvent := e, mFile := EdFile_closeFile (mFile r)\<rparr>)) (\<lambda>r. Inr (r, w)))"

section \<open>The bytes of a reader\<close>

definition info_bytes :: "(addr \<rightharpoonup> u8 list) \<Rightarrow> EdBufferInfo \<Rightarrow> u8 list" where
  "info_bytes bs i = (case bs (ibuf i) of None \<Rightarrow> [] | Some b \<Rightarrow> take (nat (isize i)) b)"

definition loaded :: "freader \<Rightarrow> addr list \<Rightarrow> u8 list" where
  "loaded r xs = concat (map (\<lambda>x. info_bytes (bufs r) (the (infos r x))) xs)"

lemma loaded_append [simp]: "loaded r (xs @ ys) = loaded r xs @ loaded r ys" "loaded r [] = []"
  by (simp_all add: loaded_def)

lemma loaded_cong:
  "(\<And>x. x \<in> set xs \<Longrightarrow> infos r' x = infos r x \<and> bufs r' (ibuf (the (infos r x))) = bufs r (ibuf (the (infos r x)))) \<Longrightarrow> loaded r' xs = loaded r xs"
  unfolding loaded_def by (intro arg_cong [where f = concat] map_cong) (simp_all add: info_bytes_def)

text \<open>\<open>xs\<close> are the loaded blocks: each has a buffer of its own, as large as it says and not empty; not more
  than one above the queue size are loaded ahead.\<close>

definition fr_core :: "freader \<Rightarrow> addr list \<Rightarrow> bool" where
  "fr_core r xs \<longleftrightarrow>
     ol_rep (ihdrs r) (mBufList r) xs \<and> dom (ihdrs r) = set xs \<and>
     (\<forall>x\<in>set xs. \<exists>i b. infos r x = Some i \<and> bufs r (ibuf i) = Some b \<and> 0 < isize i \<and> nat (isize i) \<le> length b) \<and>
     distinct (map (\<lambda>x. ibuf (the (infos r x))) xs) \<and>
     0 \<le> mQSize r \<and> mQSize r < 2 ^ 31 - 1 \<and> int (length xs) \<le> mQSize r + 1"

definition fr_rep :: "freader \<Rightarrow> addr list \<Rightarrow> bool" where
  "fr_rep r xs \<longleftrightarrow> fr_core r xs \<and> (0 < jobs r \<longrightarrow> int (length xs) \<le> mQSize r)"

lemma fr_coreD: "fr_core r xs \<Longrightarrow> x \<in> set xs \<Longrightarrow> \<exists>i b. infos r x = Some i \<and> bufs r (ibuf i) = Some b \<and> 0 < isize i \<and> nat (isize i) \<le> length b"
  by (simp add: fr_core_def)

lemma fr_size: "fr_core r xs \<Longrightarrow> EdObjList_size (mBufList r) = int (length xs)"
proof -
  assume r: "fr_core r xs"
  then have "int (length xs) < int (2 ^ 31)" by (simp add: fr_core_def)
  then have "length xs < 2 ^ 31" by (simp only: of_nat_less_iff)
  then show ?thesis using r ol_rep_size by (auto simp: fr_core_def)
qed

text \<open>What the kernel may answer to the next \<^verbatim>\<open>read\<close>: a count up to the block size and the rest of the file, and 0
  only at the end of the file.\<close>

definition read_ok :: "int \<Rightarrow> freader \<Rightarrow> bool" where
  "read_ok rcnt r \<longleftrightarrow> 0 \<le> rcnt \<and> rcnt \<le> mBlockSize r \<and> nat rcnt \<le> length (frest r) \<and> (rcnt = 0 \<longrightarrow> frest r = [])"

definition fresh :: "addr \<Rightarrow> addr \<Rightarrow> freader \<Rightarrow> bool" where
  "fresh a b r \<longleftrightarrow> ihdrs r a = None \<and> a \<noteq> NULL \<and> bufs r b = None"

lemma loadData_ok:
  assumes r: "fr_core r xs" and f: "fresh a b r" and k: "read_ok rcnt r" and n: "int (length xs) \<le> mQSize r"
  obtains r' ys where "EdBuffredFileReader_loadData a b rcnt r = Inr (rcnt, r')" "fr_core r' (xs @ ys)" "loaded r' (xs @ ys) @ frest r' = loaded r xs @ frest r"
    "ys = (if rcnt > 0 then [a] else [])" "jobs r' = jobs r" "mQSize r' = mQSize r" "mBlockSize r' = mBlockSize r" "mEof r' = (mEof r \<or> rcnt = 0)"
proof (cases "rcnt > 0")
  case True
  have nx: "a \<notin> set xs" using r f by (auto simp: fr_core_def fresh_def)
  have l: "ol_rep (EdObjList_allocObj (ihdrs r) a) (mBufList r) xs" "detached (EdObjList_allocObj (ihdrs r) a) a"
    using r f allocObj_rep allocObj_detached by (auto simp: fr_core_def fresh_def)
  obtain h l' where p: "EdObjList_push_back (EdObjList_allocObj (ihdrs r) a) (mBufList r) a = Some (h, l')" "ol_rep h l' (xs @ [a])"
    "ol_frame (insert a (set xs)) (EdObjList_allocObj (ihdrs r) a) (mBufList r) h l'" using l by (rule push_back_rep)
  let ?i = "\<lparr>ibuf = b, isize = rcnt, takeBuffer = False\<rparr>" and ?b = "take (nat rcnt) (frest r) @ replicate (nat (mBlockSize r) - nat rcnt) 0"
  let ?r = "r\<lparr>ihdrs := h, mBufList := l', infos := (infos r)(a \<mapsto> ?i), bufs := (bufs r)(b \<mapsto> ?b), frest := drop (nat rcnt) (frest r)\<rparr>"
  have nb: "ibuf (the (infos r x)) \<noteq> b" if "x \<in> set xs" for x using fr_coreD [OF r that] f by (auto simp: fresh_def)
  have d: "dom h = insert a (set xs)" using p(3) r by (auto simp: ol_frame_def fr_core_def EdObjList_allocObj_def)
  have i: "\<exists>i bb. infos ?r x = Some i \<and> bufs ?r (ibuf i) = Some bb \<and> 0 < isize i \<and> nat (isize i) \<le> length bb" if "x \<in> set (xs @ [a])" for x
  proof (cases "x = a")
    case False
    then have "x \<in> set xs" using that by simp
    then obtain i bb where "infos r x = Some i" "bufs r (ibuf i) = Some bb" "0 < isize i" "nat (isize i) \<le> length bb" using fr_coreD [OF r] by blast
    then show ?thesis using False nb [OF \<open>x \<in> set xs\<close>] by (intro exI [of _ i] exI [of _ bb]) simp
  qed (use True k in \<open>simp add: read_ok_def\<close>)
  have m: "map (\<lambda>x. ibuf (the (infos ?r x))) (xs @ [a]) = map (\<lambda>x. ibuf (the (infos r x))) xs @ [b]" using nx by auto
  have "distinct (map (\<lambda>x. ibuf (the (infos ?r x))) (xs @ [a]))" unfolding m using r nb by (auto simp: fr_core_def)
  then have rep: "fr_core ?r (xs @ [a])" using p(2) d i r n unfolding fr_core_def by (auto simp del: fun_upd_apply)
  have "loaded ?r xs = loaded r xs" using nx nb by (intro loaded_cong) auto
  moreover have "loaded ?r [a] = take (nat rcnt) (frest r)" using k by (simp add: loaded_def info_bytes_def read_ok_def)
  ultimately have "loaded ?r (xs @ [a]) @ frest ?r = loaded r xs @ frest r" by simp
  moreover have "EdBuffredFileReader_loadData a b rcnt r = Inr (rcnt, ?r)" using True p(1) by (simp add: EdBuffredFileReader_loadData_def Let_def)
  ultimately show thesis using rep True by (intro that [of ?r "[a]"]) simp_all
next
  case False
  then have z: "rcnt = 0" "frest r = []" using k by (auto simp: read_ok_def)
  have ih: "(ihdrs r)(a := None) = ihdrs r" using f by (auto simp: fresh_def)
  have bf: "(bufs r)(b := None) = bufs r" using f by (auto simp: fresh_def)
  have nx: "a \<notin> set xs" using r f by (auto simp: fr_core_def fresh_def)
  let ?r = "r\<lparr>infos := (infos r)(a := None), mEof := True\<rparr>"
  have "EdBuffredFileReader_loadData a b rcnt r = Inr (0, ?r)"
    using z ih bf by (simp add: EdBuffredFileReader_loadData_def EdObjList_allocObj_def EdObjList_freeObj_def)
  moreover have "map (\<lambda>x. ibuf (the (infos ?r x))) xs = map (\<lambda>x. ibuf (the (infos r x))) xs" using nx by (intro map_cong) auto
  then have "fr_core ?r xs" using r nx unfolding fr_core_def by (auto simp del: map_eq_conv)
  moreover have "loaded ?r xs = loaded r xs" using nx by (intro loaded_cong) auto
  ultimately show thesis using z by (intro that [of ?r "[]"]) simp_all
qed

text \<open>Taking the first block.\<close>

lemma pop_block:
  assumes r: "fr_core r (x # xs)"
  obtains h l h' i where "EdObjList_pop_front (ihdrs r) (mBufList r) = Some (x, h, l)" "x \<noteq> NULL" "infos r x = Some i" "EdObjList_freeObj h x = Some h'"
    "fr_core (r\<lparr>mBufList := l, ihdrs := h', infos := (infos r)(x := None)\<rparr>) xs" "0 < isize i"
    "info_bytes (bufs r) i @ loaded (r\<lparr>mBufList := l, ihdrs := h', infos := (infos r)(x := None)\<rparr>) xs = loaded r (x # xs)" "info_bytes (bufs r) i \<noteq> []"
proof -
  have l0: "ol_rep (ihdrs r) (mBufList r) (x # xs)" using r by (simp add: fr_core_def)
  obtain h l where p: "EdObjList_pop_front (ihdrs r) (mBufList r) = Some (x, h, l)" "ol_rep h l xs" "detached h x"
    "ol_frame (set (x # xs)) (ihdrs r) (mBufList r) h l" using l0 by (rule pop_front_rep)
  obtain i b where i: "infos r x = Some i" "bufs r (ibuf i) = Some b" "0 < isize i" "nat (isize i) \<le> length b" using fr_coreD [OF r, of x] by auto
  have nx: "x \<notin> set xs" using ol_rep_distinct [OF l0] by simp
  have x: "x \<noteq> NULL" "h x \<noteq> None" using p(3) by (auto simp: detached_def split: option.splits)
  then have f: "EdObjList_freeObj h x = Some (h(x := None))" by (auto simp: EdObjList_freeObj_def)
  let ?r = "r\<lparr>mBufList := l, ihdrs := h(x := None), infos := (infos r)(x := None)\<rparr>"
  have "dom h = dom (ihdrs r)" using p(4) by (simp add: ol_frame_def)
  moreover have "map (\<lambda>y. ibuf (the (infos ?r y))) xs = map (\<lambda>y. ibuf (the (infos r y))) xs" using nx by (intro map_cong) auto
  ultimately have "fr_core ?r xs" using r nx freeObj_rep [OF f nx p(2)] unfolding fr_core_def by (auto simp del: map_eq_conv)
  moreover have "loaded ?r xs = loaded r xs" using nx by (intro loaded_cong) auto
  moreover have "loaded r (x # xs) = info_bytes (bufs r) i @ loaded r xs" using i(1) by (simp add: loaded_def)
  moreover have "info_bytes (bufs r) i \<noteq> []" using i by (auto simp: info_bytes_def)
  ultimately show thesis using p(1) x(1) i(1,3) f by (intro that [of h l i]) simp_all
qed

lemma info_bytes_take [simp]: "info_bytes bs (i\<lparr>takeBuffer := t\<rparr>) = info_bytes bs i"
  by (simp add: info_bytes_def cong: option.case_cong)

lemma fr_core_raise [simp]: "fr_core (raise_job r) xs = fr_core r xs" "loaded (raise_job r) xs = loaded r xs" "frest (raise_job r) = frest r" "bufs (raise_job r) = bufs r"
  by (simp_all add: fr_core_def loaded_def raise_job_def)

lemma getData_ok:
  assumes r: "fr_rep r xs" and f: "fresh a b r" and k: "read_ok rcnt r"
  obtains i r' ys where "EdBuffredFileReader_getData a b rcnt r = Inr (i, r')" "fr_rep r' ys" "info_bytes (bufs r') i @ loaded r' ys @ frest r' = loaded r xs @ frest r"
    "info_bytes (bufs r') i = [] \<longleftrightarrow> loaded r xs @ frest r = []" "isize i = 0 \<longleftrightarrow> loaded r xs @ frest r = []"
proof -
  have c: "fr_core r xs" using r by (simp add: fr_rep_def)
  obtain r1 ys where r1: "(if EdObjList_size (mBufList r) = 0 then map_sum id snd (EdBuffredFileReader_loadData a b rcnt r) else Inr r) = Inr r1"
    "fr_core r1 ys" "loaded r1 ys @ frest r1 = loaded r xs @ frest r" "ys = [] \<longrightarrow> loaded r xs @ frest r = []" "jobs r1 = jobs r" "mQSize r1 = mQSize r"
    "xs \<noteq> [] \<longrightarrow> ys = xs" "length ys \<le> max 1 (length xs)"
  proof (cases "xs = []")
    case True
    have n: "int (length xs) \<le> mQSize r" using c True by (simp add: fr_core_def)
    obtain r1 zs where "EdBuffredFileReader_loadData a b rcnt r = Inr (rcnt, r1)" "fr_core r1 (xs @ zs)" "loaded r1 (xs @ zs) @ frest r1 = loaded r xs @ frest r"
      "zs = (if rcnt > 0 then [a] else [])" "jobs r1 = jobs r" "mQSize r1 = mQSize r" by (rule loadData_ok [OF c f k n])
    then show thesis using True fr_size [OF c] k by (intro that [of r1 zs]) (auto simp: read_ok_def split: if_splits)
  next
    case False
    then show thesis using fr_size [OF c] c by (intro that [of r xs]) auto
  qed
  show thesis
  proof (cases ys)
    case Nil
    have p: "EdObjList_pop_front (ihdrs r1) (mBufList r1) = Some (NULL, ihdrs r1, mBufList r1)" using r1(2) unfolding Nil fr_core_def by (blast intro: pop_front_empty)
    let ?i = "\<lparr>ibuf = NULL, isize = 0, takeBuffer = False\<rparr> :: EdBufferInfo"
    define r2 where "r2 = (if EdObjList_size (mBufList r1) \<le> mQSize r1 \<and> \<not> mEof r1 then raise_job r1 else r1)"
    have "EdBuffredFileReader_getData a b rcnt r = Inr (?i, r2)" using r1(1) p by (simp add: EdBuffredFileReader_getData_def r2_def)
    moreover have "fr_core r2 []" "loaded r2 [] @ frest r2 = []" "info_bytes (bufs r2) ?i = []" "mQSize r2 = mQSize r1"
      using r1(2,3,4) Nil by (auto simp: r2_def info_bytes_def split: option.splits) (simp add: raise_job_def)
    ultimately show thesis using r1(4) Nil by (intro that [of ?i r2 "[]"]) (auto simp: fr_rep_def fr_core_def)
  next
    case (Cons x zs)
    obtain h l h' i where p: "EdObjList_pop_front (ihdrs r1) (mBufList r1) = Some (x, h, l)" "x \<noteq> NULL" "infos r1 x = Some i" "EdObjList_freeObj h x = Some h'"
      "fr_core (r1\<lparr>mBufList := l, ihdrs := h', infos := (infos r1)(x := None)\<rparr>) zs" "0 < isize i"
      "info_bytes (bufs r1) i @ loaded (r1\<lparr>mBufList := l, ihdrs := h', infos := (infos r1)(x := None)\<rparr>) zs = loaded r1 (x # zs)" "info_bytes (bufs r1) i \<noteq> []"
      using r1(2) unfolding Cons by (rule pop_block)
    define r2 where "r2 = r1\<lparr>mBufList := l, ihdrs := h', infos := (infos r1)(x := None)\<rparr>"
    define r3 where "r3 = (if EdObjList_size (mBufList r2) \<le> mQSize r2 \<and> \<not> mEof r2 then raise_job r2 else r2)"
    have "EdBuffredFileReader_getData a b rcnt r = Inr (i\<lparr>takeBuffer := True\<rparr>, r3)"
      using r1(1) p(1-4) by (simp add: EdBuffredFileReader_getData_def r3_def r2_def Let_def)
    moreover have c3: "fr_core r3 zs" "info_bytes (bufs r3) (i\<lparr>takeBuffer := True\<rparr>) = info_bytes (bufs r1) i" "loaded r3 zs = loaded r2 zs" "frest r3 = frest r1"
      using p(5) by (simp_all add: r3_def r2_def)
    moreover have "info_bytes (bufs r1) i @ loaded r3 zs @ frest r3 = loaded r xs @ frest r"
      using p(7) r1(3) Cons c3(3,4) by (simp add: r2_def [symmetric] append_assoc [symmetric] del: append_assoc)
    moreover have "fr_rep r3 zs"
    proof -
      have s2: "EdObjList_size (mBufList r2) = int (length zs)" using fr_size [OF p(5)] by (simp add: r2_def)
      have "int (length zs) \<le> mQSize r" if "0 < jobs r" using r r1(7,8) Cons that by (cases "xs = []") (auto simp: fr_rep_def fr_core_def)
      then show ?thesis using c3(1) s2 r1(5,6) by (auto simp: fr_rep_def r3_def r2_def raise_job_def)
    qed
    moreover have "loaded r xs @ frest r \<noteq> []" using p(7,8) r1(3) Cons by auto
    ultimately show thesis using p(6,8) by (intro that [of "i\<lparr>takeBuffer := True\<rparr>" r3 zs]) simp_all
  qed
qed

lemma reader_event_ok:
  assumes r: "fr_rep r xs" and f: "fresh a b r" and k: "read_ok rcnt r"
  obtains r' ys where "reader_event a b rcnt r = Inr r'" "fr_rep r' ys" "loaded r' ys @ frest r' = loaded r xs @ frest r"
proof (cases "0 < jobs r")
  case True
  let ?r = "r\<lparr>jobs := 0, mIsScheduled := False\<rparr>"
  have c: "fr_core ?r xs" "fresh a b ?r" "read_ok rcnt ?r" "int (length xs) \<le> mQSize ?r" "loaded ?r xs = loaded r xs"
    using r f k True by (simp_all add: fr_rep_def fr_core_def fresh_def read_ok_def loaded_def)
  obtain r1 zs where r1: "EdBuffredFileReader_loadData a b rcnt ?r = Inr (rcnt, r1)" "fr_core r1 (xs @ zs)" "loaded r1 (xs @ zs) @ frest r1 = loaded ?r xs @ frest ?r"
    "jobs r1 = jobs ?r" "mQSize r1 = mQSize ?r" by (rule loadData_ok [OF c(1-4)])
  define r2 where "r2 = (if EdObjList_size (mBufList r1) < mQSize r1 \<and> rcnt > 0 then (raise_job r1)\<lparr>mIsScheduled := True\<rparr> else r1)"
  have "reader_event a b rcnt r = Inr r2" using True r1(1) by (simp add: reader_event_def load_job_def r2_def)
  moreover have "fr_rep r2 (xs @ zs)" using r1(2,4) fr_size [OF r1(2)] by (auto simp: r2_def fr_rep_def fr_core_def raise_job_def)
  moreover have "loaded r2 (xs @ zs) @ frest r2 = loaded r xs @ frest r" using r1(3) c(5) by (simp add: r2_def loaded_def raise_job_def)
  ultimately show thesis by (rule that)
next
  case False
  then show thesis using r that [of r xs] by (simp add: reader_event_def)
qed

lemma close_bufs_keeps_free: "close_bufs n r = Inr r' \<Longrightarrow> bufs r x = None \<Longrightarrow> bufs r' x = None"
proof (induction n arbitrary: r)
  case (Suc n)
  then show ?case by (auto simp: Let_def split: option.splits if_splits dest!: Suc.IH)
qed simp

text \<open>\<^verbatim>\<open>close\<close> frees every buffer once, and leaves every object of the list allocated.\<close>

lemma close_bufs_leaks:
  "ol_rep (ihdrs r) (mBufList r) xs \<Longrightarrow> (\<forall>x\<in>set xs. \<exists>i b. infos r x = Some i \<and> bufs r (ibuf i) = Some b) \<Longrightarrow>
   distinct (map (\<lambda>x. ibuf (the (infos r x))) xs) \<Longrightarrow> length xs < n \<Longrightarrow>
   \<exists>r'. close_bufs n r = Inr r' \<and> ol_rep (ihdrs r') (mBufList r') [] \<and> dom (ihdrs r') = dom (ihdrs r) \<and>
     (\<forall>x\<in>set xs. bufs r' (ibuf (the (infos r x))) = None)"
proof (induction xs arbitrary: r n)
  case Nil
  then obtain k where "n = Suc k" by (cases n) auto
  then show ?case using Nil(1) pop_front_empty [OF Nil(1)] by simp
next
  case (Cons x xs)
  then obtain k where k: "n = Suc k" "length xs < k" by (cases n) auto
  obtain h l where p: "EdObjList_pop_front (ihdrs r) (mBufList r) = Some (x, h, l)" "ol_rep h l xs" "detached h x"
    "ol_frame (set (x # xs)) (ihdrs r) (mBufList r) h l" using Cons.prems(1) by (rule pop_front_rep)
  have x: "x \<noteq> NULL" using p(3) by (simp add: detached_def)
  obtain i b where i: "infos r x = Some i" "bufs r (ibuf i) = Some b" using Cons.prems(2) by auto
  let ?r = "r\<lparr>ihdrs := h, mBufList := l, bufs := (bufs r)(ibuf i := None)\<rparr>"
  have run: "close_bufs n r = close_bufs k ?r" using p(1) x i by (simp add: k(1))
  have nb: "ibuf (the (infos r y)) \<noteq> ibuf i" if "y \<in> set xs" for y using Cons.prems(3) that i(1) by force
  have "\<forall>y\<in>set xs. \<exists>j b. infos ?r y = Some j \<and> bufs ?r (ibuf j) = Some b"
  proof
    fix y assume y: "y \<in> set xs"
    then obtain j c where "infos r y = Some j" "bufs r (ibuf j) = Some c" using Cons.prems(2) by auto
    then show "\<exists>j b. infos ?r y = Some j \<and> bufs ?r (ibuf j) = Some b" using nb [OF y] by auto
  qed
  then obtain r' where r': "close_bufs k ?r = Inr r'" "ol_rep (ihdrs r') (mBufList r') []" "dom (ihdrs r') = dom h"
    "\<forall>y\<in>set xs. bufs r' (ibuf (the (infos r y))) = None" using Cons.IH [of ?r k] p(2) Cons.prems(3) k(2) by auto
  moreover have "bufs r' (ibuf i) = None" using close_bufs_keeps_free [OF r'(1), of "ibuf i"] by simp
  moreover have "dom h = dom (ihdrs r)" using p(4) by (simp add: ol_frame_def)
  ultimately show ?case using run i(1) by auto
qed

section \<open>Properties\<close>

text \<open>What a reader goes through: the calls of \<^verbatim>\<open>getData\<close> and the events of its descriptor, in any order; \<open>d\<close> are the
  bytes handed out.\<close>

inductive reader_run :: "freader \<Rightarrow> u8 list \<Rightarrow> freader \<Rightarrow> bool" for r0 where
  run_start: "reader_run r0 [] r0"
| run_get: "reader_run r0 d r \<Longrightarrow> fresh a b r \<Longrightarrow> read_ok rcnt r \<Longrightarrow> EdBuffredFileReader_getData a b rcnt r = Inr (i, r') \<Longrightarrow>
    reader_run r0 (d @ info_bytes (bufs r') i) r'"
| run_event: "reader_run r0 d r \<Longrightarrow> fresh a b r \<Longrightarrow> read_ok rcnt r \<Longrightarrow> reader_event a b rcnt r = Inr r' \<Longrightarrow> reader_run r0 d r'"

lemma reader_run_inv: "reader_run r0 d r \<Longrightarrow> fr_rep r0 [] \<Longrightarrow> \<exists>xs. fr_rep r xs \<and> d @ loaded r xs @ frest r = frest r0"
proof (induction rule: reader_run.induct)
  case run_start
  then show ?case by (intro exI [of _ "[]"]) simp
next
  case (run_get d r a b rcnt i r')
  then obtain xs where xs: "fr_rep r xs" "d @ loaded r xs @ frest r = frest r0" by blast
  show ?case by (rule getData_ok [OF xs(1) run_get(2,3)]) (use run_get(4) xs(2) in force)
next
  case (run_event d r a b rcnt r')
  then obtain xs where xs: "fr_rep r xs" "d @ loaded r xs @ frest r = frest r0" by blast
  show ?case by (rule reader_event_ok [OF xs(1) run_event(2,3)]) (use run_event(4) xs(2) in force)
qed

text \<open>C37. A buffered reader hands out the bytes of the file, each once and in order, however the calls of
  \<^verbatim>\<open>getData\<close> and the events that load ahead interleave and however much each \<^verbatim>\<open>read\<close> returns: what was handed
  out, what is loaded and what is still in the file are always the file. At most one block more than
  the queue size is loaded. A call of \<^verbatim>\<open>getData\<close> always returns, with at least one byte until the whole
  file is handed out and with size 0 from then on.\<close>

theorem reader_stream:
  assumes run: "reader_run r0 d r" and init: "fr_rep r0 []" and f: "fresh a b r" and k: "read_ok rcnt r"
  shows "\<exists>xs i r'. d @ loaded r xs @ frest r = frest r0 \<and> ol_rep (ihdrs r) (mBufList r) xs \<and> int (length xs) \<le> mQSize r + 1 \<and>
     EdBuffredFileReader_getData a b rcnt r = Inr (i, r') \<and>
     (if d = frest r0 then isize i = 0 else info_bytes (bufs r') i \<noteq> [] \<and> (\<exists>more. d @ info_bytes (bufs r') i @ more = frest r0))"
proof -
  obtain xs where xs: "fr_rep r xs" "d @ loaded r xs @ frest r = frest r0" using reader_run_inv [OF run init] by blast
  obtain i r' ys where g: "EdBuffredFileReader_getData a b rcnt r = Inr (i, r')" "fr_rep r' ys" "info_bytes (bufs r') i @ loaded r' ys @ frest r' = loaded r xs @ frest r"
    "info_bytes (bufs r') i = [] \<longleftrightarrow> loaded r xs @ frest r = []" "isize i = 0 \<longleftrightarrow> loaded r xs @ frest r = []" by (rule getData_ok [OF xs(1) f k])
  have e: "d = frest r0 \<longleftrightarrow> loaded r xs @ frest r = []" unfolding xs(2) [symmetric] by simp
  moreover have "d @ info_bytes (bufs r') i @ (loaded r' ys @ frest r') = frest r0" using g(3) xs(2) by simp
  ultimately show ?thesis using xs g(1,4,5) by (intro exI [of _ xs] exI [of _ i] exI [of _ r']) (auto simp: fr_rep_def fr_core_def)
qed

definition reader0 :: "u8 list \<Rightarrow> freader" where
  "reader0 bs = \<lparr>mFile = EdFile_new {}, frest = bs, mBlockSize = 4096, mQSize = 2, mJobEvent = EdEvent_new 700 task_env, jobs = 0, ihdrs = Map.empty, infos = Map.empty,
     mBufList = EdObjList_new 600, bufs = Map.empty, mIsScheduled = False, mEof = False\<rparr>"

theorem reader_stream_witness:
  "\<exists>i r'. EdBuffredFileReader_getData 1000 2000 2 (reader0 [7, 8, 9]) = Inr (i, r') \<and> info_bytes (bufs r') i \<noteq> []"
proof -
  have h: "fr_rep (reader0 [7, 8, 9]) []" "fresh 1000 2000 (reader0 [7, 8, 9])" "read_ok 2 (reader0 [7, 8, 9])"
    by (simp_all add: fr_rep_def fr_core_def reader0_def ol_rep_new fresh_def read_ok_def)
  have "[] \<noteq> frest (reader0 [7, 8, 9])" by (simp add: reader0_def)
  with reader_stream [OF run_start h] show ?thesis by auto
qed

text \<open>\<^verbatim>\<open>splitFileName\<close> splits at the last dot: it takes apart exactly what joining a name and an extension
  without a dot puts together, a name without a dot has no extension, and the two parts of a name
  with a dot give it back.\<close>

theorem split_file_name:
  "(CHR ''.'' \<notin> set e \<longrightarrow> EdFile_splitFileName (n @ ''.'' @ e) = (n, e)) \<and> (CHR ''.'' \<notin> set n \<longrightarrow> EdFile_splitFileName n = (n, [])) \<and>
   (CHR ''.'' \<in> set s \<longrightarrow> (case EdFile_splitFileName s of (a, b) \<Rightarrow> a @ ''.'' @ b = s \<and> CHR ''.'' \<notin> set b))"
proof (intro conjI impI)
  show "EdFile_splitFileName (n @ ''.'' @ e) = (n, e)" if "CHR ''.'' \<notin> set e"
    using last_dot_Some [OF that, of n] by (simp add: EdFile_splitFileName_def)
  show "EdFile_splitFileName n = (n, [])" if "CHR ''.'' \<notin> set n" using that last_dot_None [of n] by (simp add: EdFile_splitFileName_def)
  show "case EdFile_splitFileName s of (a, b) \<Rightarrow> a @ ''.'' @ b = s \<and> CHR ''.'' \<notin> set b" if d: "CHR ''.'' \<in> set s"
  proof -
    obtain m b where "s = m @ CHR ''.'' # b" "CHR ''.'' \<notin> set b" using split_list_last [OF d] by blast
    then show ?thesis using last_dot_Some [of b m] by (simp add: EdFile_splitFileName_def)
  qed
qed

theorem split_file_name_witness: "EdFile_splitFileName ''a.tar.gz'' = (''a.tar'', ''gz'')"
  using split_file_name [of "''gz''" "''a.tar''" "[]"] by simp

end
