(* ===== verification/EdSslSock.thy ===== *)
theory EdSslSock
  imports EdSmart
begin

text \<open>edssl/EdSSLSocket.cpp: a socket with an SSL session of its own. The SSL library is outside: the result
  of its last call and the error code are arguments as in \<^verbatim>\<open>EdSmartSocket\<close>. \<open>sessions\<close> are the allocated \<^verbatim>\<open>SSL\<close>
  objects; a call of the library on anything else is a fault, and \<^verbatim>\<open>SSL_new\<close> without a context returns
  null. The methods of \<^verbatim>\<open>EdSocket\<close> are not virtual except for the \<^verbatim>\<open>On\<close> methods: its event handlers call
  \<^verbatim>\<open>EdSocket::close\<close> and not the \<^verbatim>\<open>close\<close> here.\<close>

section \<open>State and operations\<close>

datatype ssl_event = SSL_EVENT_DISCONNECTED | SSL_EVENT_CONNECTED | SSL_EVENT_READ | SSL_EVENT_WRITE

record sslsock = sst +
  xSSL :: addr
  xSSLCtx :: addr
  xSessionConencted :: bool
  xSSLCallback :: bool
  xIsSSLServer :: bool
  sessions :: "addr set"

type_synonym ssl_lis = "ssl_event \<Rightarrow> sslsock \<Rightarrow> fault + sslsock"

definition EdSSLSocket_new :: "addr \<Rightarrow> evsys \<Rightarrow> thread_env \<Rightarrow> sslsock" where
  "EdSSLSocket_new self w cur = \<lparr>sk = EdSocket_new self cur, sw = w, lastSockErrorNo = 0, xSSL = NULL, xSSLCtx = NULL,
     xSessionConencted = False, xSSLCallback = False, xIsSSLServer = False, sessions = {}\<rparr>"

definition EdSSLSocket_setOnSSLListener :: "bool \<Rightarrow> sslsock \<Rightarrow> sslsock" where
  "EdSSLSocket_setOnSSLListener cb s = s\<lparr>xSSLCallback := cb\<rparr>"

text \<open>\<^verbatim>\<open>OnSSLConnected\<close>, \<^verbatim>\<open>OnSSLDisconnected\<close> and \<^verbatim>\<open>OnSSLRead\<close>.\<close>

definition ssl_notify :: "ssl_lis \<Rightarrow> ssl_event \<Rightarrow> sslsock \<Rightarrow> fault + sslsock" where
  "ssl_notify lis ev s = (if xSSLCallback s then lis ev s else Inr s)"

text \<open>A call of the SSL library on the session, and \<^verbatim>\<open>SSL_new\<close>.\<close>

definition ssl_call :: "sslsock \<Rightarrow> fault + sslsock" where
  "ssl_call s = (if xSSL s \<in> sessions s then Inr s else Inl Bad_access)"

definition ssl_create :: "ssl_in \<Rightarrow> sslsock \<Rightarrow> fault + sslsock" where
  "ssl_create i s =
     (let p = (if xSSLCtx s = NULL then NULL else sslnew i)
      in ssl_call (s\<lparr>xSSL := p, sessions := if p = NULL then sessions s else insert p (sessions s)\<rparr>))"

definition EdSSLSocket_close :: "env \<Rightarrow> sslsock \<Rightarrow> fault + sslsock" where
  "EdSSLSocket_close v s =
     bindr (if xSSL s \<noteq> NULL
            then bindr (ssl_call s) (\<lambda>s.
                 Inr (s\<lparr>sessions := sessions s - {xSSL s}, xSSL := NULL, xSSLCtx := NULL, xSessionConencted := False\<rparr>))
            else Inr s) (EdSocket_close v)"

definition EdSSLSocket_changeSSLSockEvent :: "env \<Rightarrow> int \<Rightarrow> sslsock \<Rightarrow> fault + sslsock" where
  "EdSSLSocket_changeSSLSockEvent v err s =
     (if err = SSL_ERROR_WANT_WRITE then sk_changeEvent v EVT_WRITE s
      else if err = SSL_ERROR_WANT_READ then sk_changeEvent v EVT_READ s
      else Inr s)"

definition EdSSLSocket_procSSLErrCloseNeedEnd :: "ssl_lis \<Rightarrow> env \<Rightarrow> sslsock \<Rightarrow> fault + sslsock" where
  "EdSSLSocket_procSSLErrCloseNeedEnd lis v s =
     bindr (task_error EINPROGRESS s) (\<lambda>s.
     bindr (ssl_notify lis SSL_EVENT_DISCONNECTED s) (\<lambda>s.
     if lastSockErrorNo s \<noteq> 0 then EdSSLSocket_close v s else Inr s))"

definition EdSSLSocket_procSSLConnect :: "ssl_lis \<Rightarrow> env \<Rightarrow> ssl_in \<Rightarrow> sslsock \<Rightarrow> fault + sslsock" where
  "EdSSLSocket_procSSLConnect lis v i s =
     bindr (ssl_call s) (\<lambda>s.
     if sslret i = 1 then ssl_notify lis SSL_EVENT_CONNECTED (s\<lparr>xSessionConencted := True\<rparr>)
     else if sslret i = 0 then EdSSLSocket_procSSLErrCloseNeedEnd lis v s
     else if sslerr i = SSL_ERROR_SSL then EdSSLSocket_procSSLErrCloseNeedEnd lis v s
     else bindr (EdSSLSocket_changeSSLSockEvent v (sslerr i) s) (\<lambda>s.
          if sslerr i = SSL_ERROR_ZERO_RETURN \<or> sslerr i = SSL_ERROR_SYSCALL
          then EdSSLSocket_procSSLErrCloseNeedEnd lis v s
          else task_error 0 s))"

definition EdSSLSocket_sslAccept :: "ssl_lis \<Rightarrow> env \<Rightarrow> ssl_in \<Rightarrow> sslsock \<Rightarrow> fault + sslsock" where
  "EdSSLSocket_sslAccept lis v i s = EdSSLSocket_procSSLConnect lis v i s"

definition EdSSLSocket_startHandshake :: "ssl_lis \<Rightarrow> env \<Rightarrow> ssl_in \<Rightarrow> sslsock \<Rightarrow> fault + sslsock" where
  "EdSSLSocket_startHandshake lis v i s =
     (if xSSL s = NULL \<and> \<not> xSessionConencted s
      then bindr (ssl_create i s) (EdSSLSocket_procSSLConnect lis v i) else Inr s)"

definition EdSSLSocket_procSSLRead :: "ssl_lis \<Rightarrow> env \<Rightarrow> ssl_in \<Rightarrow> sslsock \<Rightarrow> fault + sslsock" where
  "EdSSLSocket_procSSLRead lis v i s =
     (if \<not> xSessionConencted s then EdSSLSocket_procSSLConnect lis v i s else ssl_notify lis SSL_EVENT_READ s)"

text \<open>\<^verbatim>\<open>recv\<close> and \<^verbatim>\<open>send\<close> with the results of \<^verbatim>\<open>SSL_read\<close> and \<^verbatim>\<open>SSL_write\<close>.\<close>

definition EdSSLSocket_recv :: "env \<Rightarrow> ssl_in \<Rightarrow> sslsock \<Rightarrow> fault + (int \<times> sslsock)" where
  "EdSSLSocket_recv v i s =
     bindr (ssl_call s) (\<lambda>s.
     if sslret i < 0
     then bindr (EdSSLSocket_changeSSLSockEvent v (sslerr i) s) (\<lambda>s.
          bindr (if sslerr i = SSL_ERROR_ZERO_RETURN then task_error EINPROGRESS s else Inr s) (\<lambda>s. Inr (- 1, s)))
     else if sslret i = 0 then bindr (task_error EINPROGRESS s) (\<lambda>s. Inr (0, s))
     else bindr (task_error 0 s) (\<lambda>s. Inr (sslret i, s)))"

definition EdSSLSocket_send :: "env \<Rightarrow> ssl_in \<Rightarrow> sslsock \<Rightarrow> fault + (int \<times> sslsock)" where
  "EdSSLSocket_send v i s =
     bindr (ssl_call s) (\<lambda>s.
     bindr (if sslret i \<le> 0 then EdSSLSocket_changeSSLSockEvent v (sslerr i) s else Inr s) (\<lambda>s. Inr (sslret i, s)))"

text \<open>Opening; \<open>ctx\<close> is the context given, null for the default one. \<open>init\<close> is \<^verbatim>\<open>EdSSLIsInit()\<close>.\<close>

definition EdSSLSocket_openSSLChildSock :: "env \<Rightarrow> ssl_in \<Rightarrow> int \<Rightarrow> addr \<Rightarrow> sslsock \<Rightarrow> fault + sslsock" where
  "EdSSLSocket_openSSLChildSock v i fd ctx s =
     bindr (EdSocket_openChildSock v fd None s) (\<lambda>s.
     ssl_create i (s\<lparr>xIsSSLServer := True, xSSLCtx := if ctx = NULL then sslctx i else ctx\<rparr>))"

definition EdSSLSocket_openSSLClientSock :: "env \<Rightarrow> ssl_in \<Rightarrow> int \<Rightarrow> addr \<Rightarrow> sslsock \<Rightarrow> fault + (int \<times> sslsock)" where
  "EdSSLSocket_openSSLClientSock v i fd ctx s =
     bindr (EdSocket_openSock v SOCK_TYPE_TCP fd None s) (\<lambda>(fd, s).
     if fd < 0 then Inr (fd, s)
     else Inr (fd, s\<lparr>xSSLCtx := if ctx = NULL then sslctx i else ctx, xIsSSLServer := False\<rparr>))"

definition EdSSLSocket_connect :: "env \<Rightarrow> bool \<Rightarrow> int \<Rightarrow> int \<Rightarrow> sslsock \<Rightarrow> fault + (int \<times> sslsock)" where
  "EdSSLSocket_connect v init fd cret s = (if \<not> init then Inl Assert_failed else EdSocket_connect_ip v fd cret None s)"

text \<open>The virtual methods: \<^verbatim>\<open>OnRead\<close>, \<^verbatim>\<open>OnWrite\<close>, \<^verbatim>\<open>OnConnected\<close>, \<^verbatim>\<open>OnDisconnected\<close>, and \<^verbatim>\<open>OnIncomingConnection\<close> of the
  base class.\<close>

definition EdSSLSocket_OnDisconnected :: "ssl_lis \<Rightarrow> env \<Rightarrow> sslsock \<Rightarrow> fault + sslsock" where
  "EdSSLSocket_OnDisconnected lis v s = bindr (EdSSLSocket_close v s) (ssl_notify lis SSL_EVENT_DISCONNECTED)"

definition EdSSLSocket_OnWrite :: "sslsock \<Rightarrow> fault + sslsock" where
  "EdSSLSocket_OnWrite s = Inr s"

definition EdSSLSocket_vm :: "ssl_lis \<Rightarrow> env \<Rightarrow> ssl_in \<Rightarrow> sock_event \<Rightarrow> sslsock \<Rightarrow> fault + sslsock" where
  "EdSSLSocket_vm lis v i ev s =
     (case ev of
        SOCK_EVENT_READ \<Rightarrow> EdSSLSocket_procSSLRead lis v i s
      | SOCK_EVENT_WRITE \<Rightarrow> EdSSLSocket_OnWrite s
      | SOCK_EVENT_CONNECTED \<Rightarrow> EdSSLSocket_startHandshake lis v i s
      | SOCK_EVENT_DISCONNECTED \<Rightarrow> EdSSLSocket_OnDisconnected lis v s
      | SOCK_EVENT_INCOMING_ACCEPT \<Rightarrow> EdSocket_vm (\<lambda>_ _. Inr) SOCK_EVENT_INCOMING_ACCEPT s)"

section \<open>Sessions\<close>

text \<open>The session of the socket is the only one allocated.\<close>

definition ssl_inv :: "sslsock \<Rightarrow> bool" where
  "ssl_inv s \<longleftrightarrow> sessions s = (if xSSL s = NULL then {} else {xSSL s}) \<and> (xSessionConencted s \<longrightarrow> xSSL s \<noteq> NULL)"

text \<open>A registered socket has no session and a context while it connects, and a session afterwards; a closed
  socket has none.\<close>

definition ssl_phase :: "sslsock \<Rightarrow> bool" where
  "ssl_phase s \<longleftrightarrow> \<not> mIsListen (sk s) \<and> (if mStatus (sk s) = SOCK_STATUS_CONNECTING then xSSL s = NULL \<and> xSSLCtx s \<noteq> NULL else xSSL s \<noteq> NULL)"

definition ssl_st :: "env \<Rightarrow> sslsock \<Rightarrow> bool" where
  "ssl_st v s \<longleftrightarrow> sock_st v s \<and> ssl_inv s \<and> (mEvt (sk s) \<noteq> NULL \<longrightarrow> ssl_phase s) \<and> (sk_gone (sk s) \<longrightarrow> xSSL s = NULL)"

lemma ssl_more:
  "sst.more s = sst.more t \<Longrightarrow> ssl_inv s = ssl_inv t \<and> xSSL s = xSSL t \<and> xSSLCtx s = xSSLCtx t \<and> sessions s = sessions t \<and>
     xSSLCallback s = xSSLCallback t \<and> xSessionConencted s = xSessionConencted t" for s t :: sslsock
  by (cases s, cases t) (simp add: ssl_inv_def)

lemma gone_simps: "sk_gone e \<Longrightarrow> mEvt e = NULL \<and> mFd e < 0"
  by (simp add: sk_gone_def ev_off_def)

lemma ssl_close_ok:
  assumes "sock_st v s" "ssl_inv s"
  shows "\<exists>s'. EdSSLSocket_close v s = Inr s' \<and> ssl_st v s' \<and> sk_gone (sk s') \<and> sessions s' = {} \<and> xSSLCallback s' = xSSLCallback s"
proof -
  define t where "t = (if xSSL s \<noteq> NULL then s\<lparr>sessions := sessions s - {xSSL s}, xSSL := NULL, xSSLCtx := NULL, xSessionConencted := False\<rparr> else s)"
  have t: "sock_st v t" "ssl_inv t" "xSSL t = NULL" "sessions t = {}" "xSSLCallback t = xSSLCallback s"
    using assms by (auto simp: t_def sock_st_def sys_ok_def ssl_inv_def)
  obtain s1 where s1: "EdSocket_close v t = Inr s1" "sock_st v s1" "sk_gone (sk s1)" "sst.more s1 = sst.more t" using close_st [OF t(1)] by blast
  have "EdSSLSocket_close v s = Inr s1" using s1(1) assms(2) by (auto simp: EdSSLSocket_close_def t_def ssl_call_def ssl_inv_def)
  moreover have "ssl_st v s1" using s1(2,3) ssl_more [OF s1(4)] t gone_simps [OF s1(3)] by (simp add: ssl_st_def)
  ultimately show ?thesis using s1(3) ssl_more [OF s1(4)] t by auto
qed

text \<open>The state in which the handshake runs: registered, connected, with a session.\<close>

definition in_session :: "env \<Rightarrow> sslsock \<Rightarrow> bool" where
  "in_session v s \<longleftrightarrow> sock_live v s \<and> ssl_inv s \<and> xSSL s \<noteq> NULL \<and> \<not> mIsListen (sk s) \<and> mStatus (sk s) \<noteq> SOCK_STATUS_CONNECTING"

lemma in_session_st: "in_session v s \<Longrightarrow> ssl_st v s"
  by (auto simp: in_session_def ssl_st_def ssl_phase_def sock_live_def sock_st_def sk_live_def sk_gone_def)

lemma in_session_upd [simp]:
  "in_session v (s\<lparr>lastSockErrorNo := n\<rparr>) = in_session v s" "in_session v (s\<lparr>xSessionConencted := True\<rparr>) = in_session v s"
  by (auto simp: in_session_def sock_live_def sys_ok_def ssl_inv_def)

lemma in_session_call: "in_session v s \<Longrightarrow> ssl_call s = Inr s" "in_session v s \<Longrightarrow> task_error n s = Inr (s\<lparr>lastSockErrorNo := n\<rparr>)"
  using task_error_live [of v s n] by (simp_all add: in_session_def ssl_call_def ssl_inv_def)

text \<open>Opening a closed socket on an accepted descriptor starts a session.\<close>

lemma openSSLChildSock_ok:
  assumes sys: "sys_ok v s es ds" and gone: "sk_gone (sk s)" and inv: "ssl_inv s" "xSSL s = NULL" "\<not> mIsListen (sk s)"
    and a: "ehdrs (sw s) (eaddr v) = None" "eaddr v \<noteq> NULL" and fd: "0 < fd" and c: "ctx \<noteq> NULL" "sslnew i \<noteq> NULL"
  obtains s' where "EdSSLSocket_openSSLChildSock v i fd ctx s = Inr s'" "in_session v s'" "\<not> xSessionConencted s'" "xIsSSLServer s'"
    "xSSLCallback s' = xSSLCallback s"
proof -
  have off: "ev_off (sk s)" using gone by (simp add: sk_gone_def)
  show thesis
  proof (rule openChild_ok [OF sys off a fd])
    let ?k = "(child_sock v fd (sk s))\<lparr>mEvt := eaddr v, mIsReg := True, interest := EVT_READ OR EVT_HANGUP\<rparr>"
    fix w' assume o: "EdSocket_openChildSock v fd None s = Inr (s\<lparr>sk := ?k, sw := w'\<rparr>)" "ev_rep w' (es @ [eaddr v]) ds" "cmode w' = cmode (sw s)"
    let ?t = "s\<lparr>sk := ?k, sw := w', xIsSSLServer := True, xSSLCtx := ctx, xSSL := sslnew i, sessions := insert (sslnew i) (sessions s)\<rparr>"
    have "EdSSLSocket_openSSLChildSock v i fd ctx s = Inr ?t" using c o(1) by (simp add: EdSSLSocket_openSSLChildSock_def ssl_create_def ssl_call_def Let_def)
    moreover have "sk_live v (eaddr v) (sk ?t)" using sys a(2) fd by (simp add: sk_live_def ev_on_def sys_ok_def env_ok_def)
    moreover have "sys_ok v ?t (es @ [eaddr v]) ds" using o(2,3) sys by (simp add: sys_ok_def env_ok_def)
    ultimately show thesis using inv c(2) sock_liveI [of v ?t "es @ [eaddr v]" ds "eaddr v"]
      by (intro that [of ?t]) (simp_all add: in_session_def ssl_inv_def)
  qed
qed

section \<open>Listeners\<close>

text \<open>What the socket relies on of its callback: it returns, keeps the state in order and does not open the
  socket again when it is told of the disconnection of a closed one.\<close>

locale ssl_listener =
  fixes lis :: ssl_lis and v :: env
  assumes lis_law: "ssl_st v s \<Longrightarrow> \<exists>s'. lis ev s = Inr s' \<and> ssl_st v s' \<and> (sk_gone (sk s) \<longrightarrow> sk_gone (sk s'))"
begin

lemma notify_ok: "ssl_st v s \<Longrightarrow> \<exists>s'. ssl_notify lis ev s = Inr s' \<and> ssl_st v s' \<and> (sk_gone (sk s) \<longrightarrow> sk_gone (sk s'))"
  using lis_law [of s ev] by (simp add: ssl_notify_def)

lemma errClose_ok:
  assumes "in_session v s"
  shows "\<exists>s'. EdSSLSocket_procSSLErrCloseNeedEnd lis v s = Inr s' \<and> ssl_st v s'"
proof -
  have "ssl_st v (s\<lparr>lastSockErrorNo := EINPROGRESS\<rparr>)" using assms by (simp add: in_session_st)
  then obtain s1 where s1: "ssl_notify lis SSL_EVENT_DISCONNECTED (s\<lparr>lastSockErrorNo := EINPROGRESS\<rparr>) = Inr s1" "ssl_st v s1" using notify_ok by blast
  then have "sock_st v s1" "ssl_inv s1" by (simp_all add: ssl_st_def)
  from ssl_close_ok [OF this] s1 in_session_call [OF assms] show ?thesis by (auto simp: EdSSLSocket_procSSLErrCloseNeedEnd_def)
qed

lemma changeSSL_ok:
  assumes "in_session v s"
  shows "\<exists>s'. EdSSLSocket_changeSSLSockEvent v err s = Inr s' \<and> in_session v s'"
proof -
  have "\<exists>s'. sk_changeEvent v fl s = Inr s' \<and> in_session v s'" for fl
  proof -
    obtain es ds p where st: "sys_ok v s es ds" "sk_live v p (sk s)" "p \<in> set es" using assms by (auto simp: in_session_def sock_live_def)
    have l: "sys_ok v (s\<lparr>sk := (sk s)\<lparr>interest := fl\<rparr>\<rparr>) es ds" "sk_live v p (sk (s\<lparr>sk := (sk s)\<lparr>interest := fl\<rparr>\<rparr>))" using st by (simp_all add: sk_live_def)
    show ?thesis using change_live [OF st, of fl] assms sock_liveI [OF l st(3)] by (simp add: in_session_def ssl_inv_def)
  qed
  then show ?thesis using assms by (simp add: EdSSLSocket_changeSSLSockEvent_def)
qed

lemma connect_step_ok:
  assumes "in_session v s"
  shows "\<exists>s'. EdSSLSocket_procSSLConnect lis v i s = Inr s' \<and> ssl_st v s'"
proof -
  obtain s2 where s2: "EdSSLSocket_changeSSLSockEvent v (sslerr i) s = Inr s2" "in_session v s2" using changeSSL_ok [OF assms] by blast
  have "ssl_st v (s\<lparr>xSessionConencted := True\<rparr>)" "ssl_st v (s2\<lparr>lastSockErrorNo := 0\<rparr>)" using assms s2(2) by (simp_all add: in_session_st)
  then show ?thesis using in_session_call(1) [OF assms] in_session_call(2) [OF s2(2)] s2(1) errClose_ok [OF assms] errClose_ok [OF s2(2)] notify_ok
    by (simp add: EdSSLSocket_procSSLConnect_def) blast
qed

lemma disc_ok:
  assumes "sock_st v s" "ssl_inv s"
  shows "\<exists>s'. EdSSLSocket_OnDisconnected lis v s = Inr s' \<and> ssl_st v s' \<and> sk_gone (sk s')"
proof -
  obtain s1 where s1: "EdSSLSocket_close v s = Inr s1" "ssl_st v s1" "sk_gone (sk s1)" using ssl_close_ok [OF assms] by blast
  then show ?thesis using notify_ok [OF s1(2)] by (auto simp: EdSSLSocket_OnDisconnected_def)
qed

lemma read_event_ok:
  assumes "in_session v s"
  shows "\<exists>s'. EdSocket_OnEventRead (EdSSLSocket_vm lis v i) v s = Inr s' \<and> ssl_st v s'"
proof -
  let ?s = "upd_sk (\<lambda>e. e\<lparr>mRaiseDisconnect := 0\<rparr>) s"
  obtain es ds p where st: "sys_ok v s es ds" "sk_live v p (sk s)" "p \<in> set es" using assms by (auto simp: in_session_def sock_live_def)
  have "sys_ok v ?s es ds" "sk_live v p (sk ?s)" using st by (simp_all add: sk_live_def)
  then have "sock_live v ?s" using st(3) by (rule sock_liveI)
  then have i: "in_session v ?s" using assms ssl_more [of ?s s] by (simp add: in_session_def)
  then obtain s1 where s1: "EdSSLSocket_procSSLRead lis v i ?s = Inr s1" "ssl_st v s1"
    using connect_step_ok [OF i, of i] notify_ok [OF in_session_st [OF i], of SSL_EVENT_READ] by (cases "xSessionConencted ?s") (auto simp: EdSSLSocket_procSSLRead_def)
  then have "sock_st v s1" "ssl_inv s1" by (simp_all add: ssl_st_def)
  then obtain s2 where s2: "EdSSLSocket_OnDisconnected lis v s1 = Inr s2" "ssl_st v s2" "sk_gone (sk s2)" using disc_ok by blast
  then obtain es ds where sys: "sys_ok v s2 es ds" by (auto simp: ssl_st_def sock_st_def)
  have "ssl_st v (upd_sk (\<lambda>e. e\<lparr>mIsBinded := False\<rparr>) s2)"
    using s2(2,3) ssl_more [of "upd_sk (\<lambda>e. e\<lparr>mIsBinded := False\<rparr>) s2" s2] sock_stI(3) [of v "upd_sk (\<lambda>e. e\<lparr>mIsBinded := False\<rparr>) s2" es ds] sys
    by (simp add: ssl_st_def sk_gone_def ev_off_def)
  then show ?thesis using assms s1 s2 close_gone [OF sys s2(3)] by (auto simp: EdSocket_OnEventRead_def EdSSLSocket_vm_def in_session_def)
qed

lemma hangup_event_ok:
  assumes "ssl_st v s"
  shows "\<exists>s'. EdSocket_OnEventHangup (EdSSLSocket_vm lis v i) v s = Inr s' \<and> ssl_st v s' \<and> sk_gone (sk s')"
proof -
  have st: "sock_st v s" "ssl_inv s" using assms by (simp_all add: ssl_st_def)
  obtain s1 where s1: "EdSocket_close v s = Inr s1" "sock_st v s1" "sst.more s1 = sst.more s" using close_st [OF st(1)] by blast
  then have "ssl_inv s1" using ssl_more st(2) by blast
  then show ?thesis using s1(1) disc_ok [OF s1(2)] by (auto simp: EdSocket_OnEventHangup_def EdSSLSocket_vm_def)
qed

lemma write_event_ok:
  assumes st: "ssl_st v s" and live: "sock_live v s" and new: "sslnew i \<noteq> NULL"
  shows "\<exists>s'. EdSocket_OnEventWrite (EdSSLSocket_vm lis v i) v err s = Inr s' \<and> ssl_st v s'"
proof (cases "mStatus (sk s) = SOCK_STATUS_CONNECTING \<and> err = 0")
  case True
  obtain es ds p where l: "sys_ok v s es ds" "sk_live v p (sk s)" "p \<in> set es" using live by (auto simp: sock_live_def)
  let ?s = "upd_sk (\<lambda>e. e\<lparr>mStatus := SOCK_STATUS_CONNECTED\<rparr>) s"
  let ?s1 = "?s\<lparr>sk := (sk ?s)\<lparr>interest := EVT_READ OR EVT_HANGUP\<rparr>\<rparr>"
  have l1: "sys_ok v ?s es ds" "sk_live v p (sk ?s)" using l by (simp_all add: sk_live_def)
  have "sys_ok v ?s1 es ds" "sk_live v p (sk ?s1)" using l1 by (simp_all add: sk_live_def)
  then have lv: "sock_live v ?s1" using l(3) by (rule sock_liveI)
  have "mEvt (sk s) \<noteq> NULL" using l(2) by (auto simp: sk_live_def ev_on_def)
  then have ph: "xSSL s = NULL" "xSSLCtx s \<noteq> NULL" "\<not> mIsListen (sk s)" "ssl_inv s" using st True by (simp_all add: ssl_st_def ssl_phase_def)
  let ?s2 = "?s1\<lparr>xSSL := sslnew i, sessions := insert (sslnew i) (sessions ?s1)\<rparr>"
  have f: "xSSL ?s1 = NULL" "xSSLCtx ?s1 \<noteq> NULL" "ssl_inv ?s1" "\<not> xSessionConencted ?s1" using ph ssl_more [of ?s1 s] by (simp_all add: ssl_inv_def)
  have "sock_live v ?s2" using lv by (simp add: sock_live_def sys_ok_def)
  then have i: "in_session v ?s2" using f new ph(3) by (simp add: in_session_def ssl_inv_def)
  have c: "ssl_create i ?s1 = Inr ?s2" using f new by (simp add: ssl_create_def ssl_call_def Let_def)
  have "EdSocket_OnEventWrite (EdSSLSocket_vm lis v i) v err s = EdSSLSocket_procSSLConnect lis v i ?s2"
    using True change_live [OF l1 l(3)] c f by (simp add: EdSocket_OnEventWrite_def EdSSLSocket_vm_def EdSSLSocket_startHandshake_def)
  then show ?thesis using connect_step_ok [OF i] by simp
next
  case False
  have h: "\<exists>s'. EdSocket_OnEventHangup (EdSSLSocket_vm lis v i) v s = Inr s' \<and> ssl_st v s'" using hangup_event_ok [OF st] by blast
  show ?thesis using False h st by (auto simp: EdSocket_OnEventWrite_def EdSocket_OnEventHangup_def EdSSLSocket_vm_def EdSSLSocket_OnWrite_def)
qed

end

text \<open>A callback that closes the socket when the session ends or, if \<open>reads\<close>, when its data has been read.\<close>

definition closing_listener :: "env \<Rightarrow> bool \<Rightarrow> ssl_lis" where
  "closing_listener v reads ev s =
     (case ev of
        SSL_EVENT_DISCONNECTED \<Rightarrow> EdSSLSocket_close v s
      | SSL_EVENT_READ \<Rightarrow> if reads then EdSSLSocket_close v s else Inr s
      | _ \<Rightarrow> Inr s)"

interpretation closing: ssl_listener "closing_listener v reads" v for v reads
proof
  fix s ev assume st: "ssl_st v s"
  then have "sock_st v s" "ssl_inv s" by (simp_all add: ssl_st_def)
  from ssl_close_ok [OF this] st
  show "\<exists>s'. closing_listener v reads ev s = Inr s' \<and> ssl_st v s' \<and> (sk_gone (sk s) \<longrightarrow> sk_gone (sk s'))"
    by (cases ev) (auto simp: closing_listener_def)
qed

section \<open>Runs of events\<close>

text \<open>Events of a registered socket, as epoll reports them: no read event while it connects. Every event
  comes with what the library answers.\<close>

inductive ssl_events :: "ssl_lis \<Rightarrow> env \<Rightarrow> sslsock \<Rightarrow> sslsock \<Rightarrow> bool" for lis v s where
  ev_none: "ssl_events lis v s s"
| ev_read: "ssl_events lis v s s1 \<Longrightarrow> sock_live v s1 \<Longrightarrow> mStatus (sk s1) \<noteq> SOCK_STATUS_CONNECTING \<Longrightarrow>
    EdSocket_OnEventRead (EdSSLSocket_vm lis v i) v s1 = Inr s2 \<Longrightarrow> ssl_events lis v s s2"
| ev_write: "ssl_events lis v s s1 \<Longrightarrow> sock_live v s1 \<Longrightarrow> sslnew i \<noteq> NULL \<Longrightarrow>
    EdSocket_OnEventWrite (EdSSLSocket_vm lis v i) v err s1 = Inr s2 \<Longrightarrow> ssl_events lis v s s2"
| ev_hangup: "ssl_events lis v s s1 \<Longrightarrow> sock_live v s1 \<Longrightarrow>
    EdSocket_OnEventHangup (EdSSLSocket_vm lis v i) v s1 = Inr s2 \<Longrightarrow> ssl_events lis v s s2"

lemma live_session:
  assumes "ssl_st v s" "sock_live v s" "mStatus (sk s) \<noteq> SOCK_STATUS_CONNECTING"
  shows "in_session v s"
proof -
  have "mEvt (sk s) \<noteq> NULL" using assms(2) by (auto simp: sock_live_def sk_live_def ev_on_def)
  then show ?thesis using assms by (simp add: ssl_st_def ssl_phase_def in_session_def)
qed

lemma ssl_events_st:
  assumes l: "ssl_listener lis v"
  shows "ssl_events lis v s s' \<Longrightarrow> ssl_st v s \<Longrightarrow> ssl_st v s'"
proof (induction rule: ssl_events.induct)
  case (ev_read s1 i s2)
  then show ?case using ssl_listener.read_event_ok [OF l live_session, of s1 i] by auto
next
  case (ev_write s1 i err s2)
  then show ?case using ssl_listener.write_event_ok [OF l, of s1 i err] by auto
next
  case (ev_hangup s1 i s2)
  then show ?case using ssl_listener.hangup_event_ok [OF l, of s1 i] by auto
qed

fun read_events :: "ssl_lis \<Rightarrow> env \<Rightarrow> ssl_in list \<Rightarrow> sslsock \<Rightarrow> fault + sslsock" where
  "read_events lis v [] s = Inr s"
| "read_events lis v (i # is) s = bindr (EdSocket_OnEventRead (EdSSLSocket_vm lis v i) v s) (read_events lis v is)"

lemma want_step:
  assumes s: "in_session v s" "\<not> xSessionConencted s"
    and i: "sslret i < 0" "sslerr i = SSL_ERROR_WANT_READ \<and> fl = EVT_READ \<or> sslerr i = SSL_ERROR_WANT_WRITE \<and> fl = EVT_WRITE"
  obtains s' where "EdSocket_OnEventRead (EdSSLSocket_vm lis v i) v s = Inr s'" "in_session v s'" "\<not> xSessionConencted s'" "interest (sk s') = fl"
    "lastSockErrorNo s' = 0"
proof -
  let ?s = "upd_sk (\<lambda>e. e\<lparr>mRaiseDisconnect := 0\<rparr>) s"
  let ?s1 = "?s\<lparr>sk := (sk ?s)\<lparr>interest := fl\<rparr>, lastSockErrorNo := 0\<rparr>"
  obtain es ds p where st: "sys_ok v s es ds" "sk_live v p (sk s)" "p \<in> set es" using s by (auto simp: in_session_def sock_live_def)
  have l: "sys_ok v ?s es ds" "sk_live v p (sk ?s)" using st by (simp_all add: sk_live_def)
  have l1: "sys_ok v ?s1 es ds" "sk_live v p (sk ?s1)" using st by (simp_all add: sk_live_def)
  have t: "mTask (sk s) \<noteq> NULL" using s(1) live_task [of v s] by (simp add: in_session_def)
  have m: "ssl_inv ?s1 = ssl_inv s" "xSSL ?s1 = xSSL s" "xSessionConencted ?s1 = xSessionConencted s"
    "xSSL ?s = xSSL s" "sessions ?s = sessions s" "xSessionConencted ?s = xSessionConencted s" using ssl_more [of ?s1 s] ssl_more [of ?s s] by simp_all
  have "in_session v ?s1" using s(1) sock_liveI [OF l1 st(3)] m(1,2) by (simp add: in_session_def)
  moreover have "EdSocket_OnEventRead (EdSSLSocket_vm lis v i) v s = Inr ?s1"
    using s i change_live [OF l st(3), of fl] t m
    by (auto simp: EdSocket_OnEventRead_def EdSSLSocket_vm_def EdSSLSocket_procSSLRead_def EdSSLSocket_procSSLConnect_def ssl_call_def in_session_def ssl_inv_def
        EdSSLSocket_changeSSLSockEvent_def task_error_def ssl_errors)
  ultimately show thesis using s(2) m(3) by (intro that [of ?s1]) simp_all
qed

lemma want_reads:
  assumes "in_session v s" "\<not> xSessionConencted s" "list_all (\<lambda>i. sslret i < 0 \<and> sslerr i = SSL_ERROR_WANT_READ) is"
  shows "\<exists>s'. read_events lis v is s = Inr s' \<and> in_session v s' \<and> \<not> xSessionConencted s'"
  using assms
proof (induction "is" arbitrary: s)
  case (Cons i "is")
  then have i: "sslret i < 0" "sslerr i = SSL_ERROR_WANT_READ \<and> EVT_READ = EVT_READ \<or> sslerr i = SSL_ERROR_WANT_WRITE \<and> EVT_READ = EVT_WRITE" by simp_all
  show ?case by (rule want_step [OF Cons.prems(1,2) i, of lis]) (use Cons in auto)
qed simp

section \<open>Properties\<close>

text \<open>A server side socket.\<close>

definition sslsock0 :: sslsock where
  "sslsock0 = \<lparr>sk = sk sock0, sw = sw sock0, lastSockErrorNo = 0, xSSL = NULL, xSSLCtx = NULL, xSessionConencted = False,
     xSSLCallback = True, xIsSSLServer = False, sessions = {}\<rparr>"

definition answer :: "int \<Rightarrow> int \<Rightarrow> ssl_in" where
  "answer ret err = \<lparr>sslret = ret, sslerr = err, sslnew = 700, sslctx = 800\<rparr>"

lemma sslsock0_opened:
  obtains s where "EdSSLSocket_openSSLChildSock senv (answer 0 0) 9 800 sslsock0 = Inr s" "in_session senv s" "\<not> xSessionConencted s"
    "xSSLCallback s"
proof -
  have "sys_ok senv sslsock0 [] []" using sock0_ok(1) by (simp add: sslsock0_def sys_ok_def)
  moreover have "sk_gone (sk sslsock0)" "\<not> mIsListen (sk sslsock0)" "ssl_inv sslsock0" "xSSL sslsock0 = NULL" "ehdrs (sw sslsock0) (eaddr senv) = None" "xSSLCallback sslsock0"
    using sock0_ok by (simp_all add: sslsock0_def ssl_inv_def sock0_def EdSocket_new_def EdSocket_clearInternal_def EdEvent.extend_def EdEvent_new_def)
  moreover have "eaddr senv \<noteq> NULL" "(0 :: int) < 9" "(800 :: addr) \<noteq> NULL" "sslnew (answer 0 0) \<noteq> NULL" using sock0_ok by (simp_all add: answer_def)
  ultimately show thesis using that openSSLChildSock_ok [of senv sslsock0 "[]" "[]" 9 800 "answer 0 0"] by metis
qed

text \<open>C19. An SSL session is used only between its creation and its release, and released once: whatever events
  the socket has had, with a callback that keeps its contract, every further event is handled without
  a fault, the library is never called on a released or missing session, at most one session is
  allocated, and none once the socket is closed. A hang-up always ends closed.\<close>

theorem ssl_sessions_safe:
  assumes l: "ssl_listener lis v" and st: "ssl_st v s" and run: "ssl_events lis v s s1" and live: "sock_live v s1" and new: "sslnew i \<noteq> NULL"
  shows "ssl_inv s1 \<and>
     (mStatus (sk s1) \<noteq> SOCK_STATUS_CONNECTING \<longrightarrow> (\<exists>s'. EdSocket_OnEventRead (EdSSLSocket_vm lis v i) v s1 = Inr s' \<and> (sk_gone (sk s') \<longrightarrow> sessions s' = {}))) \<and>
     (\<exists>s'. EdSocket_OnEventWrite (EdSSLSocket_vm lis v i) v err s1 = Inr s' \<and> (sk_gone (sk s') \<longrightarrow> sessions s' = {})) \<and>
     (\<exists>s'. EdSocket_OnEventHangup (EdSSLSocket_vm lis v i) v s1 = Inr s' \<and> sk_gone (sk s') \<and> sessions s' = {})"
proof -
  have s1: "ssl_st v s1" by (rule ssl_events_st [OF l run st])
  have free: "sessions t = {}" if "ssl_st v t" "sk_gone (sk t)" for t using that by (simp add: ssl_st_def ssl_inv_def)
  show ?thesis using s1 free ssl_listener.write_event_ok [OF l s1 live new, of err] ssl_listener.hangup_event_ok [OF l s1, of i]
      ssl_listener.read_event_ok [OF l live_session [OF s1 live], of i] by (auto simp: ssl_st_def)
qed

theorem ssl_sessions_safe_witness:
  "\<exists>s s1 s'. EdSSLSocket_openSSLChildSock senv (answer 0 0) 9 800 sslsock0 = Inr s \<and>
     EdSocket_OnEventRead (EdSSLSocket_vm (closing_listener senv True) senv (answer (- 1) SSL_ERROR_WANT_READ)) senv s = Inr s1 \<and>
     EdSocket_OnEventHangup (EdSSLSocket_vm (closing_listener senv True) senv (answer 0 0)) senv s1 = Inr s' \<and> sk_gone (sk s') \<and> sessions s' = {}"
proof -
  obtain s where s: "EdSSLSocket_openSSLChildSock senv (answer 0 0) 9 800 sslsock0 = Inr s" "in_session senv s" "\<not> xSessionConencted s" by (rule sslsock0_opened)
  have i: "sslret (answer (- 1) SSL_ERROR_WANT_READ) < 0"
    "sslerr (answer (- 1) SSL_ERROR_WANT_READ) = SSL_ERROR_WANT_READ \<and> EVT_READ = EVT_READ \<or> sslerr (answer (- 1) SSL_ERROR_WANT_READ) = SSL_ERROR_WANT_WRITE \<and> EVT_READ = EVT_WRITE"
    by (simp_all add: answer_def)
  obtain s1 where s1: "EdSocket_OnEventRead (EdSSLSocket_vm (closing_listener senv True) senv (answer (- 1) SSL_ERROR_WANT_READ)) senv s = Inr s1" "in_session senv s1"
    by (rule want_step [OF s(2,3) i])
  have l: "sock_live senv s" "mStatus (sk s) \<noteq> SOCK_STATUS_CONNECTING" "sock_live senv s1" "sslnew (answer 0 0) \<noteq> NULL"
    using s(2) s1(2) by (simp_all add: in_session_def answer_def)
  note run = ev_read [OF ev_none l(1,2) s1(1)]
  from ssl_sessions_safe [OF closing.ssl_listener_axioms in_session_st [OF s(2)] run l(3,4)] s(1) s1(1) show ?thesis by blast
qed

text \<open>The handshake: read events carry it on as long as the library wants to read, and when the library is
  done the session is connected and the callback told. When the library wants to write, the socket
  watches for writing only and every write event leaves it as it is, whatever the library would
  answer: the handshake never goes on.\<close>

theorem ssl_handshake:
  assumes s: "in_session v s" "\<not> xSessionConencted s" and rs: "list_all (\<lambda>i. sslret i < 0 \<and> sslerr i = SSL_ERROR_WANT_READ) is"
    and f: "sslret f = 1" and w: "sslret w < 0" "sslerr w = SSL_ERROR_WANT_WRITE"
  shows "\<exists>s1 s2 s3. read_events lis v is s = Inr s1 \<and> \<not> xSessionConencted s1 \<and>
     xSessionConencted s2 \<and> xSSL s2 = xSSL s1 \<and>
     (\<forall>t. ssl_notify lis SSL_EVENT_CONNECTED s2 = Inr t \<and> lastSockErrorNo t = 0 \<longrightarrow> EdSocket_OnEventRead (EdSSLSocket_vm lis v f) v s1 = Inr t) \<and>
     EdSocket_OnEventRead (EdSSLSocket_vm lis v w) v s1 = Inr s3 \<and> interest (sk s3) = EVT_WRITE \<and> \<not> xSessionConencted s3 \<and>
     (\<forall>i err. EdSocket_OnEventWrite (EdSSLSocket_vm lis v i) v err s3 = Inr s3)"
proof -
  obtain s1 where s1: "read_events lis v is s = Inr s1" "in_session v s1" "\<not> xSessionConencted s1" using want_reads [OF s rs] by blast
  have w': "sslret w < 0" "sslerr w = SSL_ERROR_WANT_READ \<and> EVT_WRITE = EVT_READ \<or> sslerr w = SSL_ERROR_WANT_WRITE \<and> EVT_WRITE = EVT_WRITE" using w by simp_all
  obtain s3 where s3: "EdSocket_OnEventRead (EdSSLSocket_vm lis v w) v s1 = Inr s3" "in_session v s3" "\<not> xSessionConencted s3" "interest (sk s3) = EVT_WRITE"
    using want_step [OF s1(2,3) w'] by metis
  let ?s = "upd_sk (\<lambda>e. e\<lparr>mRaiseDisconnect := 0\<rparr>) s1" and ?s2 = "(upd_sk (\<lambda>e. e\<lparr>mRaiseDisconnect := 0\<rparr>) s1)\<lparr>xSessionConencted := True\<rparr>"
  have m: "xSSL ?s = xSSL s1" "sessions ?s = sessions s1" "xSessionConencted ?s = xSessionConencted s1" using ssl_more [of ?s s1] by simp_all
  have "EdSocket_OnEventRead (EdSSLSocket_vm lis v f) v s1 = Inr t" if "ssl_notify lis SSL_EVENT_CONNECTED ?s2 = Inr t" "lastSockErrorNo t = 0" for t
    using that s1(2,3) f m by (simp add: EdSocket_OnEventRead_def EdSSLSocket_vm_def EdSSLSocket_procSSLRead_def EdSSLSocket_procSSLConnect_def ssl_call_def in_session_def ssl_inv_def)
  moreover have "EdSocket_OnEventWrite (EdSSLSocket_vm lis v i) v err s3 = Inr s3" for i err
    using s3(2) by (simp add: EdSocket_OnEventWrite_def EdSSLSocket_vm_def EdSSLSocket_OnWrite_def in_session_def)
  ultimately show ?thesis using s1 s3(1,3,4) m(1) by (intro exI [of _ s1] exI [of _ ?s2] exI [of _ s3]) simp
qed

theorem ssl_handshake_witness:
  "\<exists>s s1 s3. EdSSLSocket_openSSLChildSock senv (answer 0 0) 9 800 sslsock0 = Inr s \<and>
     read_events (closing_listener senv True) senv [answer (- 1) SSL_ERROR_WANT_READ, answer (- 1) SSL_ERROR_WANT_READ] s = Inr s1 \<and>
     EdSocket_OnEventRead (EdSSLSocket_vm (closing_listener senv True) senv (answer (- 1) SSL_ERROR_WANT_WRITE)) senv s1 = Inr s3 \<and> interest (sk s3) = EVT_WRITE"
proof -
  let ?r = "answer (- 1) SSL_ERROR_WANT_READ"
  obtain s where s: "EdSSLSocket_openSSLChildSock senv (answer 0 0) 9 800 sslsock0 = Inr s" "in_session senv s" "\<not> xSessionConencted s" by (rule sslsock0_opened)
  have h: "list_all (\<lambda>i. sslret i < 0 \<and> sslerr i = SSL_ERROR_WANT_READ) [?r, ?r]" "sslret (answer 1 0) = 1"
    "sslret (answer (- 1) SSL_ERROR_WANT_WRITE) < 0" "sslerr (answer (- 1) SSL_ERROR_WANT_WRITE) = SSL_ERROR_WANT_WRITE" by (simp_all add: answer_def)
  from ssl_handshake [OF s(2,3) h, of "closing_listener senv True"] s(1) show ?thesis by blast
qed

end
