(* ===== verification/EdSslCtx.thy ===== *)
theory EdSslCtx
  imports EdPrelude
begin

text \<open>edssl/EdSSLContext.cpp: the contexts of the SSL library, the default context of a thread and the
  password of a certificate. The library is outside: the address \<^verbatim>\<open>SSL_CTX_new\<close> returns and the answer of
  \<^verbatim>\<open>SSL_CTX_check_private_key\<close> are arguments; a call on a null or released context is a fault.\<close>

section \<open>Methods\<close>

datatype ssl_ver = SSL_VER_V23 | SSL_VER_V3 | SSL_VER_TLSV1 | SSL_VER_TLSV11 | SSL_VER_TLSV12 | SSL_VER_DTLSV1

datatype ssl_side = Server | Client | Both

datatype ssl_method = SSLv23_method ssl_side | SSLv3_method ssl_side | TLSv1_method ssl_side | TLSv1_1_method ssl_side | DTLSv1_method ssl_side

text \<open>The three switches of \<^verbatim>\<open>buildServerCtx\<close>, \<^verbatim>\<open>buildClientCtx\<close> and \<^verbatim>\<open>buildCtx\<close>; that of the client takes the
  general method for TLSv1.\<close>

definition server_method :: "ssl_ver \<Rightarrow> ssl_method option" where
  "server_method ver =
     (case ver of
        SSL_VER_TLSV1 \<Rightarrow> Some (TLSv1_method Server)
      | SSL_VER_TLSV11 \<Rightarrow> Some (TLSv1_1_method Server)
      | SSL_VER_V23 \<Rightarrow> Some (SSLv23_method Server)
      | SSL_VER_V3 \<Rightarrow> Some (SSLv3_method Server)
      | SSL_VER_DTLSV1 \<Rightarrow> Some (DTLSv1_method Server)
      | _ \<Rightarrow> None)"

definition client_method :: "ssl_ver \<Rightarrow> ssl_method option" where
  "client_method ver =
     (case ver of
        SSL_VER_TLSV1 \<Rightarrow> Some (TLSv1_method Both)
      | SSL_VER_TLSV11 \<Rightarrow> Some (TLSv1_1_method Client)
      | SSL_VER_V23 \<Rightarrow> Some (SSLv23_method Client)
      | SSL_VER_V3 \<Rightarrow> Some (SSLv3_method Client)
      | SSL_VER_DTLSV1 \<Rightarrow> Some (DTLSv1_method Client)
      | _ \<Rightarrow> None)"

definition any_method :: "ssl_ver \<Rightarrow> ssl_method option" where
  "any_method ver =
     (case ver of
        SSL_VER_TLSV1 \<Rightarrow> Some (TLSv1_method Both)
      | SSL_VER_TLSV11 \<Rightarrow> Some (TLSv1_1_method Both)
      | SSL_VER_V23 \<Rightarrow> Some (SSLv23_method Both)
      | SSL_VER_V3 \<Rightarrow> Some (SSLv3_method Both)
      | SSL_VER_DTLSV1 \<Rightarrow> Some (DTLSv1_method Both)
      | _ \<Rightarrow> None)"

section \<open>Contexts\<close>

text \<open>\<open>ctxs\<close> are the allocated contexts of the library with their method, \<open>eds\<close> the \<^verbatim>\<open>EdSSLContext\<close> objects; the
  password array is not initialised by the constructor.\<close>

record EdSSLContext =
  cCtx :: addr
  mPasswd :: "u8 list"

record ssl_lib =
  gSSLIsInit :: bool
  tDefEdSSL :: addr
  ctxs :: "addr \<rightharpoonup> ssl_method"
  eds :: "addr \<rightharpoonup> EdSSLContext"

definition EdSSLInit :: "ssl_lib \<Rightarrow> ssl_lib" where
  "EdSSLInit w = w\<lparr>gSSLIsInit := True\<rparr>"

definition EdSSLIsInit :: "ssl_lib \<Rightarrow> bool" where
  "EdSSLIsInit w = gSSLIsInit w"

text \<open>The bookkeeping of the contexts the library hands out: every context is one that \<^verbatim>\<open>SSL_CTX_new\<close> returned and
  \<^verbatim>\<open>SSL_CTX_free\<close> has not taken back.\<close>

definition ctx_create :: "addr \<Rightarrow> ssl_method option \<Rightarrow> ssl_lib \<Rightarrow> addr \<times> ssl_lib" where
  "ctx_create p m w =
     (case m of
        None \<Rightarrow> (NULL, w)
      | Some m \<Rightarrow> if p = NULL then (NULL, w) else (p, w\<lparr>ctxs := (ctxs w)(p \<mapsto> m)\<rparr>))"

definition ctx_call :: "addr \<Rightarrow> ssl_lib \<Rightarrow> fault + ssl_lib" where
  "ctx_call p w = (if p = NULL \<or> ctxs w p = None then Inl Bad_access else Inr w)"

definition ctx_release :: "addr \<Rightarrow> ssl_lib \<Rightarrow> fault + ssl_lib" where
  "ctx_release p w = bindr (ctx_call p w) (\<lambda>w. Inr (w\<lparr>ctxs := (ctxs w)(p := None)\<rparr>))"

definition EdSSLContext_buildServerCtx :: "addr \<Rightarrow> bool \<Rightarrow> ssl_ver \<Rightarrow> ssl_lib \<Rightarrow> fault + (addr \<times> ssl_lib)" where
  "EdSSLContext_buildServerCtx p keyok ver w =
     (if server_method ver = None then Inr (NULL, w)
      else let (pctx, w) = ctx_create p (server_method ver) w in
           bindr (ctx_call pctx w) (\<lambda>w.
           if \<not> keyok then bindr (ctx_release pctx w) (\<lambda>w. Inr (NULL, w)) else Inr (pctx, w)))"

definition EdSSLContext_buildClientCtx :: "addr \<Rightarrow> ssl_ver \<Rightarrow> ssl_lib \<Rightarrow> addr \<times> ssl_lib" where
  "EdSSLContext_buildClientCtx p ver w = (if client_method ver = None then (NULL, w) else ctx_create p (client_method ver) w)"

definition EdSSLContext_buildCtx :: "addr \<Rightarrow> ssl_ver \<Rightarrow> ssl_lib \<Rightarrow> addr \<times> ssl_lib" where
  "EdSSLContext_buildCtx p ver w = (if any_method ver = None then (NULL, w) else ctx_create p (any_method ver) w)"

text \<open>\<open>self\<close> is the address of the object; \<^verbatim>\<open>open\<close> sets the callback of the context it built.\<close>

definition EdSSLContext_new :: "addr \<Rightarrow> u8 list \<Rightarrow> ssl_lib \<Rightarrow> ssl_lib" where
  "EdSSLContext_new self junk w = w\<lparr>eds := (eds w)(self \<mapsto> \<lparr>cCtx = NULL, mPasswd = junk\<rparr>)\<rparr>"

definition EdSSLContext_open :: "addr \<Rightarrow> addr \<Rightarrow> ssl_ver \<Rightarrow> ssl_lib \<Rightarrow> fault + ssl_lib" where
  "EdSSLContext_open self p ver w =
     (case eds w self of
        None \<Rightarrow> Inl Bad_access
      | Some c \<Rightarrow> let (q, w) = EdSSLContext_buildCtx p ver w in ctx_call q (w\<lparr>eds := (eds w)(self \<mapsto> c\<lparr>cCtx := q\<rparr>)\<rparr>))"

definition EdSSLContext_close :: "addr \<Rightarrow> ssl_lib \<Rightarrow> fault + ssl_lib" where
  "EdSSLContext_close self w =
     (case eds w self of
        None \<Rightarrow> Inl Bad_access
      | Some c \<Rightarrow> if cCtx c \<noteq> NULL
                  then bindr (ctx_release (cCtx c) w) (\<lambda>w. Inr (w\<lparr>eds := (eds w)(self \<mapsto> c\<lparr>cCtx := NULL\<rparr>)\<rparr>))
                  else Inr w)"

definition EdSSLContext_getContext :: "addr \<Rightarrow> ssl_lib \<Rightarrow> fault + addr" where
  "EdSSLContext_getContext self w = (case eds w self of None \<Rightarrow> Inl Bad_access | Some c \<Rightarrow> Inr (cCtx c))"

definition EdSSLContext_setSSLCertFile :: "addr \<Rightarrow> bool \<Rightarrow> ssl_lib \<Rightarrow> fault + int" where
  "EdSSLContext_setSSLCertFile self keyok w =
     bindr (EdSSLContext_getContext self w) (\<lambda>p. bindr (ctx_call p w) (\<lambda>_. Inr (if \<not> keyok then - 1 else 0)))"

text \<open>\<^verbatim>\<open>setSSLCertMem\<close> ignores what the library answers.\<close>

definition EdSSLContext_setSSLCertMem :: "addr \<Rightarrow> ssl_lib \<Rightarrow> fault + int" where
  "EdSSLContext_setSSLCertMem self w = bindr (EdSSLContext_getContext self w) (\<lambda>p. bindr (ctx_call p w) (\<lambda>_. Inr 0))"

text \<open>The default context of a thread; \<open>a\<close> is the address of \<^verbatim>\<open>new EdSSLContext\<close>.\<close>

definition EdSSLContext_getDefaultEdSSL :: "addr \<Rightarrow> u8 list \<Rightarrow> addr \<Rightarrow> ssl_lib \<Rightarrow> fault + (addr \<times> ssl_lib)" where
  "EdSSLContext_getDefaultEdSSL a junk p w =
     (if tDefEdSSL w = NULL
      then let w = (if \<not> EdSSLIsInit w then EdSSLInit w else w) in
           bindr (EdSSLContext_open a p SSL_VER_TLSV1 (EdSSLContext_new a junk w)) (\<lambda>w. Inr (a, w\<lparr>tDefEdSSL := a\<rparr>))
      else Inr (tDefEdSSL w, w))"

definition EdSSLContext_freeDefaultEdSSL :: "ssl_lib \<Rightarrow> fault + ssl_lib" where
  "EdSSLContext_freeDefaultEdSSL w =
     (if tDefEdSSL w \<noteq> NULL
      then bindr (EdSSLContext_close (tDefEdSSL w) w) (\<lambda>w. Inr (w\<lparr>eds := (eds w)(tDefEdSSL w := None), tDefEdSSL := NULL\<rparr>))
      else Inr w)"

section \<open>The password\<close>

text \<open>\<^verbatim>\<open>strncpy(mPasswd, pw, 19)\<close> into the array of 20 bytes; a C string is a list without its final zero.\<close>

definition EdSSLContext_setCertPassword :: "u8 list \<Rightarrow> EdSSLContext \<Rightarrow> EdSSLContext" where
  "EdSSLContext_setCertPassword pw c =
     c\<lparr>mPasswd := take 19 pw @ replicate (19 - length pw) 0 @ drop 19 (mPasswd c)\<rparr>"

text \<open>\<^verbatim>\<open>strlen\<close> on an array, \<open>None\<close> when it runs past the end; then \<^verbatim>\<open>strcpy\<close> into the caller's buffer of \<open>sz\<close>
  bytes.\<close>

fun c_strlen :: "u8 list \<Rightarrow> nat option" where
  "c_strlen [] = None"
| "c_strlen (b # bs) = (if b = 0 then Some 0 else map_option Suc (c_strlen bs))"

definition EdSSLContext_dgPasswordCb :: "nat \<Rightarrow> EdSSLContext \<Rightarrow> fault + (int \<times> u8 list)" where
  "EdSSLContext_dgPasswordCb sz c =
     (case c_strlen (mPasswd c) of
        None \<Rightarrow> Inl Bad_access
      | Some n \<Rightarrow> if n + 1 > sz then Inl Bad_access else Inr (int n, take n (mPasswd c)))"

lemma c_strlen_append: "0 \<notin> set xs \<Longrightarrow> c_strlen (xs @ ys) = map_option (\<lambda>n. length xs + n) (c_strlen ys)"
  by (induction xs; cases "c_strlen ys") auto

text \<open>A password of at most 18 characters, or of 19 when the byte behind it happens to be zero, reaches the
  library as it was set. One of 19 or more on an array whose last byte is not zero is read past the end
  of the array.\<close>

lemma password_roundtrip:
  assumes "0 \<notin> set pw" "length pw < 19" "length pw < sz"
  shows "EdSSLContext_dgPasswordCb sz (EdSSLContext_setCertPassword pw c) = Inr (int (length pw), pw)"
proof -
  obtain k where "19 - length pw = Suc k" using assms(2) by (cases "19 - length pw") auto
  then show ?thesis using assms by (simp add: EdSSLContext_dgPasswordCb_def EdSSLContext_setCertPassword_def c_strlen_append)
qed

lemma password_overrun:
  assumes "0 \<notin> set pw" "19 \<le> length pw" "drop 19 (mPasswd c) = [b]" "b \<noteq> 0"
  shows "EdSSLContext_dgPasswordCb sz (EdSSLContext_setCertPassword pw c) = Inl Bad_access"
proof -
  have "0 \<notin> set (take 19 pw)" using assms(1) set_take_subset [of 19 pw] by blast
  then show ?thesis using assms by (simp add: EdSSLContext_dgPasswordCb_def EdSSLContext_setCertPassword_def c_strlen_append)
qed

section \<open>Contexts are created and released once\<close>

text \<open>The version for TLS 1.2 has no method: opening with it uses a null context.\<close>

lemma open_tls12: "eds w self \<noteq> None \<Longrightarrow> EdSSLContext_open self p SSL_VER_TLSV12 w = Inl Bad_access"
  by (auto simp: EdSSLContext_open_def EdSSLContext_buildCtx_def any_method_def ctx_call_def)

lemma server_key_refused:
  assumes "ver \<noteq> SSL_VER_TLSV12" "p \<noteq> NULL" "ctxs w p = None"
  shows "EdSSLContext_buildServerCtx p False ver w = Inr (NULL, w)"
proof -
  have "w\<lparr>ctxs := (ctxs w)(p := None)\<rparr> = w" using fun_upd_triv [of "ctxs w" p] assms(3) by simp
  then show ?thesis using assms by (cases ver) (simp_all add: EdSSLContext_buildServerCtx_def server_method_def ctx_create_def ctx_call_def ctx_release_def)
qed

text \<open>The default object of a thread is created with the first call and returned by every later one;
  freeing it releases the object and its context and leaves everything else as it was.\<close>

lemma default_context:
  assumes "tDefEdSSL w = NULL" "a \<noteq> NULL" "p \<noteq> NULL" "eds w a = None" "ctxs w p = None"
  obtains w1 w2 where "EdSSLContext_getDefaultEdSSL a junk p w = Inr (a, w1)" "EdSSLIsInit w1" "EdSSLContext_getContext a w1 = Inr p"
    "\<forall>b j q. EdSSLContext_getDefaultEdSSL b j q w1 = Inr (a, w1)"
    "EdSSLContext_freeDefaultEdSSL w1 = Inr w2" "ctxs w2 = ctxs w" "eds w2 = eds w" "tDefEdSSL w2 = NULL"
proof -
  let ?w1 = "w\<lparr>gSSLIsInit := True, ctxs := (ctxs w)(p \<mapsto> TLSv1_method Both), eds := (eds w)(a \<mapsto> \<lparr>cCtx = p, mPasswd = junk\<rparr>), tDefEdSSL := a\<rparr>"
  let ?w2 = "w\<lparr>gSSLIsInit := True, ctxs := (ctxs w)(p := None), eds := (eds w)(a := None), tDefEdSSL := NULL\<rparr>"
  have "EdSSLContext_getDefaultEdSSL a junk p w = Inr (a, ?w1)" using assms
    by (cases w) (simp add: EdSSLContext_getDefaultEdSSL_def EdSSLIsInit_def EdSSLInit_def EdSSLContext_new_def EdSSLContext_open_def
        EdSSLContext_buildCtx_def any_method_def ctx_create_def ctx_call_def)
  moreover have "EdSSLContext_freeDefaultEdSSL ?w1 = Inr ?w2" using assms
    by (cases w) (simp add: EdSSLContext_freeDefaultEdSSL_def EdSSLContext_close_def ctx_release_def ctx_call_def)
  moreover have "(ctxs w)(p := None) = ctxs w" "(eds w)(a := None) = eds w" using assms(4,5) by auto
  ultimately show thesis using assms(2)
    by (intro that [of ?w1 ?w2]) (simp_all add: EdSSLIsInit_def EdSSLContext_getContext_def EdSSLContext_getDefaultEdSSL_def)
qed

end
