(* ===== verification/EdBufTypes.thy ===== *)
theory EdBufTypes
  imports EdBytes
begin

text \<open>A discipline for the callers of \<^verbatim>\<open>EdByteBuffer\<close>: a static check of a sequence of calls which knows only
  the size, the read position and a bound of the capacity, and its soundness. Sequences that pass
  never throw and never leave the memory of the buffer. The functions of the class that only look
  at a member are here too.\<close>

section \<open>The remaining members\<close>

text \<open>The destructor, with the block it frees.\<close>

definition EdByteBuffer_destroy :: "EdByteBuffer \<Rightarrow> block option \<times> EdByteBuffer" where
  "EdByteBuffer_destroy b = (mBuf b, b\<lparr>mBuf := None\<rparr>)"

definition EdByteBuffer_capacity :: "EdByteBuffer \<Rightarrow> nat" where
  "EdByteBuffer_capacity b = mCapacity b"

definition EdByteBuffer_getBuffer :: "EdByteBuffer \<Rightarrow> block option" where
  "EdByteBuffer_getBuffer b = mBuf b"

definition EdByteBuffer_size :: "EdByteBuffer \<Rightarrow> nat" where
  "EdByteBuffer_size b = mSize b"

definition EdByteBuffer_getError :: "EdByteBuffer \<Rightarrow> int" where
  "EdByteBuffer_getError b = mErr b"

section \<open>Calls and their types\<close>

text \<open>The public operations; a number stands for its width.\<close>

datatype call =
    Put "u8 list" | PutNumber number | Get nat | GetNumber number | Consume nat | Rewind | Clear
  | Reserve nat | Enlarge nat | SetOrder int | Release | Take block nat

fun exec_call :: "(nat \<Rightarrow> u8) \<Rightarrow> call \<Rightarrow> EdByteBuffer \<Rightarrow> fault + EdByteBuffer" where
  "exec_call junk (Put bs) b = map_sum id snd (EdByteBuffer_put junk b bs)"
| "exec_call junk (PutNumber x) b = map_sum id snd (put_num junk b x)"
| "exec_call junk (Get n) b = map_sum id snd (EdByteBuffer_get b n)"
| "exec_call junk (GetNumber x) b = map_sum id snd (get_num b x)"
| "exec_call junk (Consume n) b = Inr (EdByteBuffer_consume b n)"
| "exec_call junk Rewind b = Inr (EdByteBuffer_rewind b)"
| "exec_call junk Clear b = Inr (EdByteBuffer_clear b)"
| "exec_call junk (Reserve n) b = Inr (EdByteBuffer_reserve junk b n)"
| "exec_call junk (Enlarge n) b = Inr (EdByteBuffer_enlarge junk b n)"
| "exec_call junk (SetOrder i) b = Inr (EdByteBuffer_setOrder b i)"
| "exec_call junk Release b = Inr (snd (EdByteBuffer_release b))"
| "exec_call junk (Take blk n) b = Inr (EdByteBuffer_takeBuffer b (Some blk) n (length blk))"

fun exec_calls :: "(nat \<Rightarrow> u8) \<Rightarrow> call list \<Rightarrow> EdByteBuffer \<Rightarrow> fault + EdByteBuffer" where
  "exec_calls junk [] b = Inr b"
| "exec_calls junk (c # cs) b = bindr (exec_call junk c b) (exec_calls junk cs)"

text \<open>The type of a buffer: its size, its read position and a bound of its capacity.\<close>

record buf_type =
  tsize :: nat
  tpos :: nat
  tcap :: nat

definition has_type :: "EdByteBuffer \<Rightarrow> buf_type \<Rightarrow> bool" where
  "has_type b t \<longleftrightarrow> bb_inv b \<and> mSize b = tsize t \<and> mReadPos b = tpos t \<and> mCapacity b \<le> tcap t"

definition put_type :: "nat \<Rightarrow> buf_type \<Rightarrow> buf_type option" where
  "put_type n t =
     (if tsize t + n < 2 ^ 63
      then Some (t\<lparr>tsize := tsize t + n, tcap := max (tcap t) (max 32768 (tsize t + n + 127 * 127))\<rparr>) else None)"

definition skip_type :: "nat \<Rightarrow> buf_type \<Rightarrow> buf_type option" where
  "skip_type n t = (if tpos t + n \<le> tsize t then Some (t\<lparr>tpos := tpos t + n\<rparr>) else None)"

fun call_type :: "call \<Rightarrow> buf_type \<Rightarrow> buf_type option" where
  "call_type (Put bs) t = put_type (length bs) t"
| "call_type (PutNumber x) t = put_type (num_width x) t"
| "call_type (Get n) t = skip_type (min n (tsize t - tpos t)) t"
| "call_type (GetNumber x) t = skip_type (num_width x) t"
| "call_type (Consume n) t = skip_type n t"
| "call_type Rewind t = Some (t\<lparr>tpos := 0\<rparr>)"
| "call_type Clear t = Some (t\<lparr>tsize := 0, tpos := 0\<rparr>)"
| "call_type (Reserve n) t = (if tsize t \<le> n \<and> n < 2 ^ 64 then Some (t\<lparr>tcap := n\<rparr>) else None)"
| "call_type (Enlarge n) t = (if tcap t + n < 2 ^ 64 then Some (t\<lparr>tcap := tcap t + n\<rparr>) else None)"
| "call_type (SetOrder i) t = Some t"
| "call_type Release t = Some \<lparr>tsize = 0, tpos = 0, tcap = 0\<rparr>"
| "call_type (Take blk n) t =
     (if n \<le> length blk \<and> length blk < 2 ^ 64 then Some \<lparr>tsize = n, tpos = 0, tcap = length blk\<rparr> else None)"

fun calls_type :: "call list \<Rightarrow> buf_type \<Rightarrow> buf_type option" where
  "calls_type [] t = Some t"
| "calls_type (c # cs) t = call_type c t \<bind> calls_type cs"

section \<open>Soundness\<close>

lemma put_typed:
  assumes "has_type b t" "put_type n t = Some t'" "length bs = n"
  shows "\<exists>r b'. EdByteBuffer_put junk b bs = Inr (r, b') \<and> has_type b' t'"
proof -
  have b: "bb_inv b" "mSize b + length bs < 2 ^ 63"
    and t': "t' = t\<lparr>tsize := tsize t + n, tcap := max (tcap t) (max 32768 (tsize t + n + 127 * 127))\<rparr>"
    using assms by (auto simp: has_type_def put_type_def split: if_splits)
  then have r: "bb_room b (length bs)" by (simp add: bb_room_def)
  show ?thesis
    by (rule put_ok [OF b(1) r, of junk]) (use assms t' in \<open>auto simp: has_type_def\<close>)
qed

lemma skip_typed:
  assumes "has_type b t" "skip_type n t = Some t'"
  shows "n \<le> length (pending b)" "has_type (b\<lparr>mReadPos := mReadPos b + n\<rparr>) t'"
proof -
  have b: "bb_inv b" "mReadPos b + n \<le> mSize b" and t': "t' = t\<lparr>tpos := tpos t + n\<rparr>"
    using assms by (auto simp: has_type_def skip_type_def split: if_splits)
  show n: "n \<le> length (pending b)" using pending_ge_iff [OF b(1)] b(2) by simp
  show "has_type (b\<lparr>mReadPos := mReadPos b + n\<rparr>) t'" using advance_ok [OF b(1) n] assms(1) t' by (simp add: has_type_def)
qed

lemma get_num_typed:
  assumes b: "bb_inv b" and n: "num_width x \<le> length (pending b)"
  shows "\<exists>y. get_num b x = Inr (y, b\<lparr>mReadPos := mReadPos b + num_width x\<rparr>)"
proof -
  have l: "length (take (num_width x) (pending b)) = num_width x" using n by simp
  from this obtain y where y: "num_bytes (mOrder b) y = take (num_width x) (pending b)" "get_num b y = get_num b x" by (rule number_of_bytes)
  have "pending b = num_bytes (mOrder b) y @ drop (num_width x) (pending b)" by (simp add: y(1))
  from get_num_bytes [OF b this] y l show ?thesis by simp
qed

text \<open>Preservation and progress of one call.\<close>

lemma call_typed:
  assumes b: "has_type b t" and c: "call_type c t = Some t'"
  shows "\<exists>b'. exec_call junk c b = Inr b' \<and> has_type b' t'"
proof (cases c)
  case (Put bs)
  then show ?thesis using put_typed [OF b, of "length bs" t' bs junk] c by auto
next
  case (PutNumber x)
  then have "put_type (num_width x) t = Some t'" using c by simp
  from put_typed [OF b this, of "num_bytes (mOrder b) x" junk] show ?thesis by (auto simp: PutNumber put_num_bytes)
next
  case (Get n)
  let ?n = "min n (length (pending b))"
  have "tsize t - tpos t = length (pending b)" using b length_pending [of b] by (simp add: has_type_def)
  then have s: "skip_type ?n t = Some t'" using c Get by simp
  have i: "bb_inv b" using b by (simp add: has_type_def)
  have "EdByteBuffer_get b n = EdByteBuffer_get b ?n"
    using remain_pending [OF i] by (simp add: EdByteBuffer_get_def EdByteBuffer_remain_def min.assoc)
  then show ?thesis using Get get_ok [OF i skip_typed(1) [OF b s]] skip_typed(2) [OF b s] by simp
next
  case (GetNumber x)
  then have s: "skip_type (num_width x) t = Some t'" using c by simp
  have "bb_inv b" using b by (simp add: has_type_def)
  from get_num_typed [OF this skip_typed(1) [OF b s]] skip_typed(2) [OF b s] show ?thesis by (auto simp: GetNumber)
next
  case (Consume n)
  then have s: "skip_type n t = Some t'" using c by simp
  have i: "bb_inv b" using b by (simp add: has_type_def)
  note k = skip_typed [OF b s]
  have "min n (mSize b) = n" using k(1) length_pending [OF i] by simp
  then show ?thesis using Consume advance_ok [OF i k(1)] k(2) by (simp add: EdByteBuffer_consume_def)
next
  case (Reserve n)
  then have n: "mSize b \<le> n" "n < 2 ^ 64" "t' = t\<lparr>tcap := n\<rparr>" using b c by (auto simp: has_type_def split: if_splits)
  have i: "bb_inv b" using b by (simp add: has_type_def)
  show ?thesis using Reserve n(3) reserve_inv [OF i n(1,2), of junk] b by (simp add: has_type_def)
next
  case (Enlarge n)
  then have n: "tcap t + n < 2 ^ 64" "t' = t\<lparr>tcap := tcap t + n\<rparr>" using c by (auto split: if_splits)
  have i: "bb_inv b" "mCapacity b \<le> tcap t" using b by (simp_all add: has_type_def)
  have lt: "mCapacity b + n < 2 ^ 64" "mSize b \<le> mCapacity b + n" using n(1) i by (auto simp: bb_inv_def)
  have e: "add64 (mCapacity b) n = mCapacity b + n" by (rule add64_exact [OF lt(1)])
  show ?thesis using Enlarge n(2) e reserve_inv [OF i(1) lt(2,1), of junk] b by (simp add: has_type_def EdByteBuffer_enlarge_def)
qed (use b c in \<open>auto simp: has_type_def bb_inv_def blk_of_def EdByteBuffer_rewind_def EdByteBuffer_clear_def EdByteBuffer_setOrder_def
      EdByteBuffer_release_def EdByteBuffer_takeBuffer_def split: if_splits\<close>)

lemma calls_typed: "has_type b t \<Longrightarrow> calls_type cs t = Some t' \<Longrightarrow> \<exists>b'. exec_calls junk cs b = Inr b' \<and> has_type b' t'"
proof (induction cs arbitrary: b t)
  case (Cons c cs)
  then obtain t1 where t1: "call_type c t = Some t1" "calls_type cs t1 = Some t'" by (auto split: bind_splits)
  obtain b1 where "exec_call junk c b = Inr b1" "has_type b1 t1" using call_typed [OF Cons.prems(1) t1(1)] by blast
  then show ?case using Cons.IH t1(2) by simp
qed simp

text \<open>A capacity reserved below the size breaks the buffer: the type check refuses it, and reading what the
  buffer still claims to hold leaves its memory.\<close>

lemma reserve_shrinks:
  assumes "has_type b t" "n < tsize t" "tpos t = 0" "mBuf b \<noteq> None"
  shows "call_type (Reserve n) t = None" "exec_calls junk [Reserve n, Get (tsize t)] b = Inl Bad_access"
proof -
  show "call_type (Reserve n) t = None" using assms(2) by simp
  have s: "mReadPos b = 0" "mSize b = tsize t" "mSize b < 2 ^ 64" using assms(1,3) by (auto simp: has_type_def bb_inv_def)
  have "blk_of (EdByteBuffer_reserve junk b n) = (if n = 0 then [] else realloc junk (blk_of b) n)"
    using assms(4) by (auto simp: EdByteBuffer_reserve_def blk_of_def)
  then have "length (blk_of (EdByteBuffer_reserve junk b n)) = n" by (simp add: length_realloc)
  then show "exec_calls junk [Reserve n, Get (tsize t)] b = Inl Bad_access"
    using s assms(2) by (simp add: EdByteBuffer_get_def EdByteBuffer_reserve_def [of junk b n] sub64_exact mem_read_def)
qed

section \<open>Property\<close>

text \<open>C21. A static check of a client of \<^verbatim>\<open>EdByteBuffer\<close> that knows only the size, the read position and a bound of
  the capacity is sound. A sequence of calls (blocks and numbers of every width put, read and skipped, in
  either byte order, the capacity reserved and enlarged, the memory released and replaced) that has a type runs
  on every buffer of its initial type without an exception, without an access outside of the memory of the
  buffer and without a growth that does not end, and the buffer it leaves has the final type: the number of
  bytes still to be read is the one the type says. The check is exact on the next number to be read: a number
  read throws 1 on the buffer if and only if it has no type.\<close>

theorem bytebuf_typed:
  assumes b: "has_type b t" and cs: "calls_type cs t = Some t'"
  shows "\<exists>b'. exec_calls junk cs b = Inr b' \<and> has_type b' t' \<and> length (pending b') = tsize t' - tpos t' \<and>
    (exec_call junk (GetNumber x) b' = Inl (Throw 1)) = (call_type (GetNumber x) t' = None)"
proof -
  obtain b' where b': "exec_calls junk cs b = Inr b'" "has_type b' t'" using calls_typed [OF b cs] by blast
  then have p: "bb_inv b'" "length (pending b') = tsize t' - tpos t'" "tpos t' \<le> tsize t'"
    using length_pending [of b'] by (auto simp: has_type_def bb_inv_def)
  then have "(exec_call junk (GetNumber x) b' = Inl (Throw 1)) = (length (pending b') < num_width x)"
    using bytebuf_read_number [OF p(1), of x] by (auto split: if_splits)
  then show ?thesis using b' p(2,3) by (auto simp: skip_type_def)
qed

text \<open>A session on a new buffer: three numbers and a block are put in both byte orders, a number and
  two bytes are read, and a memory block of the caller replaces the buffer.\<close>

lemma has_type_new: "has_type EdByteBuffer_new \<lparr>tsize = 0, tpos = 0, tcap = 0\<rparr>"
  by (simp add: has_type_def EdByteBuffer_new_def bb_inv_def blk_of_def)

theorem bytebuf_typed_witness:
  "\<exists>b'. exec_calls (\<lambda>_. 0) [Enlarge 16, PutNumber (N16 513), SetOrder 1, PutNumber (N32 7), Put [1, 2, 3], Rewind,
            GetNumber (N16 0), Consume 4, Get 2, Release, Take [9, 8, 7, 6] 3, GetNumber (N16 0)] EdByteBuffer_new = Inr b' \<and>
     has_type b' \<lparr>tsize = 3, tpos = 2, tcap = 4\<rparr> \<and> length (pending b') = 1 \<and>
     exec_call (\<lambda>_. 0) (GetNumber (N16 0)) b' = Inl (Throw 1)"
proof -
  have cs: "calls_type [Enlarge 16, PutNumber (N16 513), SetOrder 1, PutNumber (N32 7), Put [1, 2, 3], Rewind,
            GetNumber (N16 0), Consume 4, Get 2, Release, Take [9, 8, 7, 6] 3, GetNumber (N16 0)] \<lparr>tsize = 0, tpos = 0, tcap = 0\<rparr> =
     Some \<lparr>tsize = 3, tpos = 2, tcap = 4\<rparr>"
    by (simp add: put_type_def skip_type_def)
  from bytebuf_typed [OF has_type_new cs, of "\<lambda>_. 0" "N16 0"] show ?thesis
    by (simp add: skip_type_def del: exec_calls.simps exec_call.simps)
qed

end
