(* ===== verification/EdDescr.thy ===== *)
theory EdDescr
  imports EdEvtObjs EdTaskMsg
begin

text \<open>The rest of the classes with one descriptor (EdEventFd.cpp, EdPipe.cpp, EdSignalFd.cpp, EdTimer.cpp, EdMq.cpp):
  construction and destruction, listeners, reading and writing, and the timers of a task up to the
  message that an expired one delivers. A listener is known by whether it is set. The sending and
  receiving system calls are functions; the lemmas state what they are given.\<close>

section \<open>EdEventFd\<close>

record EdEventFd = EdEvent +
  efLis :: bool

definition EdEventFd_new :: "addr \<Rightarrow> thread_env \<Rightarrow> EdEventFd" where
  "EdEventFd_new self cur = EdEvent.extend (EdEvent_new self cur) \<lparr>efLis = False\<rparr>"

definition EdEventFd_destroy :: "'o EdEvent_scheme \<Rightarrow> 'w evsys_scheme \<Rightarrow> int \<Rightarrow> thread_env \<Rightarrow> fault + ('o EdEvent_scheme \<times> 'w evsys_scheme)" where
  "EdEventFd_destroy e w ctl cur = bindr (EdEventFd_close e w ctl cur) (\<lambda>(e, w). EdEvent_destroy e w cur ctl)"

definition EdEventFd_setOnListener :: "'o EdEventFd_scheme \<Rightarrow> bool \<Rightarrow> 'o EdEventFd_scheme" where
  "EdEventFd_setOnListener e lis = e\<lparr>efLis := lis\<rparr>"

text \<open>\<^verbatim>\<open>open\<close> with its listener, and the count the listener is given.\<close>

definition EdEventFd_open_lis ::
  "'o EdEventFd_scheme \<Rightarrow> 'w evsys_scheme \<Rightarrow> addr \<Rightarrow> bool \<Rightarrow> int \<Rightarrow> int \<Rightarrow> thread_env \<Rightarrow> fault + (int \<times> 'o EdEventFd_scheme \<times> 'w evsys_scheme)" where
  "EdEventFd_open_lis e w a lis fd ctl cur = EdEventFd_open (if lis then e\<lparr>efLis := lis\<rparr> else e) w a fd ctl cur"

definition EdEventFd_OnEventFd :: "'o EdEventFd_scheme \<Rightarrow> int \<Rightarrow> int option" where
  "EdEventFd_OnEventFd e cnt = (if efLis e then Some cnt else None)"

section \<open>EdPipe\<close>

definition EdPipe_new :: "addr \<Rightarrow> thread_env \<Rightarrow> EdPipe" where
  "EdPipe_new self cur = EdEvent.extend (EdEvent_new self cur) \<lparr>mRecvFd = - 1, mSendFd = - 1, pLis = False\<rparr>"

definition EdPipe_destroy :: "'o EdPipe_scheme \<Rightarrow> 'w evsys_scheme \<Rightarrow> int \<Rightarrow> thread_env \<Rightarrow> fault + ('o EdPipe_scheme \<times> 'w evsys_scheme)" where
  "EdPipe_destroy e w ctl cur = bindr (EdPipe_close e w ctl cur) (\<lambda>(e, w). EdEvent_destroy e w cur ctl)"

text \<open>The event a listener is given.\<close>

definition EdPipe_OnEventRead :: "'o EdPipe_scheme \<Rightarrow> u32 option" where
  "EdPipe_OnEventRead e = (if pLis e then Some EVT_READ else None)"

definition EdPipe_OnEventWrite :: "'o EdPipe_scheme \<Rightarrow> u32 option" where
  "EdPipe_OnEventWrite e = (if pLis e then Some EVT_WRITE else None)"

definition EdPipe_setOnListener :: "'o EdPipe_scheme \<Rightarrow> bool \<Rightarrow> 'o EdPipe_scheme" where
  "EdPipe_setOnListener e lis = e\<lparr>pLis := lis\<rparr>"

text \<open>\<^verbatim>\<open>send\<close> and \<^verbatim>\<open>recv\<close> over the calls of \<^verbatim>\<open>write\<close> and \<^verbatim>\<open>read\<close> on a state \<open>k\<close> of the kernel.\<close>

definition EdPipe_send :: "(int \<Rightarrow> u8 list \<Rightarrow> 'k \<Rightarrow> int \<times> 'k) \<Rightarrow> 'o EdPipe_scheme \<Rightarrow> u8 list \<Rightarrow> 'k \<Rightarrow> int \<times> 'k" where
  "EdPipe_send wr e buf k = wr (mSendFd e) buf k"

definition EdPipe_recv :: "(int \<Rightarrow> nat \<Rightarrow> 'k \<Rightarrow> int \<times> u8 list \<times> 'k) \<Rightarrow> 'o EdPipe_scheme \<Rightarrow> nat \<Rightarrow> 'k \<Rightarrow> int \<times> u8 list \<times> 'k" where
  "EdPipe_recv rd e n k = rd (mRecvFd e) n k"

section \<open>EdSignalFd\<close>

definition EdSignalFd_new :: "addr \<Rightarrow> thread_env \<Rightarrow> EdSignalFd" where
  "EdSignalFd_new self cur = EdEvent.extend (EdEvent_new self cur) \<lparr>sgLis = False\<rparr>"

definition EdSignalFd_destroy :: "'o EdEvent_scheme \<Rightarrow> 'w evsys_scheme \<Rightarrow> int \<Rightarrow> thread_env \<Rightarrow> fault + ('o EdEvent_scheme \<times> 'w evsys_scheme)" where
  "EdSignalFd_destroy e w ctl cur = bindr (EdSignalFd_close e w ctl cur) (\<lambda>(e, w). EdEvent_destroy e w cur ctl)"

definition EdSignalFd_setOnListener :: "'o EdSignalFd_scheme \<Rightarrow> bool \<Rightarrow> 'o EdSignalFd_scheme" where
  "EdSignalFd_setOnListener e lis = e\<lparr>sgLis := lis\<rparr>"

text \<open>The mask that \<^verbatim>\<open>setSignal\<close> builds, and the signals the thread blocks afterwards: they stay blocked
  when \<^verbatim>\<open>signalfd\<close> then fails. \<open>valid\<close> are the numbers \<^verbatim>\<open>sigaddset\<close> accepts.\<close>

fun signal_mask :: "(int \<Rightarrow> bool) \<Rightarrow> int list \<Rightarrow> int set \<Rightarrow> int set" where
  "signal_mask valid [] set0 = set0"
| "signal_mask valid (m # ms) set0 = signal_mask valid ms (if valid m then insert m set0 else set0)"

definition EdSignalFd_setSignal_mask ::
  "(int \<Rightarrow> bool) \<Rightarrow> (int set \<Rightarrow> int) \<Rightarrow> 'o EdEvent_scheme \<Rightarrow> 'w evsys_scheme \<Rightarrow> addr \<Rightarrow> int \<Rightarrow> thread_env \<Rightarrow> int list \<Rightarrow> int set \<Rightarrow>
     fault + (int \<times> int set \<times> 'o EdEvent_scheme \<times> 'w evsys_scheme)" where
  "EdSignalFd_setSignal_mask valid sfd e w a ctl cur mask_list blocked =
     (let sigs = signal_mask valid mask_list {}; blocked = blocked \<union> sigs
      in bindr (EdSignalFd_setSignal e w a (sfd sigs) ctl cur) (\<lambda>(r, e, w). Inr (r, blocked, e, w)))"

section \<open>EdTimer\<close>

definition EdTimer_setOnListener :: "'o EdTimer_scheme \<Rightarrow> bool \<Rightarrow> 'o EdTimer_scheme" where
  "EdTimer_setOnListener e lis = e\<lparr>mLis := lis\<rparr>"

definition EdTimer_getHitCount :: "'o EdTimer_scheme \<Rightarrow> u64" where
  "EdTimer_getHitCount e = mHitCount e"

text \<open>\<^verbatim>\<open>TaskTimer::OnTimer\<close>: the task whose \<^verbatim>\<open>OnEventProc\<close> is called, and its message. Only \<^verbatim>\<open>msgid\<close>
  and \<^verbatim>\<open>p1\<close>, the low half of the data, are set; \<open>m\<close> is what the variable held. An \<^verbatim>\<open>upEdMsgObj\<close>
  starts empty.\<close>

definition TaskTimer_OnTimer :: "EdMsg \<Rightarrow> 'o TaskTimer_scheme \<Rightarrow> addr \<times> EdMsg" where
  "TaskTimer_OnTimer m e =
     (EdEvent_getUser e,
      m\<lparr>msgid := EDM_TIMER, mdata := push_bit 32 (drop_bit 32 (mdata m)) OR ucast (timerId e), msgobj := NULL\<rparr>)"

text \<open>The read event of a task timer: the override of \<^verbatim>\<open>OnTimer\<close> takes the place of the listener.\<close>

definition TaskTimer_OnEventRead :: "EdMsg \<Rightarrow> 'o TaskTimer_scheme \<Rightarrow> int \<Rightarrow> u64 \<Rightarrow> (addr \<times> EdMsg) \<times> 'o TaskTimer_scheme" where
  "TaskTimer_OnEventRead m e rcnt hits =
     (let e = (if rcnt = 8 then e\<lparr>mHitCount := hits\<rparr> else e) in (TaskTimer_OnTimer m e, e))"

section \<open>EdMq\<close>

definition EdMq_new :: "addr \<Rightarrow> thread_env \<Rightarrow> EdMq" where
  "EdMq_new self cur = EdEvent.extend (EdEvent_new self cur)
     \<lparr>mMqd = - 1, mQueueName = [], mQAttr = \<lparr>mq_flags = 0, mq_maxmsg = 0, mq_msgsize = 0, mq_curmsgs = 0\<rparr>, qLis = False\<rparr>"

definition EdMq_open_name :: "'o EdMq_scheme \<Rightarrow> 'w evsys_scheme \<Rightarrow> addr \<Rightarrow> mq_open_call \<Rightarrow> mq_attr \<Rightarrow> (u32 \<Rightarrow> int) \<Rightarrow> thread_env \<Rightarrow>
    string \<Rightarrow> fault + (int \<times> 'o EdMq_scheme \<times> 'w evsys_scheme)" where
  "EdMq_open_name e w a mqo qattr ctl cur name =
     EdMq_open e w a mqo qattr ctl cur name (O_RDWR OR O_NONBLOCK) (S_IRUSR OR S_IWUSR) None"

definition EdMq_create :: "'o EdMq_scheme \<Rightarrow> 'w evsys_scheme \<Rightarrow> addr \<Rightarrow> mq_open_call \<Rightarrow> mq_attr \<Rightarrow> (u32 \<Rightarrow> int) \<Rightarrow> thread_env \<Rightarrow>
    string \<Rightarrow> int \<Rightarrow> int \<Rightarrow> bool \<Rightarrow> fault + (int \<times> 'o EdMq_scheme \<times> 'w evsys_scheme)" where
  "EdMq_create e w a mqo qattr ctl cur name msgsize maxmsg exist_err =
     (let attr = \<lparr>mq_flags = uint O_NONBLOCK, mq_maxmsg = maxmsg, mq_msgsize = msgsize, mq_curmsgs = 0\<rparr>;
          oflag = O_RDWR OR O_CREAT OR O_NONBLOCK;
          oflag = (if exist_err then oflag OR O_EXCL else oflag)
      in EdMq_open e w a mqo qattr ctl cur name oflag (S_IRUSR OR S_IWUSR) (Some attr))"

text \<open>The name that is unlinked, when there is one.\<close>

definition EdMq_unlink :: "'o EdMq_scheme \<Rightarrow> string option" where
  "EdMq_unlink e = (if mQueueName e \<noteq> [] then Some (mQueueName e) else None)"

definition EdMq_OnEventRead :: "'o EdMq_scheme \<Rightarrow> u32 option" where
  "EdMq_OnEventRead e = (if qLis e then Some EVT_READ else None)"

definition EdMq_OnEventWrite :: "'o EdMq_scheme \<Rightarrow> u32 option" where
  "EdMq_OnEventWrite e = (if qLis e then Some EVT_WRITE else None)"

definition EdMq_OnEventHangup :: "'o EdMq_scheme \<Rightarrow> u32 option" where
  "EdMq_OnEventHangup e = None"

definition EdMq_setOnListener :: "'o EdMq_scheme \<Rightarrow> bool \<Rightarrow> 'o EdMq_scheme" where
  "EdMq_setOnListener e lis = e\<lparr>qLis := lis\<rparr>"

text \<open>\<open>snd_call\<close> and \<open>rcv_call\<close> are \<^verbatim>\<open>mq_send\<close> and \<^verbatim>\<open>mq_receive\<close>: the descriptor, the message with its
  priority, or the size of the buffer; the result, the bytes written to the buffer and the priority.\<close>

type_synonym 'k mq_send_call = "int \<Rightarrow> u8 list \<Rightarrow> u32 \<Rightarrow> 'k \<Rightarrow> int \<times> 'k"
type_synonym 'k mq_recv_call = "int \<Rightarrow> nat \<Rightarrow> 'k \<Rightarrow> int \<times> u8 list \<times> u32 \<times> 'k"

definition EdMq_send :: "'k mq_send_call \<Rightarrow> 'o EdMq_scheme \<Rightarrow> u8 list \<Rightarrow> u32 \<Rightarrow> 'k \<Rightarrow> int \<times> 'k" where
  "EdMq_send snd_call e msg prio k = snd_call (mMqd e) msg prio k"

definition EdMq_recv :: "'k mq_recv_call \<Rightarrow> 'o EdMq_scheme \<Rightarrow> 'k \<Rightarrow> int \<times> u8 list \<times> u32 \<times> 'k" where
  "EdMq_recv rcv_call e k = rcv_call (mMqd e) (nat (mq_msgsize (mQAttr e))) k"

text \<open>\<^verbatim>\<open>recvString\<close>: the string has the size of a message and is cut to what was received.\<close>

definition EdMq_recvString :: "'k mq_recv_call \<Rightarrow> 'o EdMq_scheme \<Rightarrow> 'k \<Rightarrow> u8 list \<times> u32 \<times> 'k" where
  "EdMq_recvString rcv_call e k =
     (let s = replicate (nat (mq_msgsize (mQAttr e))) 0;
          (rcnt, bs, prio, k) = EdMq_recv rcv_call e k;
          s = take (length s) bs @ drop (length bs) s
      in (if rcnt > 0 then take (nat rcnt) s else [], prio, k))"

definition EdMq_sendString :: "'k mq_send_call \<Rightarrow> 'o EdMq_scheme \<Rightarrow> u8 list \<Rightarrow> u32 \<Rightarrow> 'k \<Rightarrow> int \<times> 'k" where
  "EdMq_sendString snd_call e s prio k = EdMq_send snd_call e s prio k"

definition EdMq_getMsgSize :: "'o EdMq_scheme \<Rightarrow> int" where
  "EdMq_getMsgSize e = mq_msgsize (mQAttr e)"

definition EdMq_getMaxMsg :: "'o EdMq_scheme \<Rightarrow> int" where
  "EdMq_getMaxMsg e = mq_maxmsg (mQAttr e)"

definition EdMq_destroy :: "'o EdMq_scheme \<Rightarrow> 'w evsys_scheme \<Rightarrow> int \<Rightarrow> thread_env \<Rightarrow> fault + ('o EdMq_scheme \<times> 'w evsys_scheme)" where
  "EdMq_destroy e w ctl cur = EdEvent_destroy e w cur ctl"

section \<open>Facts about the classes\<close>

lemma signal_mask_set: "signal_mask valid ms set0 = set0 \<union> {m \<in> set ms. valid m}"
  by (induction ms arbitrary: set0) auto

text \<open>The destructor of an \<^verbatim>\<open>EdMq\<close> does not close the queue: the event goes, the descriptor stays open.\<close>

lemma mq_destroy_leaks:
  assumes "mq_opened e (curTask cur) p" "ev_rep w es ds" "env_ok w cur" "p \<in> set es"
  obtains e' w' where "EdMq_destroy e w 0 cur = Inr (e', w')" "mMqd e' = mMqd e" "0 < mMqd e'" "ev_rep w' (remove1 p es) (ds @ [p])"
proof -
  have on: "ev_on e (curTask cur) p" "0 < mMqd e" using assms(1) by (simp_all add: mq_opened_def)
  then have d: "EdMq_destroy e w 0 cur = EdEvent_deregisterEvent e w cur 0" by (simp add: EdMq_destroy_def EdEvent_destroy_def ev_on_def)
  show thesis by (rule deregisterEvent_ok [OF on(1) assms(2-4)]) (use d on(2) in \<open>auto intro: that\<close>)
qed

text \<open>A received message is returned whole; an empty message and an error look the same.\<close>

lemma recvString_whole:
  assumes "rcv_call (mMqd e) (nat (mq_msgsize (mQAttr e))) k = (int (length bs), bs, prio, k')" "int (length bs) \<le> mq_msgsize (mQAttr e)"
  shows "EdMq_recvString rcv_call e k = (bs, prio, k')"
  using assms by (simp add: EdMq_recvString_def EdMq_recv_def Let_def)

lemma recvString_ambiguous:
  assumes "rcv_call (mMqd e) (nat (mq_msgsize (mQAttr e))) k = (n, [], prio, k)" "n \<le> 0"
  shows "EdMq_recvString rcv_call e k = ([], prio, k)"
  using assms by (simp add: EdMq_recvString_def EdMq_recv_def Let_def)

section \<open>The timers of a task\<close>

text \<open>Calls of \<^verbatim>\<open>setTimer\<close> (id, period, first period, the address and the descriptor a new timer gets, the
  address of its event) and \<^verbatim>\<open>killTimer\<close>, and what they should leave: the periods by id.\<close>

datatype timer_op = SetTimer u32 u32 u32 addr int addr | KillTimer u32

fun timer_run :: "addr \<Rightarrow> thread_env \<Rightarrow> timer_op list \<Rightarrow> timer_map \<Rightarrow> 'w evsys_scheme \<Rightarrow> fault + (timer_map \<times> 'w evsys_scheme)" where
  "timer_run task cur [] m w = Inr (m, w)"
| "timer_run task cur (SetTimer tid ms first self fd a # ops) m w =
     bindr (EdTask_setTimer m w task self a fd 0 cur tid ms first) (\<lambda>(m, w). timer_run task cur ops m w)"
| "timer_run task cur (KillTimer tid # ops) m w =
     bindr (EdTask_killTimer m w 0 cur tid) (\<lambda>(m, w). timer_run task cur ops m w)"

definition arm_of :: "u32 \<Rightarrow> u32 \<Rightarrow> timespec \<times> timespec" where
  "arm_of ms first = (usec_spec (ucast (ms * 1000)), usec_spec (if ucast (first * 1000) = (0 :: u64) then ucast (ms * 1000) else ucast (first * 1000)))"

fun timer_spec :: "timer_op list \<Rightarrow> (u32 \<rightharpoonup> timespec \<times> timespec) \<Rightarrow> (u32 \<rightharpoonup> timespec \<times> timespec)" where
  "timer_spec [] s = s"
| "timer_spec (SetTimer tid ms first _ _ _ # ops) s = timer_spec ops (s(tid \<mapsto> arm_of ms first))"
| "timer_spec (KillTimer tid # ops) s = timer_spec ops (s(tid := None))"

fun op_addrs :: "timer_op list \<Rightarrow> addr list" where
  "op_addrs [] = []"
| "op_addrs (SetTimer _ _ _ _ _ a # ops) = a # op_addrs ops"
| "op_addrs (KillTimer _ # ops) = op_addrs ops"

fun op_ok :: "timer_op \<Rightarrow> bool" where
  "op_ok (SetTimer _ _ _ _ fd a) = (0 < fd \<and> a \<noteq> NULL)"
| "op_ok (KillTimer _) = True"

text \<open>A timer under its id: it belongs to the task, is registered with one event and armed as \<open>s\<close> says.\<close>

definition timer_ok :: "addr \<Rightarrow> thread_env \<Rightarrow> 'w evsys_scheme \<Rightarrow> u32 \<Rightarrow> timespec \<times> timespec \<Rightarrow> TaskTimer \<Rightarrow> bool" where
  "timer_ok task cur w tid sp pt \<longleftrightarrow> timerId pt = tid \<and> mUser pt = task \<and> fd_open pt (curTask cur) (mEvt pt) \<and>
     armed pt = Some sp \<and> map_option evuser (evts w (mEvt pt)) = Some (eself pt)"

definition timers_inv ::
  "addr \<Rightarrow> thread_env \<Rightarrow> timer_map \<Rightarrow> (u32 \<rightharpoonup> timespec \<times> timespec) \<Rightarrow> 'w evsys_scheme \<Rightarrow> addr list \<Rightarrow> addr list \<Rightarrow> addr list \<Rightarrow> bool" where
  "timers_inv task cur m s w es ts ds \<longleftrightarrow> ev_rep w (es @ ts) ds \<and> env_ok w cur \<and> dom m = dom s \<and>
     (\<forall>tid pt sp. m tid = Some pt \<longrightarrow> s tid = Some sp \<longrightarrow> timer_ok task cur w tid sp pt) \<and>
     (\<forall>t u p q. m t = Some p \<longrightarrow> m u = Some q \<longrightarrow> mEvt p = mEvt q \<longrightarrow> t = u) \<and>
     (\<forall>x. x \<in> set ts \<longleftrightarrow> (\<exists>t p. m t = Some p \<and> mEvt p = x))"

lemma timer_okD:
  "timer_ok task cur w tid sp pt \<Longrightarrow> ev_on pt (curTask cur) (mEvt pt)" "timer_ok task cur w tid sp pt \<Longrightarrow> 0 < mFd pt"
  "timer_ok task cur w tid sp pt \<Longrightarrow> timerId pt = tid" "timer_ok task cur w tid sp pt \<Longrightarrow> mUser pt = task"
  by (simp_all add: timer_ok_def fd_open_def)

lemma timer_ok_frame:
  "timer_ok task cur w tid sp pt \<Longrightarrow> evts w' (mEvt pt) = evts w (mEvt pt) \<Longrightarrow> timer_ok task cur w' tid sp pt"
  by (simp add: timer_ok_def)

lemma timers_invI [intro]:
  assumes "ev_rep w (es @ ts) ds" "env_ok w cur" "dom m = dom s"
    and "\<And>tid pt sp. m tid = Some pt \<Longrightarrow> s tid = Some sp \<Longrightarrow> timer_ok task cur w tid sp pt"
    and "\<And>t u p q. m t = Some p \<Longrightarrow> m u = Some q \<Longrightarrow> mEvt p = mEvt q \<Longrightarrow> t = u"
    and "\<And>x. x \<in> set ts \<longleftrightarrow> (\<exists>t p. m t = Some p \<and> mEvt p = x)"
  shows "timers_inv task cur m s w es ts ds"
  using assms unfolding timers_inv_def by blast

lemma timers_invD:
  assumes "timers_inv task cur m s w es ts ds"
  shows "ev_rep w (es @ ts) ds" "env_ok w cur" "dom m = dom s"
    and "m tid = Some pt \<Longrightarrow> s tid = Some sp \<Longrightarrow> timer_ok task cur w tid sp pt"
    and "m t = Some p \<Longrightarrow> m u = Some q \<Longrightarrow> mEvt p = mEvt q \<Longrightarrow> t = u"
    and "x \<in> set ts \<longleftrightarrow> (\<exists>t p. m t = Some p \<and> mEvt p = x)"
  using assms unfolding timers_inv_def by blast+

lemma timers_inv_timer: "timers_inv task cur m s w es ts ds \<Longrightarrow> m tid = Some pt \<Longrightarrow> \<exists>sp. s tid = Some sp \<and> timer_ok task cur w tid sp pt"
  using timers_invD(3,4) by (metis domD domI)

lemma setUsec_running:
  "\<not> mFd pt < 0 \<Longrightarrow> EdTimer_set pt w a fd 0 cur ms first False =
     Inr (pt\<lparr>it_interval := fst (arm_of ms first), it_value := snd (arm_of ms first), armed := Some (arm_of ms first)\<rparr>, w)"
  by (simp add: EdTimer_set_def EdTimer_setUsec_def arm_of_def Let_def)

lemma set_running:
  assumes "timer_ok task cur w tid sp pt"
  obtains pt' where "EdTimer_set pt w a fd 0 cur ms first False = Inr (pt', w)" "timer_ok task cur w tid (arm_of ms first) pt'" "mEvt pt' = mEvt pt"
proof -
  have "\<not> mFd pt < 0" using timer_okD(2) [OF assms] by simp
  from that [OF setUsec_running [OF this]] show thesis using assms by (simp add: timer_ok_def fd_open_def)
qed

lemma set_fresh:
  assumes r: "ev_rep w es ds" and env: "env_ok w cur" and a: "a \<notin> set (es @ ds)" "a \<noteq> NULL" "0 < fd"
  obtains pt w' where "EdTimer_set (EdEvent_setUser (TaskTimer_new tid self cur) task) w a fd 0 cur ms first False = Inr (pt, w')"
    "timer_ok task cur w' tid (arm_of ms first) pt" "mEvt pt = a" "ev_rep w' (es @ [a]) ds" "env_ok w' cur"
    "\<And>q. q \<noteq> a \<Longrightarrow> evts w' q = evts w q"
proof -
  let ?p = "EdEvent_setUser (TaskTimer_new tid self cur) task"
  have new: "ev_off ?p" "mFd ?p = - 1" "timerId ?p = tid" "mUser ?p = task"
    by (simp_all add: EdEvent_setUser_def TaskTimer_new_def EdTimer_new_def EdEvent_new_def EdEvent.defs EdTimer.defs ev_off_def)
  have h: "ehdrs w a = None" using r a(1) by (auto simp: ev_rep_def)
  obtain w' where w': "EdEvent_registerEvent (EdEvent_setFd ?p fd cur) w a 0 = Inr ((EdEvent_setFd ?p fd cur)\<lparr>mEvt := a, mIsReg := True\<rparr>, w')"
    "ev_on ((EdEvent_setFd ?p fd cur)\<lparr>mEvt := a, mIsReg := True\<rparr>) (curTask cur) a" "ev_rep w' (es @ [a]) ds"
    "evts w' = (evts w)(a \<mapsto> \<lparr>evfd = fd, evuser = eself ?p, isReg = True, ecb = EsCb\<rparr>)" "cmode w' = cmode w"
    by (rule setFd_registerEvent_ok [OF new(1) r env h a(2,3)]) blast
  let ?q = "((EdEvent_setFd ?p fd cur)\<lparr>mEvt := a, mIsReg := True\<rparr>)
    \<lparr>it_interval := fst (arm_of ms first), it_value := snd (arm_of ms first), armed := Some (arm_of ms first)\<rparr>"
  have "EdTimer_set ?p w a fd 0 cur ms first False = Inr (?q, w')"
    using new(2) w'(1) by (simp add: EdTimer_set_def EdTimer_setUsec_def arm_of_def Let_def)
  moreover have "timer_ok task cur w' tid (arm_of ms first) ?q"
    using w'(2,4) new a(3) by (simp add: timer_ok_def fd_open_def EdEvent_setFd_def ev_on_def)
  moreover have "env_ok w' cur" using env w'(5) by (simp add: env_ok_def)
  ultimately show thesis using w'(3,4) by (intro that [of ?q w']) simp_all
qed

lemma ex_upd_same: "m t = Some p \<Longrightarrow> f q = f p \<Longrightarrow> (\<exists>u r. (m(t \<mapsto> q)) u = Some r \<and> f r = x) \<longleftrightarrow> (\<exists>u r. m u = Some r \<and> f r = x)"
  by (rule iffI; elim exE conjE; rename_tac u r; case_tac "u = t") (auto intro: exI [of _ t])

lemma ex_upd_none:
  assumes p: "m t = Some p" and other: "\<And>u r. m u = Some r \<Longrightarrow> u \<noteq> t \<Longrightarrow> f r \<noteq> f p"
  shows "(\<exists>u r. (m(t := None)) u = Some r \<and> f r = x) \<longleftrightarrow> x \<noteq> f p \<and> (\<exists>u r. m u = Some r \<and> f r = x)"
proof
  assume "\<exists>u r. (m(t := None)) u = Some r \<and> f r = x"
  then obtain u r where "m u = Some r" "u \<noteq> t" "f r = x" by (auto split: if_splits)
  then show "x \<noteq> f p \<and> (\<exists>u r. m u = Some r \<and> f r = x)" using other by blast
next
  assume "x \<noteq> f p \<and> (\<exists>u r. m u = Some r \<and> f r = x)"
  then obtain u r where "m u = Some r" "f r = x" "x \<noteq> f p" by blast
  then show "\<exists>u r. (m(t := None)) u = Some r \<and> f r = x" using p by (intro exI [of _ u] exI [of _ r]) auto
qed

lemma setTimer_ok:
  assumes i: "timers_inv task cur m s w es ts ds" and a: "a \<notin> set (es @ ts @ ds)" "a \<noteq> NULL" "0 < fd"
  obtains m' w' ts' where "EdTask_setTimer m w task self a fd 0 cur tid ms first = Inr (m', w')"
    "timers_inv task cur m' (s(tid \<mapsto> arm_of ms first)) w' es ts' ds" "set ts' \<subseteq> insert a (set ts)"
proof (cases "m tid")
  case None
  note d = timers_invD [OF i]
  have a': "a \<notin> set ((es @ ts) @ ds)" using a(1) by simp
  obtain pt w' where p: "EdTimer_set (EdEvent_setUser (TaskTimer_new tid self cur) task) w a fd 0 cur ms first False = Inr (pt, w')"
    "timer_ok task cur w' tid (arm_of ms first) pt" "mEvt pt = a" "ev_rep w' ((es @ ts) @ [a]) ds" "env_ok w' cur"
    "\<And>q. q \<noteq> a \<Longrightarrow> evts w' q = evts w q"
    using set_fresh [OF d(1,2) a' a(2,3)] by metis
  have ne: "m t = Some q \<Longrightarrow> mEvt q \<noteq> a" for t q using a(1) d(6) by auto
  have "timers_inv task cur (m(tid \<mapsto> pt)) (s(tid \<mapsto> arm_of ms first)) w' es (ts @ [a]) ds"
  proof
    show "timer_ok task cur w' t sp q" if "(m(tid \<mapsto> pt)) t = Some q" "(s(tid \<mapsto> arm_of ms first)) t = Some sp" for t q sp
      using that p(2) d(4) [of t q sp] timer_ok_frame [OF _ p(6) [OF ne]] by (cases "t = tid") auto
    show "x \<in> set (ts @ [a]) \<longleftrightarrow> (\<exists>t q. (m(tid \<mapsto> pt)) t = Some q \<and> mEvt q = x)" for x
      using d(6) [of x] p(3) None by auto (metis option.distinct(1))
  qed (use d p ne in \<open>auto split: if_splits\<close>)
  with p(1) None show thesis by (intro that) (auto simp: EdTask_setTimer_def)
next
  case (Some pt)
  note d = timers_invD [OF i]
  from timers_inv_timer [OF i Some] obtain sp where sp: "timer_ok task cur w tid sp pt" "s tid = Some sp" by blast
  obtain pt' where p: "EdTimer_set pt w a fd 0 cur ms first False = Inr (pt', w)" "timer_ok task cur w tid (arm_of ms first) pt'" "mEvt pt' = mEvt pt"
    by (rule set_running [OF sp(1)])
  have "timers_inv task cur (m(tid \<mapsto> pt')) (s(tid \<mapsto> arm_of ms first)) w es ts ds"
  proof
    show "t = u" if h: "(m(tid \<mapsto> pt')) t = Some q" "(m(tid \<mapsto> pt')) u = Some r" "mEvt q = mEvt r" for t u q r
    proof -
      have "m t = Some (if t = tid then pt else q)" "m u = Some (if u = tid then pt else r)" using h Some by (auto split: if_splits)
      from d(5) [OF this] show ?thesis using h p(3) by (auto split: if_splits)
    qed
    show "x \<in> set ts \<longleftrightarrow> (\<exists>t q. (m(tid \<mapsto> pt')) t = Some q \<and> mEvt q = x)" for x
      using d(6) [of x] ex_upd_same [of m tid pt mEvt pt' x, OF Some p(3)] by simp
  qed (use d p Some in \<open>auto split: if_splits\<close>)
  with p(1) Some show thesis by (intro that) (auto simp: EdTask_setTimer_def)
qed

lemma kill_ok:
  assumes t: "timer_ok task cur w tid sp pt" and r: "ev_rep w es ds" "env_ok w cur" and p: "mEvt pt \<in> set es"
  obtains pt' w' where "EdTimer_kill pt w 0 cur = Inr (pt', w')" "EdTimer_destroy pt' w' 0 cur = Inr (pt', w')"
    "ev_rep w' (remove1 (mEvt pt) es) (ds @ [mEvt pt])" "env_ok w' cur" "\<And>q. q \<noteq> mEvt pt \<Longrightarrow> evts w' q = evts w q"
proof (rule deregisterEvent_ok [OF timer_okD(1) [OF t] r p])
  fix w' assume w': "EdEvent_deregisterEvent pt w cur 0 = Inr (pt\<lparr>mEvt := NULL, mIsReg := False, mTask := NULL\<rparr>, w')"
    "ev_rep w' (remove1 (mEvt pt) es) (ds @ [mEvt pt])" "cmode w' = cmode w"
    "\<exists>e. evts w (mEvt pt) = Some e \<and> evts w' = (evts w)(mEvt pt \<mapsto> e\<lparr>isReg := False\<rparr>)"
  let ?q = "pt\<lparr>mEvt := NULL, mIsReg := False, mTask := NULL, mFd := - 1, armed := None\<rparr>"
  have "EdTimer_kill pt w 0 cur = Inr (?q, w')" using w'(1) timer_okD(2) [OF t] by (simp add: EdTimer_kill_def)
  moreover have "EdTimer_destroy ?q w' 0 cur = Inr (?q, w')" by (simp add: EdTimer_destroy_def EdTimer_kill_def EdEvent_destroy_def)
  moreover have "env_ok w' cur" using r(2) w'(3) by (simp add: env_ok_def)
  ultimately show thesis using w'(2,4) by (intro that [of ?q w']) auto
qed

lemma killTimer_ok:
  assumes i: "timers_inv task cur m s w es ts ds"
  obtains w' ts' ds' where "EdTask_killTimer m w 0 cur tid = Inr (m(tid := None), w')"
    "timers_inv task cur (m(tid := None)) (s(tid := None)) w' es ts' ds'" "set (ts' @ ds') = set (ts @ ds)"
proof (cases "m tid")
  case None
  then have "s tid = None" using timers_invD(3) [OF i] by (auto simp: domIff)
  then show thesis using None i by (intro that [of w ts ds]) (simp_all add: EdTask_killTimer_def fun_upd_idem)
next
  case (Some pt)
  note d = timers_invD [OF i]
  from timers_inv_timer [OF i Some] obtain sp where sp: "timer_ok task cur w tid sp pt" by blast
  have p: "mEvt pt \<in> set ts" "mEvt pt \<in> set (es @ ts)" using d(6) Some by auto
  have dst: "distinct (es @ ts)" using d(1) by (auto simp: ev_rep_def)
  from kill_ok [OF sp d(1,2) p(2)] obtain pt' w' where k: "EdTimer_kill pt w 0 cur = Inr (pt', w')" "EdTimer_destroy pt' w' 0 cur = Inr (pt', w')"
    "ev_rep w' (remove1 (mEvt pt) (es @ ts)) (ds @ [mEvt pt])" "env_ok w' cur" "\<And>q. q \<noteq> mEvt pt \<Longrightarrow> evts w' q = evts w q" by blast
  have rm: "remove1 (mEvt pt) (es @ ts) = es @ remove1 (mEvt pt) ts" using p(1) dst by (auto simp: remove1_append)
  have other: "m t = Some q \<Longrightarrow> t \<noteq> tid \<Longrightarrow> mEvt q \<noteq> mEvt pt" for t q using d(5) [of t q tid pt] Some by auto
  have "timers_inv task cur (m(tid := None)) (s(tid := None)) w' es (remove1 (mEvt pt) ts) (ds @ [mEvt pt])"
  proof
    show "timer_ok task cur w' t sq q" if "(m(tid := None)) t = Some q" "(s(tid := None)) t = Some sq" for t q sq
      using that d(4) [of t q sq] timer_ok_frame [OF _ k(5) [OF other]] by (auto split: if_splits)
    show "x \<in> set (remove1 (mEvt pt) ts) \<longleftrightarrow> (\<exists>t q. (m(tid := None)) t = Some q \<and> mEvt q = x)" for x
      using d(6) [of x] dst ex_upd_none [of m tid pt mEvt x, OF Some other] by auto
  qed (use d k(3,4) rm in \<open>auto split: if_splits\<close>)
  moreover have "EdTask_killTimer m w 0 cur tid = Inr (m(tid := None), w')" using k(1,2) Some by (simp add: EdTask_killTimer_def)
  moreover have "set (remove1 (mEvt pt) ts @ ds @ [mEvt pt]) = set (ts @ ds)" using p(1) dst by auto
  ultimately show thesis by (intro that)
qed

lemma timer_run_ok:
  "timers_inv task cur m s w es ts ds \<Longrightarrow> list_all op_ok ops \<Longrightarrow> distinct (op_addrs ops) \<Longrightarrow>
     set (op_addrs ops) \<inter> set (es @ ts @ ds) = {} \<Longrightarrow>
     \<exists>m' w' ts' ds'. timer_run task cur ops m w = Inr (m', w') \<and> timers_inv task cur m' (timer_spec ops s) w' es ts' ds'"
proof (induction ops arbitrary: m s w ts ds)
  case Nil
  then show ?case by auto
next
  case (Cons op ops)
  show ?case
  proof (cases op)
    case (SetTimer tid ms first self fd a)
    then have a: "a \<notin> set (es @ ts @ ds)" "a \<noteq> NULL" "0 < fd" using Cons.prems by auto
    obtain m1 w1 ts1 where 1: "EdTask_setTimer m w task self a fd 0 cur tid ms first = Inr (m1, w1)"
      "timers_inv task cur m1 (s(tid \<mapsto> arm_of ms first)) w1 es ts1 ds" "set ts1 \<subseteq> insert a (set ts)"
      by (rule setTimer_ok [OF Cons.prems(1) a])
    then have "set (op_addrs ops) \<inter> set (es @ ts1 @ ds) = {}" using Cons.prems(3,4) SetTimer by auto
    from Cons.IH [OF 1(2) _ _ this] Cons.prems(2,3) SetTimer 1(1) show ?thesis by (simp del: fun_upd_apply)
  next
    case (KillTimer tid)
    obtain w1 ts1 ds1 where 1: "EdTask_killTimer m w 0 cur tid = Inr (m(tid := None), w1)"
      "timers_inv task cur (m(tid := None)) (s(tid := None)) w1 es ts1 ds1" "set (ts1 @ ds1) = set (ts @ ds)"
      by (rule killTimer_ok [OF Cons.prems(1)])
    then have "set (op_addrs ops) \<inter> set (es @ ts1 @ ds1) = {}" using Cons.prems(4) KillTimer by auto
    from Cons.IH [OF 1(2) _ _ this] Cons.prems(2,3) KillTimer 1(1) show ?thesis by (simp del: fun_upd_apply)
  qed
qed

lemma cleanup_ok:
  "timers_inv task cur m s w es ts ds \<Longrightarrow> dom m \<subseteq> set ids \<Longrightarrow>
     \<exists>w' ds'. EdTask_cleanupAllTimer m w 0 cur ids = Inr (Map.empty, w') \<and> ev_rep w' es ds'"
proof (induction ids arbitrary: m s w ts ds)
  case Nil
  then have "ts = []" using timers_invD(6) [OF Nil.prems(1)] by (cases ts) auto
  then show ?case using timers_invD(1) [OF Nil.prems(1)] by auto
next
  case (Cons tid ids)
  obtain w1 ts1 ds1 where 1: "EdTask_killTimer m w 0 cur tid = Inr (m(tid := None), w1)"
    "timers_inv task cur (m(tid := None)) (s(tid := None)) w1 es ts1 ds1"
    by (rule killTimer_ok [OF Cons.prems(1)])
  have "dom (m(tid := None)) \<subseteq> set ids" using Cons.prems(2) by auto
  from Cons.IH [OF 1(2) this] 1(1) show ?case by (simp del: fun_upd_apply)
qed

text \<open>What an expired timer tells its task.\<close>

lemma timer_message:
  assumes "timer_ok task cur w tid sp pt"
  shows "fst (fst (TaskTimer_OnEventRead junk pt rcnt hits)) = task" "msgid (snd (fst (TaskTimer_OnEventRead junk pt rcnt hits))) = EDM_TIMER"
    "(ucast (mdata (snd (fst (TaskTimer_OnEventRead junk pt rcnt hits)))) :: u32) = tid"
  using assms getUserInt_setUserInt [of "\<lparr>eself = 0, mFd = 0, mIsReg = False, mEvt = 0, mTask = 0, mContext = 0, mUser = mdata junk\<rparr>" tid]
  by (simp_all add: TaskTimer_OnEventRead_def TaskTimer_OnTimer_def timer_ok_def EdEvent_getUser_def EdEvent_getUserInt_def EdEvent_setUserInt_def)

text \<open>The other half of the data is what the stack held: \<^verbatim>\<open>p2\<close> is not set.\<close>

lemma timer_message_p2:
  "drop_bit 32 (mdata (snd (fst (TaskTimer_OnEventRead junk pt rcnt hits)))) = drop_bit 32 (mdata junk)"
  by (simp add: TaskTimer_OnEventRead_def TaskTimer_OnTimer_def Let_def) (rule bit_word_eqI, auto simp: bit_simps dest: bit_imp_le_length)

section \<open>Property\<close>

text \<open>C20. The timers of a task. After any sequence of \<^verbatim>\<open>setTimer\<close> and \<^verbatim>\<open>killTimer\<close> the task has exactly the
  timers that were set and not killed since, each armed with the periods it was last set to, whether it
  was running before or is new; no call fails. Each of them is registered under one event that leads back to
  it, and when it expires its task gets a message \<^verbatim>\<open>EDM_TIMER\<close> with its id. \<^verbatim>\<open>cleanupAllTimer\<close>, in whatever order
  the map yields the ids, leaves no timer, and the registered events are those from before.\<close>

theorem task_timers:
  assumes w: "ev_rep w es ds" "env_ok w cur" and ops: "list_all op_ok ops" "distinct (op_addrs ops)" "set (op_addrs ops) \<inter> set (es @ ds) = {}"
  shows "\<exists>m' w'. timer_run task cur ops Map.empty w = Inr (m', w') \<and>
     map_option armed \<circ> m' = map_option Some \<circ> timer_spec ops Map.empty \<and>
     (\<forall>tid pt. m' tid = Some pt \<longrightarrow>
        map_option (\<lambda>e. (isReg e, evuser e)) (evts w' (mEvt pt)) = Some (True, eself pt) \<and>
        (\<forall>junk rcnt hits. \<exists>msg. fst (TaskTimer_OnEventRead junk pt rcnt hits) = (task, msg) \<and> msgid msg = EDM_TIMER \<and> ucast (mdata msg) = tid)) \<and>
     (\<forall>ids. dom m' \<subseteq> set ids \<longrightarrow> (\<exists>w'' ds'. EdTask_cleanupAllTimer m' w' 0 cur ids = Inr (Map.empty, w'') \<and> ev_rep w'' es ds'))"
proof -
  have "timers_inv task cur Map.empty Map.empty w es [] ds" using w by auto
  from timer_run_ok [OF this ops(1,2)] ops(3) obtain m' w' ts' ds' where
    r: "timer_run task cur ops Map.empty w = Inr (m', w')" "timers_inv task cur m' (timer_spec ops Map.empty) w' es ts' ds'" by auto
  note d = timers_invD [OF r(2)]
  have "map_option armed (m' tid) = map_option Some (timer_spec ops Map.empty tid)" for tid
  proof (cases "m' tid")
    case (Some pt)
    from timers_inv_timer [OF r(2) this] Some show ?thesis by (auto simp: timer_ok_def)
  qed (use d(3) in \<open>auto simp: domIff\<close>)
  moreover have "map_option (\<lambda>e. (isReg e, evuser e)) (evts w' (mEvt pt)) = Some (True, eself pt) \<and>
        (\<forall>junk rcnt hits. \<exists>msg. fst (TaskTimer_OnEventRead junk pt rcnt hits) = (task, msg) \<and> msgid msg = EDM_TIMER \<and> ucast (mdata msg) = tid)"
    if pt: "m' tid = Some pt" for tid pt
  proof -
    from timers_inv_timer [OF r(2) pt] obtain sp where sp: "timer_ok task cur w' tid sp pt" by blast
    have "mEvt pt \<in> set (es @ ts')" using d(6) pt by auto
    then have "map_option (\<lambda>e. (isReg e, evuser e)) (evts w' (mEvt pt)) = Some (True, eself pt)"
      using ev_rep_evt [OF d(1), of "mEvt pt"] sp by (auto simp: timer_ok_def)
    then show ?thesis using timer_message [OF sp] by (metis prod.collapse)
  qed
  ultimately show ?thesis using r(1) cleanup_ok [OF r(2)] by (auto simp: fun_eq_iff)
qed

text \<open>Two timers are set, one is set again with another period, one is killed.\<close>

theorem task_timers_witness:
  "\<exists>m' w'. timer_run 5000 task_env [SetTimer 1 1500 0 7000 8 1000, SetTimer 2 20 5 7100 9 2000, SetTimer 1 250 0 0 10 3000, KillTimer 2] Map.empty no_events = Inr (m', w') \<and>
     map_option armed (m' 1) = Some (Some (usec_spec 250000, usec_spec 250000)) \<and> m' 2 = None"
proof -
  let ?ops = "[SetTimer 1 1500 0 7000 8 1000, SetTimer 2 20 5 7100 9 2000, SetTimer 1 250 0 0 10 3000, KillTimer 2]"
  have o: "list_all op_ok ?ops" "distinct (op_addrs ?ops)" "set (op_addrs ?ops) \<inter> set ([] @ []) = {}" by simp_all
  from task_timers [OF no_events_rep task_env_ok o, of 5000] obtain m' w' where
    r: "timer_run 5000 task_env ?ops Map.empty no_events = Inr (m', w')"
    "map_option armed \<circ> m' = map_option Some \<circ> timer_spec ?ops Map.empty" by blast
  from fun_cong [OF r(2), of 1] fun_cong [OF r(2), of 2] r(1) show ?thesis by (auto simp: arm_of_def)
qed

end
