(* ===== verification/EdNet.thy ===== *)
theory EdNet
  imports EdTaskRun EdSockets
begin

text \<open>The event loop of a task together with all the sockets it serves: EdTask.cpp, EdEvent.cpp and
  EdSocket.cpp composed. The loop knows an event object, the event object its socket by address, and the
  socket its event object; \<^verbatim>\<open>esevent_cb\<close> follows the pointer and calls a handler of the socket. Listeners may
  open, close and delete sockets, their own too.\<close>

section \<open>State\<close>

text \<open>While a handler of a socket runs: this socket, the system of events and the error number of the
  task as in \<open>sst\<close>, the other sockets, and the state \<open>app\<close> of the program that uses them.\<close>

record 'x nst = sst +
  others :: "addr \<rightharpoonup> EdSocket"
  app :: 'x

text \<open>Between handlers: the loop, all sockets by their address, the error number of the task.\<close>

record 'x net = evsys +
  nsocks :: "addr \<rightharpoonup> EdSocket"
  nerr :: int
  napp :: 'x

type_synonym 'x net_vm = "sock_event \<Rightarrow> 'x nst \<Rightarrow> fault + 'x nst"

definition net_focus :: "addr \<Rightarrow> EdSocket \<Rightarrow> 'x net \<Rightarrow> 'x nst" where
  "net_focus q e w =
     \<lparr>sk = e, sw = evsys.truncate w, lastSockErrorNo = nerr w, others = (nsocks w)(q := None), app = napp w\<rparr>"

definition socks_of :: "'x nst \<Rightarrow> addr \<rightharpoonup> EdSocket" where
  "socks_of s = (if eself (sk s) = NULL then others s else (others s)(eself (sk s) \<mapsto> sk s))"

definition net_unfocus :: "'x nst \<Rightarrow> 'x net" where
  "net_unfocus s = evsys.extend (sw s) \<lparr>nsocks = socks_of s, nerr = lastSockErrorNo s, napp = app s\<rparr>"

section \<open>Deleting a socket\<close>

text \<open>The destructors of \<^verbatim>\<open>EdSocket\<close> and \<^verbatim>\<open>EdEvent\<close>. What stands for the socket afterwards has a null address; a
  virtual call on it is a bad access, and closing it fails, because its task is not the current one.\<close>

definition EdSocket_destroy :: "env \<Rightarrow> 'a sst_scheme \<Rightarrow> fault + 'a sst_scheme" where
  "EdSocket_destroy v s =
     bindr (EdSocket_close v s) (\<lambda>s.
     bindr (EdEvent_destroy (sk s) (sw s) (ecur v) (ectl v)) (\<lambda>(e, w). Inr (s\<lparr>sk := e, sw := w\<rparr>)))"

definition freed_sock :: "env \<Rightarrow> EdSocket" where
  "freed_sock v = (EdSocket_new NULL (ecur v))\<lparr>mFd := 0, mTask := curTask (ecur v) + 1\<rparr>"

definition sk_delete :: "env \<Rightarrow> 'x nst \<Rightarrow> fault + 'x nst" where
  "sk_delete v s = bindr (EdSocket_destroy v s) (\<lambda>s. Inr (s\<lparr>sk := freed_sock v\<rparr>))"

definition net_vm :: "(nat \<Rightarrow> 'x net_vm) \<Rightarrow> 'x net_vm" where
  "net_vm lis ev s = (if eself (sk s) = NULL then Inl Bad_access else EdSocket_vm lis ev s)"

text \<open>Every use of a deleted socket fails.\<close>

lemma freed_fails:
  assumes "eself (sk s) = NULL" "sk s = freed_sock v"
  shows "net_vm lis ev s = Inl Bad_access \<and> (curTask (ecur v) + 1 \<noteq> NULL \<longrightarrow> EdSocket_close v s = Inl Assert_failed)"
  using assms
  by (simp add: net_vm_def EdSocket_close_def sk_deregisterEvent_def EdEvent_deregisterEvent_def freed_sock_def EdSocket_new_def
      EdSocket_clearInternal_def EdEvent_new_def EdEvent.extend_def)

section \<open>The callback of the loop\<close>

text \<open>\<open>err\<close> is the error \<^verbatim>\<open>getsockopt\<close> finds. \<open>rd\<close> says when epoll reports an event of a socket: a listening socket,
  for example, when a connection arrived.\<close>

definition sock_dispatch :: "'x net_vm \<Rightarrow> env \<Rightarrow> int \<Rightarrow> u32 \<Rightarrow> 'x nst \<Rightarrow> fault + 'x nst" where
  "sock_dispatch vm v err flag s =
     (case EdEvent_esevent_cb flag of
        OnEventRead \<Rightarrow> EdSocket_OnEventRead vm v s
      | OnEventWrite \<Rightarrow> EdSocket_OnEventWrite vm v err s
      | OnEventHangup \<Rightarrow> EdSocket_OnEventHangup vm v s
      | NoHandler \<Rightarrow> Inr s)"

definition net_cb :: "'x net_vm \<Rightarrow> env \<Rightarrow> ('x nst \<Rightarrow> int) \<Rightarrow> ('x nst \<Rightarrow> bool) \<Rightarrow> evtcb \<Rightarrow> addr \<Rightarrow> u32 \<Rightarrow> 'x net \<Rightarrow> fault + 'x net" where
  "net_cb vm v err rd k p flag w =
     (case k of
        MsgCb \<Rightarrow> Inr w
      | EsCb \<Rightarrow>
          (case evts w p of
             None \<Rightarrow> Inl Bad_access
           | Some e \<Rightarrow>
               (case nsocks w (evuser e) of
                  None \<Rightarrow> Inl Bad_access
                | Some c \<Rightarrow>
                    let s = net_focus (evuser e) c w in
                    if rd s then map_sum id net_unfocus (sock_dispatch vm v (err s) flag s) else Inr w)))"

section \<open>The invariant\<close>

text \<open>A socket is live with a registered event that points back to it, or idle, or it has neither a
  descriptor nor an event. Every registered event of a socket points to an existing socket, which
  has this event. So there is no dangling pointer between the two, in either direction.\<close>

definition sock_in :: "env \<Rightarrow> 'w evsys_scheme \<Rightarrow> EdSocket \<Rightarrow> bool" where
  "sock_in v w e \<longleftrightarrow>
     (case evts w (mEvt e) of
        Some ev \<Rightarrow> isReg ev \<and> ecb ev = EsCb \<and> evuser ev = eself e \<and> sk_live v (mEvt e) e
      | None \<Rightarrow> False) \<or> sk_idle v e \<or> mFd e < 0 \<and> mEvt e = NULL"

definition net_inv :: "env \<Rightarrow> 'w evsys_scheme \<Rightarrow> (addr \<rightharpoonup> EdSocket) \<Rightarrow> bool" where
  "net_inv v w m \<longleftrightarrow>
     env_ok w (ecur v) \<and> ectl v = 0 \<and>
     (\<forall>q e. m q = Some e \<longrightarrow> q \<noteq> NULL \<and> eself e = q \<and> sock_in v w e) \<and>
     (\<forall>p ev. evts w p = Some ev \<longrightarrow> isReg ev \<longrightarrow> ecb ev = EsCb \<longrightarrow> (\<exists>e. m (evuser ev) = Some e \<and> mEvt e = p))"

text \<open>The program may rely on which sockets exist, which listeners they have, whether they listen and their user data.\<close>

type_synonym kinds = "addr \<rightharpoonup> nat option \<times> bool \<times> u64"

definition sock_kinds :: "(addr \<rightharpoonup> EdSocket) \<Rightarrow> kinds" where
  "sock_kinds m q = map_option (\<lambda>e. (slis e, mIsListen e, mUser e)) (m q)"

text \<open>\<open>K\<close> is the invariant of the program over these, the event objects in use and its own state.\<close>

type_synonym 'x prog_inv = "kinds \<Rightarrow> addr set \<Rightarrow> 'x \<Rightarrow> bool"

definition net_ok :: "env \<Rightarrow> 'x prog_inv \<Rightarrow> 'x net \<Rightarrow> bool" where
  "net_ok v K w \<longleftrightarrow> net_inv v w (nsocks w) \<and> K (sock_kinds (nsocks w)) (dom (evts w)) (napp w)"

definition nst_ok :: "env \<Rightarrow> 'x prog_inv \<Rightarrow> addr set \<Rightarrow> 'x nst \<Rightarrow> bool" where
  "nst_ok v K D s \<longleftrightarrow>
     (\<exists>es ds. ev_rep (sw s) es ds) \<and> D \<subseteq> dom (evts (sw s)) \<and> net_inv v (sw s) (socks_of s) \<and>
     others s (eself (sk s)) = None \<and> K (sock_kinds (socks_of s)) (dom (evts (sw s))) (app s)"

text \<open>The states in which an event arrives, a socket may be closed, and a listener may return: with a recorded
  error the socket must still be open, since the library then goes on to use it.\<close>

definition net_done :: "env \<Rightarrow> 'x prog_inv \<Rightarrow> addr set \<Rightarrow> 'x nst \<Rightarrow> bool" where
  "net_done v K D s \<longleftrightarrow> nst_ok v K D s \<and> (lastSockErrorNo s \<noteq> 0 \<longrightarrow> eself (sk s) \<noteq> NULL \<and> 0 \<le> mFd (sk s))"

definition net_st :: "env \<Rightarrow> 'x prog_inv \<Rightarrow> addr set \<Rightarrow> 'x nst \<Rightarrow> bool" where
  "net_st v K D s \<longleftrightarrow> net_done v K D s \<and> eself (sk s) \<noteq> NULL"

definition net_live :: "env \<Rightarrow> 'x prog_inv \<Rightarrow> ('x nst \<Rightarrow> bool) \<Rightarrow> addr set \<Rightarrow> 'x nst \<Rightarrow> bool" where
  "net_live v K rd D s \<longleftrightarrow> net_st v K D s \<and> rd s \<and>
     (\<exists>ev. evts (sw s) (mEvt (sk s)) = Some ev \<and> isReg ev \<and> sk_live v (mEvt (sk s)) (sk s))"

lemma socks_of_simps [simp]:
  "eself (sk s) \<noteq> NULL \<Longrightarrow> socks_of s = (others s)(eself (sk s) \<mapsto> sk s)"
  "eself (sk s) = NULL \<Longrightarrow> socks_of s = others s"
  by (simp_all add: socks_of_def)

text \<open>The invariant when one socket changes: outside its event part; when it is closed; when it goes.\<close>

lemma event_part:
  "EdEvent.truncate e' = EdEvent.truncate e \<Longrightarrow>
     eself e' = eself e \<and> mFd e' = mFd e \<and> mIsReg e' = mIsReg e \<and> mEvt e' = mEvt e \<and> mTask e' = mTask e \<and> mContext e' = mContext e \<and> mUser e' = mUser e"
  by (simp add: EdEvent.truncate_def)

lemma sock_in_part: "EdEvent.truncate e' = EdEvent.truncate e \<Longrightarrow> sock_in v w e' = sock_in v w e"
  using event_part [of e' e]
  by (simp add: sock_in_def sk_live_def sk_idle_def ev_on_def ev_off_def split: option.split)

lemma net_invI:
  "env_ok w (ecur v) \<Longrightarrow> ectl v = 0 \<Longrightarrow> (\<And>q e. m q = Some e \<Longrightarrow> q \<noteq> NULL \<and> eself e = q \<and> sock_in v w e) \<Longrightarrow>
     (\<And>p ev. evts w p = Some ev \<Longrightarrow> isReg ev \<Longrightarrow> ecb ev = EsCb \<Longrightarrow> \<exists>e. m (evuser ev) = Some e \<and> mEvt e = p) \<Longrightarrow> net_inv v w m"
  unfolding net_inv_def by blast

lemma net_invD:
  "net_inv v w m \<Longrightarrow> env_ok w (ecur v) \<and> ectl v = 0"
  "net_inv v w m \<Longrightarrow> m q = Some e \<Longrightarrow> q \<noteq> NULL \<and> eself e = q \<and> sock_in v w e"
  "net_inv v w m \<Longrightarrow> evts w p = Some ev \<Longrightarrow> isReg ev \<Longrightarrow> ecb ev = EsCb \<Longrightarrow> \<exists>e. m (evuser ev) = Some e \<and> mEvt e = p"
  unfolding net_inv_def by blast+

lemma net_inv_swap:
  assumes inv: "net_inv v w (m(q \<mapsto> e))" and e': "eself e' = eself e" "mEvt e' = mEvt e" "sock_in v w e'"
  shows "net_inv v w (m(q \<mapsto> e'))"
proof (rule net_invI)
  fix r x assume "(m(q \<mapsto> e')) r = Some x"
  then show "r \<noteq> NULL \<and> eself x = r \<and> sock_in v w x"
    using net_invD(2) [OF inv, of r] e' by (cases "r = q") auto
next
  fix p ev assume "evts w p = Some ev" "isReg ev" "ecb ev = EsCb"
  from net_invD(3) [OF inv this] show "\<exists>x. (m(q \<mapsto> e')) (evuser ev) = Some x \<and> mEvt x = p"
    using e'(2) by (cases "evuser ev = q") auto
qed (use net_invD(1) [OF inv] in simp_all)

lemma net_inv_put:
  assumes inv: "net_inv v w (m(q \<mapsto> e))" and part: "EdEvent.truncate e' = EdEvent.truncate e"
  shows "net_inv v w (m(q \<mapsto> e'))"
  by (rule net_inv_swap [OF inv]) (use net_invD(2) [OF inv, of q e] event_part [OF part] sock_in_part [OF part, of v w] in simp_all)

lemma sock_in_live: "sock_in v w e \<Longrightarrow> evts w (mEvt e) = Some ev \<Longrightarrow> sk_live v (mEvt e) e \<Longrightarrow> evuser ev = eself e \<and> isReg ev"
  by (auto simp: sock_in_def sk_idle_def sk_live_def ev_off_def ev_on_def)

lemma sock_in_other:
  "sock_in v w x \<Longrightarrow> evts w' = (evts w)(p := y) \<Longrightarrow> (\<And>ev. evts w p = Some ev \<Longrightarrow> evuser ev = eself x \<Longrightarrow> mEvt x \<noteq> p) \<Longrightarrow> sock_in v w' x"
  by (auto simp: sock_in_def split: option.splits if_splits)

lemma net_inv_close:
  assumes inv: "net_inv v w (m(q \<mapsto> e))" and ev: "evts w (mEvt e) = Some ev" "sk_live v (mEvt e) e"
    and w': "evts w' = (evts w)(mEvt e \<mapsto> ev\<lparr>isReg := False\<rparr>)" "cmode w' = cmode w"
    and e': "eself e' = eself e" "mFd e' < 0" "mEvt e' = NULL"
  shows "net_inv v w' (m(q \<mapsto> e'))"
proof (rule net_invI)
  have q: "q \<noteq> NULL" "eself e = q" "sock_in v w e" using net_invD(2) [OF inv, of q e] by simp_all
  have user: "evuser ev = q" using sock_in_live [OF q(3) ev] q(2) by simp
  show "env_ok w' (ecur v)" "ectl v = 0" using net_invD(1) [OF inv] w'(2) by (simp_all add: env_ok_def)
  fix r x assume r: "(m(q \<mapsto> e')) r = Some x"
  show "r \<noteq> NULL \<and> eself x = r \<and> sock_in v w' x"
  proof (cases "r = q")
    case True
    then show ?thesis using r q e' by (simp add: sock_in_def)
  next
    case False
    then have i: "r \<noteq> NULL" "eself x = r" "sock_in v w x" using r net_invD(2) [OF inv, of r x] by simp_all
    have "sock_in v w' x" by (rule sock_in_other [OF i(3) w'(1)]) (use ev(1) user i(2) False in simp)
    then show ?thesis using i by simp
  qed
next
  fix p x assume p: "evts w' p = Some x" "isReg x" "ecb x = EsCb"
  then have n: "p \<noteq> mEvt e" "evts w p = Some x" using w'(1) by (auto split: if_splits)
  from net_invD(3) [OF inv n(2) p(2,3)] show "\<exists>y. (m(q \<mapsto> e')) (evuser x) = Some y \<and> mEvt y = p"
    using n(1) by (cases "evuser x = q") auto
qed

lemma net_inv_remove:
  assumes inv: "net_inv v w (m(q \<mapsto> e))" and m: "mEvt e = NULL" "m q = None" and n: "evts w NULL = None"
  shows "net_inv v w m"
proof (rule net_invI)
  show "env_ok w (ecur v)" "ectl v = 0" using net_invD(1) [OF inv] by simp_all
  fix r x assume "m r = Some x"
  then show "r \<noteq> NULL \<and> eself x = r \<and> sock_in v w x" using net_invD(2) [OF inv, of r x] m(2) by (cases "r = q") auto
next
  fix p x assume p: "evts w p = Some x" "isReg x" "ecb x = EsCb"
  from net_invD(3) [OF inv p] show "\<exists>y. m (evuser x) = Some y \<and> mEvt y = p"
    using p(1) m n by (cases "evuser x = q") auto
qed

lemma sock_kinds_put: "slis e' = slis e \<Longrightarrow> mIsListen e' = mIsListen e \<Longrightarrow> mUser e' = mUser e \<Longrightarrow> sock_kinds (m(q \<mapsto> e')) = sock_kinds (m(q \<mapsto> e))"
  by (rule ext) (simp add: sock_kinds_def)

lemma null_not_event: "ev_rep w es ds \<Longrightarrow> evts w NULL = None"
  unfolding ev_rep_def using ol_rep_not_null by (metis Un_iff domIff set_append)

lemma live_evt:
  assumes "ev_rep w es ds" "evts w p = Some ev" "isReg ev"
  shows "p \<in> set es"
  using assms unfolding ev_rep_def by blast

lemma nst_more: "sst.more s = sst.more t \<Longrightarrow> others (s :: 'x nst) = others t \<and> app s = app t"
  by (cases s; cases t) simp

lemma nst_okD:
  assumes "nst_ok v K D s"
  shows "\<exists>es ds. ev_rep (sw s) es ds" "D \<subseteq> dom (evts (sw s))" "net_inv v (sw s) (socks_of s)" "others s (eself (sk s)) = None"
    "K (sock_kinds (socks_of s)) (dom (evts (sw s))) (app s)" "ev_rep (sw s) es ds \<Longrightarrow> sys_ok v s es ds"
  using assms net_invD(1) by (auto simp: nst_ok_def sys_ok_def)

section \<open>Closing and deleting a socket of the net\<close>

text \<open>What closing a socket with the event \<open>p\<close> does to the events.\<close>

definition close_evt :: "addr \<Rightarrow> (addr \<rightharpoonup> edevt_t) \<Rightarrow> addr \<rightharpoonup> edevt_t" where
  "close_evt p m = (if p = NULL then m else m(p := map_option (\<lambda>e. e\<lparr>isReg := False\<rparr>) (m p)))"

lemma close_evt_simps [simp]: "close_evt NULL m = m" "dom (close_evt p m) = dom m"
  by (auto simp: close_evt_def split: if_splits)

lemma close_net:
  assumes st: "net_st v K D s"
  obtains s' where "EdSocket_close v s = Inr s'" "net_st v K D s'" "mFd (sk s') < 0" "mEvt (sk s') = NULL" "lastSockErrorNo s' = 0"
    "eself (sk s') = eself (sk s)" "others s' = others s" "app s' = app s" "evts (sw s') = close_evt (mEvt (sk s)) (evts (sw s))"
    "sock_kinds (socks_of s') = sock_kinds (socks_of s)"
proof -
  note out = that
  have nn: "eself (sk s) \<noteq> NULL" and ok: "nst_ok v K D s" and err: "lastSockErrorNo s \<noteq> 0 \<Longrightarrow> 0 \<le> mFd (sk s)"
    using st by (simp_all add: net_st_def net_done_def)
  note d = nst_okD [OF ok]
  obtain es ds where r: "ev_rep (sw s) es ds" using d(1) by blast
  note sys = d(6) [OF r]
  have inv: "net_inv v (sw s) ((others s)(eself (sk s) \<mapsto> sk s))" using d(3) nn by simp
  have i: "sock_in v (sw s) (sk s)" using net_invD(2) [OF inv, of "eself (sk s)" "sk s"] by simp
  have fin: thesis if c: "EdSocket_close v s = Inr s'" and g: "mFd (sk s') < 0" "mEvt (sk s') = NULL" "lastSockErrorNo s' = 0"
      and sys': "\<exists>es ds. ev_rep (sw s') es ds" "net_inv v (sw s') ((others s)(eself (sk s) \<mapsto> sk s'))" "evts (sw s') = close_evt (mEvt (sk s)) (evts (sw s))"
      for s'
  proof -
    note cf = close_frame [OF c]
    note f = cf [THEN conjunct1] cf [THEN conjunct2, THEN conjunct1] cf [THEN conjunct2, THEN conjunct2, THEN conjunct1]
      cf [THEN conjunct2, THEN conjunct2, THEN conjunct2, THEN conjunct1] nst_more [OF cf [THEN conjunct2, THEN conjunct2, THEN conjunct2, THEN conjunct2]]
    have k: "sock_kinds (socks_of s') = sock_kinds (socks_of s)" using f nn sock_kinds_put [OF f(2-4), of "others s" "eself (sk s)"] by simp
    have "nst_ok v K D s'" unfolding nst_ok_def using sys' d(2,4,5) f k nn by simp
    then show thesis using out [OF c _ g] f k nn g(3) sys'(3) by (simp add: net_st_def net_done_def)
  qed
  from i consider (live) ev where "evts (sw s) (mEvt (sk s)) = Some ev" "isReg ev" "sk_live v (mEvt (sk s)) (sk s)"
    | (idle) "sk_idle v (sk s)" | (gone) "mFd (sk s) < 0" "mEvt (sk s) = NULL"
    by (auto simp: sock_in_def split: option.splits)
  then show thesis
  proof cases
    case live
    note p = live_evt [OF r live(1,2)]
    show thesis
    proof (rule close_live [OF sys live(3) p])
      fix s' assume s': "EdSocket_close v s = Inr s'" "sk_gone (sk s')" "lastSockErrorNo s' = 0" "sys_ok v s' (remove1 (mEvt (sk s)) es) (ds @ [mEvt (sk s)])"
        "\<exists>e. evts (sw s) (mEvt (sk s)) = Some e \<and> evts (sw s') = (evts (sw s))(mEvt (sk s) \<mapsto> e\<lparr>isReg := False\<rparr>)"
      have g: "mFd (sk s') < 0" "mEvt (sk s') = NULL" using s'(2) by (simp_all add: sk_gone_def ev_off_def)
      have e: "evts (sw s') = (evts (sw s))(mEvt (sk s) \<mapsto> ev\<lparr>isReg := False\<rparr>)" using s'(5) live(1) by simp
      have c: "cmode (sw s') = cmode (sw s)" using sys s'(4) by (simp add: sys_ok_def env_ok_def)
      have self: "eself (sk s') = eself (sk s)" using close_frame [OF s'(1)] by simp
      have "net_inv v (sw s') ((others s)(eself (sk s) \<mapsto> sk s'))" by (rule net_inv_close [OF inv live(1,3) e c self g])
      moreover have "\<exists>es ds. ev_rep (sw s') es ds" using s'(4) unfolding sys_ok_def by blast
      moreover have "evts (sw s') = close_evt (mEvt (sk s)) (evts (sw s))" using e live(1,3) by (simp add: close_evt_def sk_live_def ev_on_def)
      ultimately show thesis using fin [OF s'(1) g s'(3)] by blast
    qed
  next
    case idle
    show thesis
    proof (rule close_idle [OF sys idle])
      fix s' assume s': "EdSocket_close v s = Inr s'" "sk_gone (sk s')" "lastSockErrorNo s' = 0" "sw s' = sw s"
      have g: "mFd (sk s') < 0" "mEvt (sk s') = NULL" using s'(2) by (simp_all add: sk_gone_def ev_off_def)
      have self: "eself (sk s') = eself (sk s)" using close_frame [OF s'(1)] by simp
      have "mEvt (sk s) = NULL" using idle by (simp add: sk_idle_def ev_off_def)
      moreover from this have "net_inv v (sw s) ((others s)(eself (sk s) \<mapsto> sk s'))"
        by (intro net_inv_swap [OF inv]) (use self g in \<open>simp_all add: sock_in_def\<close>)
      ultimately show thesis using fin [OF s'(1) g s'(3)] d(1) s'(4) by simp
    qed
  next
    case gone
    have c: "EdSocket_close v s = Inr (upd_sk (\<lambda>e. e\<lparr>mIsBinded := False\<rparr>) s)" using gone by (simp add: EdSocket_close_def)
    have "net_inv v (sw s) ((others s)(eself (sk s) \<mapsto> (sk s)\<lparr>mIsBinded := False\<rparr>))"
      by (rule net_inv_put [OF inv]) (simp add: EdEvent.truncate_def)
    moreover have "lastSockErrorNo s = 0" using gone(1) err by force
    ultimately show thesis using fin [OF c] gone d(1) by simp
  qed
qed

lemma delete_net:
  assumes st: "net_st v K D s" and K': "K' (sock_kinds (others s)) (dom (evts (sw s))) (app s)"
  shows "\<exists>s'. sk_delete v s = Inr s' \<and> net_done v K' D s' \<and> eself (sk s') = NULL \<and> others s' = others s \<and> app s' = app s \<and>
     evts (sw s') = close_evt (mEvt (sk s)) (evts (sw s))"
proof (rule close_net [OF st])
  fix s' assume s': "EdSocket_close v s = Inr s'" "net_st v K D s'" "mEvt (sk s') = NULL" "lastSockErrorNo s' = 0"
    "eself (sk s') = eself (sk s)" "others s' = others s" "app s' = app s" "evts (sw s') = close_evt (mEvt (sk s)) (evts (sw s))"
  let ?s = "s'\<lparr>sk := freed_sock v\<rparr>"
  have nn: "eself (sk s') \<noteq> NULL" and ok: "nst_ok v K D s'" using s'(2) by (simp_all add: net_st_def net_done_def)
  note d = nst_okD [OF ok]
  obtain es ds where r: "ev_rep (sw s') es ds" using d(1) by blast
  have inv: "net_inv v (sw s') (others s')"
    by (rule net_inv_remove [where q = "eself (sk s')" and e = "sk s'"]) (use d(3,4) nn s'(3) null_not_event [OF r] in simp_all)
  have "others s' NULL = None" using net_invD(2) [OF inv, of NULL] by (cases "others s' NULL") auto
  then have "nst_ok v K' D ?s"
    using inv r d(2) K' s'(6-8) by (auto simp: nst_ok_def freed_sock_def EdSocket_new_def EdSocket_clearInternal_def EdEvent_new_def EdEvent.extend_def)
  moreover have "sk_delete v s = Inr ?s"
    using s'(1,3) by (simp add: sk_delete_def EdSocket_destroy_def EdEvent_destroy_def)
  ultimately show ?thesis using s'(4,6-8)
    by (intro exI [of _ ?s]) (simp add: net_done_def freed_sock_def EdSocket_new_def EdSocket_clearInternal_def EdEvent_new_def EdEvent.extend_def)
qed

section \<open>Opening a socket of the net\<close>

lemma net_inv_new:
  assumes inv: "net_inv v w m" and c: "m q = None" "q \<noteq> NULL" "eself c = q" "mEvt c = p" "sk_live v p c"
    and w': "evts w' = (evts w)(p \<mapsto> e)" "cmode w' = cmode w" "evts w p = None" and e: "evuser e = q" "isReg e" "ecb e = EsCb"
  shows "net_inv v w' (m(q \<mapsto> c))"
proof (rule net_invI)
  show "env_ok w' (ecur v)" "ectl v = 0" using net_invD(1) [OF inv] w'(2) by (simp_all add: env_ok_def)
  fix r x assume r: "(m(q \<mapsto> c)) r = Some x"
  show "r \<noteq> NULL \<and> eself x = r \<and> sock_in v w' x"
  proof (cases "r = q")
    case True
    then show ?thesis using r c w'(1) e by (simp add: sock_in_def)
  next
    case False
    then have i: "r \<noteq> NULL" "eself x = r" "sock_in v w x" using r net_invD(2) [OF inv, of r x] by simp_all
    have "sock_in v w' x" using i(3) w'(1,3) by (auto simp: sock_in_def split: option.splits)
    then show ?thesis using i by simp
  qed
next
  fix p' x assume p': "evts w' p' = Some x" "isReg x" "ecb x = EsCb"
  show "\<exists>y. (m(q \<mapsto> c)) (evuser x) = Some y \<and> mEvt y = p'"
  proof (cases "p' = p")
    case True
    then show ?thesis using p'(1) w'(1) e(1) c(4) by simp
  next
    case False
    then have "evts w p' = Some x" using p'(1) w'(1) by simp
    from net_invD(3) [OF inv this p'(2,3)] c(1) show ?thesis by (cases "evuser x = q") auto
  qed
qed

lemma net_inv_new_off:
  assumes inv: "net_inv v w m" and c: "m q = None" "q \<noteq> NULL" "eself c = q" "mEvt c = NULL" "mFd c < 0"
  shows "net_inv v w (m(q \<mapsto> c))"
proof (rule net_invI)
  fix r x assume "(m(q \<mapsto> c)) r = Some x"
  then show "r \<noteq> NULL \<and> eself x = r \<and> sock_in v w x" using net_invD(2) [OF inv, of r] c by (cases "r = q") (auto simp: sock_in_def)
next
  fix p ev assume "evts w p = Some ev" "isReg ev" "ecb ev = EsCb"
  from net_invD(3) [OF inv this] c(1) show "\<exists>x. (m(q \<mapsto> c)) (evuser ev) = Some x \<and> mEvt x = p"
    by (cases "evuser ev = q") auto
qed (use net_invD(1) [OF inv] in simp_all)

lemma socks_of_upd: "socks_of (s\<lparr>lastSockErrorNo := n\<rparr>) = socks_of s" "socks_of (s\<lparr>app := y\<rparr>) = socks_of s"
  by (simp_all add: socks_of_def)

lemma net_st_app:
  "net_st v K D s \<Longrightarrow> K' (sock_kinds (socks_of s)) (dom (evts (sw s))) y \<Longrightarrow> net_st v K' D (s\<lparr>app := y\<rparr>)"
  using socks_of_upd(2) [where s = s and y = y] by (simp add: net_st_def net_done_def nst_ok_def del: socks_of_simps)

section \<open>Listeners\<close>

text \<open>What the loop relies on of the listeners of all its sockets. They may close and delete their socket
  and open others; with an error recorded they leave the socket open. \<open>rd\<close> does not depend on what the
  handlers do before they call a listener.\<close>

locale net_listener =
  fixes vm :: "'x net_vm" and v :: env and K :: "'x prog_inv" and rd :: "'x nst \<Rightarrow> bool"
  assumes listen_law: "net_live v K rd D s \<Longrightarrow> \<exists>s'. vm ev s = Inr s' \<and> net_done v K D s'"
    and gone_law: "net_st v K D s \<Longrightarrow> \<exists>s'. vm SOCK_EVENT_DISCONNECTED s = Inr s' \<and> net_done v K D s'"
    and K_less: "K k A x \<Longrightarrow> B \<subseteq> A \<Longrightarrow> K k B x"
    and rd_frame: "rd s \<Longrightarrow> EdEvent.truncate e = EdEvent.truncate (sk s) \<Longrightarrow> slis e = slis (sk s) \<Longrightarrow> mIsListen e = mIsListen (sk s) \<Longrightarrow> rd (s\<lparr>sk := e\<rparr>)"
begin

lemma live_put:
  assumes l: "net_live v K rd D s" and e: "EdEvent.truncate e = EdEvent.truncate (sk s)" "slis e = slis (sk s)" "mIsListen e = mIsListen (sk s)"
  shows "net_live v K rd D (s\<lparr>sk := e\<rparr>)"
proof -
  have nn: "eself (sk s) \<noteq> NULL" and ok: "nst_ok v K D s" using l by (simp_all add: net_live_def net_st_def net_done_def)
  note p = event_part [OF e(1)]
  have "net_inv v (sw s) ((others s)(eself (sk s) \<mapsto> e))" by (rule net_inv_put [OF _ e(1)]) (use nst_okD(3) [OF ok] nn in simp)
  then have "nst_ok v K D (s\<lparr>sk := e\<rparr>)"
    using ok nn p sock_kinds_put [OF e(2,3) p [THEN conjunct2, THEN conjunct2, THEN conjunct2, THEN conjunct2, THEN conjunct2, THEN conjunct2], of "others s" "eself (sk s)"] by (simp add: nst_ok_def)
  moreover have "rd (s\<lparr>sk := e\<rparr>)" using l e rd_frame by (simp add: net_live_def)
  ultimately show ?thesis using l p nn by (auto simp: net_live_def net_st_def net_done_def sk_live_def ev_on_def)
qed

lemma connect_live:
  assumes l: "net_live v K rd D s"
  shows "\<exists>s'. sk_changeEvent v (EVT_READ OR EVT_HANGUP) (upd_sk (\<lambda>e. e\<lparr>mStatus := SOCK_STATUS_CONNECTED\<rparr>) s) = Inr s' \<and> net_live v K rd D s'"
proof -
  let ?s = "upd_sk (\<lambda>e. e\<lparr>mStatus := SOCK_STATUS_CONNECTED\<rparr>) s"
  have l1: "net_live v K rd D ?s" unfolding upd_sk_def by (rule live_put [OF l]) (simp_all add: EdEvent.truncate_def)
  then obtain es ds ev where r: "ev_rep (sw ?s) es ds" "nst_ok v K D ?s"
    "evts (sw ?s) (mEvt (sk ?s)) = Some ev" "isReg ev" "sk_live v (mEvt (sk ?s)) (sk ?s)"
    unfolding net_live_def net_st_def net_done_def using nst_okD(1) by blast
  have "sk_changeEvent v (EVT_READ OR EVT_HANGUP) ?s = Inr (?s\<lparr>sk := (sk ?s)\<lparr>interest := EVT_READ OR EVT_HANGUP\<rparr>\<rparr>)"
    by (rule change_live [OF nst_okD(6) [OF r(2,1)] r(5) live_evt [OF r(1,3,4)]])
  moreover have "net_live v K rd D (?s\<lparr>sk := (sk ?s)\<lparr>interest := EVT_READ OR EVT_HANGUP\<rparr>\<rparr>)"
    by (rule live_put [OF l1]) (simp_all add: EdEvent.truncate_def)
  ultimately show ?thesis by blast
qed

end

sublocale net_listener < handler: sock_handler vm v "net_live v K rd D" "net_st v K D" "net_done v K D" for D
proof unfold_locales
  fix s assume l: "net_live v K rd D s"
  show "net_st v K D s" using l by (simp add: net_live_def)
  show "net_live v K rd D (upd_sk (\<lambda>e. e\<lparr>mRaiseDisconnect := 0\<rparr>) s)"
    unfolding upd_sk_def by (rule live_put [OF l]) (simp_all add: EdEvent.truncate_def)
next
  fix s assume "net_st v K D s"
  then show "\<exists>s'. EdSocket_close v s = Inr s' \<and> net_st v K D s'" by (rule close_net) blast
qed (use connect_live listen_law gone_law in \<open>auto simp: net_st_def net_done_def\<close>)

text \<open>Between the loop and a handler nothing of the event system changes.\<close>

lemma truncate_sys [simp]:
  "evts (evsys.truncate w) = evts w" "cmode (evsys.truncate w) = cmode w" "ev_rep (evsys.truncate w) es ds = ev_rep w es ds"
  by (simp_all add: evsys.truncate_def ev_rep_def)

lemma extend_sys [simp]:
  "evts (evsys.extend w x) = evts w" "cmode (evsys.extend w x) = cmode w" "ev_rep (evsys.extend w x) es ds = ev_rep w es ds"
  "ctx_exit (evsys.extend w x) = ctx_exit w"
  by (simp_all add: evsys.extend_def ev_rep_def)

lemma net_inv_cong: "evts w' = evts w \<Longrightarrow> cmode w' = cmode w \<Longrightarrow> net_inv v w' m = net_inv v w m"
  by (simp add: net_inv_def sock_in_def env_ok_def)

lemma unfocus_simps [simp]:
  "nsocks (net_unfocus s) = socks_of s" "nerr (net_unfocus s) = lastSockErrorNo s" "napp (net_unfocus s) = app s"
  "evts (net_unfocus s) = evts (sw s)" "ev_rep (net_unfocus s) es ds = ev_rep (sw s) es ds" "cmode (net_unfocus s) = cmode (sw s)"
  by (simp_all add: net_unfocus_def evsys.extend_def ev_rep_def)

lemma focus_simps [simp]:
  "sk (net_focus q e w) = e" "evts (sw (net_focus q e w)) = evts w" "app (net_focus q e w) = napp w" "lastSockErrorNo (net_focus q e w) = nerr w"
  "others (net_focus q e w) = (nsocks w)(q := None)" "ev_rep (sw (net_focus q e w)) es ds = ev_rep w es ds" "cmode (sw (net_focus q e w)) = cmode w"
  by (simp_all add: net_focus_def)

lemma focus_live:
  assumes r: "ev_rep w es ds" and ok: "net_ok v K w" and e: "evts w p = Some e" "isReg e" "ecb e = EsCb"
  obtains c where "nsocks w (evuser e) = Some c" "mEvt c = p" "eself c = evuser e" "evuser e \<noteq> NULL" "0 < mFd c"
    "rd (net_focus (evuser e) c w) \<longrightarrow> net_live v K rd (dom (evts w)) (net_focus (evuser e) c w)"
proof -
  have inv: "net_inv v w (nsocks w)" and k: "K (sock_kinds (nsocks w)) (dom (evts w)) (napp w)" using ok by (simp_all add: net_ok_def)
  obtain c where c: "nsocks w (evuser e) = Some c" "mEvt c = p" using net_invD(3) [OF inv e] by blast
  have i: "evuser e \<noteq> NULL" "eself c = evuser e" "sock_in v w c" using net_invD(2) [OF inv c(1)] by simp_all
  have live: "sk_live v p c" using i(3) c(2) e(1) null_not_event [OF r] by (auto simp: sock_in_def sk_idle_def ev_off_def)
  let ?s = "net_focus (evuser e) c w"
  have m: "socks_of ?s = nsocks w" using i(1,2) c(1) by (simp add: fun_upd_idem)
  have "net_inv v (sw ?s) (nsocks w)" using inv net_inv_cong [of "sw ?s" w] by simp
  moreover have "ev_rep (sw ?s) es ds" using r by simp
  ultimately have "nst_ok v K (dom (evts w)) ?s" unfolding nst_ok_def m using k i(2) by (intro conjI exI [of _ es] exI [of _ ds]) simp_all
  moreover have "0 < mFd c" using live by (simp add: sk_live_def)
  ultimately have "rd ?s \<longrightarrow> net_live v K rd (dom (evts w)) ?s" using i(1,2) c(2) e live by (simp add: net_live_def net_st_def net_done_def)
  then show thesis using that [OF c i(2,1) \<open>0 < mFd c\<close>] by blast
qed

lemma net_inv_cleaned:
  assumes inv: "net_inv v w m" and cl: "cleaned w w'"
  shows "net_inv v w' m"
proof (rule net_invI)
  have c: "evts w' p = (case evts w p of None \<Rightarrow> None | Some e \<Rightarrow> if isReg e then Some e else None)" for p using cl by (simp add: cleaned_def)
  show "env_ok w' (ecur v)" "ectl v = 0" using net_invD(1) [OF inv] cl by (simp_all add: cleaned_def env_ok_def)
  fix q e assume "m q = Some e"
  from net_invD(2) [OF inv this] show "q \<noteq> NULL \<and> eself e = q \<and> sock_in v w' e"
    using c [of "mEvt e"] by (auto simp: sock_in_def split: option.splits)
next
  fix p ev assume p: "evts w' p = Some ev" "isReg ev" "ecb ev = EsCb"
  then have "evts w p = Some ev" using cl by (auto simp: cleaned_def split: option.splits if_splits)
  from net_invD(3) [OF inv this p(2,3)] show "\<exists>e. m (evuser ev) = Some e \<and> mEvt e = p" .
qed

lemma net_more: "evsys.more (w :: 'x net) = evsys.more w' \<Longrightarrow> nsocks w = nsocks w' \<and> nerr w = nerr w' \<and> napp w = napp w'"
  by (cases w; cases w') simp

context net_listener
begin

lemma dispatch_ok:
  assumes "net_live v K rd D s"
  shows "\<exists>s'. sock_dispatch vm v n flag s = Inr s' \<and> net_done v K D s'"
proof -
  have st: "net_st v K D s" using assms by (simp add: net_live_def)
  show ?thesis
    using handler.read_ok [OF assms] handler.write_ok [OF assms, of n] handler.hangup_ok [OF st] st
    by (cases "EdEvent_esevent_cb flag") (simp_all add: sock_dispatch_def net_st_def)
qed

end

sublocale net_listener < loop: evt_callback "net_cb vm v err rd" "net_ok v K" for err
proof
  fix w :: "'x net" and es ds p e k flag
  assume a: "ev_rep w es ds" "net_ok v K w" "p \<in> set es" "evts w p = Some e" "k = ecb e"
  show "\<exists>w' es' ds'. net_cb vm v err rd k p flag w = Inr w' \<and> ev_rep w' es' ds' \<and> set (es @ ds) \<subseteq> set (es' @ ds') \<and> net_ok v K w'"
  proof (cases k)
    case MsgCb
    then show ?thesis using a by (auto simp: net_cb_def)
  next
    case EsCb
    have reg: "isReg e" "ecb e = EsCb" using a EsCb unfolding ev_rep_def by auto
    obtain c where c: "nsocks w (evuser e) = Some c"
      "rd (net_focus (evuser e) c w) \<longrightarrow> net_live v K rd (dom (evts w)) (net_focus (evuser e) c w)"
      by (rule focus_live [where rd = rd, OF a(1,2,4) reg])
    let ?s = "net_focus (evuser e) c w"
    show ?thesis
    proof (cases "rd ?s")
      case False
      then show ?thesis using a EsCb c(1) by (auto simp: net_cb_def Let_def)
    next
      case True
      obtain s' where s': "sock_dispatch vm v (err ?s) flag ?s = Inr s'" "net_done v K (dom (evts w)) s'" using dispatch_ok [OF mp [OF c(2) True]] by blast
      then have ok: "nst_ok v K (dom (evts w)) s'" by (simp add: net_done_def)
      obtain es' ds' where r': "ev_rep (sw s') es' ds'" using nst_okD(1) [OF ok] by blast
      have "dom (evts w) = set (es @ ds)" "dom (evts (sw s')) = set (es' @ ds')" using a(1) r' by (simp_all add: ev_rep_def)
      then have "set (es @ ds) \<subseteq> set (es' @ ds')" using nst_okD(2) [OF ok] by simp
      moreover have "net_ok v K (net_unfocus s')"
        using nst_okD(3,5) [OF ok] net_inv_cong [of "net_unfocus s'" "sw s'"] by (simp add: net_ok_def)
      moreover have "net_cb vm v err rd k p flag w = Inr (net_unfocus s')" using EsCb a(4) c(1) True s'(1) by (simp add: net_cb_def Let_def)
      ultimately show ?thesis using r' by (intro exI [of _ "net_unfocus s'"] exI [of _ es'] exI [of _ ds']) simp
    qed
  qed
next
  fix w w' :: "'x net" assume a: "net_ok v K w" "cleaned w w'"
  have m: "nsocks w' = nsocks w" "napp w' = napp w" using a(2) net_more [of w' w] by (simp_all add: cleaned_def)
  have "dom (evts w') \<subseteq> dom (evts w)" using a(2) by (auto simp: cleaned_def split: option.splits if_splits)
  then show "net_ok v K w'" using a net_inv_cleaned [of v w _ w'] K_less unfolding net_ok_def m by blast
qed

context net_listener
begin

lemma loop_callback: "evt_callback (net_cb vm v err rd) (net_ok v K)"
  by (rule loop.evt_callback_axioms)

end

section \<open>The end-of-stream listener in the net\<close>

lemma net_done_err: "net_st v K D s \<Longrightarrow> 0 \<le> mFd (sk s) \<Longrightarrow> net_done v K D (s\<lparr>lastSockErrorNo := n\<rparr>)"
  using socks_of_upd(1) [where s = s and n = n] by (simp add: net_st_def net_done_def nst_ok_def del: socks_of_simps)

lemma net_task: "net_st v K D s \<Longrightarrow> 0 \<le> mFd (sk s) \<Longrightarrow> mTask (sk s) \<noteq> NULL"
proof -
  assume st: "net_st v K D s" "0 \<le> mFd (sk s)"
  then have "net_inv v (sw s) ((others s)(eself (sk s) \<mapsto> sk s))" by (auto simp: net_st_def net_done_def nst_ok_def)
  from net_invD(1) [OF this] net_invD(2) [OF this, of "eself (sk s)"] st(2) show ?thesis
    by (auto simp: sock_in_def sk_live_def sk_idle_def ev_on_def env_ok_def split: option.splits)
qed

lemma net_vm_on: "net_st v K D s \<Longrightarrow> net_vm lis ev s = EdSocket_vm lis ev s"
  by (simp add: net_vm_def net_st_def)

interpretation net_eof: net_listener "net_vm (eof_listener v closes)" v "\<lambda>_ _ _. True" "\<lambda>_. True" for v closes
proof unfold_locales
  have keep: "\<exists>s'. net_vm (eof_listener v closes) ev s = Inr s' \<and> net_done v (\<lambda>_ _ _. True) D s'"
    if st: "net_st v (\<lambda>_ _ _. True) D s" for D ev and s :: "'a nst"
  proof -
    have d: "net_done v (\<lambda>_ _ _. True) D s" using st by (simp add: net_st_def)
    obtain s' where "EdSocket_close v s = Inr s'" "net_done v (\<lambda>_ _ _. True) D s'" by (rule close_net [OF st]) (simp add: net_st_def)
    then show ?thesis
      using d net_done_err [OF st, of EBADFD] net_task [OF st]
      by (cases "slis (sk s)"; cases ev) (simp_all add: net_vm_on [OF st] EdSocket_vm_def eof_listener_def EdSocket_recv_def)
  qed
  fix D ev and s :: "'a nst"
  show "net_live v (\<lambda>_ _ _. True) (\<lambda>_. True) D s \<Longrightarrow> \<exists>s'. net_vm (eof_listener v closes) ev s = Inr s' \<and> net_done v (\<lambda>_ _ _. True) D s'"
    by (rule keep) (simp add: net_live_def)
  show "net_st v (\<lambda>_ _ _. True) D s \<Longrightarrow> \<exists>s'. net_vm (eof_listener v closes) SOCK_EVENT_DISCONNECTED s = Inr s' \<and> net_done v (\<lambda>_ _ _. True) D s'"
    by (rule keep)
qed simp_all

text \<open>The error number is one for all sockets of a task: a socket whose listener reads data is told that it
  is disconnected, and is closed, when another socket has left an end of stream recorded.\<close>

lemma stale_error_disconnects:
  assumes "\<not> mIsListen (sk s)" "lastSockErrorNo s \<noteq> 0" and rd: "vm SOCK_EVENT_READ (upd_sk (\<lambda>e. e\<lparr>mRaiseDisconnect := 0\<rparr>) s) = Inr s1"
    and keeps: "lastSockErrorNo s1 = lastSockErrorNo s" and d: "vm SOCK_EVENT_DISCONNECTED s1 = Inr s1"
  shows "EdSocket_OnEventRead vm v s = EdSocket_close v s1"
  using assms by (simp add: EdSocket_OnEventRead_def)

section \<open>Properties\<close>

text \<open>C1. One loop serves any number of sockets safely: whatever turns it has run, whatever events epoll
  reported for registered objects and whatever the listeners did within their contract (close their
  socket, delete it, open others), no callback met a deleted socket or event object, and the next
  batch is handled without a fault again. Every registered event of a socket points to an existing,
  open socket which has this event, and every socket with an event is the one this event points to.\<close>

theorem net_turns:
  assumes l: "net_listener vm v K rd" and r: "ev_rep w es ds" "net_ok v K w" and run: "es_turns (net_cb vm v err rd) w bs w'"
  shows "\<exists>es' ds'. ev_rep w' es' ds' \<and> net_ok v K w' \<and>
     (\<forall>b. ctx_exit w' = 0 \<longrightarrow> list_all (registered w' \<circ> fst) b \<longrightarrow> (\<exists>w2. es_turns (net_cb vm v err rd) w' [b] w2)) \<and>
     (\<forall>p e. evts w' p = Some e \<longrightarrow> isReg e \<longrightarrow> ecb e = EsCb \<longrightarrow>
        (\<exists>c. nsocks w' (evuser e) = Some c \<and> eself c = evuser e \<and> mEvt c = p \<and> 0 < mFd c)) \<and>
     (\<forall>q c. nsocks w' q = Some c \<longrightarrow> mEvt c \<noteq> NULL \<longrightarrow> (\<exists>e. evts w' (mEvt c) = Some e \<and> isReg e \<and> evuser e = q))"
proof -
  note c = net_listener.loop_callback [OF l, of err]
  obtain es' ds' where r': "ev_rep w' es' ds'" "net_ok v K w'" using evt_callback.turns_keep [OF c run r] by blast
  have "\<exists>w2. es_turns (net_cb vm v err rd) w' [b] w2" if x: "ctx_exit w' = 0" and b: "list_all (registered w' \<circ> fst) b" for b
    by (rule evt_callback.turn_possible [OF c r' b]) (use es_turn [OF x b _ _ es_none] in blast)
  moreover have "\<exists>c. nsocks w' (evuser e) = Some c \<and> eself c = evuser e \<and> mEvt c = p \<and> 0 < mFd c"
    if "evts w' p = Some e" "isReg e" "ecb e = EsCb" for p e
    by (rule focus_live [where rd = rd, OF r' that]) blast
  moreover have "\<exists>e. evts w' (mEvt c) = Some e \<and> isReg e \<and> evuser e = q" if "nsocks w' q = Some c" "mEvt c \<noteq> NULL" for q c
  proof -
    have "eself c = q \<and> sock_in v w' c" using net_invD(2) [of v w' "nsocks w'" q c] r'(2) that(1) by (simp add: net_ok_def)
    then show ?thesis using that(2) by (auto simp: sock_in_def sk_idle_def ev_off_def split: option.splits)
  qed
  ultimately show ?thesis using r' by blast
qed

text \<open>A net with one connecting socket, whose loop runs.\<close>

definition one_net :: "sst \<Rightarrow> unit net" where
  "one_net s = evsys.extend ((sw s)\<lparr>ctx_exit := 0\<rparr>) \<lparr>nsocks = [eself (sk s) \<mapsto> sk s], nerr = lastSockErrorNo s, napp = ()\<rparr>"

theorem net_turns_witness:
  "\<exists>s1 w2. EdSocket_connect_ip senv 9 0 None sock0 = Inr (0, s1) \<and>
     es_turns (net_cb (net_vm (eof_listener senv True)) senv (\<lambda>_. 111) (\<lambda>_. True)) (one_net s1) [[(1000, EPOLLOUT), (1000, EPOLLIN)]] w2"
proof -
  have "0 < (9 :: int)" by simp
  then obtain s1 where s1: "EdSocket_connect_ip senv 9 0 None sock0 = Inr (0, s1)" "sk_live senv (eaddr senv) (sk s1)"
    "sys_ok senv s1 ([] @ [eaddr senv]) []" "eself (sk s1) = eself (sk sock0)"
    "evts (sw s1) = (evts (sw sock0))(eaddr senv \<mapsto> \<lparr>evfd = 9, evuser = eself (sk sock0), isReg = True, ecb = EsCb\<rparr>)"
    by (rule connect_ok [OF sock0_ok, where cret = 0])
  have self: "eself (sk sock0) = 7000" "evts (sw sock0) = Map.empty" "eaddr senv = 1000"
    by (simp_all add: sock0_def EdSocket_new_def EdSocket_clearInternal_def EdEvent.extend_def EdEvent_new_def no_events_def senv_def)
  have p: "mEvt (sk s1) = 1000" using s1(2) self(3) by (simp add: sk_live_def ev_on_def)
  let ?w = "one_net s1"
  have r: "ev_rep ?w [1000] []" using s1(3) self(3) by (simp add: one_net_def sys_ok_def)
  have "net_inv senv ?w (nsocks ?w)"
    using s1 self p by (intro net_invI) (auto simp: one_net_def evsys.extend_def sock_in_def sys_ok_def env_ok_def split: if_splits)
  then have ok: "net_ok senv (\<lambda>_ _ _. True) ?w" by (simp add: net_ok_def)
  have x: "ctx_exit ?w = 0" by (simp add: one_net_def)
  have b: "list_all (registered ?w \<circ> fst) [(1000, EPOLLOUT), (1000, EPOLLIN)]" using registered_iff [OF r, of 1000] by simp
  from net_turns [OF net_eof.net_listener_axioms r ok es_none] x b s1(1) show ?thesis by blast
qed

end
