(* ===== verification/EdConns.thy ===== *)
theory EdConns
  imports EdNet
begin

text \<open>What the example programs with many connections share: the map of sockets by handle, of
  \<^verbatim>\<open>examples/exam_tcpsvr.cpp\<close> and \<^verbatim>\<open>examples/exam_tcpcli.cpp\<close>, the counter of handles, reading and writing on the
  descriptors of the net of sockets.\<close>

section \<open>State\<close>

text \<open>\<open>mCnns\<close> maps handles to the addresses of sockets; it is \<^verbatim>\<open>mCnns\<close> of the server and \<^verbatim>\<open>mSockList\<close> of the client.
  Outside the program: \<open>inbox\<close> are the chunks of bytes that arrive at a descriptor, an empty one the end of the
  stream; \<open>room\<close> is what the kernel still takes at a descriptor and \<open>outbox\<close> what it took.\<close>

record prog =
  mCnns :: "u32 \<rightharpoonup> addr"
  gHandleSeed :: u32
  inbox :: "int \<Rightarrow> u8 list list"
  room :: "int \<Rightarrow> nat"
  outbox :: "int \<Rightarrow> u8 list"

definition upd_app :: "('x \<Rightarrow> 'x) \<Rightarrow> 'x nst \<Rightarrow> 'x nst" where
  "upd_app f s = s\<lparr>app := f (app s)\<rparr>"

text \<open>Without the mutex, which is a local variable of \<^verbatim>\<open>GetNewHandle\<close> in both programs and excludes nobody.\<close>

definition GetNewHandle :: "'a prog_scheme \<Rightarrow> u32 \<times> 'a prog_scheme" where
  "GetNewHandle x = (let h = gHandleSeed x + 1 in (h, x\<lparr>gHandleSeed := h\<rparr>))"

section \<open>Reading and writing\<close>

text \<open>The system call \<^verbatim>\<open>read\<close> with room for \<open>n\<close> bytes: its result and the bytes.\<close>

definition sys_read :: "int \<Rightarrow> nat \<Rightarrow> 'a prog_scheme \<Rightarrow> int \<times> u8 list \<times> 'a prog_scheme" where
  "sys_read fd n x =
     (case inbox x fd of
        [] \<Rightarrow> (- 1, [], x)
      | c # cs \<Rightarrow>
          if c = [] then (0, [], x)
          else (int (length (take n c)), take n c, x\<lparr>inbox := (inbox x)(fd := (if length c \<le> n then cs else drop n c # cs))\<rparr>))"

definition sys_write :: "int \<Rightarrow> u8 list \<Rightarrow> 'a prog_scheme \<Rightarrow> int \<times> 'a prog_scheme" where
  "sys_write fd bs x =
     (let n = min (room x fd) (length bs) in
      if n = 0 \<and> bs \<noteq> [] then (- 1, x)
      else (int n, x\<lparr>room := (room x)(fd := room x fd - n), outbox := (outbox x)(fd := outbox x fd @ take n bs)\<rparr>))"

section \<open>Erasing a connection\<close>

text \<open>\<^verbatim>\<open>mCnns.erase\<close>: the socket is destroyed, this one or another.\<close>

definition cnns_erase :: "env \<Rightarrow> u32 \<Rightarrow> 'a prog_scheme nst \<Rightarrow> fault + 'a prog_scheme nst" where
  "cnns_erase v h s =
     (case mCnns (app s) h of
        None \<Rightarrow> Inr s
      | Some b \<Rightarrow>
          let s = upd_app (\<lambda>x. x\<lparr>mCnns := (mCnns x)(h := None)\<rparr>) s in
          if b = eself (sk s) then sk_delete v s
          else (case others s b of
                  None \<Rightarrow> Inl Bad_access
                | Some c \<Rightarrow>
                    bindr (sk_delete v (s\<lparr>sk := c, others := (others s)(b := None, eself (sk s) \<mapsto> sk s)\<rparr>)) (\<lambda>s'.
                    Inr (s'\<lparr>sk := sk s, others := (others s')(eself (sk s) := None)\<rparr>))))"

section \<open>The map and the sockets\<close>

text \<open>The sockets outside \<open>L\<close> are those of the map: a connection has the listener with the number 2, does not listen
  and carries its handle as its user data. Handles are at most the counter.\<close>

definition socks_in :: "kinds \<Rightarrow> addr set \<Rightarrow> (u32 \<rightharpoonup> addr) \<Rightarrow> u32 \<Rightarrow> bool" where
  "socks_in k L m hi \<longleftrightarrow>
     (\<forall>q n b d. q \<notin> L \<longrightarrow> k q = Some (n, b, d) \<longrightarrow> n = Some 2 \<and> \<not> b \<and> m (ucast d) = Some q) \<and>
     (\<forall>h q. m h = Some q \<longrightarrow> q \<notin> L \<and> (\<exists>d. k q = Some (Some 2, False, d) \<and> ucast d = h) \<and> unat h \<le> unat hi)"

lemma socks_inI:
  "(\<And>q n b d. q \<notin> L \<Longrightarrow> k q = Some (n, b, d) \<Longrightarrow> n = Some 2 \<and> \<not> b \<and> m (ucast d) = Some q) \<Longrightarrow>
   (\<And>h q. m h = Some q \<Longrightarrow> q \<notin> L \<and> (\<exists>d. k q = Some (Some 2, False, d) \<and> ucast d = h) \<and> unat h \<le> unat hi) \<Longrightarrow> socks_in k L m hi"
  unfolding socks_in_def by blast

lemma socks_inD:
  "socks_in k L m hi \<Longrightarrow> q \<notin> L \<Longrightarrow> k q = Some (n, b, d) \<Longrightarrow> n = Some 2 \<and> \<not> b \<and> m (ucast d) = Some q"
  "socks_in k L m hi \<Longrightarrow> m h = Some q \<Longrightarrow> q \<notin> L \<and> (\<exists>d. k q = Some (Some 2, False, d) \<and> ucast d = h) \<and> unat h \<le> unat hi"
  unfolding socks_in_def by blast+

text \<open>When a connection goes and when one comes.\<close>

lemma socks_remove:
  assumes ok: "socks_in k L m hi" and q: "q \<notin> L" "k q = Some (n, b, d)"
  shows "socks_in (k(q := None)) L (m(ucast d := None)) hi"
proof (rule socks_inI)
  have mq: "m (ucast d) = Some q" using socks_inD(1) [OF ok q] by simp
  fix r n' b' d' assume r: "r \<notin> L" "(k(q := None)) r = Some (n', b', d')"
  then have "n' = Some 2 \<and> \<not> b' \<and> m (ucast d') = Some r" "r \<noteq> q" using socks_inD(1) [OF ok r(1), of n' b' d'] by (auto split: if_splits)
  then show "n' = Some 2 \<and> \<not> b' \<and> (m(ucast d := None)) (ucast d') = Some r" using mq by (cases "ucast d' = (ucast d :: u32)") auto
next
  fix h r assume "(m(ucast d := None)) h = Some r"
  then have h: "m h = Some r" "h \<noteq> ucast d" by (auto split: if_splits)
  with socks_inD(2) [OF ok h(1)] q(2) show "r \<notin> L \<and> (\<exists>d'. (k(q := None)) r = Some (Some 2, False, d') \<and> ucast d' = h) \<and> unat h \<le> unat hi"
    by (cases "r = q") auto
qed

lemma socks_add:
  assumes ok: "socks_in k L m hi" and a: "k a = None" "a \<notin> L" and h: "unat hi < unat h" "ucast d = h"
  shows "m h = None" "socks_in (k(a \<mapsto> (Some 2, False, d))) L (m(h \<mapsto> a)) h"
proof -
  show n: "m h = None" using socks_inD(2) [OF ok, of h] h(1) by (cases "m h") auto
  show "socks_in (k(a \<mapsto> (Some 2, False, d))) L (m(h \<mapsto> a)) h"
  proof (rule socks_inI)
    fix r n' b' d' assume r: "r \<notin> L" "(k(a \<mapsto> (Some 2, False, d))) r = Some (n', b', d')"
    show "n' = Some 2 \<and> \<not> b' \<and> (m(h \<mapsto> a)) (ucast d') = Some r"
    proof (cases "r = a")
      case False
      then have "n' = Some 2 \<and> \<not> b' \<and> m (ucast d') = Some r" using socks_inD(1) [OF ok r(1), of n' b' d'] r(2) by simp
      then show ?thesis using n by (cases "ucast d' = h") auto
    qed (use r(2) h(2) in auto)
  next
    fix h' r assume r: "(m(h \<mapsto> a)) h' = Some r"
    show "r \<notin> L \<and> (\<exists>d'. (k(a \<mapsto> (Some 2, False, d))) r = Some (Some 2, False, d') \<and> ucast d' = h') \<and> unat h' \<le> unat h"
    proof (cases "h' = h")
      case False
      with socks_inD(2) [OF ok, of h' r] r a h(1) show ?thesis by (cases "r = a") auto
    qed (use r a(2) h(2) in auto)
  qed
qed

lemma sock_kinds_drop: "m q = None \<Longrightarrow> sock_kinds m = (sock_kinds (m(q \<mapsto> e)))(q := None)"
  by (rule ext) (simp add: sock_kinds_def)

section \<open>A connection that ends\<close>

text \<open>In the listener of a connection: erasing its own handle deletes the socket; so does closing it first. \<open>K\<close> has to
  hold without the socket and without the handle.\<close>

lemma erase_own:
  fixes s :: "'a prog_scheme nst"
  assumes st: "net_st v K D s" and h: "mCnns (app s) h = Some (eself (sk s))"
    and K: "K' ((sock_kinds (socks_of s))(eself (sk s) := None)) (dom (evts (sw s))) ((app s)\<lparr>mCnns := (mCnns (app s))(h := None)\<rparr>)"
  shows "\<exists>s'. cnns_erase v h s = Inr s' \<and> net_done v K' D s' \<and> eself (sk s') = NULL \<and> others s' = others s \<and>
     app s' = (app s)\<lparr>mCnns := (mCnns (app s))(h := None)\<rparr> \<and> evts (sw s') = close_evt (mEvt (sk s)) (evts (sw s))"
proof -
  let ?s = "s\<lparr>app := (app s)\<lparr>mCnns := (mCnns (app s))(h := None)\<rparr>\<rparr>"
  have nn: "eself (sk s) \<noteq> NULL" and ok: "nst_ok v K D s" using st by (simp_all add: net_st_def net_done_def)
  have "sock_kinds (others s) = (sock_kinds (socks_of s))(eself (sk s) := None)"
    using sock_kinds_drop [of "others s" "eself (sk s)" "sk s"] nst_okD(4) [OF ok] nn by simp
  then have "K' (sock_kinds (others ?s)) (dom (evts (sw ?s))) (app ?s)" using K by simp
  moreover have "net_st v (\<lambda>_ _ _. True) D ?s" by (rule net_st_app [OF st]) simp
  ultimately obtain s' where "sk_delete v ?s = Inr s'" "net_done v K' D s'" "eself (sk s') = NULL" "others s' = others ?s" "app s' = app ?s"
    "evts (sw s') = close_evt (mEvt (sk ?s)) (evts (sw ?s))" using delete_net by blast
  then show ?thesis using h by (simp add: cnns_erase_def upd_app_def)
qed

lemma close_erase_own:
  fixes s :: "'a prog_scheme nst"
  assumes st: "net_st v K D s" and h: "mCnns (app s) (EdEvent_getUserInt (sk s)) = Some (eself (sk s))"
    and K: "K' ((sock_kinds (socks_of s))(eself (sk s) := None)) (dom (evts (sw s)))
      ((app s)\<lparr>mCnns := (mCnns (app s))(EdEvent_getUserInt (sk s) := None)\<rparr>)"
  shows "\<exists>s1 s'. EdSocket_close v s = Inr s1 \<and> EdEvent_getUserInt (sk s1) = EdEvent_getUserInt (sk s) \<and>
     cnns_erase v (EdEvent_getUserInt (sk s)) s1 = Inr s' \<and> net_done v K' D s' \<and> eself (sk s') = NULL \<and> others s' = others s \<and>
     app s' = (app s)\<lparr>mCnns := (mCnns (app s))(EdEvent_getUserInt (sk s) := None)\<rparr> \<and> evts (sw s') = close_evt (mEvt (sk s)) (evts (sw s))"
proof (rule close_net [OF st])
  fix s1 assume s1: "EdSocket_close v s = Inr s1" "net_st v K D s1" "eself (sk s1) = eself (sk s)" "others s1 = others s" "app s1 = app s"
    "mEvt (sk s1) = NULL" "evts (sw s1) = close_evt (mEvt (sk s)) (evts (sw s))" "sock_kinds (socks_of s1) = sock_kinds (socks_of s)"
  have "EdEvent_getUserInt (sk s1) = EdEvent_getUserInt (sk s)" using close_frame [OF s1(1)] by (simp add: EdEvent_getUserInt_def)
  moreover have "\<exists>s'. cnns_erase v (EdEvent_getUserInt (sk s)) s1 = Inr s' \<and> net_done v K' D s' \<and> eself (sk s') = NULL \<and> others s' = others s1 \<and>
     app s' = (app s1)\<lparr>mCnns := (mCnns (app s1))(EdEvent_getUserInt (sk s) := None)\<rparr> \<and> evts (sw s') = close_evt (mEvt (sk s1)) (evts (sw s1))"
    by (rule erase_own [OF s1(2)]) (use h K s1(3,5,7,8) in simp_all)
  ultimately show ?thesis using s1(1,4-7) by auto
qed

section \<open>A connection that reads\<close>

lemma sys_read_frame:
  "sys_read fd n x = (r, bs, y) \<Longrightarrow> mCnns y = mCnns x \<and> gHandleSeed y = gHandleSeed x \<and> prog.more y = prog.more x \<and> (0 < r \<longrightarrow> bs \<noteq> [])"
  by (auto simp: sys_read_def split: list.splits if_splits)

lemma recv_ok:
  assumes st: "net_st v K D s" and fd: "0 \<le> mFd (sk s)"
  shows "\<exists>s'. EdSocket_recv r s = Inr (r, s') \<and> net_done v K D s' \<and> (r \<noteq> 0 \<longrightarrow> s' = s)"
  using net_done_err [OF st fd, of EBADFD] net_task [OF st fd] st by (simp add: EdSocket_recv_def net_st_def)

section \<open>A handler as a callback\<close>

text \<open>The handler of a socket's event, with what it leaves, as a callback of the loop.\<close>

lemma net_cb_run:
  assumes "evts w p = Some e" "nsocks w (evuser e) = Some c" "rd (net_focus (evuser e) c w)"
    "sock_dispatch vm v (err (net_focus (evuser e) c w)) flag (net_focus (evuser e) c w) = Inr s'"
  shows "net_cb vm v err rd EsCb p flag w = Inr (net_unfocus s')"
  using assms by (simp add: net_cb_def Let_def)

lemma flag_handlers: "EdEvent_esevent_cb EVT_READ = OnEventRead" "EdEvent_esevent_cb EVT_HANGUP = OnEventHangup"
  by (simp_all add: EdEvent_esevent_cb_def EVT_READ_def EVT_WRITE_def EVT_HANGUP_def EPOLLIN_def EPOLLOUT_def EPOLLRDHUP_def)

end
