(* ===== verification/EdServer.thy ===== *)
theory EdServer
  imports EdConns
begin

text \<open>The echo server of \<^verbatim>\<open>examples/exam_tcpsvr.cpp\<close> on top of the net of sockets: a listening socket whose
  listener opens a new \<^verbatim>\<open>EdSocket\<close> for every connection, and connections whose listener sends back what it
  reads and deletes its socket when it is disconnected.\<close>

section \<open>State\<close>

text \<open>Outside the program: \<open>conns\<close> are the connections that arrive, each with the result of \<^verbatim>\<open>accept\<close> and the addresses
  \<^verbatim>\<open>new\<close> returns for the socket and for its event object.\<close>

record srv = prog +
  mLisSock :: addr
  conns :: "(int \<times> addr \<times> addr) list"

section \<open>The listener of a connection\<close>

definition cnn_listener :: "env \<Rightarrow> srv net_vm" where
  "cnn_listener v ev s =
     (case ev of
        SOCK_EVENT_DISCONNECTED \<Rightarrow>
          let handle = EdEvent_getUserInt (sk s) in
          bindr (EdSocket_close v s) (cnns_erase v handle)
      | SOCK_EVENT_READ \<Rightarrow>
          let (rcnt, bs, x) = sys_read (mFd (sk s)) 1024 (app s) in
          bindr (EdSocket_recv rcnt (s\<lparr>app := x\<rparr>)) (\<lambda>(rcnt, s).
            if rcnt > 0 then Inr (upd_app (\<lambda>x. snd (sys_write (mFd (sk s)) bs x)) s) else Inr s)
      | _ \<Rightarrow> Inr s)"

section \<open>The listener of the listening socket\<close>

text \<open>The reference \<^verbatim>\<open>mCnns[handle]\<close> creates the socket when there is none. Without an address left, \<^verbatim>\<open>new\<close> throws.
  epoll refuses an invalid descriptor.\<close>

definition lis_listener :: "env \<Rightarrow> srv net_vm" where
  "lis_listener v ev s =
     (case ev of
        SOCK_EVENT_INCOMING_ACCEPT \<Rightarrow>
          (case conns (app s) of
             [] \<Rightarrow> Inl (Throw 0)
           | (fd, a, ea) # cs \<Rightarrow>
               let (handle, x) = GetNewHandle ((app s)\<lparr>conns := cs\<rparr>);
                   (b, c) = (case mCnns x handle of Some b \<Rightarrow> (b, others s b) | None \<Rightarrow> (a, Some (EdSocket_new a (ecur v))));
                   s = s\<lparr>app := x\<lparr>mCnns := (mCnns x)(handle \<mapsto> b)\<rparr>\<rparr>
               in (case c of
                    None \<Rightarrow> Inl Bad_access
                  | Some c \<Rightarrow>
                      bindr (EdSocket_openChildSock (v\<lparr>eaddr := ea, ectl := (if fd < 0 then - 1 else 0)\<rparr>) fd None
                               (s\<lparr>sk := (EdEvent_setUserInt c handle)\<lparr>slis := Some 2\<rparr>\<rparr>)) (\<lambda>s'.
                      Inr (s'\<lparr>sk := sk s, others := (others s')(b \<mapsto> sk s')\<rparr>))))
      | _ \<Rightarrow> Inr s)"

definition svr_listeners :: "env \<Rightarrow> nat \<Rightarrow> srv net_vm" where
  "svr_listeners v n = (if n = 1 then lis_listener v else cnn_listener v)"

abbreviation svr_vm :: "env \<Rightarrow> srv net_vm" where
  "svr_vm v \<equiv> net_vm (svr_listeners v)"

text \<open>epoll reports the listening socket when a connection has arrived.\<close>

definition svr_ready :: "srv nst \<Rightarrow> bool" where
  "svr_ready s \<longleftrightarrow> (mIsListen (sk s) \<longrightarrow> conns (app s) \<noteq> [])"

section \<open>The handlers of the task's messages\<close>

text \<open>\<^verbatim>\<open>EDM_INIT\<close>: the listener is set and the socket listens on the port, \<open>fd\<close>, \<open>bret\<close> and \<open>lret\<close> the results of the
  system calls. \<^verbatim>\<open>EDM_CLOSE\<close>: all connections are destroyed, in the order the map yields them, then the listening
  socket is closed.\<close>

definition svr_init :: "env \<Rightarrow> int \<Rightarrow> int \<Rightarrow> int \<Rightarrow> srv nst \<Rightarrow> fault + (int \<times> srv nst)" where
  "svr_init v fd bret lret s = EdSocket_listenSock v fd bret lret None (upd_sk (\<lambda>e. e\<lparr>slis := Some 1\<rparr>) s)"

fun cnns_clear :: "env \<Rightarrow> u32 list \<Rightarrow> srv nst \<Rightarrow> fault + srv nst" where
  "cnns_clear v [] s = Inr s"
| "cnns_clear v (h # hs) s = bindr (cnns_erase v h s) (cnns_clear v hs)"

definition svr_close :: "env \<Rightarrow> u32 list \<Rightarrow> srv nst \<Rightarrow> fault + srv nst" where
  "svr_close v order s = bindr (cnns_clear v order s) (EdSocket_close v)"

section \<open>The invariant of the server\<close>

text \<open>The sockets are the listening one and one for each handle, which it carries as its user data; the
  connections to come have fresh addresses and enough handles are left for them.\<close>

definition arrivals_ok :: "kinds \<Rightarrow> addr set \<Rightarrow> (int \<times> addr \<times> addr) list \<Rightarrow> bool" where
  "arrivals_ok k A cs \<longleftrightarrow>
     distinct (map (fst \<circ> snd) cs) \<and> distinct (map (snd \<circ> snd) cs) \<and>
     (\<forall>(fd, a, ea) \<in> set cs. fd \<noteq> 0 \<and> a \<noteq> NULL \<and> k a = None \<and> ea \<noteq> NULL \<and> ea \<notin> A)"

definition cnns_ok :: "kinds \<Rightarrow> addr \<Rightarrow> (u32 \<rightharpoonup> addr) \<Rightarrow> u32 \<Rightarrow> bool" where
  "cnns_ok k l m hi \<longleftrightarrow> (\<exists>d. k l = Some (Some 1, True, d)) \<and> socks_in k {l} m hi"

definition svr_inv :: "srv prog_inv" where
  "svr_inv k A x \<longleftrightarrow>
     cnns_ok k (mLisSock x) (mCnns x) (gHandleSeed x) \<and> arrivals_ok k A (conns x) \<and> unat (gHandleSeed x) + length (conns x) < 2 ^ 32"

lemma svr_inv_less:
  assumes "svr_inv k A x" "B \<subseteq> A"
  shows "svr_inv k B x"
proof -
  have "arrivals_ok k B cs" if "arrivals_ok k A cs" for cs using that assms(2) unfolding arrivals_ok_def by fast
  then show ?thesis using assms(1) by (simp add: svr_inv_def)
qed

text \<open>The invariant when a connection goes and when one comes, and when bytes move.\<close>

lemma cnns_okD:
  "cnns_ok k l m hi \<Longrightarrow> \<exists>d. k l = Some (Some 1, True, d)"
  "cnns_ok k l m hi \<Longrightarrow> q \<noteq> l \<Longrightarrow> k q = Some (n, b, d) \<Longrightarrow> n = Some 2 \<and> \<not> b \<and> m (ucast d) = Some q"
  "cnns_ok k l m hi \<Longrightarrow> m h = Some q \<Longrightarrow> q \<noteq> l \<and> (\<exists>d. k q = Some (Some 2, False, d) \<and> ucast d = h) \<and> unat h \<le> unat hi"
  unfolding cnns_ok_def socks_in_def by blast+

lemma cnns_remove: "cnns_ok k l m hi \<Longrightarrow> q \<noteq> l \<Longrightarrow> k q = Some (n, b, d) \<Longrightarrow> cnns_ok (k(q := None)) l (m(ucast d := None)) hi"
  using socks_remove [of k "{l}" m hi q n b d] by (simp add: cnns_ok_def)

lemma cnns_add:
  assumes "cnns_ok k l m hi" "k a = None" "unat hi < unat h" "ucast d = h"
  shows "m h = None" "cnns_ok (k(a \<mapsto> (Some 2, False, d))) l (m(h \<mapsto> a)) h"
proof -
  have "a \<notin> {l}" using assms(1,2) by (auto simp: cnns_ok_def)
  with socks_add [of k "{l}" m hi a h d] assms show "m h = None" "cnns_ok (k(a \<mapsto> (Some 2, False, d))) l (m(h \<mapsto> a)) h"
    by (simp_all add: cnns_ok_def)
qed

lemma arrivals_mono: "arrivals_ok k A cs \<Longrightarrow> arrivals_ok (k(q := None)) A cs"
  by (auto simp: arrivals_ok_def)

lemma arrivals_tl:
  assumes "arrivals_ok k A ((fd, a, ea) # cs)" "B \<subseteq> insert ea A"
  shows "arrivals_ok (k(a \<mapsto> x)) B cs"
proof -
  have "a \<notin> (fst \<circ> snd) ` set cs" "ea \<notin> (snd \<circ> snd) ` set cs" using assms(1) by (simp_all add: arrivals_ok_def)
  then have "fst (snd y) \<noteq> a \<and> snd (snd y) \<noteq> ea" if "y \<in> set cs" for y using that by force
  then show ?thesis using assms unfolding arrivals_ok_def by (fastforce simp: case_prod_beta)
qed

definition same_cnns :: "srv \<Rightarrow> srv \<Rightarrow> bool" where
  "same_cnns x y \<longleftrightarrow> mLisSock x = mLisSock y \<and> mCnns x = mCnns y \<and> gHandleSeed x = gHandleSeed y \<and> conns x = conns y"

lemma svr_inv_same: "same_cnns x y \<Longrightarrow> svr_inv k A x = svr_inv k A y"
  by (simp add: same_cnns_def svr_inv_def)

lemma sys_read_same: "sys_read fd n x = (r, bs, y) \<Longrightarrow> same_cnns y x \<and> (0 < r \<longrightarrow> bs \<noteq> [])"
  by (auto simp: sys_read_def same_cnns_def split: list.splits if_splits)

lemma sys_write_same: "same_cnns (snd (sys_write fd bs x)) x"
  by (simp add: sys_write_def same_cnns_def Let_def)

section \<open>The listeners keep the invariant\<close>

lemma lost_ok:
  assumes st: "net_st v svr_inv D s" and c: "eself (sk s) \<noteq> mLisSock (app s)"
  shows "\<exists>s'. cnn_listener v SOCK_EVENT_DISCONNECTED s = Inr s' \<and> net_done v svr_inv D s' \<and> eself (sk s') = NULL \<and> others s' = others s \<and>
     app s' = (app s)\<lparr>mCnns := (mCnns (app s))(EdEvent_getUserInt (sk s) := None)\<rparr> \<and> evts (sw s') = close_evt (mEvt (sk s)) (evts (sw s))"
proof -
  let ?q = "eself (sk s)" and ?h = "EdEvent_getUserInt (sk s)" and ?k = "sock_kinds (socks_of s)"
  have nn: "?q \<noteq> NULL" and ok: "nst_ok v svr_inv D s" using st by (simp_all add: net_st_def net_done_def)
  have inv: "svr_inv ?k (dom (evts (sw s))) (app s)" by (rule nst_okD(5) [OF ok])
  have kq: "?k ?q = Some (slis (sk s), mIsListen (sk s), mUser (sk s))" using nn by (simp add: sock_kinds_def)
  have cn: "cnns_ok ?k (mLisSock (app s)) (mCnns (app s)) (gHandleSeed (app s))" using inv by (simp add: svr_inv_def)
  have h: "mCnns (app s) ?h = Some ?q" using cnns_okD(2) [OF cn c kq] by (simp add: EdEvent_getUserInt_def)
  have K: "svr_inv (?k(?q := None)) (dom (evts (sw s))) ((app s)\<lparr>mCnns := (mCnns (app s))(?h := None)\<rparr>)"
    using inv cnns_remove [OF cn c kq] arrivals_mono by (simp add: svr_inv_def EdEvent_getUserInt_def)
  show ?thesis using close_erase_own [where K' = svr_inv, OF st h K] by (auto simp: cnn_listener_def)
qed

lemma read_data_ok:
  assumes st: "net_st v svr_inv D s" and fd: "0 \<le> mFd (sk s)"
  shows "\<exists>s'. cnn_listener v SOCK_EVENT_READ s = Inr s' \<and> net_done v svr_inv D s'"
proof -
  obtain r bs x where x: "sys_read (mFd (sk s)) 1024 (app s) = (r, bs, x)" by (metis prod_cases3)
  have ok: "nst_ok v svr_inv D s" using st by (simp add: net_st_def net_done_def)
  have step: "net_st v svr_inv D (t\<lparr>app := y\<rparr>)" if "net_st v svr_inv D t" "same_cnns y (app t)" for t y
  proof (rule net_st_app [OF that(1)])
    have "nst_ok v svr_inv D t" using that(1) by (simp add: net_st_def net_done_def)
    then show "svr_inv (sock_kinds (socks_of t)) (dom (evts (sw t))) y" unfolding svr_inv_same [OF that(2)] by (rule nst_okD(5))
  qed
  have s1: "net_st v svr_inv D (s\<lparr>app := x\<rparr>)" by (rule step [OF st]) (use sys_read_same [OF x] in simp)
  have s2: "net_st v svr_inv D (upd_app (\<lambda>x. snd (sys_write n bs x)) (s\<lparr>app := x\<rparr>))" for n
    unfolding upd_app_def by (rule step [OF s1 sys_write_same])
  show ?thesis
    using x s1 s2 net_task [OF st fd] net_done_err [OF s1, of EBADFD] fd
    by (cases "r = 0") (auto simp: cnn_listener_def EdSocket_recv_def net_st_def)
qed

text \<open>What accepting one connection does to the net.\<close>

definition child_of :: "env \<Rightarrow> int \<Rightarrow> addr \<Rightarrow> u32 \<Rightarrow> EdSocket" where
  "child_of v fd a h = child_sock v fd ((EdEvent_setUserInt (EdSocket_new a (ecur v)) h)\<lparr>slis := Some 2\<rparr>)"

lemma child_of_simps [simp]:
  "eself (child_of v fd a h) = a" "mFd (child_of v fd a h) = fd" "mEvt (child_of v fd a h) = NULL" "slis (child_of v fd a h) = Some 2"
  "mIsListen (child_of v fd a h) = False" "mTask (child_of v fd a h) = curTask (ecur v)" "mContext (child_of v fd a h) = curContext (ecur v)"
  "ucast (mUser (child_of v fd a h)) = h" "mStatus (child_of v fd a h) = SOCK_STATUS_CONNECTED"
  using getUserInt_setUserInt [of "EdSocket_new a (ecur v)" h]
  by (simp_all add: child_of_def EdSocket_new_def EdSocket_clearInternal_def EdEvent_new_def EdEvent.extend_def EdEvent_getUserInt_def EdEvent_setUserInt_def)

lemma accept_ok:
  assumes st: "net_st v svr_inv D s" and l: "eself (sk s) = mLisSock (app s)" and c: "conns (app s) = (fd, a, ea) # cs"
  shows "\<exists>s' c'. lis_listener v SOCK_EVENT_INCOMING_ACCEPT s = Inr s' \<and> net_done v svr_inv D s' \<and> sk s' = sk s \<and> others s' = (others s)(a \<mapsto> c') \<and>
     app s' = (app s)\<lparr>conns := cs, gHandleSeed := gHandleSeed (app s) + 1, mCnns := (mCnns (app s))(gHandleSeed (app s) + 1 \<mapsto> a)\<rparr> \<and>
     lastSockErrorNo s' = lastSockErrorNo s \<and> others s a = None \<and> a \<noteq> eself (sk s) \<and> mFd c' = fd \<and> eself c' = a \<and> mStatus c' = SOCK_STATUS_CONNECTED \<and>
     slis c' = Some 2 \<and> EdEvent_getUserInt c' = gHandleSeed (app s) + 1 \<and> mCnns (app s) (gHandleSeed (app s) + 1) = None \<and>
     (if fd < 0 then mEvt c' = NULL \<and> evts (sw s') = evts (sw s)
      else sk_live v ea c' \<and> evts (sw s') = (evts (sw s))(ea \<mapsto> \<lparr>evfd = fd, evuser = a, isReg = True, ecb = EsCb\<rparr>))"
proof -
  let ?x = "app s" let ?h = "gHandleSeed ?x + 1" let ?k = "sock_kinds (socks_of s)"
  let ?c = "(EdEvent_setUserInt (EdSocket_new a (ecur v)) ?h)\<lparr>slis := Some 2\<rparr>"
  let ?y = "?x\<lparr>conns := cs, gHandleSeed := ?h, mCnns := (mCnns ?x)(?h \<mapsto> a)\<rparr>"
  let ?v = "v\<lparr>eaddr := ea, ectl := (if fd < 0 then - 1 else 0)\<rparr>"
  have nn: "eself (sk s) \<noteq> NULL" and ok: "nst_ok v svr_inv D s" and err: "lastSockErrorNo s \<noteq> 0 \<longrightarrow> 0 \<le> mFd (sk s)"
    using st by (simp_all add: net_st_def net_done_def)
  note d = nst_okD [OF ok]
  obtain es ds where r: "ev_rep (sw s) es ds" using d(1) by blast
  have env: "env_ok (sw s) (ecur v)" using net_invD(1) [OF d(3)] by simp
  have inv: "cnns_ok ?k (mLisSock ?x) (mCnns ?x) (gHandleSeed ?x)" "arrivals_ok ?k (dom (evts (sw s))) ((fd, a, ea) # cs)"
    "unat (gHandleSeed ?x) + length (conns ?x) < 2 ^ 32" using d(5) c by (simp_all add: svr_inv_def)
  have ar: "fd \<noteq> 0" "a \<noteq> NULL" "?k a = None" "ea \<noteq> NULL" "evts (sw s) ea = None" using inv(2) by (auto simp: arrivals_ok_def)
  have an: "socks_of s a = None" using ar(3) by (simp add: sock_kinds_def)
  then have a: "others s a = None" "a \<noteq> eself (sk s)" using nn by (auto split: if_splits)
  have h: "unat ?h = unat (gHandleSeed ?x) + 1" using inv(3) c by (simp add: unat_word_ariths)
  have hn: "unat (gHandleSeed ?x) < unat ?h" using h by simp
  have mn: "mCnns ?x ?h = None" by (rule cnns_add(1) [OF inv(1) ar(3) hn child_of_simps(8)])
  have hd: "ehdrs (sw s) ea = None" using ar(5) r by (auto simp: ev_rep_def domIff)
  have step: "lis_listener v SOCK_EVENT_INCOMING_ACCEPT s =
      bindr (EdSocket_openChildSock ?v fd None (s\<lparr>app := ?y, sk := ?c\<rparr>)) (\<lambda>s'. Inr (s'\<lparr>sk := sk s, others := (others s')(a \<mapsto> sk s')\<rparr>))"
    using c mn by (simp add: lis_listener_def GetNewHandle_def Let_def)
  have fin: ?thesis if run: "lis_listener v SOCK_EVENT_INCOMING_ACCEPT s = Inr t" and t: "sk t = sk s" "others t = (others s)(a \<mapsto> c')"
      "app t = ?y" "lastSockErrorNo t = lastSockErrorNo s" "\<exists>es ds. ev_rep (sw t) es ds"
      and c': "mFd c' = fd" "eself c' = a" "mStatus c' = SOCK_STATUS_CONNECTED" "slis c' = Some 2" "\<not> mIsListen c'" "ucast (mUser c') = ?h"
      and ev: "net_inv v (sw t) ((socks_of s)(a \<mapsto> c'))" "dom (evts (sw t)) \<subseteq> insert ea (dom (evts (sw s)))" "dom (evts (sw s)) \<subseteq> dom (evts (sw t))"
      "if fd < 0 then mEvt c' = NULL \<and> evts (sw t) = evts (sw s)
       else sk_live v ea c' \<and> evts (sw t) = (evts (sw s))(ea \<mapsto> \<lparr>evfd = fd, evuser = a, isReg = True, ecb = EsCb\<rparr>)" for t c'
  proof -
    have so: "socks_of t = (socks_of s)(a \<mapsto> c')" using t(1,2) nn a(2) by (simp add: fun_upd_twist)
    have k: "sock_kinds (socks_of t) = ?k(a \<mapsto> (Some 2, False, mUser c'))" unfolding so using c'(4,5) by (auto simp: sock_kinds_def fun_eq_iff)
    have "svr_inv (sock_kinds (socks_of t)) (dom (evts (sw t))) (app t)"
      unfolding k svr_inv_def t(3) using cnns_add(2) [OF inv(1) ar(3) hn c'(6)] arrivals_tl [OF inv(2) ev(2)] inv(3) h c by simp
    then have "nst_ok v svr_inv D t" unfolding nst_ok_def using t(1,2,5) d(2,4) a(2) ev(1,3) so by auto
    then have "net_done v svr_inv D t" using err nn t(1,4) by (simp add: net_done_def)
    then show ?thesis using run t a c' ev(4) mn by (intro exI [of _ t] exI [of _ c'] conjI) (simp_all add: EdEvent_getUserInt_def)
  qed
  let ?s = "s\<lparr>app := ?y, sk := ?c\<rparr>" let ?k = "child_of v fd a ?h"
  have k: "child_sock ?v fd (sk ?s) = ?k" by (simp add: child_of_def child_sock_def)
  have off: "ev_off (sk ?s)" by (simp add: ev_off_def EdEvent_setUserInt_def EdSocket_new_def EdSocket_clearInternal_def EdEvent_new_def EdEvent.extend_def)
  have self: "eself (sk ?s) = a" by (simp add: EdEvent_setUserInt_def EdSocket_new_def EdSocket_clearInternal_def EdEvent_new_def EdEvent.extend_def)
  show ?thesis
  proof (cases "fd < 0")
    case True
    have o: "EdSocket_openChildSock ?v fd None ?s = Inr (?s\<lparr>sk := ?k\<lparr>mIsReg := True\<rparr>, sw := (sw s)\<lparr>evt_count := evt_count (sw s) + 1\<rparr>\<rparr>)"
      using openChild_refused [of ?s ?v fd] env True off hd ar(5) k by simp
    let ?t = "?s\<lparr>sk := sk s, sw := (sw s)\<lparr>evt_count := evt_count (sw s) + 1\<rparr>, others := (others s)(a \<mapsto> ?k\<lparr>mIsReg := True\<rparr>)\<rparr>"
    have "net_inv v (sw ?t) (socks_of s)" using net_inv_cong [of "sw ?t" "sw s" v "socks_of s"] d(3) by simp
    then have "net_inv v (sw ?t) ((socks_of s)(a \<mapsto> ?k\<lparr>mIsReg := True\<rparr>))" by (rule net_inv_new_off) (use an ar(2) True in simp_all)
    moreover have "ev_rep (sw ?t) es ds" using r by (simp add: ev_rep_def)
    moreover have "lis_listener v SOCK_EVENT_INCOMING_ACCEPT s = Inr ?t" using step o by simp
    ultimately show ?thesis using True by (intro fin [of ?t "?k\<lparr>mIsReg := True\<rparr>"]) auto
  next
    case False
    have fd: "0 < fd" using False ar(1) by simp
    have sys: "sys_ok ?v ?s es ds" using r env False by (simp add: sys_ok_def)
    show ?thesis
    proof (rule openChild_ok [OF sys off _ _ fd])
      let ?c' = "?k\<lparr>mEvt := ea, mIsReg := True, interest := EVT_READ OR EVT_HANGUP\<rparr>"
      fix w' assume w': "EdSocket_openChildSock ?v fd None ?s = Inr (?s\<lparr>sk := (child_sock ?v fd (sk ?s))\<lparr>mEvt := eaddr ?v, mIsReg := True, interest := EVT_READ OR EVT_HANGUP\<rparr>, sw := w'\<rparr>)"
        "ev_rep w' (es @ [eaddr ?v]) ds" "cmode w' = cmode (sw ?s)" "evts w' = (evts (sw ?s))(eaddr ?v \<mapsto> \<lparr>evfd = fd, evuser = eself (sk ?s), isReg = True, ecb = EsCb\<rparr>)"
      let ?t = "?s\<lparr>sk := sk s, sw := w', others := (others s)(a \<mapsto> ?c')\<rparr>"
      have run: "lis_listener v SOCK_EVENT_INCOMING_ACCEPT s = Inr ?t" using step w'(1) unfolding k by simp
      have live: "sk_live v ea ?c'" using fd ar(4) env by (simp add: sk_live_def ev_on_def env_ok_def)
      have ev: "evts w' = (evts (sw s))(ea \<mapsto> \<lparr>evfd = fd, evuser = a, isReg = True, ecb = EsCb\<rparr>)" using w'(4) unfolding self by simp
      have "net_inv v w' ((socks_of s)(a \<mapsto> ?c'))" by (rule net_inv_new [OF d(3) an ar(2) _ _ live ev]) (use w'(3) ar(5) in simp_all)
      then show ?thesis using run live ev w'(2) False by (intro fin [of ?t ?c']) auto
    qed (use hd ar(4) in simp_all)
  qed
qed

lemma erase_other:
  assumes st: "net_st v svr_inv D s" and l: "eself (sk s) = mLisSock (app s)" and h: "mCnns (app s) h = Some b"
    and z: "lastSockErrorNo s = 0"
  shows "\<exists>s'. cnns_erase v h s = Inr s' \<and> net_st v svr_inv D s' \<and> lastSockErrorNo s' = 0 \<and> sk s' = sk s \<and> app s' = (app s)\<lparr>mCnns := (mCnns (app s))(h := None)\<rparr>"
proof -
  let ?q = "eself (sk s)" and ?x = "(app s)\<lparr>mCnns := (mCnns (app s))(h := None)\<rparr>" and ?k = "sock_kinds (socks_of s)"
  have nn: "?q \<noteq> NULL" and ok: "nst_ok v svr_inv D s" using st by (simp_all add: net_st_def net_done_def)
  note d = nst_okD [OF ok]
  have cn: "cnns_ok ?k (mLisSock (app s)) (mCnns (app s)) (gHandleSeed (app s))" using d(5) by (simp add: svr_inv_def)
  obtain u where b: "b \<noteq> ?q" "?k b = Some (Some 2, False, u)" "ucast u = h" using cnns_okD(3) [OF cn h] l by auto
  then obtain c where c: "others s b = Some c" using nn by (auto simp: sock_kinds_def)
  have eb: "eself c = b" "b \<noteq> NULL" using net_invD(2) [OF d(3), of b c] c b(1) nn by simp_all
  let ?t = "s\<lparr>app := ?x, sk := c, others := (others s)(b := None, ?q \<mapsto> sk s)\<rparr>"
  have so: "socks_of ?t = socks_of s" using eb b(1) nn c by (auto simp: fun_eq_iff)
  have "nst_ok v (\<lambda>_ _ _. True) D ?t" unfolding nst_ok_def so using d(1-3) eb b(1) by auto
  then have stt: "net_st v (\<lambda>_ _ _. True) D ?t" using eb z by (auto simp: net_st_def net_done_def)
  have kd: "sock_kinds (others ?t) = ?k(b := None)" using nn b(1) by (auto simp: sock_kinds_def fun_eq_iff)
  have "svr_inv (sock_kinds (others ?t)) (dom (evts (sw ?t))) (app ?t)"
    unfolding kd using d(5) cnns_remove [OF cn, of b] b l arrivals_mono by (simp add: svr_inv_def)
  then obtain s' where s': "sk_delete v ?t = Inr s'" "net_done v svr_inv D s'" "eself (sk s') = NULL" "others s' = others ?t" "app s' = app ?t"
    using delete_net [OF stt] by blast
  let ?r = "s'\<lparr>sk := sk s, others := (others s')(?q := None)\<rparr>"
  have "socks_of ?r = socks_of s'" using s'(3,4) nn by (auto simp: fun_eq_iff)
  then have "nst_ok v svr_inv D ?r" using s'(2) by (simp add: net_done_def nst_ok_def del: socks_of_simps)
  then have "net_st v svr_inv D ?r" "lastSockErrorNo ?r = 0" using s'(2,3) nn by (auto simp: net_st_def net_done_def)
  moreover have "cnns_erase v h s = Inr ?r" using h b(1) c s'(1) by (simp add: cnns_erase_def upd_app_def)
  ultimately show ?thesis using s'(5) by (intro exI [of _ ?r]) simp
qed

lemma svr_which:
  assumes "net_st v svr_inv D s"
  shows "if eself (sk s) = mLisSock (app s) then slis (sk s) = Some 1 \<and> mIsListen (sk s)
    else slis (sk s) = Some 2 \<and> \<not> mIsListen (sk s) \<and> mCnns (app s) (EdEvent_getUserInt (sk s)) = Some (eself (sk s))"
proof -
  let ?k = "sock_kinds (socks_of s)"
  have nn: "eself (sk s) \<noteq> NULL" and ok: "nst_ok v svr_inv D s" using assms by (simp_all add: net_st_def net_done_def)
  have k: "?k (eself (sk s)) = Some (slis (sk s), mIsListen (sk s), mUser (sk s))" using nn by (simp add: sock_kinds_def)
  have cn: "cnns_ok ?k (mLisSock (app s)) (mCnns (app s)) (gHandleSeed (app s))" using nst_okD(5) [OF ok] by (simp add: svr_inv_def)
  show ?thesis
  proof (cases "eself (sk s) = mLisSock (app s)")
    case True
    then show ?thesis using k cnns_okD(1) [OF cn] by simp
  next
    case False
    from cnns_okD(2) [OF cn this k] False show ?thesis by (simp add: EdEvent_getUserInt_def)
  qed
qed

lemma svr_vm_lis: "net_st v svr_inv D s \<Longrightarrow> eself (sk s) = mLisSock (app s) \<Longrightarrow> svr_vm v ev s = lis_listener v ev s"
  using svr_which [of v D s] by (simp add: net_vm_on EdSocket_vm_def svr_listeners_def)

lemma svr_vm_cnn: "net_st v svr_inv D s \<Longrightarrow> eself (sk s) \<noteq> mLisSock (app s) \<Longrightarrow> svr_vm v ev s = cnn_listener v ev s"
  using svr_which [of v D s] by (simp add: net_vm_on EdSocket_vm_def svr_listeners_def)

lemma svr_lost: "net_st v svr_inv D s \<Longrightarrow> \<exists>s'. svr_vm v SOCK_EVENT_DISCONNECTED s = Inr s' \<and> net_done v svr_inv D s'"
proof (cases "eself (sk s) = mLisSock (app s)")
  case True
  moreover assume st: "net_st v svr_inv D s"
  ultimately show ?thesis using svr_vm_lis [OF st] by (simp add: lis_listener_def) (simp add: net_st_def)
next
  case False
  moreover assume st: "net_st v svr_inv D s"
  ultimately show ?thesis using lost_ok [OF st] by (auto simp: svr_vm_cnn)
qed

interpretation svr: net_listener "svr_vm v" v svr_inv svr_ready for v
proof unfold_locales
  fix D ev s assume l: "net_live v svr_inv svr_ready D s"
  then have st: "net_st v svr_inv D s" and fd: "0 < mFd (sk s)" and rd: "svr_ready s" by (auto simp: net_live_def sk_live_def)
  show "\<exists>s'. svr_vm v ev s = Inr s' \<and> net_done v svr_inv D s'"
  proof (cases "eself (sk s) = mLisSock (app s)")
    case True
    have "mIsListen (sk s)" using svr_which [OF st] True by simp
    then obtain fd a ea cs where "conns (app s) = (fd, a, ea) # cs" using rd by (cases "conns (app s)") (auto simp: svr_ready_def)
    from accept_ok [OF st True this] st show ?thesis by (cases ev) (auto simp: svr_vm_lis [OF st True] lis_listener_def net_st_def)
  next
    case False
    then show ?thesis using st svr_lost [OF st] read_data_ok [OF st] fd
      by (cases ev) (auto simp: svr_vm_cnn [OF st False] cnn_listener_def net_st_def)
  qed
next
  show "net_st v svr_inv D s \<Longrightarrow> \<exists>s'. svr_vm v SOCK_EVENT_DISCONNECTED s = Inr s' \<and> net_done v svr_inv D s'" for D s by (rule svr_lost)
qed (auto simp: svr_ready_def intro: svr_inv_less)

section \<open>One event of the server\<close>

text \<open>A state in which an event of a connection, or of the listening socket, arrives.\<close>

lemma svr_focus:
  assumes r: "ev_rep w es ds" "net_ok v svr_inv w" and e: "evts w p = Some e" "isReg e" "ecb e = EsCb" and c: "nsocks w (evuser e) = Some c"
    and s: "s = net_focus (evuser e) c w"
  shows "net_st v svr_inv (dom (evts w)) s" "svr_ready s \<Longrightarrow> net_live v svr_inv svr_ready (dom (evts w)) s" "eself c = evuser e" "mEvt c = p"
    "evuser e \<noteq> NULL" "0 < mFd c" "sk s = c" "app s = napp w" "lastSockErrorNo s = nerr w" "others s = (nsocks w)(evuser e := None)" "evts (sw s) = evts w"
    "if evuser e = mLisSock (napp w) then mIsListen c else \<not> mIsListen c"
proof -
  obtain c' where c': "nsocks w (evuser e) = Some c'" "mEvt c' = p" "eself c' = evuser e" "evuser e \<noteq> NULL" "0 < mFd c'"
    "True \<longrightarrow> net_live v svr_inv (\<lambda>_. True) (dom (evts w)) (net_focus (evuser e) c' w)" by (rule focus_live [where rd = "\<lambda>_. True", OF r e]) simp
  have cc: "c' = c" using c c'(1) by simp
  note c'' = c' [unfolded cc]
  show l: "net_st v svr_inv (dom (evts w)) s" using c''(6) s by (simp add: net_live_def)
  show "svr_ready s \<Longrightarrow> net_live v svr_inv svr_ready (dom (evts w)) s" using c''(6) s by (simp add: net_live_def)
  show f: "eself c = evuser e" "mEvt c = p" "evuser e \<noteq> NULL" "0 < mFd c" "sk s = c" "app s = napp w" "lastSockErrorNo s = nerr w"
    "others s = (nsocks w)(evuser e := None)" "evts (sw s) = evts w" using c'' s by simp_all
  show "if evuser e = mLisSock (napp w) then mIsListen c else \<not> mIsListen c" using svr_which [OF l] f by (auto split: if_splits)
qed

lemma mark_st:
  assumes "net_st v svr_inv D s" "svr_ready s" "net_live v svr_inv svr_ready D s"
  shows "net_st v svr_inv D (upd_sk (\<lambda>e. e\<lparr>mRaiseDisconnect := 0\<rparr>) s)"
  using svr.handler.mark_law [OF assms(3)] by (simp add: net_live_def)

text \<open>Data is sent back.\<close>

lemma echo_data:
  assumes r: "ev_rep w es ds" "net_ok v svr_inv w" and e: "evts w p = Some e" "isReg e" "ecb e = EsCb" and c: "nsocks w (evuser e) = Some c"
    and n: "evuser e \<noteq> mLisSock (napp w)" and z: "nerr w = 0" and d: "inbox (napp w) (mFd c) = d # dd" "d \<noteq> []" "length d \<le> 1024"
  shows "\<exists>w'. net_cb (svr_vm v) v err svr_ready EsCb p EVT_READ w = Inr w' \<and> nsocks w' = (nsocks w)(evuser e \<mapsto> c\<lparr>mRaiseDisconnect := 0\<rparr>) \<and>
     evts w' = evts w \<and> nerr w' = 0 \<and> inbox (napp w') = (inbox (napp w))(mFd c := dd) \<and> mCnns (napp w') = mCnns (napp w) \<and>
     outbox (napp w') = (outbox (napp w))(mFd c := outbox (napp w) (mFd c) @ take (room (napp w) (mFd c)) d)"
proof -
  let ?s = "net_focus (evuser e) c w"
  note f = svr_focus [OF r e c refl]
  have nl: "\<not> mIsListen c" using f(12) n by simp
  have rdy: "svr_ready ?s" using nl by (simp add: svr_ready_def)
  let ?s1 = "upd_sk (\<lambda>e. e\<lparr>mRaiseDisconnect := 0\<rparr>) ?s"
  let ?fd = "mFd c" let ?x = "(napp w)\<lparr>inbox := (inbox (napp w))(?fd := dd)\<rparr>"
  have st1: "net_st v svr_inv (dom (evts w)) ?s1" by (rule mark_st [OF f(1) rdy f(2) [OF rdy]])
  have a1: "app ?s1 = napp w" by (simp add: upd_sk_def)
  have "eself (sk ?s1) \<noteq> mLisSock (app ?s1)" using n f(3) a1 by simp
  note vm = svr_vm_cnn [OF st1 this]
  have rd: "sys_read ?fd 1024 (napp w) = (int (length d), d, ?x)" using d by (simp add: sys_read_def)
  let ?s2 = "?s1\<lparr>app := snd (sys_write ?fd d ?x)\<rparr>"
  have "svr_vm v SOCK_EVENT_READ ?s1 = Inr ?s2"
    using rd d(2) a1 by (simp add: vm cnn_listener_def EdSocket_recv_def upd_app_def)
  then have "EdSocket_OnEventRead (svr_vm v) v ?s = Inr ?s2" using nl z by (simp add: EdSocket_OnEventRead_def)
  then have run: "net_cb (svr_vm v) v err svr_ready EsCb p EVT_READ w = Inr (net_unfocus ?s2)"
    by (intro net_cb_run [where s' = ?s2 and rd = svr_ready, OF e(1) c rdy]) (simp add: sock_dispatch_def flag_handlers)
  have socks: "socks_of ?s2 = (nsocks w)(evuser e \<mapsto> c\<lparr>mRaiseDisconnect := 0\<rparr>)" using f(3,5) by (simp add: upd_sk_def)
  have wr: "outbox (snd (sys_write ?fd d ?x)) = (outbox (napp w))(?fd := outbox (napp w) ?fd @ take (room (napp w) ?fd) d)"
    "inbox (snd (sys_write ?fd d ?x)) = (inbox (napp w))(?fd := dd)" "mCnns (snd (sys_write ?fd d ?x)) = mCnns (napp w)"
    by (auto simp: sys_write_def Let_def min_def)
  show ?thesis using run socks wr z by (intro exI [of _ "net_unfocus ?s2"]) simp
qed

text \<open>At the end of the stream and on a hang-up the connection goes.\<close>

lemma gone_run:
  assumes c: "nsocks w (evuser e) = Some c" "evts w p = Some e" and rdy: "svr_ready (net_focus (evuser e) c w)"
    and run: "sock_dispatch (svr_vm v) v (err (net_focus (evuser e) c w)) flag (net_focus (evuser e) c w) = Inr s'"
    and s': "net_done v svr_inv D s'" "eself (sk s') = NULL" "others s' = (nsocks w)(evuser e := None)"
    "app s' = (napp w)\<lparr>mCnns := (mCnns (napp w))(h := None)\<rparr>" "evts (sw s') = close_evt p (evts w)"
  shows "\<exists>w'. net_cb (svr_vm v) v err svr_ready EsCb p flag w = Inr w' \<and> nsocks w' = (nsocks w)(evuser e := None) \<and>
     napp w' = (napp w)\<lparr>mCnns := (mCnns (napp w))(h := None)\<rparr> \<and> evts w' = close_evt p (evts w) \<and> nerr w' = 0"
proof -
  have "lastSockErrorNo s' = 0" using s'(1,2) by (auto simp: net_done_def)
  then show ?thesis using net_cb_run [where rd = svr_ready and err = err, OF c(2,1) rdy run] s' by (intro exI [of _ "net_unfocus s'"]) simp
qed

lemma connection_lost:
  assumes r: "ev_rep w es ds" "net_ok v svr_inv w" and e: "evts w p = Some e" "isReg e" "ecb e = EsCb" and c: "nsocks w (evuser e) = Some c"
    and n: "evuser e \<noteq> mLisSock (napp w)" and how: "flag = EVT_HANGUP \<or> flag = EVT_READ \<and> inbox (napp w) (mFd c) = [] # dd"
  shows "\<exists>w'. net_cb (svr_vm v) v err svr_ready EsCb p flag w = Inr w' \<and> nsocks w' = (nsocks w)(evuser e := None) \<and>
     napp w' = (napp w)\<lparr>mCnns := (mCnns (napp w))(EdEvent_getUserInt c := None)\<rparr> \<and> evts w' = close_evt p (evts w) \<and> nerr w' = 0"
proof -
  let ?s = "net_focus (evuser e) c w"
  note f = svr_focus [OF r e c refl]
  have nl: "\<not> mIsListen c" using f(12) n by simp
  have rdy: "svr_ready ?s" using nl by (simp add: svr_ready_def)
  from how show ?thesis
  proof
    assume h: "flag = EVT_HANGUP"
    show ?thesis
    proof (rule close_net [OF f(1)])
      fix s1 assume s1: "EdSocket_close v ?s = Inr s1" "net_st v svr_inv (dom (evts w)) s1" "mEvt (sk s1) = NULL" "eself (sk s1) = eself (sk ?s)"
        "others s1 = others ?s" "app s1 = app ?s" "evts (sw s1) = close_evt (mEvt (sk ?s)) (evts (sw ?s))"
      have u: "EdEvent_getUserInt (sk s1) = EdEvent_getUserInt c" using close_frame [OF s1(1)] by (simp add: EdEvent_getUserInt_def)
      have nl1: "eself (sk s1) \<noteq> mLisSock (app s1)" using s1(4,6) n f(3) by simp
      obtain s' where s': "cnn_listener v SOCK_EVENT_DISCONNECTED s1 = Inr s'" "net_done v svr_inv (dom (evts w)) s'" "eself (sk s') = NULL" "others s' = others s1"
        "app s' = (app s1)\<lparr>mCnns := (mCnns (app s1))(EdEvent_getUserInt (sk s1) := None)\<rparr>" "evts (sw s') = close_evt (mEvt (sk s1)) (evts (sw s1))"
        using lost_ok [OF s1(2) nl1] by blast
      have "sock_dispatch (svr_vm v) v (err ?s) flag ?s = Inr s'"
        using s1(1) s'(1) svr_vm_cnn [OF s1(2) nl1] by (simp add: sock_dispatch_def h flag_handlers EdSocket_OnEventHangup_def)
      from gone_run [where err = err, OF c e(1) rdy this s'(2,3)] show ?thesis using s'(4-6) s1(3,5-7) f(4) u by simp
    qed
  next
    assume h: "flag = EVT_READ \<and> inbox (napp w) (mFd c) = [] # dd"
    let ?s1 = "upd_sk (\<lambda>e. e\<lparr>mRaiseDisconnect := 0\<rparr>) ?s"
    let ?s2 = "?s1\<lparr>lastSockErrorNo := EBADFD\<rparr>"
    have st1: "net_st v svr_inv (dom (evts w)) ?s1" by (rule mark_st [OF f(1) rdy f(2) [OF rdy]])
    have a1: "app ?s1 = napp w" "others ?s1 = others ?s" "eself (sk ?s1) = evuser e" using f(3) by (simp_all add: upd_sk_def)
    have fd: "0 \<le> mFd (sk ?s1)" using f(6) by simp
    have st2: "net_st v svr_inv (dom (evts w)) ?s2" using net_done_err [OF st1 fd, of EBADFD] a1(3) f(5) by (simp add: net_st_def)
    have n1: "eself (sk ?s1) \<noteq> mLisSock (app ?s1)" "eself (sk ?s2) \<noteq> mLisSock (app ?s2)" using n a1 by simp_all
    have "svr_vm v SOCK_EVENT_READ ?s1 = Inr ?s2"
      using h a1 net_task [OF st1 fd] by (simp add: svr_vm_cnn [OF st1 n1(1)] cnn_listener_def sys_read_def EdSocket_recv_def)
    moreover obtain s' where s': "cnn_listener v SOCK_EVENT_DISCONNECTED ?s2 = Inr s'" "net_done v svr_inv (dom (evts w)) s'" "eself (sk s') = NULL" "others s' = others ?s2"
      "app s' = (app ?s2)\<lparr>mCnns := (mCnns (app ?s2))(EdEvent_getUserInt (sk ?s2) := None)\<rparr>" "evts (sw s') = close_evt (mEvt (sk ?s2)) (evts (sw ?s2))"
      using lost_ok [OF st2 n1(2)] by blast
    moreover have "lastSockErrorNo s' = 0" using s'(2,3) by (auto simp: net_done_def)
    ultimately have "sock_dispatch (svr_vm v) v (err ?s) flag ?s = Inr s'"
      using h nl svr_vm_cnn [OF st2 n1(2)] by (simp add: sock_dispatch_def flag_handlers EdSocket_OnEventRead_def EBADFD_def)
    from gone_run [where err = err, OF c e(1) rdy this s'(2,3)] show ?thesis using s'(4-6) a1 f(4) by (simp add: EdEvent_getUserInt_def)
  qed
qed

text \<open>An arriving connection gets a socket of its own.\<close>

lemma connection_accepted:
  assumes r: "ev_rep w es ds" "net_ok v svr_inv w" and e: "evts w p = Some e" "isReg e" "ecb e = EsCb" and c: "nsocks w (evuser e) = Some c"
    and l: "evuser e = mLisSock (napp w)" and a: "conns (napp w) = (fd, a, ea) # cs" "0 < fd"
  shows "\<exists>w' c'. net_cb (svr_vm v) v err svr_ready EsCb p EVT_READ w = Inr w' \<and> nsocks w' = (nsocks w)(a \<mapsto> c') \<and> nsocks w a = None \<and>
     mFd c' = fd \<and> mStatus c' = SOCK_STATUS_CONNECTED \<and> EdEvent_getUserInt c' = gHandleSeed (napp w) + 1 \<and> mCnns (napp w) (gHandleSeed (napp w) + 1) = None \<and>
     napp w' = (napp w)\<lparr>conns := cs, gHandleSeed := gHandleSeed (napp w) + 1, mCnns := (mCnns (napp w))(gHandleSeed (napp w) + 1 \<mapsto> a)\<rparr> \<and>
     evts w' = (evts w)(ea \<mapsto> \<lparr>evfd = fd, evuser = a, isReg = True, ecb = EsCb\<rparr>) \<and> nerr w' = nerr w"
proof -
  let ?s = "net_focus (evuser e) c w"
  note f = svr_focus [OF r e c refl]
  have li: "mIsListen c" using f(12) l by simp
  have rdy: "svr_ready ?s" using a(1) by (simp add: svr_ready_def)
  have l': "eself (sk ?s) = mLisSock (app ?s)" "conns (app ?s) = (fd, a, ea) # cs" using l f(3) a(1) by simp_all
  obtain s' c' where s': "lis_listener v SOCK_EVENT_INCOMING_ACCEPT ?s = Inr s'" "sk s' = sk ?s" "others s' = (others ?s)(a \<mapsto> c')"
    "app s' = (app ?s)\<lparr>conns := cs, gHandleSeed := gHandleSeed (app ?s) + 1, mCnns := (mCnns (app ?s))(gHandleSeed (app ?s) + 1 \<mapsto> a)\<rparr>"
    "lastSockErrorNo s' = lastSockErrorNo ?s" "others ?s a = None" "a \<noteq> eself (sk ?s)" "mFd c' = fd" "mStatus c' = SOCK_STATUS_CONNECTED"
    "EdEvent_getUserInt c' = gHandleSeed (app ?s) + 1" "mCnns (app ?s) (gHandleSeed (app ?s) + 1) = None"
    "if fd < 0 then mEvt c' = NULL \<and> evts (sw s') = evts (sw ?s)
     else sk_live v ea c' \<and> evts (sw s') = (evts (sw ?s))(ea \<mapsto> \<lparr>evfd = fd, evuser = a, isReg = True, ecb = EsCb\<rparr>)"
    using accept_ok [OF f(1) l'] by blast
  have "sock_dispatch (svr_vm v) v (err ?s) EVT_READ ?s = Inr s'"
    using li s'(1) svr_vm_lis [OF f(1) l'(1)] by (simp add: sock_dispatch_def flag_handlers EdSocket_OnEventRead_def)
  from net_cb_run [where rd = svr_ready and err = err, OF e(1) c rdy this] have run: "net_cb (svr_vm v) v err svr_ready EsCb p EVT_READ w = Inr (net_unfocus s')" .
  have "socks_of s' = (nsocks w)(a \<mapsto> c')" using s'(2,3,7) f(3,5) c by (auto simp: fun_eq_iff)
  moreover have "nsocks w a = None" using s'(6,7) f(3) by simp
  ultimately show ?thesis using run s'(4,5,8-12) a(2) by (intro exI [of _ "net_unfocus s'"] exI [of _ c']) simp
qed

text \<open>A connection that cannot be accepted leaves an entry behind: a socket without an event, which nothing
  will ever remove before the server closes.\<close>

lemma failed_accept_leaks:
  assumes st: "net_st v svr_inv D s" and l: "eself (sk s) = mLisSock (app s)" and c: "conns (app s) = (fd, a, ea) # cs" and fd: "fd < 0"
  shows "\<exists>s' c'. lis_listener v SOCK_EVENT_INCOMING_ACCEPT s = Inr s' \<and> mCnns (app s') (gHandleSeed (app s) + 1) = Some a \<and>
     others s' a = Some c' \<and> mEvt c' = NULL \<and> mStatus c' = SOCK_STATUS_CONNECTED \<and> evts (sw s') = evts (sw s)"
  using accept_ok [OF st l c] fd by fastforce

text \<open>Closing the server destroys every connection and closes the listening socket.\<close>

lemma clear_ok:
  "net_st v svr_inv D s \<Longrightarrow> eself (sk s) = mLisSock (app s) \<Longrightarrow> lastSockErrorNo s = 0 \<Longrightarrow>
     \<exists>s'. cnns_clear v hs s = Inr s' \<and> net_st v svr_inv D s' \<and> sk s' = sk s \<and> mLisSock (app s') = mLisSock (app s) \<and>
       (\<forall>h. mCnns (app s') h = (if h \<in> set hs then None else mCnns (app s) h))"
proof (induction hs arbitrary: s)
  case (Cons h hs)
  show ?case
  proof (cases "mCnns (app s) h")
    case None
    then have "cnns_erase v h s = Inr s" by (simp add: cnns_erase_def)
    then show ?thesis using Cons.IH [OF Cons.prems] None by auto
  next
    case (Some b)
    obtain s1 where s1: "cnns_erase v h s = Inr s1" "net_st v svr_inv D s1" "lastSockErrorNo s1 = 0" "sk s1 = sk s"
      "app s1 = (app s)\<lparr>mCnns := (mCnns (app s))(h := None)\<rparr>" using erase_other [OF Cons.prems(1,2) Some Cons.prems(3)] by blast
    with Cons.IH [OF s1(2) _ s1(3)] Cons.prems(2) show ?thesis by auto
  qed
qed simp

lemma svr_close_ok:
  assumes st: "net_st v svr_inv D s" and l: "eself (sk s) = mLisSock (app s)" and z: "lastSockErrorNo s = 0" and all: "dom (mCnns (app s)) \<subseteq> set order"
  shows "\<exists>s'. svr_close v order s = Inr s' \<and> net_st v svr_inv D s' \<and> mCnns (app s') = Map.empty \<and> others s' = Map.empty \<and> mFd (sk s') < 0 \<and> mEvt (sk s') = NULL"
proof -
  obtain s1 where s1: "cnns_clear v order s = Inr s1" "net_st v svr_inv D s1" "sk s1 = sk s"
    "mLisSock (app s1) = mLisSock (app s)" "\<forall>h. mCnns (app s1) h = (if h \<in> set order then None else mCnns (app s) h)" using clear_ok [OF st l z] by blast
  have m: "mCnns (app s1) = Map.empty" using s1(5) all by (fastforce simp: fun_eq_iff domIff)
  show ?thesis
  proof (rule close_net [OF s1(2)])
    fix s2 assume s2: "EdSocket_close v s1 = Inr s2" "net_st v svr_inv D s2" "mFd (sk s2) < 0" "mEvt (sk s2) = NULL" "eself (sk s2) = eself (sk s1)"
      "others s2 = others s1" "app s2 = app s1"
    have ok: "nst_ok v svr_inv D s2" and nn: "eself (sk s2) \<noteq> NULL" using s2(2) by (simp_all add: net_st_def net_done_def)
    have cn: "cnns_ok (sock_kinds (socks_of s2)) (mLisSock (app s2)) (mCnns (app s2)) (gHandleSeed (app s2))"
      using nst_okD(5) [OF ok] by (simp add: svr_inv_def)
    have "others s2 q = None" for q
    proof (cases "q = mLisSock (app s2)")
      case True
      then show ?thesis using nst_okD(4) [OF ok] s2(5,7) s1(3,4) l by simp
    next
      case False
      have "sock_kinds (socks_of s2) q = None" using cnns_okD(2) [OF cn False] m s2(7) by (cases "sock_kinds (socks_of s2) q") auto
      then show ?thesis using nn by (auto simp: sock_kinds_def split: if_splits)
    qed
    then show ?thesis using s1(1) s2 m by (auto simp: svr_close_def)
  qed
qed

text \<open>Every callback keeps the invariant, as a fact about its result.\<close>

lemma svr_keeps:
  assumes r: "ev_rep w es ds" "net_ok v svr_inv w" and e: "evts w p = Some e" "isReg e" "ecb e = EsCb"
    and run: "net_cb (svr_vm v) v err svr_ready EsCb p flag w = Inr w'"
  shows "\<exists>es' ds'. ev_rep w' es' ds' \<and> net_ok v svr_inv w'"
proof -
  have p: "p \<in> set es" by (rule live_evt [OF r(1) e(1,2)])
  obtain w1 es' ds' where "net_cb (svr_vm v) v err svr_ready EsCb p flag w = Inr w1" "ev_rep w1 es' ds'" "net_ok v svr_inv w1"
    using evt_callback.cb_law [OF svr.loop_callback [where v = v and err = err] r p e(1), of EsCb flag] e(3) by auto
  then show ?thesis using run by auto
qed

section \<open>Starting the server\<close>

lemma register_again: "mIsReg (sk s) \<Longrightarrow> mEvt (sk s) \<noteq> NULL \<Longrightarrow> sk_registerEvent v f s = Inr s"
  by (simp add: sk_registerEvent_def EdEvent_registerEvent_def)

lemma svr_init_ok:
  assumes sys: "sys_ok v s [] []" and k: "sk s = EdSocket_new a (ecur v)" "a \<noteq> NULL" and o: "others s = Map.empty"
    and ea: "ehdrs (sw s) (eaddr v) = None" "eaddr v \<noteq> NULL" and fd: "0 < fd"
    and x: "mLisSock (app s) = a" "mCnns (app s) = Map.empty" "arrivals_ok [a \<mapsto> (Some 1, True, 0)] {eaddr v} (conns (app s))"
      "unat (gHandleSeed (app s)) + length (conns (app s)) < 2 ^ 32"
  obtains s' where "svr_init v fd 0 0 s = Inr (0, s')" "ev_rep (net_unfocus s') [eaddr v] []" "net_ok v svr_inv (net_unfocus s')" "app s' = app s"
    "lastSockErrorNo s' = lastSockErrorNo s" "evts (sw s') = [eaddr v \<mapsto> \<lparr>evfd = fd, evuser = a, isReg = True, ecb = EsCb\<rparr>]"
    "socks_of s' = [a \<mapsto> sk s']"
proof -
  let ?e = "EdEvent_setDefaultContext ((sk s)\<lparr>slis := Some 1, mIsListen := True, mType := SOCK_TYPE_TCP, mIsBinded := True\<rparr>) (ecur v)"
  let ?s = "s\<lparr>sk := EdEvent_setFd ?e fd (ecur v)\<rparr>"
  have new: "ev_off (sk s)" "mFd (sk s) = - 1" "eself (sk s) = a" "mIsBinded (sk s) = False" "mUser (sk s) = 0"
    by (simp_all add: k ev_off_def EdSocket_new_def EdSocket_clearInternal_def EdEvent_new_def EdEvent.extend_def)
  have off: "ev_off ?e" using new(1) by (simp add: ev_off_def EdEvent_setDefaultContext_def)
  have h: "sys_ok v ?s [] []" "ehdrs (sw ?s) (eaddr v) = None" "sk ?s = EdEvent_setFd ?e fd (ecur v)" using sys ea(1) by simp_all
  show thesis
  proof (rule register_ok [OF h(1) off h(2) ea(2) fd h(3), of EVT_READ])
    fix w' assume w': "sk_registerEvent v EVT_READ ?s = Inr (?s\<lparr>sk := (sk ?s)\<lparr>mEvt := eaddr v, mIsReg := True, interest := EVT_READ\<rparr>, sw := w'\<rparr>)"
      "ev_rep w' ([] @ [eaddr v]) []" "cmode w' = cmode (sw ?s)"
      "evts w' = (evts (sw ?s))(eaddr v \<mapsto> \<lparr>evfd = fd, evuser = eself ?e, isReg = True, ecb = EsCb\<rparr>)"
    let ?t = "?s\<lparr>sk := (sk ?s)\<lparr>mEvt := eaddr v, mIsReg := True, interest := EVT_READ\<rparr>, sw := w'\<rparr>"
    have o1: "EdSocket_openSock v SOCK_TYPE_TCP fd None (upd_sk (\<lambda>e. e\<lparr>mIsListen := True\<rparr>) (upd_sk (\<lambda>e. e\<lparr>slis := Some 1\<rparr>) s)) =
        Inr (fd, s\<lparr>sk := EdEvent_setFd (EdEvent_setDefaultContext ((sk s)\<lparr>slis := Some 1, mIsListen := True, mType := SOCK_TYPE_TCP\<rparr>) (ecur v)) fd (ecur v)\<rparr>)"
      using openSock_ok [of SOCK_TYPE_TCP v fd "upd_sk (\<lambda>e. e\<lparr>mIsListen := True\<rparr>) (upd_sk (\<lambda>e. e\<lparr>slis := Some 1\<rparr>) s)"] by (simp add: upd_sk_def)
    have e1: "(EdEvent_setFd (EdEvent_setDefaultContext ((sk s)\<lparr>slis := Some 1, mIsListen := True, mType := SOCK_TYPE_TCP\<rparr>) (ecur v)) fd (ecur v))\<lparr>mIsBinded := True\<rparr> = EdEvent_setFd ?e fd (ecur v)"
      by (cases "sk s") (simp add: EdEvent_setFd_def EdEvent_setDefaultContext_def)
    have again: "sk_registerEvent v EVT_READ ?t = Inr ?t" by (rule register_again) (use ea(2) in simp_all)
    have ty: "mType (EdEvent_setFd (EdEvent_setDefaultContext ((sk s)\<lparr>slis := Some 1, mIsListen := True, mType := SOCK_TYPE_TCP\<rparr>) (ecur v)) fd (ecur v)) = SOCK_TYPE_TCP"
      "mType (sk ?t) = SOCK_TYPE_TCP" by (simp_all add: EdEvent_setFd_def EdEvent_setDefaultContext_def)
    have "EdSocket_bindSock v fd 0 (upd_sk (\<lambda>e. e\<lparr>mIsListen := True\<rparr>) (upd_sk (\<lambda>e. e\<lparr>slis := Some 1\<rparr>) s)) = Inr (0, ?t)"
      using new(2) o1 e1 ty(1) w'(1) by (simp add: EdSocket_bindSock_def upd_sk_def)
    then have run: "svr_init v fd 0 0 s = Inr (0, ?t)"
      using new(4) ty(2) again by (simp add: svr_init_def EdSocket_listenSock_def set_lis_def)
    have ev: "evts w' = [eaddr v \<mapsto> \<lparr>evfd = fd, evuser = a, isReg = True, ecb = EsCb\<rparr>]"
      using w'(4) new(3) sys by (simp add: sys_ok_def ev_rep_def EdEvent_setDefaultContext_def)
    have self: "eself (sk ?t) = a" "mEvt (sk ?t) = eaddr v" "slis (sk ?t) = Some 1" "mIsListen (sk ?t)" "mUser (sk ?t) = 0"
      using new by (simp_all add: EdEvent_setFd_def EdEvent_setDefaultContext_def)
    have socks: "socks_of ?t = [a \<mapsto> sk ?t]" using self(1) k(2) o by simp
    have live: "sk_live v (eaddr v) (sk ?t)" using fd ea(2) sys by (simp add: sk_live_def ev_on_def sys_ok_def env_ok_def)
    have "net_inv v w' [a \<mapsto> sk ?t]"
      using sys w'(3) ev self(1,2) k(2) live by (intro net_invI) (auto simp: sys_ok_def env_ok_def sock_in_def split: if_splits)
    then have "net_inv v (net_unfocus ?t) (socks_of ?t)" using net_inv_cong [of "net_unfocus ?t" w'] unfolding socks by simp
    moreover have "sock_kinds (socks_of ?t) = [a \<mapsto> (Some 1, True, 0)]" unfolding socks using self by (auto simp: sock_kinds_def fun_eq_iff)
    moreover from this have "svr_inv (sock_kinds (socks_of ?t)) (dom (evts w')) (app ?t)"
      using x ev by (simp add: svr_inv_def cnns_ok_def socks_in_def)
    ultimately have "net_ok v svr_inv (net_unfocus ?t)" by (simp add: net_ok_def)
    then show thesis using that [OF run] w'(2) ev socks by simp
  qed
qed

section \<open>Properties\<close>


text \<open>A server that has just started, with one connection to come which sends three bytes.\<close>

definition srv0 :: "srv nst" where
  "srv0 = \<lparr>sk = EdSocket_new 7000 task_env, sw = no_events, lastSockErrorNo = 0, others = Map.empty,
     app = \<lparr>mCnns = Map.empty, gHandleSeed = 0, inbox = (\<lambda>_. [])(9 := [[1, 2, 3], []]), room = \<lambda>_. 4096, outbox = \<lambda>_. [],
            mLisSock = 7000, conns = [(9, 7100, 2000)]\<rparr>\<rparr>"


end
