(* ===== verification/EdClient.thy ===== *)
theory EdClient
  imports EdConns
begin

text \<open>The TCP client of \<^verbatim>\<open>examples/exam_tcpcli.cpp\<close> on top of the net of sockets: on a request it starts any number of
  connections at once, each a socket in its map; the listener of the connections counts what becomes of
  them and deletes those that end. The other user of the net, beside the server.\<close>

section \<open>State\<close>

text \<open>\<open>mCnns\<close> is \<^verbatim>\<open>mSockList\<close>. The counters are \<^verbatim>\<open>int\<close>s, here of 32 bits.\<close>

record cnn_req =
  ip :: string
  port :: u16
  num :: int

record cli = prog +
  cntConnected :: u32
  cntDis :: u32
  cntSockFdFail :: u32
  reqInfo :: cnn_req

section \<open>The listener of the connections\<close>

definition cli_listener :: "env \<Rightarrow> cli net_vm" where
  "cli_listener v ev s =
     (case ev of
        SOCK_EVENT_CONNECTED \<Rightarrow> Inr (upd_app (\<lambda>x. x\<lparr>cntConnected := cntConnected x + 1\<rparr>) s)
      | SOCK_EVENT_DISCONNECTED \<Rightarrow>
          let s = upd_app (\<lambda>x. x\<lparr>cntDis := cntDis x + 1\<rparr>) s in
          bindr (EdSocket_close v s) (\<lambda>s. cnns_erase v (EdEvent_getUserInt (sk s)) s)
      | SOCK_EVENT_READ \<Rightarrow>
          let (rcnt, bs, x) = sys_read (mFd (sk s)) 1024 (app s) in
          bindr (EdSocket_recv rcnt (s\<lparr>app := x\<rparr>)) (\<lambda>(rcnt, s). Inr s)
      | _ \<Rightarrow> Inr s)"

abbreviation cli_vm :: "env \<Rightarrow> cli net_vm" where
  "cli_vm v \<equiv> net_vm (\<lambda>_. cli_listener v)"

section \<open>The handlers of the task's messages\<close>

text \<open>\<^verbatim>\<open>EDM_INIT\<close> clears the counters. \<^verbatim>\<open>EDM_USER\<close> copies the request and starts its connections. What one turn of
  its loop finds outside: the address of the new socket, the results of \<^verbatim>\<open>socket\<close> and of \<^verbatim>\<open>connect\<close>, the address of
  the new event object. The result of \<^verbatim>\<open>connect\<close> is not used. The task timer that
  \<^verbatim>\<open>EDM_USER\<close> also sets only prints the counters; timers are in \<open>EdDescr\<close>.\<close>

record start =
  saddr :: addr
  sfd :: int
  sret :: int
  sevt :: addr

definition cli_init :: "cli \<Rightarrow> cli" where
  "cli_init x = x\<lparr>cntConnected := 0, cntDis := 0, cntSockFdFail := 0\<rparr>"

definition cli_sock :: "env \<Rightarrow> start \<Rightarrow> cli net \<Rightarrow> fault + cli net" where
  "cli_sock v r w =
     (let (handle, x) = GetNewHandle (napp w);
          (b, c) = (case mCnns x handle of Some b \<Rightarrow> (b, nsocks w b) | None \<Rightarrow> (saddr r, Some (EdSocket_new (saddr r) (ecur v))));
          v = v\<lparr>eaddr := sevt r\<rparr>
      in (case c of
            None \<Rightarrow> Inl Bad_access
          | Some c \<Rightarrow>
              bindr (EdSocket_openSock v SOCK_TYPE_TCP (sfd r) None
                (net_focus b ((EdEvent_setUserInt c handle)\<lparr>slis := Some 2\<rparr>) (w\<lparr>napp := x\<lparr>mCnns := (mCnns x)(handle \<mapsto> b)\<rparr>\<rparr>))) (\<lambda>(ret, s).
              bindr (if ret \<ge> 0 then map_sum id snd (EdSocket_connect_name v (sfd r) (sret r) 0 None s)
                     else Inr (upd_app (\<lambda>x. x\<lparr>cntSockFdFail := cntSockFdFail x + 1\<rparr>) s)) (\<lambda>s. Inr (net_unfocus s)))))"

fun cli_loop :: "env \<Rightarrow> start list \<Rightarrow> cli net \<Rightarrow> fault + cli net" where
  "cli_loop v [] w = Inr w"
| "cli_loop v (r # rs) w = bindr (cli_sock v r w) (cli_loop v rs)"

definition cli_user :: "env \<Rightarrow> cnn_req \<Rightarrow> (nat \<Rightarrow> start) \<Rightarrow> cli net \<Rightarrow> fault + cli net" where
  "cli_user v req st w = cli_loop v (map st [0..<nat (num req)]) (w\<lparr>napp := (napp w)\<lparr>reqInfo := req\<rparr>\<rparr>)"

text \<open>\<^verbatim>\<open>EDM_CLOSE\<close>: \<^verbatim>\<open>mSockList.clear\<close>, in the order the map yields its sockets.\<close>

fun cli_close :: "env \<Rightarrow> u32 list \<Rightarrow> cli net \<Rightarrow> fault + cli net" where
  "cli_close v [] w = Inr w"
| "cli_close v (h # hs) w =
     (case mCnns (napp w) h of
        None \<Rightarrow> cli_close v hs w
      | Some b \<Rightarrow>
          (case nsocks w b of
             None \<Rightarrow> Inl Bad_access
           | Some c \<Rightarrow>
               bindr (sk_delete v (net_focus b c (w\<lparr>napp := (napp w)\<lparr>mCnns := (mCnns (napp w))(h := None)\<rparr>\<rparr>))) (\<lambda>s.
               cli_close v hs (net_unfocus s))))"

section \<open>The invariant of the client\<close>

text \<open>All sockets are connections of the map. Of the \<open>T\<close> connections started, those that have ended were counted
  once, the others are in the map. \<open>N\<close> is the last handle, \<open>F\<close> the number of sockets that could not be opened.\<close>

definition cli_inv :: "nat \<Rightarrow> u32 \<Rightarrow> u32 \<Rightarrow> cli prog_inv" where
  "cli_inv T N F k A x \<longleftrightarrow>
     socks_in k {} (mCnns x) N \<and> gHandleSeed x = N \<and> cntSockFdFail x = F \<and> unat (cntDis x) + card (dom (mCnns x)) = T \<and> T < 2 ^ 31"

lemma finite_handles [simp]: "finite (dom (m :: u32 \<rightharpoonup> 'a))"
  by (rule finite_subset [OF subset_UNIV finite])

text \<open>A connection ends: the counter of ends takes over what leaves the map.\<close>

lemma cli_inv_remove:
  assumes inv: "cli_inv T N F k A x" and q: "k q = Some (n, b, d)"
  shows "mCnns x (ucast d) = Some q"
    "cli_inv T N F (k(q := None)) A (x\<lparr>cntDis := cntDis x + 1, mCnns := (mCnns x)(ucast d := None)\<rparr>)"
proof -
  have ok: "socks_in k {} (mCnns x) N" using inv by (simp add: cli_inv_def)
  show m: "mCnns x (ucast d) = Some q" using socks_inD(1) [OF ok _ q] by simp
  let ?m = "mCnns x"
  have d: "ucast d \<in> dom ?m" using m by blast
  then have c: "0 < card (dom ?m)" by (auto simp: card_gt_0_iff)
  have "unat (cntDis x) < 2 ^ 31" using inv c by (simp add: cli_inv_def)
  then have "unat (cntDis x + 1) = unat (cntDis x) + 1" by (simp add: unat_word_ariths)
  moreover have "card (dom (?m(ucast d := None))) = card (dom ?m) - 1" using d by simp
  ultimately show "cli_inv T N F (k(q := None)) A (x\<lparr>cntDis := cntDis x + 1, mCnns := ?m(ucast d := None)\<rparr>)"
    using inv socks_remove [OF ok _ q] c by (simp add: cli_inv_def)
qed

lemma cli_inv_add:
  assumes inv: "cli_inv T N F k A x" and a: "k a = None" and h: "unat N + 1 < 2 ^ 32" "ucast d = N + 1" and t: "T + 1 < 2 ^ 31"
  shows "mCnns x (N + 1) = None"
    "cli_inv (T + 1) (N + 1) (F + f) (k(a \<mapsto> (Some 2, False, d))) B
       (x\<lparr>gHandleSeed := N + 1, mCnns := (mCnns x)(N + 1 \<mapsto> a), cntSockFdFail := cntSockFdFail x + f\<rparr>)"
proof -
  have ok: "socks_in k {} (mCnns x) N" using inv by (simp add: cli_inv_def)
  have n: "unat N < unat (N + 1)" using h(1) by (simp add: unat_word_ariths)
  note ad = socks_add [OF ok a _ n h(2)]
  show m: "mCnns x (N + 1) = None" using ad(1) by simp
  have "card (dom ((mCnns x)(N + 1 \<mapsto> a))) = card (dom (mCnns x)) + 1" using m by (simp add: domIff)
  then show "cli_inv (T + 1) (N + 1) (F + f) (k(a \<mapsto> (Some 2, False, d))) B
       (x\<lparr>gHandleSeed := N + 1, mCnns := (mCnns x)(N + 1 \<mapsto> a), cntSockFdFail := cntSockFdFail x + f\<rparr>)"
    using inv ad(2) t by (simp add: cli_inv_def)
qed

section \<open>The listener keeps the invariant\<close>

text \<open>The state of the client in which its listener has counted an end and erased the socket with the handle \<open>h\<close>.\<close>

definition ended :: "u32 \<Rightarrow> cli \<Rightarrow> cli" where
  "ended h x = x\<lparr>cntDis := cntDis x + 1, mCnns := (mCnns x)(h := None)\<rparr>"

lemma cli_lost:
  assumes st: "net_st v (cli_inv T N F) D s"
  shows "\<exists>s'. cli_listener v SOCK_EVENT_DISCONNECTED s = Inr s' \<and> net_done v (cli_inv T N F) D s' \<and> eself (sk s') = NULL \<and> others s' = others s \<and>
     app s' = ended (EdEvent_getUserInt (sk s)) (app s) \<and> evts (sw s') = close_evt (mEvt (sk s)) (evts (sw s))"
proof -
  let ?q = "eself (sk s)" and ?h = "EdEvent_getUserInt (sk s)" and ?k = "sock_kinds (socks_of s)"
  let ?s = "s\<lparr>app := (app s)\<lparr>cntDis := cntDis (app s) + 1\<rparr>\<rparr>"
  have nn: "?q \<noteq> NULL" and ok: "nst_ok v (cli_inv T N F) D s" using st by (simp_all add: net_st_def net_done_def)
  have kq: "?k ?q = Some (slis (sk s), mIsListen (sk s), mUser (sk s))" using nn by (simp add: sock_kinds_def)
  note rm = cli_inv_remove [OF nst_okD(5) [OF ok] kq, folded EdEvent_getUserInt_def]
  have st1: "net_st v (\<lambda>_ _ _. True) D ?s" by (rule net_st_app [OF st]) simp
  have h: "mCnns (app ?s) (EdEvent_getUserInt (sk ?s)) = Some (eself (sk ?s))" using rm(1) by simp
  have so: "socks_of ?s = socks_of s" by (rule socks_of_upd)
  have "cli_inv T N F ((sock_kinds (socks_of ?s))(eself (sk ?s) := None)) (dom (evts (sw ?s)))
      ((app ?s)\<lparr>mCnns := (mCnns (app ?s))(EdEvent_getUserInt (sk ?s) := None)\<rparr>)"
    unfolding so using rm(2) by simp
  from close_erase_own [where K' = "cli_inv T N F", OF st1 h this] show ?thesis
    by (auto simp: cli_listener_def upd_app_def ended_def)
qed

lemma cli_read:
  assumes st: "net_st v (cli_inv T N F) D s" and fd: "0 \<le> mFd (sk s)"
  shows "\<exists>s'. cli_listener v SOCK_EVENT_READ s = Inr s' \<and> net_done v (cli_inv T N F) D s'"
proof -
  obtain r bs x where x: "sys_read (mFd (sk s)) 1024 (app s) = (r, bs, x)" by (metis prod_cases3)
  have ok: "nst_ok v (cli_inv T N F) D s" using st by (simp add: net_st_def net_done_def)
  have "cli_inv T N F (sock_kinds (socks_of s)) (dom (evts (sw s))) x"
    using nst_okD(5) [OF ok] sys_read_frame [OF x] by (cases x; cases "app s") (simp add: cli_inv_def)
  from recv_ok [OF net_st_app [where K' = "cli_inv T N F", OF st this], of r] fd show ?thesis
    using x by (auto simp: cli_listener_def)
qed

lemma cli_connected:
  assumes st: "net_st v (cli_inv T N F) D s"
  shows "\<exists>s'. cli_listener v SOCK_EVENT_CONNECTED s = Inr s' \<and> net_done v (cli_inv T N F) D s'"
proof -
  have ok: "nst_ok v (cli_inv T N F) D s" using st by (simp add: net_st_def net_done_def)
  have "net_st v (cli_inv T N F) D (s\<lparr>app := (app s)\<lparr>cntConnected := cntConnected (app s) + 1\<rparr>\<rparr>)"
    by (rule net_st_app [OF st]) (use nst_okD(5) [OF ok] in \<open>simp add: cli_inv_def\<close>)
  then show ?thesis by (simp add: cli_listener_def upd_app_def net_st_def)
qed

lemma cli_vm_on:
  assumes st: "net_st v (cli_inv T N F) D s"
  shows "cli_vm v ev s = cli_listener v ev s"
proof -
  let ?k = "sock_kinds (socks_of s)"
  have nn: "eself (sk s) \<noteq> NULL" and ok: "nst_ok v (cli_inv T N F) D s" using st by (simp_all add: net_st_def net_done_def)
  have "?k (eself (sk s)) = Some (slis (sk s), mIsListen (sk s), mUser (sk s))" using nn by (simp add: sock_kinds_def)
  moreover have "socks_in ?k {} (mCnns (app s)) N" using nst_okD(5) [OF ok] by (simp add: cli_inv_def)
  ultimately have "slis (sk s) = Some 2" using socks_inD(1) by blast
  then show ?thesis by (simp add: net_vm_on [OF st] EdSocket_vm_def)
qed

interpretation cl: net_listener "cli_vm v" v "cli_inv T N F" "\<lambda>_. True" for v T N F
proof unfold_locales
  fix D ev s
  show gone: "\<exists>s'. cli_vm v SOCK_EVENT_DISCONNECTED s = Inr s' \<and> net_done v (cli_inv T N F) D s'" if "net_st v (cli_inv T N F) D s"
    using cli_lost [OF that] by (auto simp: cli_vm_on [OF that])
  show "\<exists>s'. cli_vm v ev s = Inr s' \<and> net_done v (cli_inv T N F) D s'" if l: "net_live v (cli_inv T N F) (\<lambda>_. True) D s"
  proof -
    have st: "net_st v (cli_inv T N F) D s" and fd: "0 \<le> mFd (sk s)" using l by (auto simp: net_live_def sk_live_def)
    show ?thesis
      using gone [OF st] cli_read [OF st fd] cli_connected [OF st] st
      by (cases ev) (auto simp: cli_vm_on [OF st] cli_listener_def net_st_def)
  qed
qed (simp_all add: cli_inv_def)

section \<open>Starting connections\<close>

text \<open>What one turn of the loop of \<^verbatim>\<open>EDM_USER\<close> finds outside: fresh addresses, a descriptor that is not the standard input.\<close>

definition start_ok :: "cli net \<Rightarrow> start \<Rightarrow> bool" where
  "start_ok w r \<longleftrightarrow> saddr r \<noteq> NULL \<and> nsocks w (saddr r) = None \<and> sevt r \<noteq> NULL \<and> evts w (sevt r) = None \<and> sfd r \<noteq> 0"

lemma start_ok_napp [simp]: "start_ok (w\<lparr>napp := x\<rparr>) = start_ok w"
  by (simp add: fun_eq_iff start_ok_def)

text \<open>The socket of a start: connecting, with a registered event, or without descriptor and event.\<close>

definition started :: "start \<Rightarrow> u32 \<Rightarrow> EdSocket \<Rightarrow> cli net \<Rightarrow> bool" where
  "started r h c w \<longleftrightarrow> EdEvent_getUserInt c = h \<and> mFd c = sfd r \<and>
     (if sfd r < 0 then mEvt c = NULL \<and> mStatus c = SOCK_STATUS_DISCONNECTED
      else mEvt c = sevt r \<and> mStatus c = SOCK_STATUS_CONNECTING \<and>
        evts w (sevt r) = Some \<lparr>evfd = sfd r, evuser = saddr r, isReg = True, ecb = EsCb\<rparr>)"

lemma net_napp_simps [simp]:
  "ev_rep (w\<lparr>napp := x\<rparr>) es ds = ev_rep w es ds" "net_inv v (w\<lparr>napp := x\<rparr>) m = net_inv v w m"
  by (simp add: ev_rep_def) (rule net_inv_cong, simp_all)

lemma setFd_keeps:
  fixes e :: EdSocket
  shows "eself (EdEvent_setFd e fd cur) = eself e" "mFd (EdEvent_setFd e fd cur) = fd" "mEvt (EdEvent_setFd e fd cur) = mEvt e"
    "slis (EdEvent_setFd e fd cur) = slis e" "mIsListen (EdEvent_setFd e fd cur) = mIsListen e" "mUser (EdEvent_setFd e fd cur) = mUser e"
    "mStatus (EdEvent_setFd e fd cur) = mStatus e"
  by (simp_all add: EdEvent_setFd_def)

lemma connect_opened:
  assumes sys: "sys_ok v s es ds" and a: "ehdrs (sw s) (eaddr v) = None" "eaddr v \<noteq> NULL" and fd: "0 < fd" and off: "ev_off e"
    and e: "mStatus e = SOCK_STATUS_DISCONNECTED" "mType e = SOCK_TYPE_TCP" and s: "sk s = EdEvent_setFd e fd (ecur v)"
  obtains w' c where "EdSocket_connect_name v fd cret err None s = Inr (cret, s\<lparr>sk := c, sw := w'\<rparr>)"
    "ev_rep w' (es @ [eaddr v]) ds" "cmode w' = cmode (sw s)"
    "evts w' = (evts (sw s))(eaddr v \<mapsto> \<lparr>evfd = fd, evuser = eself e, isReg = True, ecb = EsCb\<rparr>)"
    "sk_live v (eaddr v) c" "eself c = eself e" "mFd c = fd" "mUser c = mUser e" "slis c = slis e" "mIsListen c = mIsListen e"
    "mStatus c = SOCK_STATUS_CONNECTING" "mEvt c = eaddr v"
proof (rule register_ok [OF sys off a fd s, of "EVT_WRITE OR EVT_HANGUP"])
  fix w' assume w': "sk_registerEvent v (EVT_WRITE OR EVT_HANGUP) s =
      Inr (s\<lparr>sk := (sk s)\<lparr>mEvt := eaddr v, mIsReg := True, interest := EVT_WRITE OR EVT_HANGUP\<rparr>, sw := w'\<rparr>)"
    "ev_rep w' (es @ [eaddr v]) ds" "cmode w' = cmode (sw s)"
    "evts w' = (evts (sw s))(eaddr v \<mapsto> \<lparr>evfd = fd, evuser = eself e, isReg = True, ecb = EsCb\<rparr>)"
  let ?c = "(sk s)\<lparr>mEvt := eaddr v, mIsReg := True, interest := EVT_WRITE OR EVT_HANGUP, mStatus := SOCK_STATUS_CONNECTING\<rparr>"
  have "EdSocket_connect_name v fd cret err None s = Inr (cret, s\<lparr>sk := ?c, sw := w'\<rparr>)"
    using w'(1) e fd s by (simp add: EdSocket_connect_name_def EdSocket_connect_ip_def set_lis_def EdEvent_setFd_def upd_sk_def)
  moreover have "sk_live v (eaddr v) ?c"
    using sys a(2) fd s by (simp add: sk_live_def ev_on_def EdEvent_setFd_def sys_ok_def env_ok_def)
  ultimately show thesis using w'(2-4) s by (intro that [of w' ?c]) (simp_all add: EdEvent_setFd_def)
qed

lemma cli_sock_ok:
  assumes r: "ev_rep w es ds" and ok: "net_ok v (cli_inv T N F) w" and st: "start_ok w r" and n: "unat N + 1 < 2 ^ 32" "T + 1 < 2 ^ 31"
  shows "\<exists>w' c. cli_sock v r w = Inr w' \<and> (\<exists>es ds. ev_rep w' es ds) \<and> net_ok v (cli_inv (T + 1) (N + 1) (F + (if sfd r < 0 then 1 else 0))) w' \<and>
     nsocks w' = (nsocks w)(saddr r \<mapsto> c) \<and> cntDis (napp w') = cntDis (napp w) \<and> started r (N + 1) c w' \<and>
     evts w' = (if sfd r < 0 then evts w else (evts w)(sevt r := evts w' (sevt r)))"
proof -
  let ?h = "N + 1" and ?a = "saddr r" and ?fd = "sfd r" and ?k = "sock_kinds (nsocks w)" and ?x = "napp w"
  have inv: "net_inv v w (nsocks w)" and K: "cli_inv T N F ?k (dom (evts w)) ?x" using ok by (simp_all add: net_ok_def)
  have fr: "?a \<noteq> NULL" "nsocks w ?a = None" "sevt r \<noteq> NULL" "evts w (sevt r) = None" "?fd \<noteq> 0" using st by (simp_all add: start_ok_def)
  have ka: "?k ?a = None" using fr(2) by (simp add: sock_kinds_def)
  have env: "env_ok w (ecur v)" "ectl v = 0" using net_invD(1) [OF inv] by simp_all
  have N: "gHandleSeed ?x = N" "cntSockFdFail ?x = F" using K by (simp_all add: cli_inv_def)
  let ?y = "?x\<lparr>gHandleSeed := ?h, mCnns := (mCnns ?x)(?h \<mapsto> ?a)\<rparr>" and ?v = "v\<lparr>eaddr := sevt r\<rparr>"
  let ?b = "(EdEvent_setUserInt (EdSocket_new ?a (ecur v)) ?h)\<lparr>slis := Some 2\<rparr>"
  let ?e = "EdEvent_setDefaultContext (?b\<lparr>mType := SOCK_TYPE_TCP\<rparr>) (ecur v)"
  have new: "eself ?e = ?a" "slis ?e = Some 2" "\<not> mIsListen ?e" "mStatus ?e = SOCK_STATUS_DISCONNECTED" "mType ?e = SOCK_TYPE_TCP" "ev_off ?e"
    "ucast (mUser ?e) = ?h"
    using getUserInt_setUserInt [of "EdSocket_new ?a (ecur v)" ?h]
    by (simp_all add: EdSocket_new_def EdSocket_clearInternal_def EdEvent_new_def EdEvent.extend_def EdEvent_setUserInt_def
        EdEvent_setDefaultContext_def EdEvent_getUserInt_def ev_off_def)
  let ?s = "net_focus ?a (EdEvent_setFd ?e ?fd (ecur v)) (w\<lparr>napp := ?y\<rparr>)"
  have "EdSocket_openSock ?v SOCK_TYPE_TCP ?fd None (net_focus ?a ?b (w\<lparr>napp := ?y\<rparr>)) = Inr (?fd, ?s)"
    using openSock_ok [of SOCK_TYPE_TCP ?v ?fd "net_focus ?a ?b (w\<lparr>napp := ?y\<rparr>)"] by (simp add: net_focus_def)
  then obtain e where op: "EdSocket_openSock ?v SOCK_TYPE_TCP ?fd None (net_focus ?a ?b (w\<lparr>napp := ?y\<rparr>)) =
      Inr (?fd, net_focus ?a (EdEvent_setFd e ?fd (ecur v)) (w\<lparr>napp := ?y\<rparr>))"
    and e: "eself e = ?a" "slis e = Some 2" "\<not> mIsListen e" "mStatus e = SOCK_STATUS_DISCONNECTED" "mType e = SOCK_TYPE_TCP" "ev_off e"
      "ucast (mUser e) = ?h" using new by blast
  let ?c = "EdEvent_setFd e ?fd (ecur v)" and ?s = "net_focus ?a (EdEvent_setFd e ?fd (ecur v)) (w\<lparr>napp := ?y\<rparr>)"
  note c = setFd_keeps [of e ?fd "ecur v"]
  have kc: "sock_kinds ((nsocks w)(?a \<mapsto> c)) = ?k(?a \<mapsto> (Some 2, False, mUser e))" if "slis c = Some 2" "\<not> mIsListen c" "mUser c = mUser e" for c
    using that by (auto simp: sock_kinds_def fun_eq_iff)
  note ad = cli_inv_add [OF K ka n(1) e(7) n(2)]
  show ?thesis
  proof (cases "?fd < 0")
    case True
    let ?t = "net_unfocus (?s\<lparr>app := ?y\<lparr>cntSockFdFail := cntSockFdFail ?x + 1\<rparr>\<rparr>)"
    have run: "cli_sock v r w = Inr ?t" using op ad(1) N(1) True by (simp add: cli_sock_def GetNewHandle_def upd_app_def Let_def)
    have so: "nsocks ?t = (nsocks w)(?a \<mapsto> ?c)" using c e(1) fr(1) by simp
    have "net_inv v ?t ((nsocks w)(?a \<mapsto> ?c))"
      by (rule net_inv_new_off) (use inv net_inv_cong [of ?t w] fr c e True in \<open>simp_all add: ev_off_def\<close>)
    moreover have "cli_inv (T + 1) ?h (F + 1) (sock_kinds (nsocks ?t)) (dom (evts ?t)) (napp ?t)"
      unfolding so using kc [of ?c] c e ad(2) [of 1] by simp
    ultimately have "net_ok v (cli_inv (T + 1) ?h (F + 1)) ?t" unfolding net_ok_def so by simp
    moreover have "started r ?h ?c ?t" using True c e by (simp add: started_def EdEvent_getUserInt_def ev_off_def)
    moreover have "ev_rep ?t es ds" using r by simp
    ultimately show ?thesis using run so True by (intro exI [of _ ?t] exI [of _ ?c]) auto
  next
    case False
    then have fd: "0 < ?fd" using fr(5) by simp
    have sys: "sys_ok ?v ?s es ds" using r env by (simp add: sys_ok_def env_ok_def)
    have hd: "ehdrs (sw ?s) (eaddr ?v) = None" using fr(4) r by (auto simp: ev_rep_def domIff net_focus_def evsys.truncate_def)
    have s: "sk ?s = EdEvent_setFd e ?fd (ecur ?v)" "eaddr ?v \<noteq> NULL" using fr(3) by simp_all
    show ?thesis
    proof (rule connect_opened [OF sys hd s(2) fd e(6,4,5) s(1), of "sret r" 0])
      fix w' k assume k: "EdSocket_connect_name ?v ?fd (sret r) 0 None ?s = Inr (sret r, ?s\<lparr>sk := k, sw := w'\<rparr>)"
        "ev_rep w' (es @ [eaddr ?v]) ds" "cmode w' = cmode (sw ?s)"
        "evts w' = (evts (sw ?s))(eaddr ?v \<mapsto> \<lparr>evfd = ?fd, evuser = eself e, isReg = True, ecb = EsCb\<rparr>)"
        "sk_live ?v (eaddr ?v) k" "eself k = eself e" "mFd k = ?fd" "mUser k = mUser e" "slis k = slis e" "mIsListen k = mIsListen e"
        "mStatus k = SOCK_STATUS_CONNECTING" "mEvt k = eaddr ?v"
      let ?t = "net_unfocus (?s\<lparr>sk := k, sw := w'\<rparr>)"
      have run: "cli_sock v r w = Inr ?t" using op ad(1) N(1) fd k(1) by (simp add: cli_sock_def GetNewHandle_def Let_def)
      have so: "nsocks ?t = (nsocks w)(?a \<mapsto> k)" using k(6) e(1) fr(1) by simp
      have "net_inv v ?t ((nsocks w)(?a \<mapsto> k))"
        by (rule net_inv_new [OF inv fr(2,1), where p = "sevt r" and e = "\<lparr>evfd = ?fd, evuser = ?a, isReg = True, ecb = EsCb\<rparr>"]) (use k e(1) fr(4) in \<open>simp_all add: sk_live_def\<close>)
      moreover have "cli_inv (T + 1) ?h F (sock_kinds (nsocks ?t)) (dom (evts ?t)) (napp ?t)"
        unfolding so using kc [of k] k(8-10) e ad(2) [of 0] by simp
      ultimately have "net_ok v (cli_inv (T + 1) ?h F) ?t" unfolding net_ok_def so by simp
      moreover have "started r ?h k ?t" using fd k e(1,7) by (simp add: started_def EdEvent_getUserInt_def)
      moreover have "ev_rep ?t (es @ [sevt r]) ds" using k(2) by simp
      ultimately show ?thesis using run so fd k(4) by (intro exI [of _ ?t] exI [of _ k]) auto
    qed
  qed
qed

text \<open>A socket that cannot be opened stays in the map without an event: nothing erases it before the client closes.\<close>

lemma failed_open_stays:
  assumes "ev_rep w es ds" "net_ok v (cli_inv T N F) w" "start_ok w r" "unat N + 1 < 2 ^ 32" "T + 1 < 2 ^ 31" and fd: "sfd r < 0"
  shows "\<exists>w' c. cli_sock v r w = Inr w' \<and> mCnns (napp w') (N + 1) = Some (saddr r) \<and> nsocks w' (saddr r) = Some c \<and> mEvt c = NULL \<and> evts w' = evts w"
proof -
  obtain w' c where w': "cli_sock v r w = Inr w'" "net_ok v (cli_inv (T + 1) (N + 1) (F + (if sfd r < 0 then 1 else 0))) w'"
    "nsocks w' = (nsocks w)(saddr r \<mapsto> c)" "started r (N + 1) c w'" "evts w' = (if sfd r < 0 then evts w else (evts w)(sevt r := evts w' (sevt r)))"
    using cli_sock_ok [OF assms(1-5)] by blast
  have k: "socks_in (sock_kinds (nsocks w')) {} (mCnns (napp w')) (N + 1)" using w'(2) by (simp add: net_ok_def cli_inv_def)
  have "sock_kinds (nsocks w') (saddr r) = Some (slis c, mIsListen c, mUser c)" unfolding w'(3) by (simp add: sock_kinds_def)
  then have "mCnns (napp w') (EdEvent_getUserInt c) = Some (saddr r)" using socks_inD(1) [OF k] by (simp add: EdEvent_getUserInt_def)
  then show ?thesis using w' fd by (simp add: started_def)
qed

text \<open>The whole loop: the turns have different addresses.\<close>

definition starts_ok :: "cli net \<Rightarrow> start list \<Rightarrow> bool" where
  "starts_ok w rs \<longleftrightarrow> list_all (start_ok w) rs \<and> distinct (map saddr rs) \<and> distinct (map sevt rs)"

lemma started_cong: "evts w' (sevt r) = evts w (sevt r) \<Longrightarrow> started r h c w' = started r h c w"
  by (simp add: started_def)

lemma cli_loop_ok:
  "ev_rep w es ds \<Longrightarrow> net_ok v (cli_inv T N F) w \<Longrightarrow> starts_ok w rs \<Longrightarrow> unat N + length rs < 2 ^ 32 \<Longrightarrow> T + length rs < 2 ^ 31 \<Longrightarrow>
   \<exists>w' es' ds'. cli_loop v rs w = Inr w' \<and> ev_rep w' es' ds' \<and>
     net_ok v (cli_inv (T + length rs) (N + of_nat (length rs)) (F + of_nat (length (filter (\<lambda>r. sfd r < 0) rs)))) w' \<and>
     (\<forall>q. q \<notin> saddr ` set rs \<longrightarrow> nsocks w' q = nsocks w q) \<and> (\<forall>p. p \<notin> sevt ` set rs \<longrightarrow> evts w' p = evts w p) \<and>
     cntDis (napp w') = cntDis (napp w) \<and> (\<forall>i < length rs. \<exists>c. nsocks w' (saddr (rs ! i)) = Some c \<and> started (rs ! i) (N + of_nat (i + 1)) c w')"
proof (induction rs arbitrary: w es ds T N F)
  case Nil
  then show ?case by (auto intro: exI [of _ w])
next
  case (Cons r rs)
  have s: "start_ok w r" "list_all (start_ok w) rs" "saddr r \<notin> saddr ` set rs" "sevt r \<notin> sevt ` set rs" "distinct (map saddr rs)" "distinct (map sevt rs)"
    using Cons.prems(3) by (simp_all add: starts_ok_def)
  have n: "unat N + 1 < 2 ^ 32" "T + 1 < 2 ^ 31" using Cons.prems(4,5) by simp_all
  let ?f = "if sfd r < 0 then 1 else 0 :: u32"
  obtain w1 c es1 ds1 where w1: "cli_sock v r w = Inr w1" "ev_rep w1 es1 ds1" "net_ok v (cli_inv (T + 1) (N + 1) (F + ?f)) w1"
    "nsocks w1 = (nsocks w)(saddr r \<mapsto> c)" "started r (N + 1) c w1" "evts w1 = (if sfd r < 0 then evts w else (evts w)(sevt r := evts w1 (sevt r)))"
    "cntDis (napp w1) = cntDis (napp w)"
    using cli_sock_ok [OF Cons.prems(1,2) s(1) n] by auto
  have ev: "p \<noteq> sevt r \<Longrightarrow> evts w1 p = evts w p" for p by (subst w1(6)) simp
  have "start_ok w1 x" if "x \<in> set rs" for x
  proof -
    have "saddr x \<noteq> saddr r" "sevt x \<noteq> sevt r" "start_ok w x" using that s(2-4) by (auto simp: list_all_iff image_iff)
    then show ?thesis using w1(4) ev [of "sevt x"] by (simp add: start_ok_def)
  qed
  then have s1: "starts_ok w1 rs" using s(5,6) by (simp add: starts_ok_def list_all_iff)
  have N: "unat (N + 1) = unat N + 1" using n(1) by (simp add: unat_word_ariths)
  have b: "unat (N + 1) + length rs < 2 ^ 32" "T + 1 + length rs < 2 ^ 31" using Cons.prems(4,5) N by simp_all
  obtain w2 es2 ds2 where w2: "cli_loop v rs w1 = Inr w2" "ev_rep w2 es2 ds2"
    "net_ok v (cli_inv (T + 1 + length rs) (N + 1 + of_nat (length rs)) (F + ?f + of_nat (length (filter (\<lambda>r. sfd r < 0) rs)))) w2"
    "\<forall>q. q \<notin> saddr ` set rs \<longrightarrow> nsocks w2 q = nsocks w1 q" "\<forall>p. p \<notin> sevt ` set rs \<longrightarrow> evts w2 p = evts w1 p"
    "\<forall>i < length rs. \<exists>c. nsocks w2 (saddr (rs ! i)) = Some c \<and> started (rs ! i) (N + 1 + of_nat (i + 1)) c w2" "cntDis (napp w2) = cntDis (napp w1)"
    using Cons.IH [OF w1(2,3) s1 b] by blast
  have "\<exists>c. nsocks w2 (saddr ((r # rs) ! i)) = Some c \<and> started ((r # rs) ! i) (N + of_nat (i + 1)) c w2" if i: "i < length (r # rs)" for i
  proof (cases i)
    case 0
    then show ?thesis using w1(4,5) w2(4,5) s(3,4) started_cong [of w2 r w1] by simp
  next
    case (Suc j)
    then show ?thesis using i w2(6) by (simp add: algebra_simps)
  qed
  moreover have "F + ?f + of_nat (length (filter (\<lambda>r. sfd r < 0) rs)) = F + of_nat (length (filter (\<lambda>r. sfd r < 0) (r # rs)))"
    "T + 1 + length rs = T + length (r # rs)" "N + 1 + of_nat (length rs) = N + of_nat (length (r # rs))" by simp_all
  note w2(3) [unfolded this]
  moreover have "cli_loop v (r # rs) w = Inr w2" using w1(1) w2(1) by simp
  moreover have "\<forall>q. q \<notin> saddr ` set (r # rs) \<longrightarrow> nsocks w2 q = nsocks w q" using w1(4) w2(4) by simp
  moreover have "\<forall>p. p \<notin> sevt ` set (r # rs) \<longrightarrow> evts w2 p = evts w p" using ev w2(5) by simp
  moreover have "cntDis (napp w2) = cntDis (napp w)" using w1(7) w2(7) by simp
  ultimately show ?case using w2(2) by blast
qed

section \<open>Closing the client\<close>

text \<open>Deleting a socket of the net between handlers. A recorded error does not matter.\<close>

lemma delete_any:
  assumes r: "ev_rep w es ds" and inv: "net_inv v w (nsocks w)" and c: "nsocks w b = Some c"
  shows "\<exists>s'. sk_delete v (net_focus b c (w\<lparr>napp := x\<rparr>)) = Inr s' \<and> nsocks (net_unfocus s') = (nsocks w)(b := None) \<and> napp (net_unfocus s') = x \<and>
     (\<exists>es ds. ev_rep (net_unfocus s') es ds) \<and> net_inv v (net_unfocus s') (nsocks (net_unfocus s'))"
proof -
  let ?s = "net_focus b c (w\<lparr>napp := x\<rparr>)"
  have i: "b \<noteq> NULL" "eself c = b" "sock_in v w c" using net_invD(2) [OF inv c] by simp_all
  have so: "socks_of ?s = nsocks w" using i c by (simp add: fun_upd_idem)
  have sinv: "net_inv v (sw ?s) (nsocks w)" using inv net_inv_cong [of "sw ?s" w] by simp
  show ?thesis
  proof (cases "0 \<le> mFd c")
    case True
    have "nst_ok v (\<lambda>_ _ _. True) {} ?s" unfolding nst_ok_def so using r sinv i(2) by (intro conjI exI [of _ es] exI [of _ ds]) simp_all
    then have st: "net_st v (\<lambda>_ _ _. True) {} ?s" using i True by (simp add: net_st_def net_done_def)
    obtain s' where s': "sk_delete v ?s = Inr s'" "net_done v (\<lambda>_ _ _. True) {} s'" "eself (sk s') = NULL" "others s' = others ?s" "app s' = app ?s"
      using delete_net [where K' = "\<lambda>_ _ _. True", OF st] by blast
    have ok: "nst_ok v (\<lambda>_ _ _. True) {} s'" using s'(2) by (simp add: net_done_def)
    then show ?thesis using s' nst_okD(1,3) [OF ok] net_inv_cong [of "net_unfocus s'" "sw s'" v] by (auto simp: fun_eq_iff)
  next
    case False
    then have m: "mEvt c = NULL" using i(3) by (auto simp: sock_in_def sk_live_def sk_idle_def split: option.splits)
    let ?t = "(upd_sk (\<lambda>e. e\<lparr>mIsBinded := False\<rparr>) ?s)\<lparr>sk := freed_sock v\<rparr>"
    have "sk_delete v ?s = Inr ?t" using False m by (simp add: sk_delete_def EdSocket_destroy_def EdSocket_close_def EdEvent_destroy_def upd_sk_def)
    moreover have fr: "eself (freed_sock v) = NULL" by (simp add: freed_sock_def EdSocket_new_def EdSocket_clearInternal_def EdEvent_new_def EdEvent.extend_def)
    have "net_inv v w ((nsocks w)(b := None))"
      by (rule net_inv_remove [where q = b and e = c]) (use inv c m null_not_event [OF r] in \<open>simp_all add: fun_upd_idem\<close>)
    then have "net_inv v (net_unfocus ?t) ((nsocks w)(b := None))" using net_inv_cong [of "net_unfocus ?t" w] by (simp add: upd_sk_def)
    moreover have "ev_rep (net_unfocus ?t) es ds" using r by (simp add: upd_sk_def)
    ultimately show ?thesis using fr by (intro exI [of _ ?t]) (auto simp: upd_sk_def)
  qed
qed

lemma cli_close_ok:
  "ev_rep w es ds \<Longrightarrow> net_inv v w (nsocks w) \<Longrightarrow> socks_in (sock_kinds (nsocks w)) {} (mCnns (napp w)) N \<Longrightarrow>
   \<exists>w'. cli_close v hs w = Inr w' \<and> net_inv v w' (nsocks w') \<and> socks_in (sock_kinds (nsocks w')) {} (mCnns (napp w')) N \<and>
     (\<forall>h. mCnns (napp w') h = (if h \<in> set hs then None else mCnns (napp w) h))"
proof (induction hs arbitrary: w es ds)
  case (Cons h hs)
  show ?case
  proof (cases "mCnns (napp w) h")
    case None
    then show ?thesis using Cons.IH [OF Cons.prems] by auto
  next
    case (Some b)
    let ?x = "(napp w)\<lparr>mCnns := (mCnns (napp w))(h := None)\<rparr>" and ?k = "sock_kinds (nsocks w)"
    obtain d where d: "?k b = Some (Some 2, False, d)" "ucast d = h" using socks_inD(2) [OF Cons.prems(3) Some] by blast
    then obtain c where c: "nsocks w b = Some c" by (auto simp: sock_kinds_def)
    obtain s' es' ds' where s': "sk_delete v (net_focus b c (w\<lparr>napp := ?x\<rparr>)) = Inr s'" "nsocks (net_unfocus s') = (nsocks w)(b := None)"
      "napp (net_unfocus s') = ?x" "ev_rep (net_unfocus s') es' ds'" "net_inv v (net_unfocus s') (nsocks (net_unfocus s'))"
      using delete_any [OF Cons.prems(1,2) c, of ?x] by blast
    have k: "sock_kinds ((nsocks w)(b := None)) = ?k(b := None)" by (rule ext) (simp add: sock_kinds_def)
    have "socks_in (?k(b := None)) {} ((mCnns (napp w))(h := None)) N" using socks_remove [OF Cons.prems(3) _ d(1)] d(2) by simp
    then have m: "socks_in (sock_kinds (nsocks (net_unfocus s'))) {} (mCnns (napp (net_unfocus s'))) N" unfolding s'(2,3) k by simp
    obtain w' where w': "cli_close v hs (net_unfocus s') = Inr w'" "net_inv v w' (nsocks w')" "socks_in (sock_kinds (nsocks w')) {} (mCnns (napp w')) N"
      "\<forall>h'. mCnns (napp w') h' = (if h' \<in> set hs then None else mCnns (napp (net_unfocus s')) h')" using Cons.IH [OF s'(4,5) m] by blast
    have "cli_close v (h # hs) w = Inr w'" using Some c s'(1) w'(1) by simp
    moreover have "\<forall>h'. mCnns (napp w') h' = (if h' \<in> set (h # hs) then None else mCnns (napp w) h')" using w'(4) unfolding s'(3) by simp
    ultimately show ?thesis using w'(2,3) by blast
  qed
qed simp

text \<open>Closing with all handles leaves no socket and no registered event of one.\<close>

lemma cli_close_all:
  assumes r: "ev_rep w es ds" and ok: "net_ok v (cli_inv T N F) w" and all: "dom (mCnns (napp w)) \<subseteq> set hs"
  shows "\<exists>w'. cli_close v hs w = Inr w' \<and> nsocks w' = Map.empty \<and> mCnns (napp w') = Map.empty \<and>
     (\<forall>p e. evts w' p = Some e \<longrightarrow> ecb e = EsCb \<longrightarrow> \<not> isReg e)"
proof -
  have inv: "net_inv v w (nsocks w)" "socks_in (sock_kinds (nsocks w)) {} (mCnns (napp w)) N" using ok by (simp_all add: net_ok_def cli_inv_def)
  obtain w' where w': "cli_close v hs w = Inr w'" "net_inv v w' (nsocks w')" "socks_in (sock_kinds (nsocks w')) {} (mCnns (napp w')) N"
    "\<forall>h. mCnns (napp w') h = (if h \<in> set hs then None else mCnns (napp w) h)" using cli_close_ok [OF r inv] by blast
  have m: "mCnns (napp w') = Map.empty" using w'(4) all by (fastforce simp: fun_eq_iff domIff)
  have n: "nsocks w' q = None" for q
  proof (rule ccontr)
    assume "nsocks w' q \<noteq> None"
    then obtain n b d where "sock_kinds (nsocks w') q = Some (n, b, d)" by (auto simp: sock_kinds_def)
    from socks_inD(1) [OF w'(3) _ this] m show False by simp
  qed
  then show ?thesis using w'(1) m net_invD(3) [OF w'(2)] by (fastforce simp: fun_eq_iff)
qed

lemma cli_books:
  assumes "net_ok v (cli_inv T N F) w"
  shows "unat (cntDis (napp w)) + card (dom (mCnns (napp w))) = T" "ran (mCnns (napp w)) = dom (nsocks w)"
proof -
  have k: "socks_in (sock_kinds (nsocks w)) {} (mCnns (napp w)) N" and t: "unat (cntDis (napp w)) + card (dom (mCnns (napp w))) = T"
    using assms by (simp_all add: net_ok_def cli_inv_def)
  show "unat (cntDis (napp w)) + card (dom (mCnns (napp w))) = T" by (rule t)
  have "q \<in> dom (nsocks w)" if "mCnns (napp w) h = Some q" for h q using socks_inD(2) [OF k that] by (auto simp: sock_kinds_def)
  moreover have "\<exists>h. mCnns (napp w) h = Some q" if q: "nsocks w q = Some c" for q c
  proof -
    have "sock_kinds (nsocks w) q = Some (slis c, mIsListen c, mUser c)" using q by (simp add: sock_kinds_def)
    from socks_inD(1) [OF k _ this] show ?thesis by blast
  qed
  ultimately show "ran (mCnns (napp w)) = dom (nsocks w)" by (auto simp: ran_def)
qed

lemma close_not_registered: "ev_rep w es ds \<Longrightarrow> evts w p = Some e \<Longrightarrow> evts w' = close_evt p (evts w) \<Longrightarrow> \<not> registered w' p"
  using null_not_event [of w es ds] by (auto simp: registered_def close_evt_def)

section \<open>One event of the client\<close>

text \<open>A hang-up ends a connection: the socket is closed and deleted, its event deregistered, the end counted.\<close>

lemma cli_hangup:
  assumes r: "ev_rep w es ds" and ok: "net_ok v (cli_inv T N F) w" and e: "evts w p = Some e" "isReg e" "ecb e = EsCb"
  shows "\<exists>w' c. nsocks w (evuser e) = Some c \<and> net_cb (cli_vm v) v err (\<lambda>_. True) EsCb p EVT_HANGUP w = Inr w' \<and>
     nsocks w' = (nsocks w)(evuser e := None) \<and> napp w' = ended (EdEvent_getUserInt c) (napp w) \<and> evts w' = close_evt p (evts w)"
proof -
  obtain c where c: "nsocks w (evuser e) = Some c" "mEvt c = p" "eself c = evuser e" "evuser e \<noteq> NULL" "0 < mFd c"
    "True \<longrightarrow> net_live v (cli_inv T N F) (\<lambda>_. True) (dom (evts w)) (net_focus (evuser e) c w)"
    by (rule focus_live [where rd = "\<lambda>_. True", OF r ok e]) simp
  let ?s = "net_focus (evuser e) c w"
  have st: "net_st v (cli_inv T N F) (dom (evts w)) ?s" using c(6) by (simp add: net_live_def)
  show ?thesis
  proof (rule close_net [OF st])
    fix s1 assume s1: "EdSocket_close v ?s = Inr s1" "net_st v (cli_inv T N F) (dom (evts w)) s1" "mEvt (sk s1) = NULL" "others s1 = others ?s"
      "app s1 = app ?s" "evts (sw s1) = close_evt (mEvt (sk ?s)) (evts (sw ?s))"
    have u: "EdEvent_getUserInt (sk s1) = EdEvent_getUserInt c" using close_frame [OF s1(1)] by (simp add: EdEvent_getUserInt_def)
    obtain s' where s': "cli_listener v SOCK_EVENT_DISCONNECTED s1 = Inr s'" "eself (sk s') = NULL" "others s' = others s1"
      "app s' = ended (EdEvent_getUserInt (sk s1)) (app s1)" "evts (sw s') = close_evt (mEvt (sk s1)) (evts (sw s1))"
      using cli_lost [OF s1(2)] by blast
    have "sock_dispatch (cli_vm v) v (err ?s) EVT_HANGUP ?s = Inr s'"
      using s1(1) s'(1) cli_vm_on [OF s1(2)]
      by (simp add: sock_dispatch_def flag_handlers EdSocket_OnEventHangup_def)
    then have "net_cb (cli_vm v) v err (\<lambda>_. True) EsCb p EVT_HANGUP w = Inr (net_unfocus s')" by (intro net_cb_run [OF e(1) c(1)]) simp_all
    then show ?thesis using c(1,2) s'(2-5) s1(3-6) u by (intro exI [of _ "net_unfocus s'"] exI [of _ c]) simp
  qed
qed

text \<open>What holds after any turns of the loop, and what a hang-up and the end of the task do then.\<close>

lemma cli_after:
  assumes r: "ev_rep w es ds" and ok: "net_ok v (cli_inv T N F) w" and t: "es_turns (net_cb (cli_vm v) v err (\<lambda>_. True)) w bs w2"
  shows "unat (cntDis (napp w2)) + card (dom (mCnns (napp w2))) = T \<and> ran (mCnns (napp w2)) = dom (nsocks w2) \<and>
     (\<forall>p e. evts w2 p = Some e \<longrightarrow> isReg e \<longrightarrow> ecb e = EsCb \<longrightarrow>
        (\<exists>c w3. nsocks w2 (evuser e) = Some c \<and> net_cb (cli_vm v) v err (\<lambda>_. True) EsCb p EVT_HANGUP w2 = Inr w3 \<and>
           nsocks w3 = (nsocks w2)(evuser e := None) \<and> napp w3 = ended (EdEvent_getUserInt c) (napp w2) \<and> \<not> registered w3 p)) \<and>
     (\<forall>order. dom (mCnns (napp w2)) \<subseteq> set order \<longrightarrow>
        (\<exists>w3. cli_close v order w2 = Inr w3 \<and> nsocks w3 = Map.empty \<and> mCnns (napp w3) = Map.empty \<and>
           (\<forall>p e. evts w3 p = Some e \<longrightarrow> ecb e = EsCb \<longrightarrow> \<not> isReg e)))"
proof -
  obtain es2 ds2 where k: "ev_rep w2 es2 ds2" "net_ok v (cli_inv T N F) w2"
    using evt_callback.turns_keep [OF cl.loop_callback t r ok] by blast
  have "\<exists>c w3. nsocks w2 (evuser e) = Some c \<and> net_cb (cli_vm v) v err (\<lambda>_. True) EsCb p EVT_HANGUP w2 = Inr w3 \<and>
      nsocks w3 = (nsocks w2)(evuser e := None) \<and> napp w3 = ended (EdEvent_getUserInt c) (napp w2) \<and> \<not> registered w3 p"
    if e: "evts w2 p = Some e" "isReg e" "ecb e = EsCb" for p e
    using cli_hangup [where err = err, OF k e] close_not_registered [OF k(1) e(1)] by blast
  then show ?thesis using cli_books [OF k(2)] cli_close_all [OF k] by blast
qed

section \<open>Properties\<close>

text \<open>C3. The books of the client balance. A request starts its connections: each has its own handle and its own socket,
  connecting and watched by the loop, or counted as failed to open. Whatever turns the loop takes then, the
  connections ended and those still in the map are together those ever started, and the map holds exactly
  the existing sockets; a hang-up deletes the socket, deregisters its event and counts one end; clearing
  the map deletes all that is left, also the sockets that never opened, with no event of a socket left registered.\<close>

theorem client_balance:
  assumes r: "ev_rep w es ds" and ok: "net_ok v (cli_inv T N F) w" and st: "starts_ok w (map st [0..<nat (num req)])"
    and n: "unat N + nat (num req) < 2 ^ 32" "T + nat (num req) < 2 ^ 31"
  shows "\<exists>w1. cli_user v req st w = Inr w1 \<and> cntDis (napp w1) = cntDis (napp w) \<and>
     (\<forall>i < nat (num req). \<exists>c. nsocks w1 (saddr (st i)) = Some c \<and> started (st i) (N + of_nat (i + 1)) c w1) \<and>
     cntSockFdFail (napp w1) = F + of_nat (length (filter (\<lambda>i. sfd (st i) < 0) [0..<nat (num req)])) \<and>
     (\<forall>err bs w2. es_turns (net_cb (cli_vm v) v err (\<lambda>_. True)) w1 bs w2 \<longrightarrow>
        unat (cntDis (napp w2)) + card (dom (mCnns (napp w2))) = T + nat (num req) \<and> ran (mCnns (napp w2)) = dom (nsocks w2) \<and>
        (\<forall>p e. evts w2 p = Some e \<longrightarrow> isReg e \<longrightarrow> ecb e = EsCb \<longrightarrow>
           (\<exists>c w3. nsocks w2 (evuser e) = Some c \<and> net_cb (cli_vm v) v err (\<lambda>_. True) EsCb p EVT_HANGUP w2 = Inr w3 \<and>
              nsocks w3 = (nsocks w2)(evuser e := None) \<and> napp w3 = ended (EdEvent_getUserInt c) (napp w2) \<and> \<not> registered w3 p)) \<and>
        (\<forall>order. dom (mCnns (napp w2)) \<subseteq> set order \<longrightarrow>
           (\<exists>w3. cli_close v order w2 = Inr w3 \<and> nsocks w3 = Map.empty \<and> mCnns (napp w3) = Map.empty \<and>
              (\<forall>p e. evts w3 p = Some e \<longrightarrow> ecb e = EsCb \<longrightarrow> \<not> isReg e))))"
proof -
  let ?n = "nat (num req)" and ?rs = "map st [0..<nat (num req)]" and ?w = "w\<lparr>napp := (napp w)\<lparr>reqInfo := req\<rparr>\<rparr>"
  have w: "ev_rep ?w es ds" "net_ok v (cli_inv T N F) ?w" "starts_ok ?w ?rs" "unat N + length ?rs < 2 ^ 32" "T + length ?rs < 2 ^ 31"
    using r ok st n by (simp_all add: net_ok_def cli_inv_def starts_ok_def)
  let ?K = "cli_inv (T + length ?rs) (N + of_nat (length ?rs)) (F + of_nat (length (filter (\<lambda>r. sfd r < 0) ?rs)))"
  obtain w1 es1 ds1 where w1: "cli_loop v ?rs ?w = Inr w1" "ev_rep w1 es1 ds1" "net_ok v ?K w1" "cntDis (napp w1) = cntDis (napp ?w)"
    "\<forall>i < length ?rs. \<exists>c. nsocks w1 (saddr (?rs ! i)) = Some c \<and> started (?rs ! i) (N + of_nat (i + 1)) c w1"
    using cli_loop_ok [OF w] by blast
  have run: "cli_user v req st w = Inr w1" "cntDis (napp w1) = cntDis (napp w)" using w1(1,4) by (simp_all add: cli_user_def)
  have started: "\<exists>c. nsocks w1 (saddr (st i)) = Some c \<and> started (st i) (N + of_nat (i + 1)) c w1" if "i < ?n" for i using w1(5) that by simp
  have "length (filter (\<lambda>r. sfd r < 0) ?rs) = length (filter (\<lambda>i. sfd (st i) < 0) [0..<?n])" by (simp add: filter_map o_def)
  then have fails: "cntSockFdFail (napp w1) = F + of_nat (length (filter (\<lambda>i. sfd (st i) < 0) [0..<?n]))"
    using w1(3) by (simp add: net_ok_def cli_inv_def)
  have "T + length ?rs = T + ?n" by simp
  note after = cli_after [OF w1(2,3), unfolded this]
  show ?thesis by (intro exI [of _ w1] conjI) (use run started fails after in blast)+
qed

text \<open>A client that has just started, asked for two connections of which one cannot be opened.\<close>

definition cli0 :: "cli net" where
  "cli0 = evsys.extend (no_events\<lparr>ctx_exit := 0\<rparr>) \<lparr>nsocks = Map.empty, nerr = 0, napp = cli_init
     \<lparr>mCnns = Map.empty, gHandleSeed = 0, inbox = \<lambda>_. [], room = \<lambda>_. 0, outbox = \<lambda>_. [], cntConnected = 5, cntDis = 5, cntSockFdFail = 5,
      reqInfo = \<lparr>ip = [], port = 0, num = 0\<rparr>\<rparr>\<rparr>"

definition st0 :: "nat \<Rightarrow> start" where
  "st0 i = (if i = 0 then \<lparr>saddr = 7000, sfd = 9, sret = - 1, sevt = 1000\<rparr> else \<lparr>saddr = 7100, sfd = - 1, sret = 0, sevt = 1100\<rparr>)"

theorem client_balance_witness:
  "\<exists>w1 w2 w3 order. cli_user senv \<lparr>ip = ''127.0.0.1'', port = 9090, num = 2\<rparr> st0 cli0 = Inr w1 \<and> cntSockFdFail (napp w1) = 1 \<and>
     card (dom (mCnns (napp w1))) = 2 \<and> net_cb (cli_vm senv) senv (\<lambda>_. 0) (\<lambda>_. True) EsCb 1000 EVT_HANGUP w1 = Inr w2 \<and> cntDis (napp w2) = 1 \<and>
     cli_close senv order w1 = Inr w3 \<and> nsocks w3 = Map.empty"
proof -
  let ?req = "\<lparr>ip = ''127.0.0.1'', port = 9090, num = 2\<rparr>" and ?K = "cli_inv 0 0 0"
  have r: "ev_rep cli0 [] []" using no_events_rep by (simp add: cli0_def)
  have env: "env_ok no_events (ecur senv)" "ectl senv = 0" using sock0_ok(1) by (simp_all add: sys_ok_def sock0_def)
  have ok: "net_ok senv ?K cli0"
    using env by (simp add: net_ok_def cli0_def cli_inv_def cli_init_def net_inv_def env_ok_def socks_in_def sock_kinds_def evsys.extend_def no_events_def)
  have two: "nat (num ?req) = 2" "[0..<2] = [0, 1 :: nat]" by (simp_all add: upt_rec)
  have st: "starts_ok cli0 (map st0 [0..<nat (num ?req)])"
    unfolding two by (simp add: starts_ok_def start_ok_def st0_def cli0_def evsys.extend_def no_events_def)
  have n: "unat (0 :: u32) + nat (num ?req) < 2 ^ 32" "0 + nat (num ?req) < 2 ^ 31" by simp_all
  obtain w1 where w1: "cli_user senv ?req st0 cli0 = Inr w1" "cntDis (napp w1) = cntDis (napp cli0)"
    "\<forall>i < 2. \<exists>c. nsocks w1 (saddr (st0 i)) = Some c \<and> started (st0 i) (0 + of_nat (i + 1)) c w1"
    "cntSockFdFail (napp w1) = 0 + of_nat (length (filter (\<lambda>i. sfd (st0 i) < 0) [0, 1]))"
    "\<forall>err bs w2. es_turns (net_cb (cli_vm senv) senv err (\<lambda>_. True)) w1 bs w2 \<longrightarrow>
        unat (cntDis (napp w2)) + card (dom (mCnns (napp w2))) = 0 + 2 \<and> ran (mCnns (napp w2)) = dom (nsocks w2) \<and>
        (\<forall>p e. evts w2 p = Some e \<longrightarrow> isReg e \<longrightarrow> ecb e = EsCb \<longrightarrow>
           (\<exists>c w3. nsocks w2 (evuser e) = Some c \<and> net_cb (cli_vm senv) senv err (\<lambda>_. True) EsCb p EVT_HANGUP w2 = Inr w3 \<and>
              nsocks w3 = (nsocks w2)(evuser e := None) \<and> napp w3 = ended (EdEvent_getUserInt c) (napp w2) \<and> \<not> registered w3 p)) \<and>
        (\<forall>order. dom (mCnns (napp w2)) \<subseteq> set order \<longrightarrow>
           (\<exists>w3. cli_close senv order w2 = Inr w3 \<and> nsocks w3 = Map.empty \<and> mCnns (napp w3) = Map.empty \<and>
              (\<forall>p e. evts w3 p = Some e \<longrightarrow> ecb e = EsCb \<longrightarrow> \<not> isReg e)))"
    using client_balance [OF r ok st n, unfolded two] by blast
  have d: "cntDis (napp w1) = 0" using w1(2) by (simp add: cli0_def cli_init_def evsys.extend_def)
  have e: "evts w1 1000 = Some \<lparr>evfd = 9, evuser = 7000, isReg = True, ecb = EsCb\<rparr>" using w1(3) [rule_format, of 0] by (simp add: st0_def started_def) blast
  have f: "cntSockFdFail (napp w1) = 1" using w1(4) by (simp add: st0_def)
  note after = mp [OF spec [OF spec [OF spec [OF w1(5), of "\<lambda>_. 0"], of "[]"], of w1] es_none]
  have c: "card (dom (mCnns (napp w1))) = 2" using after d by simp
  obtain c :: EdSocket and w2 where w2: "net_cb (cli_vm senv) senv (\<lambda>_. 0) (\<lambda>_. True) EsCb 1000 EVT_HANGUP w1 = Inr w2" "napp w2 = ended (EdEvent_getUserInt c) (napp w1)"
    using after [THEN conjunct2, THEN conjunct2, THEN conjunct1, rule_format, OF e] by auto
  obtain order where "dom (mCnns (napp w1)) = set order" using finite_list [OF finite_handles] by metis
  then obtain w3 where "cli_close senv order w1 = Inr w3" "nsocks w3 = Map.empty" using after by blast
  then show ?thesis using w1(1) f c w2 d by (auto simp: ended_def)
qed

end
