(* ===== verification/EdLife.thy ===== *)
theory EdLife
  imports EdNet EdChannel EdSmart EdSslSock EdHandles EsLists EdLogs EdMemIO EdFiles EdTimers EdTaskRun
begin

text \<open>Construction and destruction of the objects of the library, and the calls that pass a system call on.
  The destructors of the socket classes are shown to release what the objects hold, from every state the event
  handlers leave them in; the one of \<^verbatim>\<open>EsHandleManager\<close> deletes what its slots hold, live or not.\<close>

section \<open>Sockets\<close>

definition EdSocket_setOnListener :: "EdSocket \<Rightarrow> nat option \<Rightarrow> EdSocket" where
  "EdSocket_setOnListener e dg = e\<lparr>slis := dg\<rparr>"

text \<open>\<^verbatim>\<open>accept\<close> and \<^verbatim>\<open>rejectSock\<close> over \<open>acc\<close>, the call of the system on the state \<open>k\<close> of the kernel, and \<open>cls\<close>, its
  \<^verbatim>\<open>close\<close>.\<close>

definition EdSocket_accept :: "(int \<Rightarrow> 'k \<Rightarrow> int \<times> 'k) \<Rightarrow> EdSocket \<Rightarrow> 'k \<Rightarrow> int \<times> 'k" where
  "EdSocket_accept acc e k = acc (mFd e) k"

definition EdSocket_rejectSock :: "(int \<Rightarrow> 'k \<Rightarrow> int \<times> 'k) \<Rightarrow> (int \<Rightarrow> 'k \<Rightarrow> 'k) \<Rightarrow> EdSocket \<Rightarrow> 'k \<Rightarrow> 'k" where
  "EdSocket_rejectSock acc cls e k = (let (fd, k) = acc (mFd e) k in cls fd k)"

text \<open>\<^verbatim>\<open>sockaddr_in\<close>, with the port in network order, and the byte order conversions on a little-endian machine.\<close>

record sockaddr_in =
  sin_family :: int
  s_addr :: u32
  sin_port :: u16

definition AF_INET :: int where "AF_INET = 2"

definition htons :: "u16 \<Rightarrow> u16" where
  "htons p = push_bit 8 p OR drop_bit 8 p"

definition EdSocket_sendto_ip :: "(int \<Rightarrow> u8 list \<Rightarrow> sockaddr_in \<Rightarrow> 'k \<Rightarrow> int \<times> 'k) \<Rightarrow> EdSocket \<Rightarrow> u32 \<Rightarrow> int \<Rightarrow> u8 list \<Rightarrow> 'k \<Rightarrow> int \<times> 'k" where
  "EdSocket_sendto_ip snd_call e ip port buf k =
     snd_call (mFd e) buf \<lparr>sin_family = AF_INET, s_addr = ip, sin_port = htons (word_of_int port)\<rparr> k"

text \<open>\<^verbatim>\<open>recvFrom\<close>: result, bytes, and the address and the port, for the pointers that are not null.\<close>

definition EdSocket_recvFrom ::
  "(int \<Rightarrow> nat \<Rightarrow> 'k \<Rightarrow> int \<times> u8 list \<times> sockaddr_in \<times> 'k) \<Rightarrow> EdSocket \<Rightarrow> nat \<Rightarrow> bool \<Rightarrow> bool \<Rightarrow> 'k \<Rightarrow> int \<times> u8 list \<times> u32 option \<times> u16 option \<times> 'k" where
  "EdSocket_recvFrom rcv_call e n ip port k =
     (let (rcnt, bs, inaddr, k) = rcv_call (mFd e) n k
      in (rcnt, bs, if ip then Some (s_addr inaddr) else None, if port then Some (htons (sin_port inaddr)) else None, k))"

text \<open>The path of \<^verbatim>\<open>sockaddr_un\<close> as \<^verbatim>\<open>sendto\<close> fills it: 108 bytes, the address cut at its first 0.\<close>

definition un_path :: "u8 list \<Rightarrow> nat \<Rightarrow> u8 list" where
  "un_path destaddr addrlen =
     (let s = takeWhile (\<lambda>c. c \<noteq> 0) (take addrlen destaddr) in s @ replicate (108 - length s) 0)"

definition EdSocket_sendto_path :: "(int \<Rightarrow> u8 list \<Rightarrow> u8 list \<Rightarrow> nat \<Rightarrow> 'k \<Rightarrow> int \<times> 'k) \<Rightarrow> EdSocket \<Rightarrow> u8 list \<Rightarrow> nat \<Rightarrow> u8 list \<Rightarrow> 'k \<Rightarrow> int \<times> 'k" where
  "EdSocket_sendto_path snd_call e destaddr addrlen buf k =
     (if addrlen > 108 - 2 then (- 1, k) else snd_call (mFd e) buf (un_path destaddr addrlen) (2 + addrlen) k)"

text \<open>The form for a C string.\<close>

definition EdSocket_sendto_str :: "(int \<Rightarrow> u8 list \<Rightarrow> u8 list \<Rightarrow> nat \<Rightarrow> 'k \<Rightarrow> int \<times> 'k) \<Rightarrow> EdSocket \<Rightarrow> u8 list \<Rightarrow> u8 list \<Rightarrow> 'k \<Rightarrow> int \<times> 'k" where
  "EdSocket_sendto_str snd_call e destaddr buf k = EdSocket_sendto_path snd_call e destaddr (length (takeWhile (\<lambda>c. c \<noteq> 0) destaddr)) buf k"

text \<open>\<^verbatim>\<open>recvFromUnix\<close>: the path of the sender is appended up to its first 0; \<open>junk\<close> is what the local variable
  held, which a failed call leaves there. A path without a 0 is read beyond its end.\<close>

definition EdSocket_recvFromUnix ::
  "(int \<Rightarrow> nat \<Rightarrow> 'k \<Rightarrow> int \<times> u8 list \<times> u8 list option \<times> 'k) \<Rightarrow> u8 list \<Rightarrow> EdSocket \<Rightarrow> nat \<Rightarrow> u8 list \<Rightarrow> 'k \<Rightarrow> fault + (int \<times> u8 list \<times> u8 list \<times> 'k)" where
  "EdSocket_recvFromUnix rcv_call junk e n fromaddr k =
     (let (rcnt, bs, path, k) = rcv_call (mFd e) n k;
          path = (case path of Some p \<Rightarrow> p | None \<Rightarrow> junk)
      in if 0 \<in> set path then Inr (rcnt, bs, fromaddr @ takeWhile (\<lambda>c. c \<noteq> 0) path, k) else Inl Bad_access)"

text \<open>The options of \<^verbatim>\<open>setNoTimewait\<close>: \<^verbatim>\<open>SO_LINGER\<close>, on, 0 seconds.\<close>

definition EdSocket_setNoTimewait :: "(int \<Rightarrow> int \<Rightarrow> int \<times> int \<Rightarrow> 'k \<Rightarrow> 'k) \<Rightarrow> EdSocket \<Rightarrow> 'k \<Rightarrow> 'k" where
  "EdSocket_setNoTimewait sso e k = sso (mFd e) 13 (1, 0) k"

definition EdSocket_getPeerAddr :: "(int \<Rightarrow> sockaddr_in) \<Rightarrow> (u32 \<Rightarrow> string) \<Rightarrow> EdSocket \<Rightarrow> string \<times> u16" where
  "EdSocket_getPeerAddr peer ntop e = (let a = peer (mFd e) in (ntop (s_addr a), htons (sin_port a)))"

text \<open>\<^verbatim>\<open>setNonBlockMode\<close> of an event object, over \<^verbatim>\<open>fcntl\<close>.\<close>

definition EdEvent_setNonBlockMode :: "(int \<Rightarrow> 'k \<Rightarrow> u32) \<Rightarrow> (int \<Rightarrow> u32 \<Rightarrow> 'k \<Rightarrow> 'k) \<Rightarrow> 'o EdEvent_scheme \<Rightarrow> 'k \<Rightarrow> 'k" where
  "EdEvent_setNonBlockMode getfl setfl e k = (let flags = getfl (mFd e) k OR O_NONBLOCK in setfl (mFd e) flags k)"

lemma htons_inverse [simp]: "htons (htons p) = p"
  by (rule bit_word_eqI) (auto simp: htons_def bit_simps dest: bit_imp_le_length)

text \<open>A datagram that reaches another socket is received with the address and the port it was sent to and from: the
  two conversions of the port cancel.\<close>

lemma datagram_port:
  assumes "rcv_call (mFd e) n k = (r, bs, \<lparr>sin_family = AF_INET, s_addr = ip, sin_port = htons (word_of_int port)\<rparr>, k')"
  shows "EdSocket_recvFrom rcv_call e n True True k = (r, bs, Some ip, Some (word_of_int port), k')"
  by (simp only: EdSocket_recvFrom_def assms prod.case Let_def sockaddr_in.simps htons_inverse if_True)

text \<open>A path that is sent is read back by the receiver, when it has no 0 inside.\<close>

lemma unix_path_roundtrip:
  assumes "0 \<notin> set s" "length s \<le> 106"
  shows "takeWhile (\<lambda>c. c \<noteq> 0) (un_path s (length s)) = s" "length (un_path s (length s)) = 108" "0 \<in> set (un_path s (length s))"
proof -
  have t: "takeWhile (\<lambda>c. c \<noteq> 0) (take (length s) s) = s" using assms(1) by auto
  have p: "un_path s (length s) = s @ replicate (108 - length s) 0" unfolding un_path_def t Let_def ..
  have "\<forall>c \<in> set s. c \<noteq> 0" using assms(1) by auto
  moreover obtain m where "108 - length s = Suc m" using assms(2) by (cases "108 - length s") auto
  ultimately show "takeWhile (\<lambda>c. c \<noteq> 0) (un_path s (length s)) = s" "0 \<in> set (un_path s (length s))"
    unfolding p by (simp_all add: takeWhile_append2)
  show "length (un_path s (length s)) = 108" using assms(2) by (simp add: p)
qed

section \<open>Construction and destruction of the socket classes\<close>

definition EdSmartSocket_new :: "addr \<Rightarrow> evsys \<Rightarrow> thread_env \<Rightarrow> int \<Rightarrow> (addr \<rightharpoonup> u8 list) \<Rightarrow> smart" where
  "EdSmartSocket_new self w cur err m =
     \<lparr>sk = EdSocket_new self cur, sw = w, lastSockErrorNo = err, writes = [], wire = [], mMode = 0, mPendingBuf = NULL, mPendingWriteCnt = 0,
      mPendingSize = 0, mOnLis = False, mem = m, mSSL = NULL, mSSLCtx = NULL, mEdSSLCtx = NULL, mSessionConencted = False,
      mIsServer = False, mSSLWantEvent = 0\<rparr>"

definition EdSmartSocket_destroy :: "env \<Rightarrow> smart \<Rightarrow> fault + smart" where
  "EdSmartSocket_destroy v s = bindr (EdSmartSocket_close v s) (EdSocket_destroy v)"

definition EdSmartSocket_setOnListener :: "smart \<Rightarrow> bool \<Rightarrow> smart" where
  "EdSmartSocket_setOnListener s lis = s\<lparr>mOnLis := lis\<rparr>"

definition EdSmartSocket_getFd :: "smart \<Rightarrow> int" where
  "EdSmartSocket_getFd s = mFd (sk s)"

definition EdSmartSocket_getSSL :: "smart \<Rightarrow> addr" where
  "EdSmartSocket_getSSL s = mSSL s"

definition EdSmartSocket_getSSLContext :: "smart \<Rightarrow> addr" where
  "EdSmartSocket_getSSLContext s = mSSLCtx s"

definition EdSocketChannel_new :: "addr \<Rightarrow> evsys \<Rightarrow> thread_env \<Rightarrow> int \<Rightarrow> (addr \<rightharpoonup> u8 list) \<Rightarrow> chan" where
  "EdSocketChannel_new self w cur err m =
     \<lparr>sk = EdSocket_new self cur, sw = w, lastSockErrorNo = err, writes = [], wire = [], chunks = Map.empty, blocks = m, mCurChk = NULL,
      mChks = [], mFreeChks = [], mMaxChunk = 0\<rparr>"

definition EdSocketChannel_destroy :: "env \<Rightarrow> chan \<Rightarrow> fault + chan" where
  "EdSocketChannel_destroy v s = bindr (EdSocketChannel_closeChannel v s) (EdSocket_destroy v)"

text \<open>\<^verbatim>\<open>OnTxComplete\<close> gives the buffer to the callback that \<^verbatim>\<open>setChannelCallback\<close> has set.\<close>

definition EdSocketChannel_setChannelCallback :: "tx_callback option \<Rightarrow> tx_callback option \<Rightarrow> tx_callback option" where
  "EdSocketChannel_setChannelCallback old cb = cb"

definition EdSocketChannel_OnTxComplete :: "tx_callback option \<Rightarrow> tx_callback" where
  "EdSocketChannel_OnTxComplete channelCb b u s = (case channelCb of Some cb \<Rightarrow> cb b u s | None \<Rightarrow> Inr s)"

definition EdSSLSocket_destroy :: "env \<Rightarrow> sslsock \<Rightarrow> fault + sslsock" where
  "EdSSLSocket_destroy v s = bindr (EdSSLSocket_close v s) (EdSocket_destroy v)"

definition EdSSLSocket_getSSL :: "sslsock \<Rightarrow> addr" where
  "EdSSLSocket_getSSL s = xSSL s"

definition EdSSLSocket_getSSLContext :: "sslsock \<Rightarrow> addr" where
  "EdSSLSocket_getSSLContext s = xSSLCtx s"

text \<open>A socket that is closed can be destroyed; the destructor then changes no more than \<^verbatim>\<open>mIsBinded\<close>.\<close>

lemma destroy_gone: "sk_gone (sk s) \<Longrightarrow> EdSocket_destroy v s = Inr (upd_sk (\<lambda>e. e\<lparr>mIsBinded := False\<rparr>) s)"
  by (simp add: EdSocket_destroy_def EdSocket_close_def EdEvent_destroy_def sk_gone_def ev_off_def upd_sk_def)

lemma socket_destroy_ok:
  assumes "sock_st v s"
  shows "\<exists>s'. EdSocket_destroy v s = Inr s' \<and> sock_st v s' \<and> sk_gone (sk s') \<and> sst.more s' = sst.more s"
proof -
  obtain s1 where s1: "EdSocket_close v s = Inr s1" "sock_st v s1" "sk_gone (sk s1)" "sst.more s1 = sst.more s" using close_st [OF assms] by blast
  then have "EdSocket_destroy v s = Inr s1" by (simp add: EdSocket_destroy_def EdEvent_destroy_def sk_gone_def ev_off_def)
  then show ?thesis using s1(2-4) by blast
qed

lemma new_sock_st: "ev_rep w es ds \<Longrightarrow> env_ok w (ecur v) \<Longrightarrow> ectl v = 0 \<Longrightarrow> sw s = w \<Longrightarrow> sk s = EdSocket_new self (ecur v) \<Longrightarrow> sock_st v s"
  by (auto simp: sock_st_def sys_ok_def sk_gone_def ev_off_def EdSocket_new_def EdSocket_clearInternal_def EdEvent_new_def EdEvent.extend_def)

text \<open>A new smart socket is in the state its theorems ask for, and its destructor frees the pending buffer and the
  registration in every such state.\<close>

lemma smart_new_st:
  assumes "ev_rep w es ds" "env_ok w (ecur v)" "ectl v = 0"
  shows "sm_st v (EdSmartSocket_new self w (ecur v) err m)"
  using new_sock_st [OF assms, of "EdSmartSocket_new self w (ecur v) err m" self] by (simp add: sm_st_def sm_ok_def EdSmartSocket_new_def)

lemma smart_destroy_ok:
  assumes "sm_st v s"
  shows "\<exists>s'. EdSmartSocket_destroy v s = Inr s' \<and> mPendingBuf s' = NULL \<and> sk_gone (sk s') \<and> sock_st v s'"
proof -
  obtain s1 where s1: "EdSmartSocket_close v s = Inr s1" "sm_st v s1" "mPendingBuf s1 = NULL" "sk_gone (sk s1)" using smart_close_st [OF assms] by blast
  have "sock_st v s1" using s1(2) by (simp add: sm_st_def)
  from socket_destroy_ok [OF this] obtain s2 where s2: "EdSocket_destroy v s1 = Inr s2" "sock_st v s2" "sk_gone (sk s2)" "sst.more s2 = sst.more s1" by blast
  then show ?thesis using smart_more [OF s2(4)] s1(1,3) by (simp add: EdSmartSocket_destroy_def)
qed

lemma ssl_destroy_ok:
  assumes "sock_st v s" "ssl_inv s"
  shows "\<exists>s'. EdSSLSocket_destroy v s = Inr s' \<and> sessions s' = {} \<and> sk_gone (sk s') \<and> sock_st v s'"
proof -
  obtain s1 where s1: "EdSSLSocket_close v s = Inr s1" "ssl_st v s1" "sessions s1 = {}" using ssl_close_ok [OF assms] by blast
  have "sock_st v s1" using s1(2) by (simp add: ssl_st_def)
  from socket_destroy_ok [OF this] obtain s2 where s2: "EdSocket_destroy v s1 = Inr s2" "sock_st v s2" "sk_gone (sk s2)" "sst.more s2 = sst.more s1" by blast
  then show ?thesis using ssl_more [OF s2(4)] s1(1,3) by (simp add: EdSSLSocket_destroy_def)
qed

lemma channel_destroy_ok:
  assumes "chan_st v s"
  shows "\<exists>s'. EdSocketChannel_destroy v s = Inr s' \<and> chunks s' = Map.empty \<and> pend s' = [] \<and> mFreeChks s' = [] \<and> sk_gone (sk s')"
proof -
  obtain s1 where s1: "EdSocketChannel_closeChannel v s = Inr s1" "chunks s1 = Map.empty" "pend s1 = []" "mFreeChks s1 = []" "sk_gone (sk s1)"
    using closeChannel_ok [OF assms] by blast
  then show ?thesis by (simp add: EdSocketChannel_destroy_def destroy_gone upd_sk_def pend_def sk_gone_def ev_off_def split: if_splits)
qed

section \<open>The handle table\<close>

text \<open>The destructor: the objects it deletes, in order, and the memory of the nodes.\<close>

fun delete_objs :: "EsHandleManager \<Rightarrow> nat \<Rightarrow> nat \<Rightarrow> addr list option" where
  "delete_objs m 0 i = Some []"
| "delete_objs m (Suc k) i = do {
     n \<leftarrow> nodes m (res_at m i);
     xs \<leftarrow> delete_objs m k (Suc i);
     Some (if hobj (nobj n) \<noteq> NULL then hobj (nobj n) # xs else xs)
   }"

definition EsHandleManager_destroy :: "EsHandleManager \<Rightarrow> (addr list \<times> EsHandleManager) option" where
  "EsHandleManager_destroy m = do {
     xs \<leftarrow> (if mIsObjAlloc m then delete_objs m (unat (mMaxHandle m)) 0 else Some []);
     Some (xs, m\<lparr>nodes := nodes m |` (- res_at m ` {..<unat (mMaxHandle m)})\<rparr>)
   }"

lemma delete_objs_spec:
  assumes "\<forall>j < i + k. info m j \<noteq> None"
  shows "delete_objs m k i = Some (filter (\<lambda>p. p \<noteq> NULL) (map (\<lambda>j. hobj (the (info m j))) [i..<i + k]))"
  using assms
proof (induction k arbitrary: i)
  case (Suc k)
  have i: "info m i \<noteq> None" using Suc.prems by simp
  then obtain n where n: "nodes m (res_at m i) = Some n" by (auto simp: info_def)
  have "\<forall>j < Suc i + k. info m j \<noteq> None" using Suc.prems by simp
  from Suc.IH [OF this] have "delete_objs m k (Suc i) = Some (filter (\<lambda>p. p \<noteq> NULL) (map (\<lambda>j. hobj (the (info m j))) [Suc i..<i + Suc k]))" by simp
  moreover have "[i..<i + Suc k] = i # [Suc i..<i + Suc k]" by (rule upt_conv_Cons) simp
  ultimately show ?case using n by (simp add: info_def)
qed simp

text \<open>The destructor deletes the object of every slot, whether its handle is live or was freed: freeing a handle leaves
  its object in the slot, so that an object the client has deleted itself is deleted again, and \<^verbatim>\<open>setObject\<close> forgets
  the object the constructor made.\<close>

lemma handle_destroy_deletes:
  assumes "hm_inv m fs" "mIsObjAlloc m"
  obtains m' where "EsHandleManager_destroy m = Some (filter (\<lambda>p. p \<noteq> NULL) (map (\<lambda>j. hobj (the (info m j))) [0..<maxn m]), m')"
    "\<And>i. i < maxn m \<Longrightarrow> nodes m' (res_at m i) = None"
proof -
  have "\<forall>j < 0 + maxn m. info m j \<noteq> None" using assms(1) by (auto simp: hm_inv_def slot_ok_def split: option.splits)
  from delete_objs_spec [OF this] assms(2) show thesis
    by (intro that [of "m\<lparr>nodes := nodes m |` (- res_at m ` {..<maxn m})\<rparr>"]) (auto simp: EsHandleManager_destroy_def restrict_map_def)
qed

section \<open>Buffers, files, timers\<close>

definition EdMemReader_destroy :: "EdMemReader \<Rightarrow> block option" where
  "EdMemReader_destroy r = EdMemReader.mBuf r"

definition EdRingQue_destroy :: "EdRingQue \<Rightarrow> block" where
  "EdRingQue_destroy q = EdRingQue.mBuf q"

definition EdLog_new :: "(nat \<Rightarrow> u8) \<Rightarrow> int \<Rightarrow> EdRingQue" where
  "EdLog_new junk bsize = EdRingQue_new junk bsize"

definition EdFile_readFile :: "(int \<Rightarrow> int \<Rightarrow> 'k \<Rightarrow> int \<times> u8 list \<times> 'k) \<Rightarrow> EdFile \<Rightarrow> int \<Rightarrow> 'k \<Rightarrow> int \<times> u8 list \<times> 'k" where
  "EdFile_readFile rd f n k = rd (fileFd f) n k"

definition EdFile_writeFile :: "(int \<Rightarrow> u8 list \<Rightarrow> 'k \<Rightarrow> int \<times> 'k) \<Rightarrow> EdFile \<Rightarrow> u8 list \<Rightarrow> 'k \<Rightarrow> int \<times> 'k" where
  "EdFile_writeFile wr f bs k = wr (fileFd f) bs k"

definition EdFile_writeStr :: "(int \<Rightarrow> u8 list \<Rightarrow> 'k \<Rightarrow> int \<times> 'k) \<Rightarrow> EdFile \<Rightarrow> u8 list \<Rightarrow> 'k \<Rightarrow> int \<times> 'k" where
  "EdFile_writeStr wr f str k = wr (fileFd f) (takeWhile (\<lambda>c. c \<noteq> 0) str) k"

definition EdFile_getFd :: "EdFile \<Rightarrow> int" where
  "EdFile_getFd f = fileFd f"

text \<open>A new timer pool, and what the constructor of a file reader sets besides its members of class type.\<close>

definition EdTimerPool_new :: tpool where
  "EdTimerPool_new = \<lparr>timerMap = Map.empty, nearTp = 0, handleSeed = 0, fireList = [], main_us = None, next_node = 0\<rparr>"

definition EdBuffredFileReader_new :: "freader \<Rightarrow> freader" where
  "EdBuffredFileReader_new r = r\<lparr>mBlockSize := 0, mQSize := 0, mIsScheduled := False, mEof := False\<rparr>"

section \<open>Tasks and the library\<close>

definition DEFAULT_MSQ_SIZE :: int where "DEFAULT_MSQ_SIZE = 1000"

definition EdTask_run_mode :: "int \<Rightarrow> int \<Rightarrow> int \<Rightarrow> addr \<Rightarrow> nat \<Rightarrow> task \<Rightarrow> fault + (int option \<times> task)" where
  "EdTask_run_mode mode fd thr a sid t = EdTask_run mode 0 0 DEFAULT_MSQ_SIZE fd thr a sid t"

definition EdTask_runMain_mode :: "run_env \<Rightarrow> nat \<Rightarrow> (addr \<times> u32) list list \<Rightarrow> int \<Rightarrow> int \<Rightarrow> addr \<Rightarrow> int \<Rightarrow> task \<Rightarrow> (fault + (int \<times> task)) option" where
  "EdTask_runMain_mode v fuel bs mode fd a wret t = EdTask_runMain v fuel bs mode 0 0 DEFAULT_MSQ_SIZE fd a wret t"

definition EdTask_getRunMode :: "task \<Rightarrow> int" where
  "EdTask_getRunMode t = mRunMode t"

definition EdTask_getCurrentTask :: "thread_env \<Rightarrow> addr" where
  "EdTask_getCurrentTask cur = curTask cur"

text \<open>\<open>ver\<close> is the version of the header \<^verbatim>\<open>EdNio.h\<close> the client was compiled with.\<close>

definition EdNioGetVer :: string where
  "EdNioGetVer = ''0.5.0''"

definition EdNioInit :: "string \<Rightarrow> int" where
  "EdNioInit ver = (if EdNioGetVer \<noteq> ver then - 1 else 0)"

end
