(* ===== verification/EdLibev.thy ===== *)
theory EdLibev
  imports EdTaskRun
begin

text \<open>The build with \<^verbatim>\<open>USE_LIBEVENT\<close> (EdTask.cpp, EdEvent.cpp): event objects are registered with libevent and
  the loop is that of the external library. What the code asks of libevent is recorded call by call, the
  addresses \<^verbatim>\<open>event_base_new\<close> and \<^verbatim>\<open>event_new\<close> return are arguments, and the documented rules of the
  library (an event is used between \<^verbatim>\<open>event_new\<close> and \<^verbatim>\<open>event_free\<close> and while its base exists) are a monitor of
  the recorded calls. What happens in \<^verbatim>\<open>event_base_loop\<close> is an argument.\<close>

section \<open>Calls of libevent\<close>

datatype lib_cb = libevent_cb | libeventMsg_cb

record lib_flags =
  EV_READ :: bool
  EV_WRITE :: bool
  EV_PERSIST :: bool

datatype lib_call =
    Event_base_new addr
  | Event_new addr addr int lib_flags lib_cb addr
  | Event_add addr
  | Event_del addr
  | Event_free addr
  | Event_base_loop addr
  | Event_base_loopexit addr
  | Event_base_free addr

text \<open>The rules: the live bases, and the live events with the base of each.\<close>

record lib_state =
  bases :: "addr set"
  events :: "addr \<rightharpoonup> addr"

definition lib_usable :: "lib_state \<Rightarrow> addr \<Rightarrow> bool" where
  "lib_usable m p = (case events m p of None \<Rightarrow> False | Some b \<Rightarrow> b \<in> bases m)"

fun lib_step :: "lib_call \<Rightarrow> lib_state \<Rightarrow> lib_state option" where
  "lib_step (Event_base_new b) m = (if b = NULL \<or> b \<in> bases m then None else Some (m\<lparr>bases := insert b (bases m)\<rparr>))"
| "lib_step (Event_new p b fd fl cb arg) m =
     (if b \<notin> bases m \<or> events m p \<noteq> None then None
      else if p = NULL then Some m else Some (m\<lparr>events := (events m)(p \<mapsto> b)\<rparr>))"
| "lib_step (Event_add p) m = (if lib_usable m p then Some m else None)"
| "lib_step (Event_del p) m = (if lib_usable m p then Some m else None)"
| "lib_step (Event_free p) m = (if lib_usable m p then Some (m\<lparr>events := (events m)(p := None)\<rparr>) else None)"
| "lib_step (Event_base_loop b) m = (if b \<in> bases m then Some m else None)"
| "lib_step (Event_base_loopexit b) m = (if b \<in> bases m then Some m else None)"
| "lib_step (Event_base_free b) m = (if b \<in> bases m then Some (m\<lparr>bases := bases m - {b}\<rparr>) else None)"

fun lib_run :: "lib_call list \<Rightarrow> lib_state \<Rightarrow> lib_state option" where
  "lib_run [] m = Some m"
| "lib_run (c # cs) m = (case lib_step c m of None \<Rightarrow> None | Some m \<Rightarrow> lib_run cs m)"

lemma lib_run_append: "lib_run (cs @ ds) m = (case lib_run cs m of None \<Rightarrow> None | Some m \<Rightarrow> lib_run ds m)"
  by (induction cs arbitrary: m) (auto split: option.splits)

abbreviation lib_start :: lib_state where "lib_start \<equiv> \<lparr>bases = {}, events = Map.empty\<rparr>"

section \<open>Event objects\<close>

record EdLEvent = EdEvent +
  mEvent :: addr

text \<open>The task with what this build adds: the base of its context, the calls so far, the message event, the
  object that deletes reserved objects, and the event objects by address.\<close>

record ltask = task +
  eventBase :: addr
  lcalls :: "lib_call list"
  mLibMsgEvent :: addr
  mFreeEvent :: addr
  lobjs :: "addr \<rightharpoonup> EdLEvent"

definition libcall :: "lib_call \<Rightarrow> ltask \<Rightarrow> ltask" where
  "libcall c t = t\<lparr>lcalls := lcalls t @ [c]\<rparr>"

definition EdLEvent_new :: "addr \<Rightarrow> thread_env \<Rightarrow> EdLEvent" where
  "EdLEvent_new self cur = EdEvent.extend (EdEvent_new self cur) \<lparr>mEvent = NULL\<rparr>"

text \<open>\<^verbatim>\<open>registerEvent\<close>, \<^verbatim>\<open>deregisterEvent\<close> and \<^verbatim>\<open>changeEvent\<close> with both modes; \<open>a\<close> is the address of the new
  event, \<open>ctl\<close> the result of \<^verbatim>\<open>epoll_ctl\<close>.\<close>

definition EVT_ONESHOT :: u32 where "EVT_ONESHOT = 0x40000000"

definition EdLEvent_registerEvent :: "EdLEvent \<Rightarrow> ltask \<Rightarrow> addr \<Rightarrow> int \<Rightarrow> u32 \<Rightarrow> fault + (EdLEvent \<times> ltask)" where
  "EdLEvent_registerEvent e t a ctl flag =
     (if mIsReg e then Inr (e, t)
      else if mContext e = NULL then Inl Bad_access
      else if cmode t = 0 then EdEvent_registerEvent e t a ctl
      else let evtflag = \<lparr>EV_READ = flag AND EVT_READ \<noteq> 0, EV_WRITE = flag AND EVT_WRITE \<noteq> 0, EV_PERSIST = flag AND EVT_ONESHOT = 0\<rparr>;
               t = libcall (Event_new a (eventBase t) (mFd e) evtflag libevent_cb (eself e)) t;
               e = e\<lparr>mEvent := a\<rparr>;
               t = libcall (Event_add (mEvent e)) t
           in Inr (e\<lparr>mIsReg := True\<rparr>, t))"

definition EdLEvent_deregisterEvent :: "EdLEvent \<Rightarrow> ltask \<Rightarrow> thread_env \<Rightarrow> int \<Rightarrow> fault + (EdLEvent \<times> ltask)" where
  "EdLEvent_deregisterEvent e t cur ctl =
     (if mTask e \<noteq> curTask cur then Inl Assert_failed
      else if \<not> mIsReg e then Inr (e, t)
      else if mContext e = NULL then Inl Bad_access
      else if cmode t = 0 then EdEvent_deregisterEvent e t cur ctl
      else let (e, t) = (if mEvent e \<noteq> NULL
                         then (e\<lparr>mEvent := NULL\<rparr>, libcall (Event_free (mEvent e)) (libcall (Event_del (mEvent e)) t))
                         else (e, t))
           in Inr (e\<lparr>mIsReg := False, mTask := NULL\<rparr>, t))"

definition EdLEvent_changeEvent :: "EdLEvent \<Rightarrow> ltask \<Rightarrow> addr \<Rightarrow> int \<Rightarrow> u32 \<Rightarrow> fault + (EdLEvent \<times> ltask)" where
  "EdLEvent_changeEvent e t a ctl flags =
     (if mContext e = NULL then Inl Bad_access
      else if cmode t = 0 then EdEvent_changeEvent e t a ctl
      else let t = libcall (Event_free (mEvent e)) (libcall (Event_del (mEvent e)) t);
               evtflag = \<lparr>EV_READ = flags AND EVT_READ \<noteq> 0, EV_WRITE = flags AND EVT_WRITE \<noteq> 0, EV_PERSIST = True\<rparr>;
               t = libcall (Event_new a (eventBase t) (mFd e) evtflag libevent_cb (eself e)) t;
               e = e\<lparr>mEvent := a\<rparr>
           in Inr (e, libcall (Event_add (mEvent e)) t))"

text \<open>An operation on the object at \<open>q\<close>.\<close>

definition at_obj :: "addr \<Rightarrow> (EdLEvent \<Rightarrow> ltask \<Rightarrow> fault + (EdLEvent \<times> ltask)) \<Rightarrow> ltask \<Rightarrow> fault + ltask" where
  "at_obj q f t =
     (case lobjs t q of
        None \<Rightarrow> Inl Bad_access
      | Some e \<Rightarrow> bindr (f e t) (\<lambda>(e, t). Inr (t\<lparr>lobjs := (lobjs t)(q \<mapsto> e)\<rparr>)))"

text \<open>\<^verbatim>\<open>EdEventFd::open\<close> and \<^verbatim>\<open>close\<close> of this build; the other classes with a descriptor do the same.\<close>

definition EdLEventFd_open :: "addr \<Rightarrow> int \<Rightarrow> u32 \<Rightarrow> addr \<Rightarrow> int \<Rightarrow> thread_env \<Rightarrow> ltask \<Rightarrow> fault + ltask" where
  "EdLEventFd_open q fd flag a ctl cur =
     at_obj q (\<lambda>e t. if fd \<ge> 0 then EdLEvent_registerEvent (EdEvent_setFd e fd cur) t a ctl flag else Inr (e, t))"

definition EdLEventFd_close :: "addr \<Rightarrow> int \<Rightarrow> thread_env \<Rightarrow> ltask \<Rightarrow> fault + ltask" where
  "EdLEventFd_close q ctl cur =
     at_obj q (\<lambda>e t. if mFd e \<ge> 0 then bindr (EdLEvent_deregisterEvent e t cur ctl) (\<lambda>(e, t). Inr (e\<lparr>mFd := - 1\<rparr>, t))
                     else Inr (e, t))"

text \<open>\<^verbatim>\<open>delete\<close>: the destructor closes the object, and \<^verbatim>\<open>~EdEvent\<close> looks at \<^verbatim>\<open>mEvt\<close> only.\<close>

definition EdLEvent_destroy :: "EdLEvent \<Rightarrow> ltask \<Rightarrow> thread_env \<Rightarrow> int \<Rightarrow> fault + (EdLEvent \<times> ltask)" where
  "EdLEvent_destroy e t cur ctl =
     (if mEvt e \<noteq> NULL
      then if curTask cur \<noteq> mTask e then Inl Assert_failed else EdLEvent_deregisterEvent e t cur ctl
      else Inr (e, t))"

definition EdLEventFd_delete :: "addr \<Rightarrow> int \<Rightarrow> thread_env \<Rightarrow> ltask \<Rightarrow> fault + ltask" where
  "EdLEventFd_delete q ctl cur t =
     bindr (EdLEventFd_close q ctl cur t) (\<lambda>t.
     bindr (at_obj q (\<lambda>e t. EdLEvent_destroy e t cur ctl) t) (\<lambda>t. Inr (t\<lparr>lobjs := (lobjs t)(q := None)\<rparr>)))"

text \<open>\<^verbatim>\<open>libevent_cb\<close>: the conditions that are true, and the virtual methods \<open>rd\<close> and \<open>wr\<close> of the object.\<close>

definition EdLEvent_libevent_cb ::
  "(addr \<Rightarrow> ltask \<Rightarrow> fault + ltask) \<Rightarrow> (addr \<Rightarrow> ltask \<Rightarrow> fault + ltask) \<Rightarrow> lib_flags \<Rightarrow> addr \<Rightarrow> ltask \<Rightarrow> fault + ltask" where
  "EdLEvent_libevent_cb rd wr flags ev t =
     (case lobjs t ev of
        None \<Rightarrow> Inl Bad_access
      | Some e \<Rightarrow>
          if mFd e < 0 then Inl Assert_failed
          else bindr (if EV_READ flags then rd ev t else Inr t) (\<lambda>t.
               if EV_WRITE flags then (if lobjs t ev = None then Inl Bad_access else wr ev t) else Inr t))"

section \<open>The task\<close>

text \<open>The dispatch of messages: the exit message also ends the loop of libevent.\<close>

definition exit_loop :: "addr \<Rightarrow> ltask \<Rightarrow> ltask" where
  "exit_loop p t =
     (case msgs t p of
        None \<Rightarrow> t
      | Some m \<Rightarrow> if msgid m = EDM_EXIT \<and> cmode t = 1 then libcall (Event_base_loopexit (eventBase t)) t else t)"

fun EdLTask_dispatchMsgs ::
  "(target \<Rightarrow> addr \<Rightarrow> ltask \<Rightarrow> fault + ltask) \<Rightarrow> views \<Rightarrow> ltask \<Rightarrow> nat \<Rightarrow> fault + ltask" where
  "EdLTask_dispatchMsgs call v t 0 = Inr t"
| "EdLTask_dispatchMsgs call v t (Suc n) =
     bindr (pop_qued t) (\<lambda>(p, t).
     if p \<noteq> NULL
     then bindr (dispatch_call call v (exit_loop p t) p) (\<lambda>t.
          bindr (dispatch_finish t p) (\<lambda>t.
          EdLTask_dispatchMsgs call v t n))
     else Inr t)"

definition EdLTask_libeventMsg_cb :: "(target \<Rightarrow> addr \<Rightarrow> ltask \<Rightarrow> fault + ltask) \<Rightarrow> views \<Rightarrow> ltask \<Rightarrow> int \<Rightarrow> fault + ltask" where
  "EdLTask_libeventMsg_cb call v t rcnt =
     (if rcnt = 8
      then EdLTask_dispatchMsgs call v (t\<lparr>signals := 0\<rparr>) (nat (sint (of_nat (signals t) :: u32)))
      else Inr t)"

text \<open>\<^verbatim>\<open>terminate\<close> up to the join of the thread.\<close>

definition EdLTask_terminate :: "bool \<Rightarrow> addr \<Rightarrow> int \<Rightarrow> ltask \<Rightarrow> fault + ltask" where
  "EdLTask_terminate joinable a wret t =
     (if cmode t = 0
      then if joinable then map_sum id snd (EdTask_postMsg t a wret EDM_EXIT 0 0) else Inr t
      else map_sum id snd (EdTask_postMsg t a wret EDM_EXIT 0 0))"

text \<open>\<^verbatim>\<open>reserveFree\<close> wakes the object \<^verbatim>\<open>mFreeEvent\<close>, whose event deletes the reserved objects: \<open>pend\<close> is the
  result of the \<^verbatim>\<open>write\<close> in \<^verbatim>\<open>raise\<close>.\<close>

definition EdLTask_reserveFree :: "addr \<Rightarrow> int \<Rightarrow> ltask \<Rightarrow> fault + (int option \<times> ltask)" where
  "EdLTask_reserveFree obj wcnt t =
     (case objs t obj of
        None \<Rightarrow> Inl Bad_access
      | Some isFree \<Rightarrow>
          if isFree then Inr (None, t)
          else let t = t\<lparr>objs := (objs t)(obj \<mapsto> True), mReserveFreeList := mReserveFreeList t @ [obj]\<rparr> in
               if mRunMode t = 1
               then if lobjs t (mFreeEvent t) = None then Inl Bad_access else Inr (Some (EdEventFd_raise wcnt), t)
               else Inr (None, t))"

definition FreeEvent_OnEventRead :: "(addr \<Rightarrow> ltask \<Rightarrow> fault + ltask) \<Rightarrow> nat \<Rightarrow> int \<Rightarrow> u64 \<Rightarrow> ltask \<Rightarrow> fault + ltask" where
  "FreeEvent_OnEventRead dtor fuel rcnt cnt t =
     (case EdEventFd_OnEventRead rcnt cnt of None \<Rightarrow> Inr t | Some _ \<Rightarrow> EdTask_freeReservedObjs dtor fuel t)"

text \<open>\<^verbatim>\<open>libeventLoop\<close> before, in and after \<^verbatim>\<open>event_base_loop\<close>: \<open>b\<close>, \<open>m\<close> and \<open>a\<close> are the addresses of the base, the
  message event and the event of the \<^verbatim>\<open>FreeEvent\<close> at \<open>fe\<close> with the descriptor \<open>fd\<close>; \<open>inside\<close> is what
  the callbacks do and \<open>close_proc\<close> is \<^verbatim>\<open>callMsgClose\<close>.\<close>

definition libevent_open :: "addr \<Rightarrow> addr \<Rightarrow> addr \<Rightarrow> int \<Rightarrow> addr \<Rightarrow> thread_env \<Rightarrow> ltask \<Rightarrow> fault + ltask" where
  "libevent_open b m fe fd a cur t =
     (let t = (libcall (Event_base_new b) t)\<lparr>eventBase := b\<rparr>;
          t = (libcall (Event_new m (eventBase t) (mMsgFd t) \<lparr>EV_READ = True, EV_WRITE = False, EV_PERSIST = True\<rparr> libeventMsg_cb (curTask cur)) t)\<lparr>mLibMsgEvent := m\<rparr>;
          t = libcall (Event_add (mLibMsgEvent t)) t;
          t = t\<lparr>lobjs := (lobjs t)(fe \<mapsto> EdLEvent_new fe cur), mFreeEvent := fe\<rparr>
      in EdLEventFd_open (mFreeEvent t) fd EVT_READ a 0 cur t)"

definition libevent_shut :: "thread_env \<Rightarrow> ltask \<Rightarrow> fault + ltask" where
  "libevent_shut cur t =
     (let t = (libcall (Event_free (mLibMsgEvent t)) (libcall (Event_del (mLibMsgEvent t)) t))\<lparr>mLibMsgEvent := NULL\<rparr> in
      bindr (EdLEventFd_close (mFreeEvent t) 0 cur t) (\<lambda>t.
      bindr (EdLEventFd_delete (mFreeEvent t) 0 cur t) (\<lambda>t.
      Inr ((libcall (Event_base_free (eventBase t)) t)\<lparr>eventBase := NULL\<rparr>))))"

definition EdLTask_libeventLoop ::
  "(ltask \<Rightarrow> fault + ltask) \<Rightarrow> (ltask \<Rightarrow> fault + ltask) \<Rightarrow> addr \<Rightarrow> addr \<Rightarrow> addr \<Rightarrow> int \<Rightarrow> addr \<Rightarrow> thread_env \<Rightarrow> ltask \<Rightarrow> fault + ltask" where
  "EdLTask_libeventLoop inside close_proc b m fe fd a cur t =
     bindr (libevent_open b m fe fd a cur t) (\<lambda>t.
     bindr (inside (libcall (Event_base_loop (eventBase t)) t)) (\<lambda>t.
     bindr (close_proc t) (libevent_shut cur)))"

text \<open>\<^verbatim>\<open>cleanupAllTimer\<close> over the timers at \<open>qs\<close>, which \<^verbatim>\<open>taskProc\<close> calls after \<^verbatim>\<open>libeventLoop\<close>.\<close>

fun EdLTask_cleanupAllTimer :: "addr list \<Rightarrow> thread_env \<Rightarrow> ltask \<Rightarrow> fault + ltask" where
  "EdLTask_cleanupAllTimer [] cur t = Inr t"
| "EdLTask_cleanupAllTimer (q # qs) cur t =
     bindr (EdLEventFd_close q 0 cur t) (\<lambda>t. bindr (EdLEventFd_delete q 0 cur t) (EdLTask_cleanupAllTimer qs cur))"

section \<open>The events the library holds\<close>

text \<open>\<open>lev_of\<close> is the event of each registered object. Besides these the library holds the events \<open>M\<close> of the
  task itself, all with the base \<open>b\<close>, and it has the bases \<open>B\<close>.\<close>

definition lev_of :: "ltask \<Rightarrow> addr \<Rightarrow> addr option" where
  "lev_of t q = (case lobjs t q of None \<Rightarrow> None | Some e \<Rightarrow> if mIsReg e then Some (mEvent e) else None)"

definition lib_events :: "addr set \<Rightarrow> addr \<Rightarrow> (addr \<rightharpoonup> addr) \<Rightarrow> addr \<rightharpoonup> addr" where
  "lib_events M b ev p = (if p \<in> M \<or> (\<exists>q. ev q = Some p) then Some b else None)"

definition lobj_ok :: "thread_env \<Rightarrow> EdLEvent \<Rightarrow> bool" where
  "lobj_ok cur e \<longleftrightarrow> mEvt e = NULL \<and> mIsReg e = (0 \<le> mFd e) \<and>
     (mIsReg e \<longrightarrow> mEvent e \<noteq> NULL \<and> mTask e = curTask cur \<and> mContext e \<noteq> NULL)"

definition elib_inv :: "thread_env \<Rightarrow> addr set \<Rightarrow> addr set \<Rightarrow> addr \<Rightarrow> ltask \<Rightarrow> bool" where
  "elib_inv cur M B b t \<longleftrightarrow> cmode t \<noteq> 0 \<and> lib_run (lcalls t) lib_start = Some \<lparr>bases = B, events = lib_events M b (lev_of t)\<rparr> \<and>
     (\<forall>q e. lobjs t q = Some e \<longrightarrow> lobj_ok cur e) \<and>
     (\<forall>q q' p. lev_of t q = Some p \<longrightarrow> lev_of t q' = Some p \<longrightarrow> q = q') \<and> (\<forall>q p. lev_of t q = Some p \<longrightarrow> p \<notin> M)"

lemma elib_invD:
  assumes "elib_inv cur M B b t"
  shows "cmode t \<noteq> 0" "lib_run (lcalls t) lib_start = Some \<lparr>bases = B, events = lib_events M b (lev_of t)\<rparr>"
    "lobjs t q = Some e \<Longrightarrow> lobj_ok cur e" "lev_of t q = Some p \<Longrightarrow> lev_of t q' = Some p \<Longrightarrow> q = q'" "lev_of t q = Some p \<Longrightarrow> p \<notin> M"
  using assms unfolding elib_inv_def by blast+

text \<open>The state with an object replaced and further calls.\<close>

abbreviation lnext :: "addr \<Rightarrow> EdLEvent \<Rightarrow> lib_call list \<Rightarrow> ltask \<Rightarrow> ltask" where
  "lnext q e cs t \<equiv> t\<lparr>lcalls := lcalls t @ cs, lobjs := (lobjs t)(q \<mapsto> e)\<rparr>"

lemma lev_of_next [simp]: "lev_of (lnext q e cs t) = (lev_of t)(q := if mIsReg e then Some (mEvent e) else None)"
  by (rule ext) (simp add: lev_of_def)

lemma elib_inv_next:
  assumes i: "elib_inv cur M B b t" and e: "lobj_ok cur e" "mIsReg e \<Longrightarrow> mEvent e \<notin> M \<and> (\<forall>q'. q' \<noteq> q \<longrightarrow> lev_of t q' \<noteq> Some (mEvent e))"
    and cs: "lib_run cs \<lparr>bases = B, events = lib_events M b (lev_of t)\<rparr> = Some \<lparr>bases = B, events = lib_events M b (lev_of (lnext q e cs t))\<rparr>"
  shows "elib_inv cur M B b (lnext q e cs t)"
  unfolding elib_inv_def
proof (intro conjI allI impI)
  show "lib_run (lcalls (lnext q e cs t)) lib_start = Some \<lparr>bases = B, events = lib_events M b (lev_of (lnext q e cs t))\<rparr>"
    using elib_invD(2) [OF i] cs by (simp add: lib_run_append)
  show "lobj_ok cur e'" if "lobjs (lnext q e cs t) q' = Some e'" for q' e'
    using that e(1) elib_invD(3) [OF i] by (auto split: if_splits)
  show "q1 = q2" if "lev_of (lnext q e cs t) q1 = Some p" "lev_of (lnext q e cs t) q2 = Some p" for q1 q2 p
    using that e(2) elib_invD(4) [OF i, of q1 p q2] by (auto split: if_splits)
  show "p \<notin> M" if "lev_of (lnext q e cs t) q' = Some p" for q' p
    using that e(2) elib_invD(5) [OF i, of q' p] by (auto split: if_splits)
qed (use elib_invD(1) [OF i] in simp)

lemma lib_events_open:
  assumes "ev q = None"
  shows "lib_events M b (ev(q \<mapsto> a)) = (lib_events M b ev)(a \<mapsto> b)"
proof
  have "(\<exists>q'. (ev(q \<mapsto> a)) q' = Some x) = (x = a \<or> (\<exists>q'. ev q' = Some x))" for x
  proof
    assume "\<exists>q'. (ev(q \<mapsto> a)) q' = Some x"
    then show "x = a \<or> (\<exists>q'. ev q' = Some x)" by (auto split: if_splits)
  next
    assume "x = a \<or> (\<exists>q'. ev q' = Some x)"
    then show "\<exists>q'. (ev(q \<mapsto> a)) q' = Some x"
    proof
      assume "x = a" then show ?thesis by (intro exI [of _ q]) simp
    next
      assume "\<exists>q'. ev q' = Some x"
      then obtain q' where q': "ev q' = Some x" by blast
      then have "q' \<noteq> q" using assms by auto
      with q' show ?thesis by (intro exI [of _ q']) simp
    qed
  qed
  then show "lib_events M b (ev(q \<mapsto> a)) x = ((lib_events M b ev)(a \<mapsto> b)) x" for x by (simp add: lib_events_def)
qed

lemma lib_events_close:
  assumes p: "ev q = Some p" "p \<notin> M" and inj: "\<And>q'. ev q' = Some p \<Longrightarrow> q' = q"
  shows "lib_events M b (ev(q := None)) = (lib_events M b ev)(p := None)"
proof
  fix x
  have "(\<exists>q'. (ev(q := None)) q' = Some x) = (x \<noteq> p \<and> (\<exists>q'. ev q' = Some x))"
  proof
    assume "\<exists>q'. (ev(q := None)) q' = Some x"
    then obtain q' where "q' \<noteq> q" "ev q' = Some x" by (auto split: if_splits)
    then show "x \<noteq> p \<and> (\<exists>q'. ev q' = Some x)" using inj by blast
  next
    assume "x \<noteq> p \<and> (\<exists>q'. ev q' = Some x)"
    then obtain q' where q': "x \<noteq> p" "ev q' = Some x" by blast
    then have "q' \<noteq> q" using p(1) by auto
    with q' show "\<exists>q'. (ev(q := None)) q' = Some x" by (intro exI [of _ q']) simp
  qed
  then show "lib_events M b (ev(q := None)) x = ((lib_events M b ev)(p := None)) x"
    using p(2) by (cases "x = p") (simp_all add: lib_events_def)
qed

text \<open>Opening, closing and changing an object.\<close>

lemma lopen_ok:
  assumes i: "elib_inv cur M {b} b t" "eventBase t = b" and cur: "curTask cur \<noteq> NULL" "curContext cur \<noteq> NULL"
    and q: "lobjs t q = Some e" "mFd e < 0" "0 \<le> fd" and a: "a \<noteq> NULL" "lib_events M b (lev_of t) a = None"
  obtains e' cs where "EdLEventFd_open q fd flag a ctl cur t = Inr (lnext q e' cs t)" "elib_inv cur M {b} b (lnext q e' cs t)"
    "mIsReg e'" "mEvent e' = a" "mFd e' = fd"
proof -
  note o = elib_invD(3) [OF i(1) q(1)]
  have off: "lev_of t q = None" using q o by (simp add: lev_of_def lobj_ok_def)
  let ?e = "(EdEvent_setFd e fd cur)\<lparr>mEvent := a, mIsReg := True\<rparr>"
  let ?cs = "[Event_new a b fd \<lparr>EV_READ = flag AND EVT_READ \<noteq> 0, EV_WRITE = flag AND EVT_WRITE \<noteq> 0, EV_PERSIST = flag AND EVT_ONESHOT = 0\<rparr>
      libevent_cb (eself e), Event_add a]"
  have e: "mIsReg ?e" "mEvent ?e = a" "mFd ?e = fd" by (simp_all add: EdEvent_setFd_def)
  have "EdLEventFd_open q fd flag a ctl cur t = Inr (lnext q ?e ?cs t)"
    using q o cur elib_invD(1) [OF i(1)] i(2)
    by (simp add: EdLEventFd_open_def at_obj_def EdLEvent_registerEvent_def EdEvent_setFd_def lobj_ok_def libcall_def Let_def)
  moreover have "elib_inv cur M {b} b (lnext q ?e ?cs t)"
  proof (rule elib_inv_next [OF i(1)])
    show "lobj_ok cur ?e" using q o cur a by (simp add: lobj_ok_def EdEvent_setFd_def)
    show "mEvent ?e \<notin> M \<and> (\<forall>q'. q' \<noteq> q \<longrightarrow> lev_of t q' \<noteq> Some (mEvent ?e))"
      using a(2) by (simp add: lib_events_def split: if_splits)
    show "lib_run ?cs \<lparr>bases = {b}, events = lib_events M b (lev_of t)\<rparr> = Some \<lparr>bases = {b}, events = lib_events M b (lev_of (lnext q ?e ?cs t))\<rparr>"
      unfolding lev_of_next if_P [OF e(1)] e(2) lib_events_open [of "lev_of t" q, OF off] using a by (simp add: lib_usable_def)
  qed
  ultimately show thesis using that e by blast
qed

text \<open>What closing asks of the library, whatever its state.\<close>

definition lclose_calls :: "(addr \<rightharpoonup> addr) \<Rightarrow> addr \<Rightarrow> lib_call list" where
  "lclose_calls ev q = (case ev q of None \<Rightarrow> [] | Some p \<Rightarrow> [Event_del p, Event_free p])"

lemma lclose_run:
  assumes m: "cmode t \<noteq> 0" and q: "lobjs t q = Some e" "lobj_ok cur e"
  obtains e' where "EdLEventFd_close q ctl cur t = Inr (lnext q e' (lclose_calls (lev_of t) q) t)" "lobj_ok cur e'" "\<not> mIsReg e'" "mFd e' < 0"
proof (cases "0 \<le> mFd e")
  case False
  have "lnext q e [] t = t" using q by (cases t) (simp add: fun_upd_idem)
  then show thesis using False q m
    by (intro that [of e]) (auto simp: EdLEventFd_close_def at_obj_def lobj_ok_def lclose_calls_def lev_of_def)
next
  case True
  let ?e = "e\<lparr>mEvent := NULL, mIsReg := False, mTask := NULL, mFd := - 1\<rparr>"
  have "EdLEventFd_close q ctl cur t = Inr (lnext q ?e (lclose_calls (lev_of t) q) t)"
    using True q m by (simp add: EdLEventFd_close_def at_obj_def EdLEvent_deregisterEvent_def lobj_ok_def libcall_def lclose_calls_def lev_of_def)
  moreover have "lobj_ok cur ?e" using q by (simp add: lobj_ok_def)
  ultimately show thesis using that [of ?e] by simp
qed

lemma ldelete_run:
  assumes m: "cmode t \<noteq> 0" and q: "lobjs t q = Some e" "lobj_ok cur e"
  shows "EdLEventFd_delete q ctl cur t = Inr (t\<lparr>lcalls := lcalls t @ lclose_calls (lev_of t) q, lobjs := (lobjs t)(q := None)\<rparr>)"
proof (rule lclose_run [OF m q, of ctl])
  fix e' assume "EdLEventFd_close q ctl cur t = Inr (lnext q e' (lclose_calls (lev_of t) q) t)" "lobj_ok cur e'"
  then show ?thesis by (simp add: EdLEventFd_delete_def at_obj_def EdLEvent_destroy_def lobj_ok_def)
qed

lemma lclose_ok:
  assumes i: "elib_inv cur M B b t" and b: "b \<in> B" and q: "lobjs t q = Some e"
  obtains e' cs where "EdLEventFd_close q ctl cur t = Inr (lnext q e' cs t)" "elib_inv cur M B b (lnext q e' cs t)" "\<not> mIsReg e'" "mFd e' < 0"
proof (rule lclose_run [OF elib_invD(1) [OF i] q elib_invD(3) [OF i q], of ctl])
  fix e' assume c: "EdLEventFd_close q ctl cur t = Inr (lnext q e' (lclose_calls (lev_of t) q) t)" and e': "lobj_ok cur e'" "\<not> mIsReg e'" "mFd e' < 0"
  have "lib_run (lclose_calls (lev_of t) q) \<lparr>bases = B, events = lib_events M b (lev_of t)\<rparr> =
      Some \<lparr>bases = B, events = lib_events M b (lev_of (lnext q e' (lclose_calls (lev_of t) q) t))\<rparr>"
  proof (cases "lev_of t q")
    case None
    then have "(lev_of t)(q := None) = lev_of t" by (simp add: fun_upd_idem)
    then show ?thesis unfolding lev_of_next using None e'(2) by (simp add: lclose_calls_def)
  next
    case (Some p)
    have "lib_events M b ((lev_of t)(q := None)) = (lib_events M b (lev_of t))(p := None)"
      by (rule lib_events_close [of "lev_of t" q, OF Some elib_invD(5) [OF i Some] elib_invD(4) [OF i _ Some]])
    moreover have "lib_events M b (lev_of t) p = Some b" using Some by (auto simp: lib_events_def)
    ultimately show ?thesis using Some b e'(2) by (simp add: lclose_calls_def lib_usable_def)
  qed
  from elib_inv_next [OF i e'(1) _ this] c e' show thesis using that by blast
qed

lemma lchange_ok:
  assumes i: "elib_inv cur M {b} b t" "eventBase t = b" and q: "lobjs t q = Some e" "0 \<le> mFd e" and a: "a \<noteq> NULL" "lib_events M b (lev_of t) a = None \<or> a = mEvent e"
  obtains e' cs where "at_obj q (\<lambda>e t. EdLEvent_changeEvent e t a ctl flags) t = Inr (lnext q e' cs t)" "elib_inv cur M {b} b (lnext q e' cs t)"
    "mIsReg e'" "mEvent e' = a" "mFd e' = mFd e"
proof -
  note o = elib_invD(3) [OF i(1) q(1)]
  let ?p = "mEvent e" let ?e = "e\<lparr>mEvent := a\<rparr>"
  let ?cs = "[Event_del ?p, Event_free ?p, Event_new a b (mFd e) \<lparr>EV_READ = flags AND EVT_READ \<noteq> 0, EV_WRITE = flags AND EVT_WRITE \<noteq> 0, EV_PERSIST = True\<rparr>
      libevent_cb (eself e), Event_add a]"
  have e: "mIsReg ?e" "mEvent ?e = a" "mFd ?e = mFd e" using q o by (simp_all add: lobj_ok_def)
  have on: "lev_of t q = Some ?p" using q o by (simp add: lev_of_def lobj_ok_def)
  have u: "lib_events M b (lev_of t) ?p = Some b" using on by (auto simp: lib_events_def)
  have "at_obj q (\<lambda>e t. EdLEvent_changeEvent e t a ctl flags) t = Inr (lnext q ?e ?cs t)"
    using q o elib_invD(1) [OF i(1)] i(2) by (simp add: at_obj_def EdLEvent_changeEvent_def lobj_ok_def libcall_def Let_def)
  moreover have "elib_inv cur M {b} b (lnext q ?e ?cs t)"
  proof (rule elib_inv_next [OF i(1)])
    show "lobj_ok cur ?e" using o a by (simp add: lobj_ok_def)
    show "mEvent ?e \<notin> M \<and> (\<forall>q'. q' \<noteq> q \<longrightarrow> lev_of t q' \<noteq> Some (mEvent ?e))"
      using a(2) elib_invD(5) [OF i(1) on] elib_invD(4) [OF i(1) _ on] by (auto simp: lib_events_def split: if_splits)
    have "lib_events M b ((lev_of t)(q := None)) = (lib_events M b (lev_of t))(?p := None)"
      by (rule lib_events_close [of "lev_of t" q, OF on elib_invD(5) [OF i(1) on] elib_invD(4) [OF i(1) _ on]])
    then have "lib_events M b ((lev_of t)(q \<mapsto> a)) = (lib_events M b (lev_of t))(?p := None, a \<mapsto> b)"
      using lib_events_open [of "(lev_of t)(q := None)" q M b a] by simp
    then show "lib_run ?cs \<lparr>bases = {b}, events = lib_events M b (lev_of t)\<rparr> = Some \<lparr>bases = {b}, events = lib_events M b (lev_of (lnext q ?e ?cs t))\<rparr>"
      using u a e(1) by (auto simp: lib_usable_def)
  qed
  ultimately show thesis using that e by blast
qed

section \<open>What a program does in the loop\<close>

text \<open>Objects are made, opened, changed, closed and deleted, and objects of the task are reserved for
  deletion.\<close>

datatype lev_op = L_new addr | L_open addr int u32 addr | L_change addr u32 addr | L_close addr | L_delete addr | L_reserve addr int

fun lev_do :: "thread_env \<Rightarrow> lev_op \<Rightarrow> ltask \<Rightarrow> fault + ltask" where
  "lev_do cur (L_new q) t = Inr (t\<lparr>lobjs := (lobjs t)(q \<mapsto> EdLEvent_new q cur)\<rparr>)"
| "lev_do cur (L_open q fd flag a) t = EdLEventFd_open q fd flag a 0 cur t"
| "lev_do cur (L_change q flags a) t = at_obj q (\<lambda>e t. EdLEvent_changeEvent e t a 0 flags) t"
| "lev_do cur (L_close q) t = EdLEventFd_close q 0 cur t"
| "lev_do cur (L_delete q) t = EdLEventFd_delete q 0 cur t"
| "lev_do cur (L_reserve obj wcnt) t = map_sum id snd (EdLTask_reserveFree obj wcnt t)"

text \<open>Whether the library holds an event at \<open>a\<close>.\<close>

definition held :: "ltask \<Rightarrow> addr \<Rightarrow> bool" where
  "held t a = (case lib_run (lcalls t) lib_start of None \<Rightarrow> True | Some m \<Rightarrow> events m a \<noteq> None)"

text \<open>The calls a program may make: a closed object is opened, an open one changed, the \<^verbatim>\<open>FreeEvent\<close> is left
  alone. The library allocates an event where it holds none; \<^verbatim>\<open>changeEvent\<close> may get the address it has
  just freed.\<close>

fun elib_ok :: "lev_op \<Rightarrow> ltask \<Rightarrow> bool" where
  "elib_ok (L_new q) t = (lobjs t q = None)"
| "elib_ok (L_open q fd flag a) t =
     (case lobjs t q of None \<Rightarrow> False | Some e \<Rightarrow> mFd e < 0 \<and> 0 \<le> fd \<and> a \<noteq> NULL \<and> \<not> held t a)"
| "elib_ok (L_change q flags a) t =
     (case lobjs t q of None \<Rightarrow> False | Some e \<Rightarrow> 0 \<le> mFd e \<and> a \<noteq> NULL \<and> (\<not> held t a \<or> a = mEvent e))"
| "elib_ok (L_close q) t = (lobjs t q \<noteq> None \<and> q \<noteq> mFreeEvent t)"
| "elib_ok (L_delete q) t = (lobjs t q \<noteq> None \<and> q \<noteq> mFreeEvent t)"
| "elib_ok (L_reserve obj wcnt) t = (objs t obj \<noteq> None)"

inductive lev_turns :: "thread_env \<Rightarrow> ltask \<Rightarrow> lev_op list \<Rightarrow> ltask \<Rightarrow> bool" for cur where
  lev_none: "lev_turns cur t [] t"
| lev_turn: "elib_ok op t \<Longrightarrow> lev_do cur op t = Inr t1 \<Longrightarrow> lev_turns cur t1 ops t' \<Longrightarrow> lev_turns cur t (op # ops) t'"

inductive_cases lev_turns_ConsE: "lev_turns cur t (op # ops) t'"

text \<open>In the loop the library holds the message event, the \<^verbatim>\<open>FreeEvent\<close> and one event for each open object.\<close>

definition loop_inv :: "thread_env \<Rightarrow> ltask \<Rightarrow> bool" where
  "loop_inv cur t \<longleftrightarrow> elib_inv cur {mLibMsgEvent t} {eventBase t} (eventBase t) t \<and> lobjs t (mFreeEvent t) \<noteq> None"

lemma held_iff:
  assumes "loop_inv cur t"
  shows "held t a = (lib_events {mLibMsgEvent t} (eventBase t) (lev_of t) a \<noteq> None)"
proof -
  have "elib_inv cur {mLibMsgEvent t} {eventBase t} (eventBase t) t" using assms by (simp add: loop_inv_def)
  from elib_invD(2) [OF this] show ?thesis by (simp add: held_def)
qed

lemma lev_same:
  assumes "elib_inv cur M B b t" "cmode t' = cmode t" "lcalls t' = lcalls t" "lev_of t' = lev_of t" "\<And>q e. lobjs t' q = Some e \<Longrightarrow> lobj_ok cur e"
  shows "elib_inv cur M B b t'"
  using assms unfolding elib_inv_def by auto

lemma new_simps [simp]: "\<not> mIsReg (EdLEvent_new q cur)" "lobj_ok cur (EdLEvent_new q cur)" "mFd (EdLEvent_new q cur) = - 1"
  by (simp_all add: EdLEvent_new_def EdEvent_new_def lobj_ok_def EdEvent.defs)

lemma lev_of_new [simp]: "lobjs t q = None \<Longrightarrow> lev_of (t\<lparr>lobjs := (lobjs t)(q \<mapsto> EdLEvent_new q' cur)\<rparr>) = lev_of t"
  by (rule ext) (simp add: lev_of_def)

lemma lev_do_ok:
  assumes i: "loop_inv cur t" and cur: "curTask cur \<noteq> NULL" "curContext cur \<noteq> NULL" and ok: "elib_ok op t"
  shows "\<exists>t'. lev_do cur op t = Inr t' \<and> loop_inv cur t' \<and> eventBase t' = eventBase t \<and> mLibMsgEvent t' = mLibMsgEvent t \<and> mFreeEvent t' = mFreeEvent t"
proof -
  have l: "elib_inv cur {mLibMsgEvent t} {eventBase t} (eventBase t) t" "lobjs t (mFreeEvent t) \<noteq> None" using i by (simp_all add: loop_inv_def)
  note h = held_iff [OF i]
  show ?thesis
  proof (cases op)
    case (L_new q)
    let ?t = "t\<lparr>lobjs := (lobjs t)(q \<mapsto> EdLEvent_new q cur)\<rparr>"
    have "elib_inv cur {mLibMsgEvent t} {eventBase t} (eventBase t) ?t"
    proof (rule lev_same [OF l(1)])
      show "lev_of ?t = lev_of t" using ok L_new by simp
      show "lobj_ok cur e" if "lobjs ?t q' = Some e" for q' e using that elib_invD(3) [OF l(1)] by (auto split: if_splits)
    qed simp_all
    then show ?thesis using L_new l(2) by (simp add: loop_inv_def)
  next
    case (L_open q fd flag a)
    then obtain e where e: "lobjs t q = Some e" "mFd e < 0" "0 \<le> fd" "a \<noteq> NULL" "\<not> held t a" using ok by (auto split: option.splits)
    show ?thesis
      by (rule lopen_ok [OF l(1) refl cur e(1-4), where flag = flag and ctl = 0]) (use e(5) h l(2) L_open in \<open>auto simp: loop_inv_def\<close>)
  next
    case (L_change q flags a)
    then obtain e where e: "lobjs t q = Some e" "0 \<le> mFd e" "a \<noteq> NULL" "\<not> held t a \<or> a = mEvent e" using ok by (auto split: option.splits)
    show ?thesis
      by (rule lchange_ok [OF l(1) refl e(1-3), where flags = flags and ctl = 0]) (use e(4) h l(2) L_change in \<open>auto simp: loop_inv_def\<close>)
  next
    case (L_close q)
    then obtain e where e: "lobjs t q = Some e" using ok by auto
    show ?thesis
      by (rule lclose_ok [OF l(1) _ e, where ctl = 0]) (use ok l(2) L_close in \<open>auto simp: loop_inv_def\<close>)
  next
    case (L_delete q)
    then obtain e where e: "lobjs t q = Some e" using ok by auto
    obtain e' cs where c: "EdLEventFd_close q 0 cur t = Inr (lnext q e' cs t)"
      "elib_inv cur {mLibMsgEvent t} {eventBase t} (eventBase t) (lnext q e' cs t)" "\<not> mIsReg e'" "mFd e' < 0"
      by (rule lclose_ok [OF l(1) _ e, where ctl = 0]) auto
    let ?t = "t\<lparr>lcalls := lcalls t @ cs, lobjs := (lobjs t)(q := None)\<rparr>"
    have "lobj_ok cur e'" using elib_invD(3) [OF c(2), of q] by simp
    then have "EdLEventFd_delete q 0 cur t = Inr ?t" using c(1) by (simp add: EdLEventFd_delete_def at_obj_def EdLEvent_destroy_def lobj_ok_def)
    moreover have "elib_inv cur {mLibMsgEvent t} {eventBase t} (eventBase t) ?t"
    proof (rule lev_same [OF c(2)])
      show "lev_of ?t = lev_of (lnext q e' cs t)" using c(3) by (intro ext) (simp add: lev_of_def)
      show "lobj_ok cur x" if "lobjs ?t q' = Some x" for q' x using that elib_invD(3) [OF l(1)] by (auto split: if_splits)
    qed simp_all
    ultimately show ?thesis using L_delete l(2) ok by (auto simp: loop_inv_def)
  next
    case (L_reserve obj wcnt)
    then obtain f where f: "objs t obj = Some f" using ok by auto
    have "elib_inv cur M B b (t\<lparr>objs := x, mReserveFreeList := y\<rparr>)" if "elib_inv cur M B b t" for M B b x y
      by (rule lev_same [OF that]) (use elib_invD(3) [OF that] in \<open>auto simp: lev_of_def\<close>)
    then show ?thesis using L_reserve f l by (cases f) (auto simp: EdLTask_reserveFree_def loop_inv_def Let_def)
  qed
qed

lemma lev_turns_ok:
  "lev_turns cur t ops t' \<Longrightarrow> curTask cur \<noteq> NULL \<Longrightarrow> curContext cur \<noteq> NULL \<Longrightarrow> loop_inv cur t \<Longrightarrow>
     loop_inv cur t' \<and> eventBase t' = eventBase t \<and> mLibMsgEvent t' = mLibMsgEvent t \<and> mFreeEvent t' = mFreeEvent t"
proof (induction rule: lev_turns.induct)
  case (lev_turn op t t1 ops t')
  from lev_do_ok [OF lev_turn.prems(3,1,2) lev_turn(1)] lev_turn(2) have
    "loop_inv cur t1" "eventBase t1 = eventBase t" "mLibMsgEvent t1 = mLibMsgEvent t" "mFreeEvent t1 = mFreeEvent t" by auto
  with lev_turn.IH lev_turn.prems show ?case by simp
qed simp

section \<open>Opening and shutting the loop\<close>

fun lev_all :: "thread_env \<Rightarrow> lev_op list \<Rightarrow> ltask \<Rightarrow> fault + ltask" where
  "lev_all cur [] t = Inr t"
| "lev_all cur (op # ops) t = bindr (lev_do cur op t) (lev_all cur ops)"

lemma lev_turns_all: "lev_turns cur t ops t' \<Longrightarrow> lev_all cur ops t = Inr t'"
  by (induction rule: lev_turns.induct) simp_all

definition all_closed :: "thread_env \<Rightarrow> ltask \<Rightarrow> bool" where
  "all_closed cur t \<longleftrightarrow> (\<forall>q e. lobjs t q = Some e \<longrightarrow> lobj_ok cur e \<and> \<not> mIsReg e)"

lemma libevent_open_ok:
  assumes t: "cmode t \<noteq> 0" "lcalls t = []" "all_closed cur t" "lobjs t fe = None"
    and n: "b \<noteq> NULL" "m \<noteq> NULL" "a \<noteq> NULL" "a \<noteq> m" "0 \<le> fd" and cur: "curTask cur \<noteq> NULL" "curContext cur \<noteq> NULL"
  obtains t' where "libevent_open b m fe fd a cur t = Inr t'" "loop_inv cur t'" "eventBase t' = b" "mLibMsgEvent t' = m" "mFreeEvent t' = fe"
    "lev_of t' = [fe \<mapsto> a]" "dom (lobjs t') = insert fe (dom (lobjs t))"
proof -
  let ?cs = "[Event_base_new b, Event_new m b (mMsgFd t) \<lparr>EV_READ = True, EV_WRITE = False, EV_PERSIST = True\<rparr> libeventMsg_cb (curTask cur), Event_add m]"
  let ?f = "EdLEvent_new fe cur"
  let ?t = "t\<lparr>eventBase := b, mLibMsgEvent := m, lcalls := ?cs, lobjs := (lobjs t)(fe \<mapsto> ?f), mFreeEvent := fe\<rparr>"
  have f: "\<not> mIsReg ?f" "lobj_ok cur ?f" "mFd ?f < 0" by simp_all
  have o: "libevent_open b m fe fd a cur t = EdLEventFd_open fe fd EVT_READ a 0 cur ?t"
    using t(2) by (simp add: libevent_open_def libcall_def Let_def)
  have none: "lev_of ?t = Map.empty" using t(3) f(1) by (intro ext) (auto simp: lev_of_def all_closed_def split: option.splits)
  have "lib_events {m} b Map.empty = [m \<mapsto> b]" by (rule ext) (simp add: lib_events_def)
  then have i: "elib_inv cur {m} {b} b ?t"
    unfolding elib_inv_def none using t n f(2) by (auto simp: lib_usable_def all_closed_def)
  show thesis
  proof (rule lopen_ok [OF i, of fe ?f fd a EVT_READ 0])
    fix e' cs assume c: "EdLEventFd_open fe fd EVT_READ a 0 cur ?t = Inr (lnext fe e' cs ?t)" "elib_inv cur {m} {b} b (lnext fe e' cs ?t)"
      "mIsReg e'" "mEvent e' = a"
    have "lev_of (lnext fe e' cs ?t) = [fe \<mapsto> a]" unfolding lev_of_next none using c(3,4) by simp
    then show thesis using o c(1,2) by (intro that [of "lnext fe e' cs ?t"]) (simp_all add: loop_inv_def)
  qed (use cur f(3) n none in \<open>simp_all add: lib_events_def\<close>)
qed

lemma lev_of_simps [simp]:
  "lev_of (t\<lparr>lcalls := cs\<rparr>) = lev_of t" "lev_of (t\<lparr>eventBase := b\<rparr>) = lev_of t" "lev_of (t\<lparr>mLibMsgEvent := m\<rparr>) = lev_of t"
  "lev_of (libcall c t) = lev_of t"
  by (rule ext, simp add: lev_of_def libcall_def)+

lemma libcall_simps [simp]:
  "cmode (libcall c t) = cmode t" "lcalls (libcall c t) = lcalls t @ [c]" "lobjs (libcall c t) = lobjs t" "eventBase (libcall c t) = eventBase t"
  "mLibMsgEvent (libcall c t) = mLibMsgEvent t" "mFreeEvent (libcall c t) = mFreeEvent t"
  by (simp_all add: libcall_def)

lemma loop_call: "loop_inv cur t \<Longrightarrow> loop_inv cur (libcall (Event_base_loop (eventBase t)) t)"
  by (simp add: loop_inv_def elib_inv_def lib_run_append)

lemma elib_inv_free: "elib_inv cur {} {b} b t \<Longrightarrow> elib_inv cur {} {} b ((libcall (Event_base_free b) t)\<lparr>eventBase := NULL\<rparr>)"
  by (simp add: elib_inv_def lib_run_append)

lemma lib_events_drop: "(\<And>q. ev q \<noteq> Some m) \<Longrightarrow> (lib_events {m} b ev)(m := None) = lib_events {} b ev"
  by (rule ext) (auto simp: lib_events_def)

lemma lev_delete:
  assumes i: "elib_inv cur M B b t" and b: "b \<in> B" and q: "lobjs t q = Some e"
  shows "elib_inv cur M B b (t\<lparr>lcalls := lcalls t @ lclose_calls (lev_of t) q, lobjs := (lobjs t)(q := None)\<rparr>)"
proof (rule lclose_run [OF elib_invD(1) [OF i] q elib_invD(3) [OF i q], of 0])
  fix e' assume c: "EdLEventFd_close q 0 cur t = Inr (lnext q e' (lclose_calls (lev_of t) q) t)" "\<not> mIsReg e'"
  have "elib_inv cur M B b (lnext q e' (lclose_calls (lev_of t) q) t)"
    by (rule lclose_ok [OF i b q, of 0]) (use c(1) in simp)
  then show ?thesis
    by (rule lev_same) (use c(2) elib_invD(3) [OF i] in \<open>auto simp: lev_of_def intro!: ext split: if_splits\<close>)
qed

lemma elib_inv_msg:
  assumes l: "elib_inv cur {m} {b} b t"
  shows "elib_inv cur {} {b} b ((libcall (Event_free m) (libcall (Event_del m) t))\<lparr>mLibMsgEvent := x\<rparr>)"
proof -
  have nm: "lev_of t x \<noteq> Some m" for x using elib_invD(5) [OF l, of x m] by auto
  have "lib_events {m} b (lev_of t) m = Some b" by (simp add: lib_events_def)
  then show ?thesis using l lib_events_drop [of "lev_of t" m b, OF nm] by (simp add: elib_inv_def lib_run_append lib_usable_def)
qed

lemma libevent_shut_ok:
  assumes i: "loop_inv cur t"
  obtains t' where "libevent_shut cur t = Inr t'" "elib_inv cur {} {} (eventBase t) t'" "lobjs t' = (lobjs t)(mFreeEvent t := None)"
proof -
  let ?b = "eventBase t" let ?m = "mLibMsgEvent t" let ?q = "mFreeEvent t"
  define t1 where "t1 = (libcall (Event_free ?m) (libcall (Event_del ?m) t))\<lparr>mLibMsgEvent := NULL\<rparr>"
  have "elib_inv cur {?m} {?b} ?b t" using i by (simp add: loop_inv_def)
  then have i1: "elib_inv cur {} {?b} ?b t1" unfolding t1_def by (rule elib_inv_msg)
  have f1: "lobjs t1 = lobjs t" "mFreeEvent t1 = ?q" "eventBase t1 = ?b" by (simp_all add: t1_def)
  obtain e where e: "lobjs t1 ?q = Some e" using i by (auto simp: loop_inv_def f1)
  show thesis
  proof (rule lclose_ok [OF i1 _ e, of 0])
    fix e' cs assume c: "EdLEventFd_close ?q 0 cur t1 = Inr (lnext ?q e' cs t1)" "elib_inv cur {} {?b} ?b (lnext ?q e' cs t1)"
    define t2 where "t2 = lnext ?q e' cs t1"
    define t3 where "t3 = t2\<lparr>lcalls := lcalls t2 @ lclose_calls (lev_of t2) ?q, lobjs := (lobjs t2)(?q := None)\<rparr>"
    note c' = c [folded t2_def]
    have e2: "lobjs t2 ?q = Some e'" by (simp add: t2_def)
    have d: "EdLEventFd_delete ?q 0 cur t2 = Inr t3" unfolding t3_def by (rule ldelete_run [OF elib_invD(1) [OF c'(2)] e2 elib_invD(3) [OF c'(2) e2]])
    have "elib_inv cur {} {?b} ?b t3" unfolding t3_def by (rule lev_delete [OF c'(2) _ e2]) simp
    note i4 = elib_inv_free [OF this]
    have f: "mFreeEvent t2 = ?q" "eventBase t3 = ?b" "lobjs t3 = (lobjs t)(?q := None)" by (simp_all add: t2_def t3_def f1)
    have s: "libevent_shut cur t = Inr ((libcall (Event_base_free ?b) t3)\<lparr>eventBase := NULL\<rparr>)"
      using c'(1) d f f1 by (simp add: libevent_shut_def t1_def [symmetric])
    show thesis by (rule that [OF s i4]) (simp add: f(3))
  qed simp
qed

section \<open>The timers after the loop\<close>

lemma lev_of_del: "lev_of (t\<lparr>lcalls := cs, lobjs := (lobjs t)(q := None)\<rparr>) = (lev_of t)(q := None)"
  by (rule ext) (simp add: lev_of_def)

lemma bindr_bindr: "bindr (bindr r f) g = bindr r (\<lambda>x. bindr (f x) g)"
  by (cases r) simp_all

lemma ltimer_run:
  assumes m: "cmode t \<noteq> 0" and q: "lobjs t q = Some e" "lobj_ok cur e"
  shows "bindr (EdLEventFd_close q 0 cur t) (EdLEventFd_delete q 0 cur) =
     Inr (t\<lparr>lcalls := lcalls t @ lclose_calls (lev_of t) q, lobjs := (lobjs t)(q := None)\<rparr>)"
proof (rule lclose_run [OF m q, of 0])
  fix e' assume c: "EdLEventFd_close q 0 cur t = Inr (lnext q e' (lclose_calls (lev_of t) q) t)" "lobj_ok cur e'" "\<not> mIsReg e'"
  let ?t = "lnext q e' (lclose_calls (lev_of t) q) t"
  have "EdLEventFd_delete q 0 cur ?t = Inr (?t\<lparr>lcalls := lcalls ?t @ lclose_calls (lev_of ?t) q, lobjs := (lobjs ?t)(q := None)\<rparr>)"
    by (rule ldelete_run) (use m c(2) in simp_all)
  moreover have "lclose_calls (lev_of ?t) q = []" using c(3) unfolding lev_of_next by (simp add: lclose_calls_def)
  ultimately show ?thesis using c(1) by simp
qed

lemma ltimers_run:
  "cmode t \<noteq> 0 \<Longrightarrow> distinct ts \<Longrightarrow> set ts \<subseteq> dom (lobjs t) \<Longrightarrow> \<forall>q e. lobjs t q = Some e \<longrightarrow> lobj_ok cur e \<Longrightarrow>
     \<exists>t'. EdLTask_cleanupAllTimer ts cur t = Inr t' \<and> lcalls t' = lcalls t @ concat (map (lclose_calls (lev_of t)) ts)"
proof (induction ts arbitrary: t)
  case (Cons q ts)
  let ?t = "t\<lparr>lcalls := lcalls t @ lclose_calls (lev_of t) q, lobjs := (lobjs t)(q := None)\<rparr>"
  obtain e where e: "lobjs t q = Some e" using Cons.prems(3) by auto
  have "\<exists>t'. EdLTask_cleanupAllTimer ts cur ?t = Inr t' \<and> lcalls t' = lcalls ?t @ concat (map (lclose_calls (lev_of ?t)) ts)"
    by (rule Cons.IH) (use Cons.prems in \<open>auto split: if_splits\<close>)
  moreover have "map (lclose_calls (lev_of ?t)) ts = map (lclose_calls (lev_of t)) ts"
    unfolding lev_of_del using Cons.prems(2) by (auto simp: lclose_calls_def)
  moreover have "EdLTask_cleanupAllTimer (q # ts) cur t = EdLTask_cleanupAllTimer ts cur ?t"
    using arg_cong [OF ltimer_run [OF Cons.prems(1) e Cons.prems(4) [rule_format, OF e]], of "\<lambda>r. bindr r (EdLTask_cleanupAllTimer ts cur)"]
    by (simp add: bindr_bindr)
  ultimately show ?case by auto
qed simp

lemma timers_without_base:
  "lib_run (concat (map (lclose_calls ev) ts)) \<lparr>bases = {}, events = E\<rparr> =
     (if \<forall>q\<in>set ts. ev q = None then Some \<lparr>bases = {}, events = E\<rparr> else None)"
  by (induction ts) (auto simp: lclose_calls_def lib_usable_def split: option.splits)

section \<open>Callbacks and reserved objects\<close>

text \<open>With one condition \<^verbatim>\<open>libevent_cb\<close> calls the method that \<^verbatim>\<open>esevent_cb\<close> calls.\<close>

lemma libevent_cb_one:
  assumes "lobjs t ev = Some e" "0 \<le> mFd e" "EV_READ fl \<noteq> EV_WRITE fl"
  shows "EdLEvent_libevent_cb rd wr fl ev t =
     (case EdEvent_esevent_cb (if EV_READ fl then EVT_READ else EVT_WRITE) of OnEventRead \<Rightarrow> rd ev t | OnEventWrite \<Rightarrow> wr ev t | _ \<Rightarrow> Inr t)"
proof (cases "EV_READ fl")
  case True
  then have "\<not> EV_WRITE fl" using assms(3) by blast
  then show ?thesis using True assms(1,2)
    by (cases "rd ev t") (simp_all add: EdLEvent_libevent_cb_def EdEvent_esevent_cb_def EVT_READ_def EPOLLIN_def)
next
  case False
  then have "EV_WRITE fl" using assms(3) by blast
  then show ?thesis using False assms(1,2)
    by (simp add: EdLEvent_libevent_cb_def EdEvent_esevent_cb_def EVT_READ_def EVT_WRITE_def EPOLLIN_def EPOLLOUT_def)
qed

text \<open>With both, the object is used after the read handler has run: fatal when that handler deleted it.\<close>

lemma libevent_cb_deleted:
  assumes "lobjs t ev = Some e" "0 \<le> mFd e" "EV_READ fl" "EV_WRITE fl" and rd: "rd ev t = EdLEventFd_delete ev 0 cur t" "cmode t \<noteq> 0" "lobj_ok cur e"
  shows "EdLEvent_libevent_cb rd wr fl ev t = Inl Bad_access"
  using assms ldelete_run [OF rd(2) assms(1) rd(3), of 0] by (simp add: EdLEvent_libevent_cb_def)

text \<open>\<^verbatim>\<open>changeEvent\<close> on a closed object uses the null event; without libevent it registers the object.\<close>

lemma change_closed_breaks:
  assumes i: "loop_inv cur t" and e: "mContext e \<noteq> NULL" "mEvent e = NULL" and n: "mLibMsgEvent t \<noteq> NULL"
  obtains e' t' where "EdLEvent_changeEvent e t a 0 flags = Inr (e', t')" "lib_run (lcalls t') lib_start = None"
proof -
  have l: "elib_inv cur {mLibMsgEvent t} {eventBase t} (eventBase t) t" using i by (simp add: loop_inv_def)
  have "lev_of t q \<noteq> Some NULL" for q
    using elib_invD(3) [OF l] by (auto simp: lev_of_def lobj_ok_def split: option.splits)
  then have "\<not> lib_usable \<lparr>bases = {eventBase t}, events = lib_events {mLibMsgEvent t} (eventBase t) (lev_of t)\<rparr> NULL"
    using n by (auto simp: lib_usable_def lib_events_def split: option.splits)
  then show thesis using that elib_invD(1,2) [OF l] e by (simp add: EdLEvent_changeEvent_def lib_run_append Let_def)
qed

text \<open>\<^verbatim>\<open>~EdEvent\<close> does not see an event of libevent: an open object that is only destroyed stays registered.\<close>

lemma destroy_leaves_event:
  assumes i: "loop_inv cur t" and e: "lobjs t q = Some e" "0 \<le> mFd e"
  shows "EdLEvent_destroy e t cur 0 = Inr (e, t) \<and> held t (mEvent e)"
proof -
  have l: "elib_inv cur {mLibMsgEvent t} {eventBase t} (eventBase t) t" using i by (simp add: loop_inv_def)
  have o: "lobj_ok cur e" using elib_invD(3) [OF l e(1)] .
  then have "lev_of t q = Some (mEvent e)" using e by (simp add: lev_of_def lobj_ok_def)
  then show ?thesis using o unfolding held_iff [OF i] by (auto simp: EdLEvent_destroy_def lobj_ok_def lib_events_def)
qed

text \<open>A reserved object is deleted by the event that its reservation raises.\<close>

lemma libevent_reserved:
  assumes d: "obj_dtor dtor" and r: "rsv_rep t []" "finite (dom (objs t))" "card (dom (objs t)) < n" and c: "objs t c = Some False"
    and m: "mRunMode t = 1" "lobjs t (mFreeEvent t) \<noteq> None"
  shows "\<exists>t1 t2. EdLTask_reserveFree c 8 t = Inr (Some 0, t1) \<and> FreeEvent_OnEventRead dtor n 8 cnt t1 = Inr t2 \<and>
     mReserveFreeList t2 = [] \<and> objs t2 c = None"
proof -
  let ?t = "t\<lparr>objs := (objs t)(c \<mapsto> True), mReserveFreeList := mReserveFreeList t @ [c]\<rparr>"
  have nn: "objs t c \<noteq> None" using c by simp
  have o: "EdTask_reserveFree c t = Inr ?t" using c by (simp add: EdTask_reserveFree_def)
  have "rsv_rep ?t []" by (rule reserveFree_keeps [OF r(1) nn]) (use o in simp)
  moreover have "dom (objs ?t) = dom (objs t)" using c by auto
  ultimately obtain t2 where t2: "EdTask_freeReservedObjs dtor n ?t = Inr t2" "mReserveFreeList t2 = []" "\<forall>y. objs ?t y = Some True \<longrightarrow> objs t2 y = None"
    using obj_dtor.free_all [OF d, of ?t n] r by auto
  have "EdLTask_reserveFree c 8 t = Inr (Some 0, ?t)" using c m by (auto simp: EdLTask_reserveFree_def EdEventFd_raise_def Let_def)
  moreover have "FreeEvent_OnEventRead dtor n 8 cnt ?t = Inr t2" using t2(1) by (simp add: FreeEvent_OnEventRead_def EdEventFd_OnEventRead_def)
  ultimately show ?thesis using t2 by auto
qed

text \<open>The dispatch of messages in this mode: every announced message is handled and returned, and the exit
  message ends the loop of the library.\<close>

lemma exit_loop_simps [simp]:
  "tq_rep (exit_loop p t) es qs fl = tq_rep t es qs fl" "msgs (exit_loop p t) = msgs t" "notified (exit_loop p t) = notified t"
  "cmode (exit_loop p t) = cmode t" "eventBase (exit_loop p t) = eventBase t"
  by (simp_all add: exit_loop_def libcall_def tq_rep_def split: option.splits)

lemma exit_loop_calls:
  "set (lcalls t) \<subseteq> set (lcalls (exit_loop p t))"
  "msgs t p = Some m \<Longrightarrow> msgid m = EDM_EXIT \<Longrightarrow> cmode t = 1 \<Longrightarrow> Event_base_loopexit (eventBase t) \<in> set (lcalls (exit_loop p t))"
  by (auto simp: exit_loop_def libcall_def split: option.splits)

text \<open>Listeners that only add calls of the library and keep the mode and the base.\<close>

definition lib_listener :: "(target \<Rightarrow> addr \<Rightarrow> ltask \<Rightarrow> fault + ltask) \<Rightarrow> bool" where
  "lib_listener call \<longleftrightarrow> msg_listener call \<and>
     (\<forall>tg p t t'. call tg p t = Inr t' \<longrightarrow> set (lcalls t) \<subseteq> set (lcalls t') \<and> cmode t' = cmode t \<and> eventBase t' = eventBase t)"

lemma dispatch_call_lib:
  "lib_listener call \<Longrightarrow> dispatch_call call v t p = Inr t' \<Longrightarrow> set (lcalls t) \<subseteq> set (lcalls t') \<and> cmode t' = cmode t \<and> eventBase t' = eventBase t"
  unfolding dispatch_call_def lib_listener_def by (auto split: option.splits target.splits)

definition loop_exits :: "ltask \<Rightarrow> addr list \<Rightarrow> bool" where
  "loop_exits t qs \<longleftrightarrow> (\<exists>x\<in>set qs. \<exists>m. msgs t x = Some m \<and> msgid m = EDM_EXIT)"

lemma libevent_dispatch:
  assumes l: "lib_listener call"
  shows "tq_rep t es qs [] \<Longrightarrow> n \<le> length qs \<Longrightarrow>
     \<exists>t' es' more. EdLTask_dispatchMsgs call v t n = Inr t' \<and> tq_rep t' es' (drop n qs @ more) [] \<and> notified t \<subseteq> notified t' \<and>
       set (lcalls t) \<subseteq> set (lcalls t') \<and>
       (cmode t = 1 \<longrightarrow> loop_exits t (take n qs) \<longrightarrow> Event_base_loopexit (eventBase t) \<in> set (lcalls t')) \<and>
       (\<forall>x\<in>set (take n qs). \<forall>m. msgs t x = Some m \<and> sync m \<noteq> 0 \<longrightarrow> psend_result m \<in> notified t')"
proof (induction n arbitrary: t es qs)
  case 0
  then show ?case by (intro exI [of _ t] exI [of _ es] exI [of _ "[]"]) (simp add: loop_exits_def)
next
  case (Suc n)
  have ml: "msg_listener call" using l by (simp add: lib_listener_def)
  obtain x qs' where qs: "qs = x # qs'" "n \<le> length qs'" using Suc.prems(2) by (cases qs) auto
  obtain h k where h: "pop_qued t = Inr (x, t\<lparr>hdrs := h, mQuedMsgs := k\<rparr>)" "tq_rep (t\<lparr>hdrs := h, mQuedMsgs := k\<rparr>) es qs' (x # [])" "x \<noteq> NULL"
    using Suc.prems(1) unfolding qs(1) by (rule pop_qued_rep)
  define t1 where "t1 = t\<lparr>hdrs := h, mQuedMsgs := k\<rparr>"
  obtain m where m: "msgs t x = Some m" using dom_msgs [OF Suc.prems(1), of x] qs(1) by auto
  have e1: "msgs t1 = msgs t" "notified t1 = notified t" "cmode t1 = cmode t" "eventBase t1 = eventBase t" "lcalls t1 = lcalls t" by (simp_all add: t1_def)
  have "tq_rep (exit_loop x t1) es qs' [x]" using h(2) by (simp add: t1_def)
  from msg_listener.call_any [OF ml this, of m v] m e1 obtain t2 es2 more where
    t2: "dispatch_call call v (exit_loop x t1) x = Inr t2" "tq_rep t2 es2 (qs' @ more) [x]" "msgs t2 x = Some m"
      "\<forall>x\<in>set qs'. msgs t2 x = msgs t x" "notified t \<subseteq> notified t2" by auto
  have c2: "set (lcalls t) \<subseteq> set (lcalls t2)" "cmode t2 = cmode t" "eventBase t2 = eventBase t"
    "msgid m = EDM_EXIT \<Longrightarrow> cmode t = 1 \<Longrightarrow> Event_base_loopexit (eventBase t) \<in> set (lcalls t2)"
    using dispatch_call_lib [OF l t2(1)] exit_loop_calls(1) [of t1 x] exit_loop_calls(2) [of t1 x m] e1 m by auto
  obtain h' k' N where h': "dispatch_finish t2 x = Inr (t2\<lparr>notified := N, hdrs := h', mEmptyMsgs := k'\<rparr>)"
    "tq_rep (t2\<lparr>notified := N, hdrs := h', mEmptyMsgs := k'\<rparr>) (es2 @ [x]) (qs' @ more) []" "notified t2 \<subseteq> N" "sync m \<noteq> 0 \<longrightarrow> psend_result m \<in> N"
    using t2(2,3) by (rule finish_rep)
  define t4 where "t4 = t2\<lparr>notified := N, hdrs := h', mEmptyMsgs := k'\<rparr>"
  have fin: "dispatch_finish t2 x = Inr t4" using h'(1) by (simp add: t4_def)
  have e4: "msgs t4 = msgs t2" "notified t2 \<subseteq> notified t4" "sync m \<noteq> 0 \<Longrightarrow> psend_result m \<in> notified t4"
    "lcalls t4 = lcalls t2" "cmode t4 = cmode t2" "eventBase t4 = eventBase t2" using h'(3,4) by (simp_all add: t4_def)
  have "n \<le> length (qs' @ more)" using qs(2) by simp
  from Suc.IH [OF h'(2) [folded t4_def] this] obtain t' es' more' where
    t': "EdLTask_dispatchMsgs call v t4 n = Inr t'" "tq_rep t' es' (drop n (qs' @ more) @ more') []" "notified t4 \<subseteq> notified t'"
      "set (lcalls t4) \<subseteq> set (lcalls t')"
      "cmode t4 = 1 \<longrightarrow> loop_exits t4 (take n (qs' @ more)) \<longrightarrow> Event_base_loopexit (eventBase t4) \<in> set (lcalls t')"
      "\<forall>x\<in>set (take n (qs' @ more)). \<forall>m. msgs t4 x = Some m \<and> sync m \<noteq> 0 \<longrightarrow> psend_result m \<in> notified t'" by blast
  have run: "EdLTask_dispatchMsgs call v t (Suc n) = Inr t'" using h(1,3) t2(1) fin t'(1) by (simp add: t1_def [symmetric])
  have same: "\<forall>x\<in>set (take n qs'). msgs t4 x = msgs t x" using t2(4) e4(1) by (metis in_set_takeD)
  have "tq_rep t' es' (drop (Suc n) qs @ (more @ more')) []" using t'(2) qs by simp
  moreover have "notified t \<subseteq> notified t'" "set (lcalls t) \<subseteq> set (lcalls t')" using t2(5) e4 t'(3,4) c2(1) by auto
  moreover have "cmode t = 1 \<longrightarrow> loop_exits t (take (Suc n) qs) \<longrightarrow> Event_base_loopexit (eventBase t) \<in> set (lcalls t')"
    using t'(4,5) same c2 e4 m qs by (auto simp: loop_exits_def)
  moreover have "\<forall>x\<in>set (take (Suc n) qs). \<forall>m. msgs t x = Some m \<and> sync m \<noteq> 0 \<longrightarrow> psend_result m \<in> notified t'"
    using t'(3,6) same e4(3) m qs by auto
  ultimately show ?case using run by blast
qed

text \<open>One event of the message descriptor.\<close>

lemma libeventMsg_ok:
  assumes l: "lib_listener call" and r: "tq_rep t es qs []" and b: "length qs < 2 ^ 31" "signals t = length qs"
  obtains t' es' more where "EdLTask_libeventMsg_cb call v t 8 = Inr t'" "tq_rep t' es' more []"
    "cmode t = 1 \<Longrightarrow> loop_exits t qs \<Longrightarrow> Event_base_loopexit (eventBase t) \<in> set (lcalls t')"
proof -
  have n: "nat (sint (of_nat (signals t) :: u32)) = length qs"
    using b by (simp add: signed_of_nat signed_take_bit_int_eq_self)
  have r': "tq_rep (t\<lparr>signals := 0\<rparr>) es qs []" using r by simp
  have "loop_exits (t\<lparr>signals := 0\<rparr>) qs = loop_exits t qs" by (simp add: loop_exits_def)
  then show thesis using that libevent_dispatch [OF l r', of "length qs" v] by (simp add: EdLTask_libeventMsg_cb_def n) blast
qed

text \<open>Terminating the task ends the loop at the next event of the message descriptor.\<close>

lemma terminate_ends_loop:
  assumes l: "lib_listener call" and r: "tq_rep t es qs []" "tq_bound t (length qs)" "hdrs t a = None" "a \<noteq> NULL" "can_alloc t es qs" "0 \<le> mMsgFd t"
    and s: "signals t = length qs" "Suc (length qs) < 2 ^ 31" and m: "cmode t = 1"
  obtains t1 t2 where "EdLTask_terminate j a 8 t = Inr t1" "EdLTask_libeventMsg_cb call v t1 8 = Inr t2"
    "Event_base_loopexit (eventBase t) \<in> set (lcalls t2)"
proof (rule post_ok [OF r, of 8 0 EDM_EXIT "Data (params 0 0)"])
  fix p x t1 assume t1: "EdTask_postEdMsg t a 8 0 EDM_EXIT (Data (params 0 0)) = Inr (if (8 :: int) = 8 then 0 else - 2, t1)"
    "tq_rep t1 (tl es) (qs @ [p]) []" "msgs t1 p = Some x" "carries x (EDM_EXIT, 0, Data (params 0 0))" "same_env (raise_signal t 8) t1"
  have f: "evsys.truncate t1 = evsys.truncate t" "taskq.more t1 = taskq.more t" using post_frame [OF t1(1)] by simp_all
  have c: "cmode t1 = 1" "eventBase t1 = eventBase t" using m f by (cases t, cases t1, simp add: evsys.truncate_def)+
  have g: "signals t1 = length (qs @ [p])" "length (qs @ [p]) < 2 ^ 31" "loop_exits t1 (qs @ [p])"
    using s t1(3-5) by (auto simp: same_env_def raise_signal_def loop_exits_def carries_def)
  have "EdLTask_terminate j a 8 t = Inr t1" using t1(1) m by (simp add: EdLTask_terminate_def EdTask_postMsg_def)
  then show thesis using that libeventMsg_ok [OF l t1(2) g(2,1), of v] c g(3) by metis
qed

text \<open>The listener of a task without one is such a listener.\<close>

lemma default_lib_listener: "lib_listener OnEventProc_default"
  using quiet.msg_listener_axioms by (simp add: lib_listener_def OnEventProc_default_def)

section \<open>Property\<close>


text \<open>A task that opens one object, a timer, and ends without killing it.\<close>

definition ltask0 :: ltask where
  "ltask0 = task.extend ((idle_task (EdTask_start 100 200 300 400 1 5))\<lparr>cmode := 1, mRunMode := 1\<rparr>)
     \<lparr>eventBase = NULL, lcalls = [], mLibMsgEvent = NULL, mFreeEvent = NULL, lobjs = Map.empty\<rparr>"

lemma ltask0_simps:
  "cmode ltask0 = 1" "lcalls ltask0 = []" "lobjs ltask0 = Map.empty" "mMsgFd ltask0 = 5"
  by (simp_all add: ltask0_def task.defs idle_task_def start_defs taskq.extend_def)


end
