(* ===== verification/Spec2Isabelle.thy ===== *)
theory Spec2Isabelle
  imports EdPrelude EdLists EsLists EdHandles EdStreams EdBytes EdRing EdLogs EdMemIO EdTaskMsg EdTaskSys
    EdEvents EdEvtObjs EdLocalEvt EdTimers EdSockets EdChannel EdSmart EdTaskRun EdMsgQue EdFiles EdSslSock EdSslCtx
    EdBufTypes EdDescr EdNet EdConns EdServer EdClient EdLife EdLibev
begin

text \<open>Verification of ednio, an event-driven I/O library in C++ (\<^verbatim>\<open>src/ednio\<close>).

  \<^bold>\<open>The program.\<close> A task (\<^verbatim>\<open>EdTask\<close>) is a thread with a loop over \<^verbatim>\<open>epoll_wait\<close>. Objects that own a descriptor
  (\<^verbatim>\<open>EdEvent\<close> and its subclasses: event descriptors, pipes, signals, timers, message queues of the system,
  sockets) register an \<^verbatim>\<open>edevt_t\<close> with the task; the loop calls their handlers and frees the deregistered
  ones after each batch. Other threads post and send messages to a task through a queue whose event
  descriptor is one more event of the loop. Sockets carry the higher layers: the channel (\<^verbatim>\<open>EdSocketChannel\<close>)
  queues packets, the smart socket (\<^verbatim>\<open>EdSmartSocket\<close>) and the SSL socket (\<^verbatim>\<open>EdSSLSocket\<close>) add SSL sessions.
  Beneath are containers: intrusive lists, a handle table, byte buffers, a ring queue, a string log, memory
  streams, a buffered file reader.

  \<^bold>\<open>The theories.\<close>
  \<^item> \<open>EdPrelude\<close>: addresses and machine integers, the faults, error-passing composition (\<open>bindr\<close>), bytes and
    words, list lemmas.
  \<^item> \<open>EdLists\<close>: \<^verbatim>\<open>EdObjList.h\<close> over a heap of headers; the locale \<open>linked_queue\<close>. \<open>EsLists\<close>: \<^verbatim>\<open>EsList.h\<close> and
    \<^verbatim>\<open>EsList2.h\<close>, two further interpretations of the locale, and their equivalence through a reference list
    on the links alone.
  \<^item> \<open>EdHandles\<close>: \<^verbatim>\<open>EsHandleManager.h\<close> and the macros of \<^verbatim>\<open>EdType.h\<close>, over \<^verbatim>\<open>EsList\<close>.
  \<^item> \<open>EdStreams\<close>: the locale of a bounded byte stream. \<open>EdBytes\<close> (\<^verbatim>\<open>EdByteBuffer\<close>), \<open>EdRing\<close> (\<^verbatim>\<open>EdRingQue\<close>) and
    \<open>EdMemIO\<close> (\<^verbatim>\<open>EdMemReader\<close>, \<^verbatim>\<open>EdMemStreamWriter\<close>) are its models; \<open>EdLogs\<close> (\<^verbatim>\<open>EdLog\<close>) stores strings in the
    ring. \<open>EdBufTypes\<close> is a type check for the callers of \<^verbatim>\<open>EdByteBuffer\<close>.
  \<^item> \<open>EdEvents\<close>: the event part of \<^verbatim>\<open>EdTask.cpp\<close> (\<^verbatim>\<open>regEdEvent\<close>, \<^verbatim>\<open>deregEdEvent\<close>, \<^verbatim>\<open>esMain\<close>, \<^verbatim>\<open>edEventLoop\<close>, ...); the
    locale \<open>evt_callback\<close> says what a callback may do. \<open>EdEvtObjs\<close>: \<^verbatim>\<open>EdEvent.cpp\<close>, the classes with one
    descriptor (locale \<open>fd_object\<close>), the task timers. \<open>EdDescr\<close>: the rest of these classes, and the timers of a
    task up to their messages. \<open>EdLocalEvt\<close>: \<^verbatim>\<open>EdLocalEvent.cpp\<close>. \<open>EdTimers\<close>:
    \<^verbatim>\<open>EdTimerPool.cpp\<close>.
  \<^item> \<open>EdTaskMsg\<close>: the message part of \<^verbatim>\<open>EdTask.cpp\<close> (\<^verbatim>\<open>postEdMsg\<close>, \<^verbatim>\<open>sendEdMsg\<close>, \<^verbatim>\<open>dispatchMsgs\<close>, \<^verbatim>\<open>closeMsg\<close>, ...) and the
    locale \<open>msg_listener\<close>. \<open>EdTaskSys\<close>: the task with the threads that use it, as the step relation
    \<open>msg_step\<close> over the critical sections. \<open>EdTaskRun\<close>: the whole task, from \<^verbatim>\<open>run\<close> to the end of \<^verbatim>\<open>taskProc\<close>,
    where the loop dispatches the messages; the locale \<open>task_listener\<close> extends \<open>msg_listener\<close> and is shown to
    give \<open>evt_callback\<close>. \<open>EdMsgQue\<close>: \<^verbatim>\<open>EdTaskMsgQue.cpp\<close>.
  \<^item> \<open>EdSockets\<close>: \<^verbatim>\<open>EdSocket.cpp\<close>; its locale \<open>sock_client\<close> is interpreted by the channel (\<open>EdChannel\<close>,
    \<^verbatim>\<open>EdSocketChannel.cpp\<close>) and the smart socket (\<open>EdSmart\<close>, \<^verbatim>\<open>EdSmartSocket.cpp\<close>). \<open>EdSslSock\<close>: \<^verbatim>\<open>EdSSLSocket.cpp\<close>.
    \<open>EdSslCtx\<close>: \<^verbatim>\<open>EdSSLContext.cpp\<close>.
  \<^item> \<open>EdNet\<close>: the loop of a task together with all its sockets, \<^verbatim>\<open>EdTask.cpp\<close>, \<^verbatim>\<open>EdEvent.cpp\<close> and \<^verbatim>\<open>EdSocket.cpp\<close>
    composed. The locale \<open>net_listener\<close> says what the listener of a socket may do, deleting its own socket
    included; it gives \<open>sock_handler\<close>, the part of \<open>sock_client\<close> the handlers of a socket need, and \<open>evt_callback\<close>, what
    the loop needs. Two programs interpret it: \<open>EdServer\<close>, the echo server of \<^verbatim>\<open>examples/exam_tcpsvr.cpp\<close>, and \<open>EdClient\<close>,
    the client of \<^verbatim>\<open>examples/exam_tcpcli.cpp\<close>; \<open>EdConns\<close> is what they share, the map of sockets by handle.
  \<^item> \<open>EdFiles\<close>: \<^verbatim>\<open>EdFile.cpp\<close>, \<^verbatim>\<open>EdTime.cpp\<close>, \<^verbatim>\<open>EdBuffredFileReader.cpp\<close>. \<open>EdLife\<close>: constructors and destructors of
    the classes above, the datagram calls of \<^verbatim>\<open>EdSocket\<close> and others that pass a system call on, \<^verbatim>\<open>EdNio.cpp\<close>.
  \<^item> \<open>EdLibev\<close>: the code of the build with \<^verbatim>\<open>USE_LIBEVENT\<close>. The calls of the library are recorded in the state, and
    its documented rules are a monitor of the record.

  \<^bold>\<open>How code becomes definitions.\<close> An object is a record, objects reached through pointers live in maps from
  addresses, a method is a function named \<open>Class_method\<close> from the state to a result and the new state. A
  null or dangling pointer, a failed assertion and signed overflow are values of the type \<open>fault\<close>; in the
  list theories a wild access is \<open>None\<close>. Unsigned integers are words. What a system call or an external
  library returns, and the addresses \<^verbatim>\<open>new\<close> and \<^verbatim>\<open>malloc\<close> return, are arguments. Callbacks are functions on the
  state, constrained by a locale where a theorem needs it; each locale is interpreted on the definitions
  of the model.

  \<^bold>\<open>What is shown.\<close>
  \<^item> Lists, buffers, ring, reader, channel, smart socket and local events refine a queue or a byte stream;
    the round trips of numbers and of file names; the two old lists agree on every run. Calls of a byte buffer
    that pass a static check never throw.
  \<^item> The loop never touches a freed event, whatever the callbacks register and deregister in a batch; a
    task can always take its next turn and ends its run with everything freed, unless an event is still
    registered.
  \<^item> Under every interleaving of posting and sending threads each message is handled once and in order,
    the dispatcher never finds the queue empty, senders are answered, also when the task closes; the one
    race that breaks this is proved too.
  \<^item> Sockets, channels and SSL sessions: no handler faults within its contract, events are deregistered
    once, sessions and buffers are released once. A task with any number of sockets handles every batch of
    events, also when listeners delete sockets; the echo server runs every session and leaves nothing behind, and the
    books of the client balance.
  \<^item> The timers of a task are those set and not killed since, armed as last set, and each expiry reaches the task.
  \<^item> With libevent, event objects use the events of the library within its rules; the end of a task does so
    only when no timer is left.
  \<^item> Where the code departs from what it means to do, the departure is a theorem or a lemma: inserting
    behind the tail of a list, freeing the handle 0, skipping beyond the end of a buffer, a taken buffer
    of a smart socket that is never sent, a timer pool that disarms itself, a task that exits with a
    timer, a handshake that wants to write, and others named beside the definitions.

  \<^bold>\<open>Bounds and fuel.\<close> Loops over lists whose end depends on the heap or on callbacks take a number of turns
  and return the fault \<open>Diverges\<close> when it is used up; the lemmas show that one turn more than there are
  elements is enough (\<open>cleanUp_ok\<close>, \<open>closeMsg_ok\<close>, \<open>free_all\<close>, the chunks of the channel and the buffers of the
  reader). \<open>esMain\<close> runs over the list of batches \<^verbatim>\<open>epoll_wait\<close> delivers and is \<open>None\<close> while it still waits.
  Sizes are bounded by the width of the counter that holds them, where the code has one.

  \<^bold>\<open>Not modelled.\<close> The inside of libevent and what \<^verbatim>\<open>#if 0\<close> disables;
  \<^verbatim>\<open>EdMutex\<close> and the thread-local variables of \<^verbatim>\<open>EdContext\<close>, which become atomic steps and arguments; joining
  threads; debug output, \<^verbatim>\<open>EdMq::dumpAttr\<close> too; name resolution; the inside of the SSL library; the signal object of the
  echo server and the timer of the client; the other examples, which do not fit the current interface of the library; the tests.\<close>

end
